(* ===== verification/Prelude.thy ===== *)
theory Prelude
  imports Main "HOL-Library.Word" "HOL-Library.Monad_Syntax"
begin

text \<open>
  What the components share: the C integer types at their width, reads and writes of an
  array that say when they leave it, the list lemmas on "the last \<open>n\<close> items" and on
  finding a byte position in a sequence of chunks, and the collections of simplification
  rules the component proofs use. A value of type \<open>'a option\<close> is the result of code
  that may have undefined behaviour: \<open>None\<close> is undefined behaviour (a read out of
  bounds, a null or freed pointer), and \<open>Some\<close> holds the result, error codes included.
\<close>

section \<open>Machine types\<close>

type_synonym byte = "8 word"
type_synonym uint8 = "8 word"
type_synonym uint32 = "32 word"
type_synonym size_t = "64 word"
type_synonym loff_t = "64 word"
type_synonym ptr = nat

named_theorems c_arith \<open>reading word arithmetic as arithmetic on nat and int\<close>
named_theorems ub_simps \<open>evaluating code that may have undefined behaviour\<close>

abbreviation (input) NULL :: ptr where "NULL \<equiv> 0"

abbreviation (input) newline :: byte where "newline \<equiv> 10"

lemma unat_of_nat_8 [c_arith]: "n < 256 \<Longrightarrow> unat (of_nat n :: 8 word) = n"
  by (simp add: unat_of_nat)

lemma unat_of_nat_64 [c_arith]: "n < 2 ^ 64 \<Longrightarrow> unat (of_nat n :: 64 word) = n"
  by (simp add: unat_of_nat)

lemma unat_plus_64 [c_arith]:
  fixes a b :: "64 word"
  shows "unat a + unat b < 2 ^ 64 \<Longrightarrow> unat (a + b) = unat a + unat b"
  by (simp add: unat_word_ariths)

lemma unat_minus_64 [c_arith]:
  fixes a b :: "64 word"
  shows "unat b \<le> unat a \<Longrightarrow> unat (a - b) = unat a - unat b"
  by (simp add: unat_sub word_le_nat_alt)

lemma of_nat_unat_64: "of_nat (unat w) = (w :: 64 word)"
  by simp

lemma sint_nonneg_64:
  assumes "unat (n :: 64 word) < 2 ^ 63"
  shows "sint n = int (unat n)"
proof -
  have "int (unat n) < int (2 ^ 63)" using assms by (simp only: of_nat_less_iff)
  then have less: "uint n < 2 ^ 63" by simp
  have "- (2 ^ 63) \<le> uint n" by (rule order_trans [of _ 0]) simp_all
  then have "signed_take_bit 63 (uint n) = uint n"
    using less by (rule signed_take_bit_int_eq_self)
  then show ?thesis by (simp add: sint_uint)
qed

section \<open>Arrays\<close>

definition arr_get :: "'a list \<Rightarrow> nat \<Rightarrow> 'a option" where
  "arr_get xs i = (if i < length xs then Some (xs ! i) else None)"

definition arr_set :: "'a list \<Rightarrow> nat \<Rightarrow> 'a \<Rightarrow> 'a list option" where
  "arr_set xs i v = (if i < length xs then Some (xs[i := v]) else None)"

lemma arr_get_in [simp, ub_simps]: "i < length xs \<Longrightarrow> arr_get xs i = Some (xs ! i)"
  by (simp add: arr_get_def)

lemma arr_get_out [simp, ub_simps]: "length xs \<le> i \<Longrightarrow> arr_get xs i = None"
  by (simp add: arr_get_def)

lemma arr_set_in [simp, ub_simps]: "i < length xs \<Longrightarrow> arr_set xs i v = Some (xs[i := v])"
  by (simp add: arr_set_def)

section \<open>The last items of a list\<close>

definition take_last :: "nat \<Rightarrow> 'a list \<Rightarrow> 'a list" where
  "take_last n xs = drop (length xs - n) xs"

lemma take_last_short [simp]: "length xs \<le> n \<Longrightarrow> take_last n xs = xs"
  by (simp add: take_last_def)

lemma length_take_last [simp]: "length (take_last n xs) = min (length xs) n"
  by (simp add: take_last_def)

lemma take_last_full_snoc: "length xs = n \<Longrightarrow> 0 < n \<Longrightarrow> take_last n (xs @ [x]) = tl xs @ [x]"
  by (cases xs) (auto simp: take_last_def)

lemma take_last_append:
  "take_last n (take_last n xs @ ys) = take_last n (xs @ ys)"
proof (cases "length xs \<le> n")
  case True
  then show ?thesis by simp
next
  case False
  then have "length xs + length ys - n = length ys + (length xs - n)"
    by simp
  with False show ?thesis by (simp add: take_last_def)
qed

lemma take_last_map: "map f (take_last n xs) = take_last n (map f xs)"
  by (simp add: take_last_def drop_map)

lemma set_take_last: "set (take_last n xs) \<subseteq> set xs"
  by (simp add: take_last_def set_drop_subset)

section \<open>Positions in a sequence of chunks\<close>

text \<open>
  \<open>locate ss p\<close> is the chunk that holds position \<open>p\<close> of the concatenation of chunks
  with sizes \<open>ss\<close>, with the offset inside that chunk.
\<close>

fun locate :: "nat list \<Rightarrow> nat \<Rightarrow> (nat \<times> nat) option" where
  "locate [] p = None"
| "locate (s # ss) p =
     (if p < s then Some (0, p) else map_option (apfst Suc) (locate ss (p - s)))"

lemma locate_None_iff: "locate ss p = None \<longleftrightarrow> sum_list ss \<le> p"
  by (induction ss p rule: locate.induct) auto

lemma locate_SomeD:
  "locate ss p = Some (k, off) \<Longrightarrow>
     k < length ss \<and> off < ss ! k \<and> p = sum_list (take k ss) + off"
proof (induction ss p arbitrary: k rule: locate.induct)
  case (2 s ss p)
  then show ?case by (cases k) (auto split: if_splits)
qed simp

lemma locate_sum:
  "k < length ss \<Longrightarrow> off < ss ! k \<Longrightarrow> locate ss (sum_list (take k ss) + off) = Some (k, off)"
proof (induction ss arbitrary: k)
  case (Cons s ss)
  then show ?case by (cases k) auto
qed simp

lemma locate_concat:
  assumes "locate (map length xss) p = Some (k, off)"
  shows "drop p (concat xss) = drop off (xss ! k) @ concat (drop (Suc k) xss)"
  using assms
proof (induction xss arbitrary: p k)
  case (Cons xs xss)
  show ?case
  proof (cases "p < length xs")
    case True
    with Cons.prems show ?thesis by auto
  next
    case False
    with Cons.prems obtain k' where "locate (map length xss) (p - length xs) = Some (k', off)"
      and "k = Suc k'" by auto
    with Cons.IH False show ?thesis by simp
  qed
qed simp

section \<open>Sequencing\<close>

lemma bind_Some_iff [ub_simps]:
  "Option.bind m f = Some y \<longleftrightarrow> (\<exists>x. m = Some x \<and> f x = Some y)"
  by (cases m) auto

end
