(* ===== verification/Interfaces.thy ===== *)
theory Interfaces
  imports Prelude
begin

text \<open>
  The contracts between components, as locales: what a provider promises of its
  operations, and the facts a client derives from the promise alone. Every locale is
  interpreted on the model's own definitions in the theory of the component that provides
  it.
\<close>

section \<open>A bounded log\<close>

text \<open>
  A log that takes every item and remembers the last \<open>cap\<close> of them. The client's fact
  is about any sequence of insertions.
\<close>

fun add_all :: "('s \<Rightarrow> 'x \<Rightarrow> 's option) \<Rightarrow> 's \<Rightarrow> 'x list \<Rightarrow> 's option" where
  "add_all add s [] = Some s"
| "add_all add s (x # xs) = Option.bind (add s x) (\<lambda>s'. add_all add s' xs)"

locale bounded_log =
  fixes add :: "'s \<Rightarrow> 'x \<Rightarrow> 's option"
    and items :: "'s \<Rightarrow> 'x list"
    and invar :: "'s \<Rightarrow> bool"
    and cap :: nat
  assumes add_defined: "invar s \<Longrightarrow> \<exists>s'. add s x = Some s'"
    and add_invar: "invar s \<Longrightarrow> add s x = Some s' \<Longrightarrow> invar s'"
    and add_items: "invar s \<Longrightarrow> add s x = Some s' \<Longrightarrow> items s' = take_last cap (items s @ [x])"
    and items_bounded: "invar s \<Longrightarrow> length (items s) \<le> cap"
begin

lemma add_all_items:
  "invar s \<Longrightarrow> \<exists>s'. add_all add s xs = Some s' \<and> invar s' \<and>
     items s' = take_last cap (items s @ xs)"
proof (induction xs arbitrary: s)
  case Nil
  then show ?case by (simp add: items_bounded)
next
  case (Cons x xs)
  from Cons.prems obtain s1 where s1: "add s x = Some s1" using add_defined by blast
  then have "invar s1" and it: "items s1 = take_last cap (items s @ [x])"
    using Cons.prems add_invar add_items by blast+
  with Cons.IH obtain s' where "add_all add s1 xs = Some s'" "invar s'"
    and "items s' = take_last cap (items s1 @ xs)" by blast
  with s1 it show ?case by (simp add: take_last_append)
qed

lemma add_all_last:
  assumes "invar s" "cap \<le> length xs"
  shows "\<exists>s'. add_all add s xs = Some s' \<and> items s' = take_last cap xs"
proof -
  have "take_last cap (items s @ xs) = take_last cap xs"
    using assms(2) by (simp add: take_last_def)
  then show ?thesis using add_all_items [OF assms(1), of xs] by auto
qed

end

section \<open>Finding a byte position in a sequence of chunks\<close>

text \<open>
  \<open>find s p\<close> names the chunk that holds position \<open>p\<close> of all chunks laid end to
  end, and the offset inside it. The client's facts: a position is found exactly when it
  is inside, and what follows it in the concatenation starts with the rest of that chunk.
\<close>

locale chunk_index =
  fixes find :: "'s \<Rightarrow> nat \<Rightarrow> ('slot \<times> nat) option"
    and chunk_at :: "'s \<Rightarrow> 'slot \<Rightarrow> 'x"
    and items :: "'s \<Rightarrow> 'x list"
    and sz :: "'x \<Rightarrow> nat"
    and invar :: "'s \<Rightarrow> bool"
    and max_pos :: nat
  assumes find_None: "invar s \<Longrightarrow> p < max_pos \<Longrightarrow> find s p = None \<Longrightarrow>
      locate (map sz (items s)) p = None"
    and find_Some: "invar s \<Longrightarrow> p < max_pos \<Longrightarrow> find s p = Some (slot, off) \<Longrightarrow>
      \<exists>k. locate (map sz (items s)) p = Some (k, off) \<and> chunk_at s slot = items s ! k"
begin

lemma find_None_iff:
  assumes "invar s" "p < max_pos"
  shows "find s p = None \<longleftrightarrow> sum_list (map sz (items s)) \<le> p"
proof (cases "find s p")
  case None
  with assms show ?thesis using find_None by (simp add: locate_None_iff)
next
  case (Some r)
  then obtain slot off where "find s p = Some (slot, off)" by (cases r) simp
  with assms find_Some obtain k where "locate (map sz (items s)) p = Some (k, off)" by blast
  then have "locate (map sz (items s)) p \<noteq> None" by simp
  with Some show ?thesis by (simp only: locate_None_iff) simp
qed

lemma find_content:
  assumes "invar s" "p < max_pos" "find s p = Some (slot, off)"
    and content: "\<And>x. x \<in> set (items s) \<Longrightarrow> length (content x) = sz x"
  obtains rest where "off < sz (chunk_at s slot)" "chunk_at s slot \<in> set (items s)"
    "drop p (concat (map content (items s))) = drop off (content (chunk_at s slot)) @ rest"
proof -
  obtain k where k: "locate (map sz (items s)) p = Some (k, off)"
    and slot: "chunk_at s slot = items s ! k"
    using find_Some [OF assms(1-3)] by blast
  have eq: "map sz (items s) = map length (map content (items s))"
    using content by simp
  have lt: "k < length (items s)" "off < sz (items s ! k)"
    using locate_SomeD [OF k] by auto
  have "locate (map length (map content (items s))) p = Some (k, off)"
    using k by (simp only: eq)
  note locate_concat [OF this]
  with lt slot that show ?thesis by (metis nth_map nth_mem)
qed

end

section \<open>A source of bytes with a position\<close>

text \<open>
  Reading until the source returns nothing: the loop of a client that wants all of it. The
  result is the last return value, 0 at the end of the source, and the bytes; the fuel is
  the number of reads, and \<open>None\<close> is no result.
\<close>

fun read_all :: "('s \<Rightarrow> 'p \<Rightarrow> (int \<times> 'x list \<times> 'p \<times> 's) option) \<Rightarrow> nat \<Rightarrow> 's \<Rightarrow> 'p \<Rightarrow>
    (int \<times> 'x list \<times> 's) option" where
  "read_all rd 0 s pos = None"
| "read_all rd (Suc fuel) s pos =
     Option.bind (rd s pos) (\<lambda>(ret, bs, pos', s').
       if ret \<le> 0 then Some (ret, [], s')
       else Option.bind (read_all rd fuel s' pos') (\<lambda>(r, rest, s''). Some (r, bs @ rest, s'')))"

locale byte_source =
  fixes rd :: "'s \<Rightarrow> 'p \<Rightarrow> (int \<times> 'x list \<times> 'p \<times> 's) option"
    and content :: "'s \<Rightarrow> 'x list"
    and place :: "'p \<Rightarrow> nat"
    and invar :: "'s \<Rightarrow> bool"
  assumes rd_step: "invar s \<Longrightarrow> \<exists>ret bs pos' s'. rd s pos = Some (ret, bs, pos', s') \<and>
      invar s' \<and> content s' = content s \<and>
      (0 < ret \<longrightarrow> bs \<noteq> [] \<and> place pos' = place pos + length bs \<and>
         (\<exists>rest. drop (place pos) (content s) = bs @ rest)) \<and>
      (ret = 0 \<longrightarrow> length (content s) \<le> place pos)"
begin

lemma read_all_content:
  assumes "invar s" "length (content s) - place pos < fuel"
  shows "\<exists>ret bs s'. read_all rd fuel s pos = Some (ret, bs, s') \<and> invar s' \<and>
    content s' = content s \<and> ret \<le> 0 \<and>
    (\<exists>rest. drop (place pos) (content s) = bs @ rest \<and> (ret = 0 \<longrightarrow> rest = []))"
  using assms
proof (induction fuel arbitrary: s pos)
  case (Suc fuel)
  obtain ret bs pos' s' where rd: "rd s pos = Some (ret, bs, pos', s')" "invar s'"
      and c: "content s' = content s"
      and more: "0 < ret \<longrightarrow> bs \<noteq> [] \<and> place pos' = place pos + length bs \<and>
         (\<exists>rest. drop (place pos) (content s) = bs @ rest)"
      and at_end: "ret = 0 \<longrightarrow> length (content s) \<le> place pos"
    using rd_step [OF Suc.prems(1)] by blast
  show ?case
  proof (cases "0 < ret")
    case False
    then show ?thesis using rd c at_end by auto
  next
    case True
    then obtain rest where pos': "place pos' = place pos + length bs" and bs: "bs \<noteq> []"
      and split: "drop (place pos) (content s) = bs @ rest" using more by blast
    have "length (content s) - place pos = length bs + length rest"
      using arg_cong [OF split, of length] by simp
    moreover have "0 < length bs" using bs by simp
    ultimately have "length (content s') - place pos' < fuel"
      using Suc.prems(2) unfolding pos' c diff_diff_add [symmetric] by linarith
    then obtain r bs2 s2 where r: "read_all rd fuel s' pos' = Some (r, bs2, s2)" "invar s2"
        "content s2 = content s'" "r \<le> 0"
      and tail: "\<exists>rest. drop (place pos') (content s') = bs2 @ rest \<and> (r = 0 \<longrightarrow> rest = [])"
      using Suc.IH [OF rd(2)] by blast
    have "drop (place pos') (content s') = drop (length bs) (drop (place pos) (content s))"
      using pos' c by (simp add: add.commute)
    then have "drop (place pos') (content s') = rest" by (simp add: split)
    then show ?thesis using rd r c True split tail by auto
  qed
qed simp

end

section \<open>A linked list that is walked while it changes\<close>

text \<open>
  The loop that fetches the successor before it runs the body, so that the body may remove
  or free the element it is at. A loop that never ends has no value.
\<close>

partial_function (option) foreach_safe ::
  "('s \<Rightarrow> ptr \<Rightarrow> ptr option) \<Rightarrow> (ptr \<Rightarrow> 's \<Rightarrow> 's option) \<Rightarrow> ptr \<Rightarrow> 's \<Rightarrow> 's option" where
  "foreach_safe nxt body v s =
     (if v = NULL then Some s
      else Option.bind (nxt s v) (\<lambda>t.
        Option.bind (body v s) (\<lambda>s'. foreach_safe nxt body t s')))"

declare foreach_safe.simps [code]

lemma foreach_safe_NULL [simp]: "foreach_safe nxt body NULL s = Some s"
  by (simp add: foreach_safe.simps)

abbreviation first_or_null :: "ptr list \<Rightarrow> ptr" where
  "first_or_null xs \<equiv> (if xs = [] then NULL else hd xs)"

text \<open>A loop whose body changes nothing, as the list of the elements it visits.\<close>

partial_function (option) foreach_visits :: "(ptr \<Rightarrow> ptr option) \<Rightarrow> ptr \<Rightarrow> ptr list option" where
  "foreach_visits step var =
     (if var = NULL then Some []
      else Option.bind (step var) (\<lambda>n. Option.bind (foreach_visits step n) (\<lambda>vs. Some (var # vs))))"

locale linked_list =
  fixes nxt :: "'s \<Rightarrow> ptr \<Rightarrow> ptr option"
    and rep :: "'s \<Rightarrow> ptr list \<Rightarrow> bool"
  assumes rep_not_null: "rep s xs \<Longrightarrow> x \<in> set xs \<Longrightarrow> x \<noteq> NULL"
    and next_rep: "rep s (xs @ x # ys) \<Longrightarrow> nxt s x = Some (first_or_null ys)"
begin

text \<open>A loop from an element on visits the rest of the list, in order.\<close>

lemma visits: "rep s (xs @ ys) \<Longrightarrow> foreach_visits (nxt s) (first_or_null ys) = Some ys"
proof (induction ys arbitrary: xs)
  case (Cons y ys)
  have "rep s ((xs @ [y]) @ ys)" using Cons.prems by simp
  note IH = Cons.IH [OF this]
  have "y \<noteq> NULL" "nxt s y = Some (first_or_null ys)"
    using rep_not_null [OF Cons.prems] next_rep [OF Cons.prems] by simp_all
  with IH show ?case by (simp add: foreach_visits.simps [of "nxt s" y])
qed (simp add: foreach_visits.simps)

text \<open>
  The loop over a list ends, and keeps the elements its body keeps: \<open>I xs ys\<close> holds
  when \<open>xs\<close> are the elements kept so far and \<open>ys\<close> those to come.
\<close>

lemma foreach_safe_keeps:
  assumes "I xs ys s"
    and rep: "\<And>xs ys s. I xs ys s \<Longrightarrow> rep s (xs @ ys)"
    and body: "\<And>xs x ys s. I xs (x # ys) s \<Longrightarrow>
      \<exists>s'. body x s = Some s' \<and> I (if keep x then xs @ [x] else xs) ys s'"
  shows "\<exists>s'. foreach_safe nxt body (first_or_null ys) s = Some s' \<and> I (xs @ filter keep ys) [] s'"
  using assms(1)
proof (induction ys arbitrary: xs s)
  case (Cons x ys)
  have r: "rep s (xs @ x # ys)" using rep [OF Cons.prems] .
  have x: "x \<noteq> NULL" "nxt s x = Some (first_or_null ys)"
    using rep_not_null [OF r] next_rep [OF r] by auto
  obtain s1 where s1: "body x s = Some s1" "I (if keep x then xs @ [x] else xs) ys s1"
    using body [OF Cons.prems] by blast
  obtain s' where "foreach_safe nxt body (first_or_null ys) s1 = Some s'"
    and "I ((if keep x then xs @ [x] else xs) @ filter keep ys) [] s'"
    using Cons.IH [OF s1(2)] by blast
  then show ?case using x s1 by (cases "keep x") (simp_all add: foreach_safe.simps [of nxt body x])
qed simp

end

text \<open>A linked list an element can be taken out of.\<close>

locale removable_list = linked_list nxt rep
  for nxt :: "'s \<Rightarrow> ptr \<Rightarrow> ptr option" and rep :: "'s \<Rightarrow> ptr list \<Rightarrow> bool" +
  fixes remove :: "'s \<Rightarrow> ptr \<Rightarrow> 's option"
  assumes remove_rep: "rep s (xs @ e # ys) \<Longrightarrow> \<exists>s'. remove s e = Some s' \<and> rep s' (xs @ ys)"
begin

text \<open>Removing, from a loop that starts anywhere, the elements for which a flag is set.\<close>

lemma foreach_safe_remove:
  assumes "rep s (xs @ ys)"
  shows "\<exists>s'. foreach_safe nxt (\<lambda>x s. if gone x then remove s x else Some s) (first_or_null ys) s = Some s' \<and>
    rep s' (xs @ filter (\<lambda>x. \<not> gone x) ys)"
proof -
  have "\<exists>s'. foreach_safe nxt (\<lambda>x s. if gone x then remove s x else Some s) (first_or_null ys) s = Some s' \<and>
      rep s' ((xs @ filter (\<lambda>x. \<not> gone x) ys) @ [])"
  proof (rule foreach_safe_keeps [where I = "\<lambda>xs ys s. rep s (xs @ ys)"])
    fix xs x ys s assume r: "rep s (xs @ x # ys)"
    show "\<exists>s'. (if gone x then remove s x else Some s) = Some s' \<and>
        rep s' ((if \<not> gone x then xs @ [x] else xs) @ ys)"
      using r remove_rep [OF r] by auto
  qed (use assms in auto)
  then show ?thesis by simp
qed

end

text \<open>A queue: a list with its ends.\<close>

locale linked_queue = removable_list nxt rep remove
  for nxt :: "'s \<Rightarrow> ptr \<Rightarrow> ptr option" and rep :: "'s \<Rightarrow> ptr list \<Rightarrow> bool"
    and remove :: "'s \<Rightarrow> ptr \<Rightarrow> 's option" +
  fixes first :: "'s \<Rightarrow> ptr"
    and insert_tail :: "'s \<Rightarrow> ptr \<Rightarrow> 's option"
    and free_elem :: "'s \<Rightarrow> ptr \<Rightarrow> bool"
  assumes first_rep: "rep s xs \<Longrightarrow> first s = first_or_null xs"
    and rep_distinct: "rep s xs \<Longrightarrow> distinct xs"
    and insert_rep: "rep s xs \<Longrightarrow> free_elem s e \<Longrightarrow> e \<notin> set xs \<Longrightarrow>
      \<exists>s'. insert_tail s e = Some s' \<and> rep s' (xs @ [e]) \<and> (\<forall>x. free_elem s' x = free_elem s x)"
begin

lemma insert_all:
  "rep s xs \<Longrightarrow> distinct es \<Longrightarrow> set es \<inter> set xs = {} \<Longrightarrow> \<forall>e \<in> set es. free_elem s e \<Longrightarrow>
     \<exists>s'. add_all insert_tail s es = Some s' \<and> rep s' (xs @ es)"
proof (induction es arbitrary: s xs)
  case (Cons e es)
  obtain s1 where s1: "insert_tail s e = Some s1" "rep s1 (xs @ [e])"
    and fr: "\<forall>x. free_elem s1 x = free_elem s x"
    using insert_rep [OF Cons.prems(1), of e] Cons.prems by auto
  obtain s' where "add_all insert_tail s1 es = Some s'" "rep s' ((xs @ [e]) @ es)"
    using Cons.IH [OF s1(2)] Cons.prems fr by auto
  with s1 show ?case by simp
qed simp

text \<open>Filling an empty queue and sweeping it from its first element.\<close>

lemma insert_then_sweep:
  assumes "rep s []" "distinct es" "\<forall>e \<in> set es. free_elem s e"
  shows "\<exists>s1 s2. add_all insert_tail s es = Some s1 \<and> rep s1 es \<and>
    foreach_safe nxt (\<lambda>x s. if gone x then remove s x else Some s) (first s1) s1 = Some s2 \<and>
    rep s2 (filter (\<lambda>x. \<not> gone x) es)"
proof -
  obtain s1 where s1: "add_all insert_tail s es = Some s1" "rep s1 es"
    using insert_all [OF assms(1,2)] assms(3) by auto
  then show ?thesis using foreach_safe_remove [of s1 "[]" es gone] by (simp add: first_rep)
qed

end

end
