(* ===== verification/Circular_Buffer.thy ===== *)
theory Circular_Buffer
  imports Interfaces
begin

text \<open>
  The ring of write commands of the char driver: \<^verbatim>\<open>aesd-char-driver/aesd-circular-buffer.h\<close>
  and \<^verbatim>\<open>aesd-circular-buffer.c\<close>. The struct is a record, its array a list of ten
  entries, \<open>in_offs\<close> and \<open>out_offs\<close> the two \<open>uint8_t\<close> indices. An index of the
  array outside it is undefined behaviour (\<open>None\<close>), and so is reading a null buffer.
  The abstract view is the list of the valid entries, oldest first (\<open>ring_list\<close>).
\<close>

section \<open>Data\<close>

definition AESDCHAR_MAX_WRITE_OPERATIONS_SUPPORTED :: nat where
  [simp]: "AESDCHAR_MAX_WRITE_OPERATIONS_SUPPORTED = 10"

record aesd_buffer_entry =
  buffptr :: ptr
  esize :: size_t

record aesd_circular_buffer =
  entry :: "aesd_buffer_entry list"
  in_offs :: uint8
  out_offs :: uint8
  full :: bool

definition zero_entry :: aesd_buffer_entry where
  "zero_entry = \<lparr>buffptr = NULL, esize = 0\<rparr>"

section \<open>Operations\<close>

text \<open>\<open>memset(buffer, 0, sizeof(...))\<close>: every field is zero, whatever was there.\<close>

definition aesd_circular_buffer_init :: aesd_circular_buffer where
  "aesd_circular_buffer_init =
     \<lparr>entry = replicate AESDCHAR_MAX_WRITE_OPERATIONS_SUPPORTED zero_entry,
      in_offs = 0, out_offs = 0, full = False\<rparr>"

text \<open>
  \<open>(offs + 1) % 10\<close>: the operand is promoted to \<open>int\<close>, so the addition does not
  wrap at 256; the remainder is stored back in the \<open>uint8_t\<close>.
\<close>

definition next_offs :: "uint8 \<Rightarrow> uint8" where
  "next_offs o' = of_nat ((unat o' + 1) mod AESDCHAR_MAX_WRITE_OPERATIONS_SUPPORTED)"

definition aesd_circular_buffer_add_entry ::
  "aesd_circular_buffer \<Rightarrow> aesd_buffer_entry \<Rightarrow> aesd_circular_buffer option" where
  "aesd_circular_buffer_add_entry buffer add_entry =
     (let b1 = (if full buffer
                then buffer\<lparr>out_offs := next_offs (out_offs buffer)\<rparr>
                else buffer)
      in do {
        es \<leftarrow> arr_set (entry b1) (unat (in_offs b1)) add_entry;
        let b2 = b1\<lparr>entry := es, in_offs := next_offs (in_offs b1)\<rparr>;
        Some (if in_offs b2 = out_offs b2 then b2\<lparr>full := True\<rparr> else b2)
      })"

text \<open>
  The number of valid entries, as the search computes it: \<open>in_offs - out_offs\<close> and
  \<open>(10 - out_offs) + in_offs\<close> are \<open>int\<close> expressions converted to \<open>size_t\<close>.
\<close>

definition valid_entries :: "aesd_circular_buffer \<Rightarrow> size_t" where
  "valid_entries buffer =
     (if full buffer then of_nat AESDCHAR_MAX_WRITE_OPERATIONS_SUPPORTED
      else if out_offs buffer \<le> in_offs buffer
      then of_int (uint (in_offs buffer) - uint (out_offs buffer))
      else of_int ((int AESDCHAR_MAX_WRITE_OPERATIONS_SUPPORTED - uint (out_offs buffer))
                   + uint (in_offs buffer)))"

text \<open>
  The search loop: \<open>left\<close> is \<open>entries - i\<close>. The returned pointer
  \<open>&buffer->entry[idx]\<close> is the index \<open>idx\<close>; \<open>rtn\<close> is what
  \<open>entry_offset_byte_rtn\<close> points to, written only when an entry is found.
\<close>

fun find_loop ::
  "aesd_buffer_entry list \<Rightarrow> size_t \<Rightarrow> size_t \<Rightarrow> nat \<Rightarrow> nat \<Rightarrow> size_t \<Rightarrow>
     (nat option \<times> size_t) option" where
  "find_loop es char_offset rtn 0 idx bytes_searched = Some (None, rtn)"
| "find_loop es char_offset rtn (Suc left) idx bytes_searched =
     do {
       e \<leftarrow> arr_get es idx;
       if char_offset < bytes_searched + esize e
       then Some (Some idx, char_offset - bytes_searched)
       else find_loop es char_offset rtn left
              ((idx + 1) mod AESDCHAR_MAX_WRITE_OPERATIONS_SUPPORTED)
              (bytes_searched + esize e)
     }"

text \<open>
  Both pointers may be null. \<open>size_t idx = buffer->out_offs\<close> is evaluated before the
  null check, so a null buffer is undefined behaviour; a null
  \<open>entry_offset_byte_rtn\<close> returns \<open>NULL\<close>.
\<close>

definition aesd_circular_buffer_find_entry_offset_for_fpos ::
  "aesd_circular_buffer option \<Rightarrow> size_t \<Rightarrow> size_t option \<Rightarrow>
     (nat option \<times> size_t option) option" where
  "aesd_circular_buffer_find_entry_offset_for_fpos bufp char_offset rtnp =
     (case bufp of None \<Rightarrow> None
      | Some buffer \<Rightarrow>
          (case rtnp of None \<Rightarrow> Some (None, None)
           | Some rtn \<Rightarrow>
               do {
                 (r, rtn') \<leftarrow> find_loop (entry buffer) char_offset rtn
                               (unat (valid_entries buffer)) (unat (out_offs buffer)) 0;
                 Some (r, Some rtn')
               }))"

text \<open>
  \<open>AESD_CIRCULAR_BUFFER_FOREACH\<close>: the indices it gives the body, in order. The loop
  runs over all ten slots, valid or not.
\<close>

definition foreach_indices :: "nat list" where
  "foreach_indices = [0..<AESDCHAR_MAX_WRITE_OPERATIONS_SUPPORTED]"

section \<open>The abstract view\<close>

definition ring_count :: "aesd_circular_buffer \<Rightarrow> nat" where
  "ring_count b =
     (if full b then AESDCHAR_MAX_WRITE_OPERATIONS_SUPPORTED
      else (unat (in_offs b) + AESDCHAR_MAX_WRITE_OPERATIONS_SUPPORTED - unat (out_offs b))
             mod AESDCHAR_MAX_WRITE_OPERATIONS_SUPPORTED)"

definition ring_idx :: "aesd_circular_buffer \<Rightarrow> nat \<Rightarrow> nat" where
  "ring_idx b k = (unat (out_offs b) + k) mod AESDCHAR_MAX_WRITE_OPERATIONS_SUPPORTED"

definition ring_list :: "aesd_circular_buffer \<Rightarrow> aesd_buffer_entry list" where
  "ring_list b = map (\<lambda>k. entry b ! ring_idx b k) [0..<ring_count b]"

definition ring_sizes :: "aesd_circular_buffer \<Rightarrow> nat list" where
  "ring_sizes b = map (unat \<circ> esize) (ring_list b)"

text \<open>
  \<open>ring_inv\<close> is what the search and the insertion need; \<open>ring_fresh\<close> what
  initialisation and insertion also keep, since nothing ever removes an entry: before the
  ring is full its oldest entry is slot 0 and the slots from \<open>in_offs\<close> on are zero.
\<close>

definition ring_inv :: "aesd_circular_buffer \<Rightarrow> bool" where
  "ring_inv b \<longleftrightarrow>
     length (entry b) = AESDCHAR_MAX_WRITE_OPERATIONS_SUPPORTED \<and>
     unat (in_offs b) < AESDCHAR_MAX_WRITE_OPERATIONS_SUPPORTED \<and>
     unat (out_offs b) < AESDCHAR_MAX_WRITE_OPERATIONS_SUPPORTED \<and>
     (full b \<longrightarrow> in_offs b = out_offs b)"

definition ring_fresh :: "aesd_circular_buffer \<Rightarrow> bool" where
  "ring_fresh b \<longleftrightarrow>
     ring_inv b \<and>
     (\<not> full b \<longrightarrow>
        out_offs b = 0 \<and> drop (unat (in_offs b)) (entry b) =
          replicate (AESDCHAR_MAX_WRITE_OPERATIONS_SUPPORTED - unat (in_offs b)) zero_entry)"


section \<open>Indices\<close>

lemma unat_next_offs [simp]: "unat (next_offs o') = (unat o' + 1) mod 10"
  by (simp add: next_offs_def unat_of_nat_8)

lemma ring_count_le: "ring_count b \<le> 10"
  by (simp add: ring_count_def less_imp_le)

lemma length_ring_list [simp]: "length (ring_list b) = ring_count b"
  by (simp add: ring_list_def)

lemma length_ring_sizes [simp]: "length (ring_sizes b) = ring_count b"
  by (simp add: ring_sizes_def)

lemma ring_idx_less [simp]: "ring_idx b k < 10"
  by (simp add: ring_idx_def)

lemma mod10_if: "n < 20 \<Longrightarrow> n mod 10 = (if n < 10 then n else n - (10::nat))"
  by (simp add: mod_if)

lemma mod10_inj:
  assumes "i < 10" "k < 10" "j < 10" "(i + k) mod 10 = (i + j) mod (10::nat)"
  shows "k = j"
  using assms by (simp add: mod10_if split: if_splits)

lemma ring_in_offs:
  assumes "ring_inv b"
  shows "unat (in_offs b) = (unat (out_offs b) + ring_count b) mod 10"
proof (cases "full b")
  case True
  with assms show ?thesis by (simp add: ring_inv_def ring_count_def)
next
  case False
  then have "ring_count b = (unat (in_offs b) + 10 - unat (out_offs b)) mod 10"
    by (simp add: ring_count_def)
  moreover have "unat (in_offs b) < 10" and "unat (out_offs b) < 10"
    using assms by (simp_all add: ring_inv_def)
  ultimately show ?thesis by (auto simp: mod10_if)
qed

lemma ring_count_full_iff: "ring_inv b \<Longrightarrow> full b \<longleftrightarrow> ring_count b = 10"
  using mod_less_divisor [of 10] by (auto simp: ring_count_def)

lemma unat_valid_entries [c_arith]:
  assumes "ring_inv b"
  shows "unat (valid_entries b) = ring_count b"
proof -
  let ?i = "unat (in_offs b)" and ?o = "unat (out_offs b)"
  have i: "?i < 10" and oo: "?o < 10" using assms by (auto simp: ring_inv_def)
  consider "full b" | "\<not> full b" "?o \<le> ?i" | "\<not> full b" "?i < ?o" by linarith
  then show ?thesis
  proof cases
    case 1
    then show ?thesis by (simp add: valid_entries_def ring_count_def)
  next
    case 2
    then have "valid_entries b = of_nat (?i - ?o)"
      by (simp add: valid_entries_def word_le_nat_alt of_nat_diff flip: uint_nat)
    moreover have "?i - ?o < 2 ^ 64" using i by simp
    ultimately have "unat (valid_entries b) = ?i - ?o" by (simp only: unat_of_nat_64)
    moreover have "ring_count b = (?i + 10 - ?o) mod 10" using 2 by (simp add: ring_count_def)
    ultimately show ?thesis using 2 i by (auto simp: mod10_if)
  next
    case 3
    then have "valid_entries b = of_nat (10 - ?o + ?i)"
      using oo by (simp add: valid_entries_def word_le_nat_alt of_nat_diff flip: uint_nat)
    moreover have "10 - ?o + ?i < 2 ^ 64" using i oo by simp
    ultimately have "unat (valid_entries b) = 10 - ?o + ?i" by (simp only: unat_of_nat_64)
    moreover have "ring_count b = (?i + 10 - ?o) mod 10" using 3 by (simp add: ring_count_def)
    ultimately show ?thesis using 3 i oo by (auto simp: mod10_if)
  qed
qed

section \<open>Initialisation and insertion\<close>

lemma ring_fresh_inv [dest]: "ring_fresh b \<Longrightarrow> ring_inv b"
  by (simp add: ring_fresh_def)

lemma ring_fresh_init: "ring_fresh aesd_circular_buffer_init"
  by (simp add: ring_fresh_def ring_inv_def aesd_circular_buffer_init_def)

lemma ring_list_init [simp]: "ring_list aesd_circular_buffer_init = []"
  by (simp add: ring_list_def ring_count_def aesd_circular_buffer_init_def)

lemma ring_list_nth: "k < ring_count b \<Longrightarrow> ring_list b ! k = entry b ! ring_idx b k"
  by (simp add: ring_list_def)

lemma out_offs_less: "ring_inv b \<Longrightarrow> unat (out_offs b) < 10"
  by (simp add: ring_inv_def)

text \<open>
  An insertion writes one slot, \<open>in_offs\<close>, and moves the two indices; the list of valid
  entries becomes the last ten of the old list with the new entry.
\<close>

lemma add_entry_defined:
  "ring_inv b \<Longrightarrow> \<exists>b'. aesd_circular_buffer_add_entry b e = Some b'"
  by (simp add: aesd_circular_buffer_add_entry_def Let_def ring_inv_def)

lemma add_entry_fields:
  assumes "aesd_circular_buffer_add_entry b e = Some b'"
  shows "entry b' = (entry b)[unat (in_offs b) := e]"
    and "in_offs b' = next_offs (in_offs b)"
    and "out_offs b' = (if full b then next_offs (out_offs b) else out_offs b)"
    and "full b' \<longleftrightarrow> full b \<or> in_offs b' = out_offs b'"
  using assms
  by (auto simp: aesd_circular_buffer_add_entry_def Let_def arr_set_def split: if_splits)

lemma add_entry_ring:
  assumes inv: "ring_inv b" and add: "aesd_circular_buffer_add_entry b e = Some b'"
  shows "ring_inv b'" (is ?inv)
    and "ring_count b' = min 10 (Suc (ring_count b))" (is ?count)
    and "ring_list b' = take_last 10 (ring_list b @ [e])" (is ?list)
proof -
  note f = add_entry_fields [OF add]
  have io: "unat (in_offs b) < 10" "unat (out_offs b) < 10" "length (entry b) = 10"
    and fio: "full b \<Longrightarrow> in_offs b = out_offs b"
    using inv by (auto simp: ring_inv_def)
  have n: "ring_count b \<le> 10" by (rule ring_count_le)
  have in_o: "unat (in_offs b) = (unat (out_offs b) + ring_count b) mod 10"
    using inv by (rule ring_in_offs)
  show inv': ?inv using f io fio by (auto simp: ring_inv_def)
  show count: ?count
  proof (cases "full b")
    case True
    then show ?thesis using f by (simp add: ring_count_def)
  next
    case False
    then have n9: "ring_count b < 10" using inv n ring_count_full_iff [OF inv] by linarith
    have i': "unat (in_offs b') = (unat (out_offs b) + Suc (ring_count b)) mod 10"
      using f in_o by (simp add: mod_Suc_eq)
    have fb: "full b' \<longleftrightarrow> unat (in_offs b') = unat (out_offs b)"
      using False f by (simp add: word_unat_eq_iff)
    show ?thesis
    proof (cases "ring_count b = 9")
      case True
      then show ?thesis using i' fb io by (simp add: ring_count_def)
    next
      case neq: False
      then have "\<not> full b'"
        using fb i' n9 io by (auto simp: mod10_if split: if_splits)
      then have "ring_count b' = (unat (in_offs b') + 10 - unat (out_offs b)) mod 10"
        using False f by (simp add: ring_count_def)
      with neq n9 i' io show ?thesis by (auto simp: mod10_if)
    qed
  qed
  show ?list
  proof (cases "full b")
    case True
    then have "ring_count b = 10" by (simp add: ring_count_def)
    moreover have "unat (out_offs b) = 9 \<or> unat (out_offs b) < 9" using io by linarith
    ultimately show ?thesis using True count f io fio
      by (auto simp: list_eq_iff_nth_eq ring_list_nth take_last_full_snoc nth_append nth_tl
          ring_idx_def nth_list_update mod_Suc_eq mod10_if less_Suc_eq split: if_splits)
  next
    case False
    then have n9: "ring_count b < 10" using inv n ring_count_full_iff [OF inv] by linarith
    with False count f io in_o show ?thesis
      by (auto simp: list_eq_iff_nth_eq ring_list_nth nth_append ring_idx_def nth_list_update less_Suc_eq
          dest: mod10_inj [rotated 3] split: if_splits)
  qed
qed

lemma add_entry_fresh:
  assumes fresh: "ring_fresh b" and add: "aesd_circular_buffer_add_entry b e = Some b'"
  shows "ring_fresh b'"
proof -
  note f = add_entry_fields [OF add]
  have inv: "ring_inv b" using fresh by blast
  have inv': "ring_inv b'" using add_entry_ring(1) [OF inv add] .
  show ?thesis
  proof (cases "full b'")
    case True
    with inv' show ?thesis by (simp add: ring_fresh_def)
  next
    case False
    then have nf: "\<not> full b" and o': "out_offs b = 0"
      and i': "unat (next_offs (in_offs b)) \<noteq> 0"
      using f fresh by (auto simp: ring_fresh_def word_unat_eq_iff)
    have i: "unat (in_offs b) < 9"
      using i' inv by (auto simp: ring_inv_def mod10_if split: if_splits)
    have "drop (Suc (unat (in_offs b))) (entry b) = tl (drop (unat (in_offs b)) (entry b))"
      by (simp add: drop_Suc tl_drop)
    also have "\<dots> = replicate (9 - unat (in_offs b)) zero_entry"
      using fresh nf by (simp add: ring_fresh_def)
    finally show ?thesis
      using inv' f i nf o' by (simp add: ring_fresh_def)
  qed
qed

text \<open>Outside the valid entries every slot is zero.\<close>

lemma ring_fresh_slot:
  assumes "ring_fresh b" "j < 10"
  obtains (valid) k where "k < ring_count b" "ring_idx b k = j"
    | (zero) "entry b ! j = zero_entry"
proof -
  have inv: "ring_inv b" using assms by blast
  show ?thesis
  proof (cases "full b")
    case True
    let ?k = "(j + 10 - unat (out_offs b)) mod 10"
    have "ring_idx b ?k = j"
      using assms(2) out_offs_less [OF inv] by (auto simp: ring_idx_def mod10_if)
    moreover have "?k < ring_count b" using True by (simp add: ring_count_def)
    ultimately show ?thesis using valid by blast
  next
    case False
    have o0: "out_offs b = 0" and i: "unat (in_offs b) < 10" and len: "length (entry b) = 10"
      using assms False inv by (auto simp: ring_fresh_def ring_inv_def)
    show ?thesis
    proof (cases "j < unat (in_offs b)")
      case True
      then show ?thesis using valid [of j] False o0 i by (simp add: ring_count_def ring_idx_def)
    next
      case ge: False
      then have "entry b ! j = drop (unat (in_offs b)) (entry b) ! (j - unat (in_offs b))"
        using len assms(2) by simp
      also have "\<dots> = zero_entry" using assms False ge by (simp add: ring_fresh_def)
      finally show ?thesis by (rule zero)
    qed
  qed
qed

interpretation ring: bounded_log aesd_circular_buffer_add_entry ring_list ring_inv 10
  by unfold_locales (auto simp: add_entry_defined add_entry_ring ring_count_le)

interpretation fresh_ring: bounded_log aesd_circular_buffer_add_entry ring_list ring_fresh 10
  by unfold_locales
    (auto simp: ring_count_le add_entry_defined [OF ring_fresh_inv]
       add_entry_ring(3) [OF ring_fresh_inv] intro: add_entry_fresh)

section \<open>The search\<close>

text \<open>The entries the loop reads when it starts at slot \<open>idx\<close> with \<open>left\<close> to go.\<close>

definition ring_from :: "aesd_buffer_entry list \<Rightarrow> nat \<Rightarrow> nat \<Rightarrow> aesd_buffer_entry list" where
  "ring_from es idx left = map (\<lambda>j. es ! ((idx + j) mod 10)) [0..<left]"

lemma ring_from_Suc:
  "idx < 10 \<Longrightarrow> ring_from es idx (Suc left) = es ! idx # ring_from es ((idx + 1) mod 10) left"
  by (simp add: ring_from_def upt_conv_Cons map_Suc_upt [symmetric] mod_simps o_def
      del: upt_Suc)

lemma ring_list_from: "ring_list b = ring_from (entry b) (unat (out_offs b)) (ring_count b)"
  by (simp add: ring_list_def ring_from_def ring_idx_def)

text \<open>
  From any slot, the loop gives what \<open>locate\<close> gives on the sizes still to search, as
  long as the sum of the sizes fits \<open>size_t\<close>; it never reads outside the array.
\<close>

lemma find_loop_locate:
  assumes "length es = 10" "idx < 10" "bs \<le> off"
    and "unat bs + sum_list (map (unat \<circ> esize) (ring_from es idx left)) < 2 ^ 64"
  shows "find_loop es off rtn left idx bs =
    Some (case locate (map (unat \<circ> esize) (ring_from es idx left)) (unat off - unat bs) of
            None \<Rightarrow> (None, rtn)
          | Some (j, p) \<Rightarrow> (Some ((idx + j) mod 10), of_nat p))"
  using assms
proof (induction left arbitrary: idx bs)
  case 0
  then show ?case by (simp add: ring_from_def)
next
  case (Suc left)
  let ?s = "unat (esize (es ! idx))"
  let ?rest = "map (unat \<circ> esize) (ring_from es ((idx + 1) mod 10) left)"
  have sum: "unat bs + (?s + sum_list ?rest) < 2 ^ 64"
    using Suc.prems by (simp add: ring_from_Suc o_def)
  then have plus: "unat (bs + esize (es ! idx)) = unat bs + ?s"
    by (intro unat_plus_64) linarith
  have le: "unat bs \<le> unat off" using Suc.prems by (simp add: word_le_nat_alt)
  show ?case
  proof (cases "off < bs + esize (es ! idx)")
    case True
    then have "unat off - unat bs < ?s" using le by (simp add: word_less_nat_alt plus)
    moreover have "of_nat (unat off - unat bs) = off - bs"
      using le by (simp add: of_nat_diff)
    ultimately show ?thesis using True Suc.prems by (simp add: ring_from_Suc)
  next
    case False
    then have "bs + esize (es ! idx) \<le> off" by simp
    note IH = Suc.IH [of "(idx + 1) mod 10" "bs + esize (es ! idx)", OF Suc.prems(1) _ this]
    have "\<not> unat off - unat bs < ?s"
      using False le by (simp add: word_less_nat_alt plus)
    moreover have "(Suc idx mod 10 + j) mod 10 = (idx + Suc j) mod 10" for j
      by (simp add: mod_simps)
    ultimately show ?thesis using IH False Suc.prems sum plus
      by (auto simp: ring_from_Suc add.assoc split: option.splits)
  qed
qed

text \<open>The sum of the sizes fits \<open>size_t\<close>, as it does when the entries are in memory.\<close>

definition sizes_fit :: "aesd_circular_buffer \<Rightarrow> bool" where
  "sizes_fit b \<longleftrightarrow> sum_list (ring_sizes b) < 2 ^ 64"

lemma find_entry:
  assumes "ring_inv b" "sizes_fit b"
  shows "aesd_circular_buffer_find_entry_offset_for_fpos (Some b) off (Some rtn) =
    Some (case locate (ring_sizes b) (unat off) of
            None \<Rightarrow> (None, Some rtn)
          | Some (k, p) \<Rightarrow> (Some (ring_idx b k), Some (of_nat p)))"
proof -
  have "ring_sizes b =
      map (unat \<circ> esize) (ring_from (entry b) (unat (out_offs b)) (ring_count b))"
    by (simp add: ring_sizes_def ring_list_from)
  then show ?thesis
    using find_loop_locate [of "entry b" "unat (out_offs b)" 0 off "ring_count b" rtn] assms
    by (auto simp: aesd_circular_buffer_find_entry_offset_for_fpos_def ring_inv_def
        unat_valid_entries sizes_fit_def ring_idx_def split: option.splits)
qed

lemma locate_off_less_64:
  "sizes_fit b \<Longrightarrow> locate (ring_sizes b) p = Some (k, off) \<Longrightarrow> off < 2 ^ 64"
proof -
  assume fit: "sizes_fit b" and "locate (ring_sizes b) p = Some (k, off)"
  then have "p < sum_list (ring_sizes b)" and "off \<le> p"
    using locate_None_iff [of "ring_sizes b" p] by (auto simp: not_le dest: locate_SomeD)
  with fit show "off < 2 ^ 64" by (simp add: sizes_fit_def)
qed

text \<open>The search as a function on positions: the slot and the offset, if there is one.\<close>

definition find_pos :: "aesd_circular_buffer \<Rightarrow> nat \<Rightarrow> (nat \<times> nat) option" where
  "find_pos b p =
     (case aesd_circular_buffer_find_entry_offset_for_fpos (Some b) (of_nat p) (Some 0) of
        Some (Some slot, Some off) \<Rightarrow> Some (slot, unat off)
      | _ \<Rightarrow> None)"

lemma find_pos_locate:
  assumes "ring_inv b" "sizes_fit b" "p < 2 ^ 64"
  shows "find_pos b p = map_option (apfst (ring_idx b)) (locate (ring_sizes b) p)"
proof (cases "locate (ring_sizes b) p")
  case None
  with assms show ?thesis by (simp add: find_pos_def find_entry unat_of_nat_64)
next
  case (Some r)
  with assms locate_off_less_64 [OF assms(2)] show ?thesis
    by (cases r) (auto simp: find_pos_def find_entry unat_of_nat_64)
qed

interpretation ring_pos: chunk_index find_pos "\<lambda>b slot. entry b ! slot" ring_list
  "unat \<circ> esize" "\<lambda>b. ring_inv b \<and> sizes_fit b" "2 ^ 64"
proof unfold_locales
  fix b p
  assume "ring_inv b \<and> sizes_fit b" "p < 2 ^ 64" "find_pos b p = None"
  then show "locate (map (unat \<circ> esize) (ring_list b)) p = None"
    by (simp add: find_pos_locate ring_sizes_def)
next
  fix b p slot off
  assume *: "ring_inv b \<and> sizes_fit b" "p < 2 ^ 64" "find_pos b p = Some (slot, off)"
  then obtain k where k: "locate (ring_sizes b) p = Some (k, off)" and "slot = ring_idx b k"
    by (auto simp: find_pos_locate)
  moreover have "k < ring_count b" using locate_SomeD [OF k] by simp
  ultimately show "\<exists>k. locate (map (unat \<circ> esize) (ring_list b)) p = Some (k, off) \<and>
      entry b ! slot = ring_list b ! k"
    by (auto simp: ring_sizes_def ring_list_nth)
qed

section \<open>Properties\<close>

text \<open>
  C1: whatever is inserted into an initialised buffer, no insertion leaves the array, the
  buffer stays well formed, and its valid entries, read from \<open>out_offs\<close>, are the last ten
  inserted, oldest first.
\<close>

theorem ring_keeps_last_ten:
  "\<exists>b. add_all aesd_circular_buffer_add_entry aesd_circular_buffer_init es = Some b \<and>
     ring_fresh b \<and> ring_list b = take_last 10 es"
  using fresh_ring.add_all_items [OF ring_fresh_init, of es] by simp

text \<open>
  C2: on a well-formed buffer whose sizes add up within \<open>size_t\<close>, the search returns
  an entry exactly for the offsets inside the concatenated entries. It is then the entry
  that holds that byte, \<open>*entry_offset_byte_rtn\<close> is the byte's place in it; otherwise
  the result is \<open>NULL\<close> and \<open>*entry_offset_byte_rtn\<close> is left alone. No slot outside
  the array is read.
\<close>

theorem find_entry_offset_correct:
  assumes "ring_inv b" "sizes_fit b"
  shows "\<exists>r rtn'. aesd_circular_buffer_find_entry_offset_for_fpos (Some b) off (Some rtn) =
      Some (r, Some rtn') \<and>
    (case r of
       None \<Rightarrow> sum_list (ring_sizes b) \<le> unat off \<and> rtn' = rtn
     | Some slot \<Rightarrow> \<exists>k < ring_count b.
         slot = ring_idx b k \<and> rtn' < esize (ring_list b ! k) \<and>
         unat off = sum_list (take k (ring_sizes b)) + unat rtn')"
proof (cases "locate (ring_sizes b) (unat off)")
  case None
  then have "sum_list (ring_sizes b) \<le> unat off" by (simp add: locate_None_iff)
  with None assms show ?thesis by (simp add: find_entry)
next
  case (Some r)
  then obtain k p where r: "locate (ring_sizes b) (unat off) = Some (k, p)" by (cases r) simp
  have *: "k < ring_count b" "p < ring_sizes b ! k"
    "unat off = sum_list (take k (ring_sizes b)) + p"
    using locate_SomeD [OF r] by auto
  moreover have "p < 2 ^ 64" using assms(2) r by (rule locate_off_less_64)
  ultimately show ?thesis using assms r
    by (auto simp: find_entry word_less_nat_alt unat_of_nat_64 ring_sizes_def)
qed

text \<open>
  Every byte of every valid entry is found: searching for the sizes of the first
  \<open>k\<close> entries plus an offset inside the next gives that entry and that offset.
\<close>

theorem find_entry_offset_complete:
  assumes "ring_inv b" "sizes_fit b" "k < ring_count b" "p < unat (esize (ring_list b ! k))"
  shows "aesd_circular_buffer_find_entry_offset_for_fpos (Some b)
           (of_nat (sum_list (take k (ring_sizes b)) + p)) (Some rtn) =
         Some (Some (ring_idx b k), Some (of_nat p))"
proof -
  have nth: "p < ring_sizes b ! k" using assms(3,4) by (simp add: ring_sizes_def)
  then have loc: "locate (ring_sizes b) (sum_list (take k (ring_sizes b)) + p) = Some (k, p)"
    using assms(3) by (simp add: locate_sum)
  have "sum_list (take k (ring_sizes b)) + p < sum_list (ring_sizes b)"
    using loc locate_None_iff [of "ring_sizes b" "sum_list (take k (ring_sizes b)) + p"]
    by (simp add: not_le)
  with assms(2) have "sum_list (take k (ring_sizes b)) + p < 2 ^ 64"
    by (simp add: sizes_fit_def)
  then show ?thesis using loc assms(1,2) by (simp only: find_entry unat_of_nat_64) simp
qed

text \<open>
  A null buffer is dereferenced before it is checked: the call is undefined, while
  a null \<open>entry_offset_byte_rtn\<close> is checked in time and returns \<open>NULL\<close>.
\<close>

lemma find_null_arguments:
  "aesd_circular_buffer_find_entry_offset_for_fpos None off rtnp = None \<and>
   aesd_circular_buffer_find_entry_offset_for_fpos (Some b) off None = Some (None, None)"
  by (simp add: aesd_circular_buffer_find_entry_offset_for_fpos_def)

section \<open>Witnesses\<close>

text \<open>Eleven entries of sizes 1 to 11: the ring has wrapped, and the first is gone.\<close>

definition eleven_entries :: "aesd_buffer_entry list" where
  "eleven_entries = map (\<lambda>k. \<lparr>buffptr = 100 + k, esize = of_nat k\<rparr>) [1..<12]"

definition wrapped_ring :: aesd_circular_buffer where
  "wrapped_ring =
     \<lparr>entry = map (\<lambda>k. \<lparr>buffptr = 100 + k, esize = of_nat k\<rparr>) [11, 2, 3, 4, 5, 6, 7, 8, 9, 10],
      in_offs = 1, out_offs = 1, full = True\<rparr>"

lemma wrapped_ring_reached:
  "add_all aesd_circular_buffer_add_entry aesd_circular_buffer_init eleven_entries =
     Some wrapped_ring"
  by code_simp

lemma wrapped_ring_list:
  "ring_list wrapped_ring =
     map (\<lambda>k. \<lparr>buffptr = 100 + k, esize = of_nat k\<rparr>) [2, 3, 4, 5, 6, 7, 8, 9, 10, 11]"
  by code_simp

lemma wrapped_ring_ok: "ring_inv wrapped_ring" "sizes_fit wrapped_ring"
  by (simp_all add: ring_inv_def sizes_fit_def ring_sizes_def wrapped_ring_list)
    (simp add: wrapped_ring_def)

theorem find_entry_offset_correct_witness:
  "\<exists>r rtn'. aesd_circular_buffer_find_entry_offset_for_fpos (Some wrapped_ring) 6 (Some 0) =
      Some (r, Some rtn') \<and>
    (case r of
       None \<Rightarrow> sum_list (ring_sizes wrapped_ring) \<le> unat (6 :: size_t) \<and> rtn' = 0
     | Some slot \<Rightarrow> \<exists>k < ring_count wrapped_ring.
         slot = ring_idx wrapped_ring k \<and> rtn' < esize (ring_list wrapped_ring ! k) \<and>
         unat (6 :: size_t) = sum_list (take k (ring_sizes wrapped_ring)) + unat rtn')"
  by (rule find_entry_offset_correct [OF wrapped_ring_ok])

theorem find_entry_offset_complete_witness:
  "aesd_circular_buffer_find_entry_offset_for_fpos (Some wrapped_ring)
     (of_nat (sum_list (take 2 (ring_sizes wrapped_ring)) + 1)) (Some 0) =
   Some (Some (ring_idx wrapped_ring 2), Some (of_nat 1))"
proof (rule find_entry_offset_complete [OF wrapped_ring_ok])
  show "2 < ring_count wrapped_ring" by (simp add: wrapped_ring_def ring_count_def)
  show "1 < unat (esize (ring_list wrapped_ring ! 2))"
    by (simp add: wrapped_ring_list)
qed

end
