(* ===== verification/Lines.thy ===== *)
theory Lines
  imports Prelude
begin

text \<open>
  Lines in a stream of bytes: the first newline, and the complete lines with what follows
  the last of them. The driver splits what is written to it in this way, and the server
  what it receives.
\<close>

section \<open>The first newline\<close>

text \<open>\<open>memchr\<close>: the first place of a byte.\<close>

fun memchr :: "byte \<Rightarrow> byte list \<Rightarrow> nat option" where
  "memchr c [] = None"
| "memchr c (b # bs) = (if b = c then Some 0 else map_option Suc (memchr c bs))"

lemma memchr_None_iff: "memchr c bs = None \<longleftrightarrow> c \<notin> set bs"
  by (induction bs) auto

lemma memchr_SomeD:
  "memchr c bs = Some i \<Longrightarrow> i < length bs \<and> bs ! i = c \<and> c \<notin> set (take i bs)"
proof (induction bs arbitrary: i)
  case (Cons b bs)
  then show ?case by (cases i) (auto split: if_splits)
qed simp

lemma memchr_snoc_newline: "c \<notin> set xs \<Longrightarrow> memchr c (xs @ c # ys) = Some (length xs)"
  by (induction xs) auto

section \<open>Complete lines\<close>

text \<open>The complete lines of a stream of bytes, and what follows the last newline.\<close>

function split_lines :: "byte list \<Rightarrow> byte list list \<times> byte list" where
  "split_lines bs =
     (case memchr newline bs of None \<Rightarrow> ([], bs)
      | Some i \<Rightarrow> apfst ((#) (take (Suc i) bs)) (split_lines (drop (Suc i) bs)))"
  by pat_completeness auto
termination
  by (relation "measure length") (auto dest!: memchr_SomeD)

declare split_lines.simps [simp del]

lemma split_lines_None: "newline \<notin> set bs \<Longrightarrow> split_lines bs = ([], bs)"
  by (subst split_lines.simps) (simp add: memchr_None_iff [THEN iffD2])

lemma split_lines_line:
  "newline \<notin> set xs \<Longrightarrow> split_lines (xs @ newline # ys) = apfst ((#) (xs @ [newline])) (split_lines ys)"
  by (subst split_lines.simps) (simp add: memchr_snoc_newline)

lemma split_lines_snd: "newline \<notin> set (snd (split_lines bs))"
proof (induction bs rule: split_lines.induct)
  case (1 bs)
  show ?case
  proof (cases "memchr newline bs")
    case None
    then show ?thesis by (simp add: memchr_None_iff split_lines_None)
  next
    case (Some i)
    with 1 show ?thesis by (subst split_lines.simps) simp
  qed
qed

text \<open>Splitting piece by piece.\<close>

lemma split_lines_append:
  "split_lines (xs @ ys) =
     (fst (split_lines xs) @ fst (split_lines (snd (split_lines xs) @ ys)),
      snd (split_lines (snd (split_lines xs) @ ys)))"
proof (induction xs rule: split_lines.induct)
  case (1 xs)
  show ?case
  proof (cases "memchr newline xs")
    case None
    then show ?thesis by (simp add: memchr_None_iff split_lines_None)
  next
    case (Some i)
    note i = memchr_SomeD [OF Some]
    have xs: "xs = take i xs @ newline # drop (Suc i) xs"
      using i id_take_nth_drop [of i xs] by simp
    have s: "split_lines xs = apfst ((#) (take i xs @ [newline])) (split_lines (drop (Suc i) xs))"
      by (subst xs) (rule split_lines_line, use i in simp)
    have "split_lines (xs @ ys) =
        apfst ((#) (take i xs @ [newline])) (split_lines (drop (Suc i) xs @ ys))"
      by (subst xs) (simp add: split_lines_line i)
    with s 1 [OF Some] show ?thesis by simp
  qed
qed

lemma split_lines_head:
  assumes "newline \<notin> set xs"
  shows "(fst (split_lines (xs @ ys)) = [] \<and> snd (split_lines (xs @ ys)) = xs @ ys) \<or>
    (\<exists>zs. hd (fst (split_lines (xs @ ys))) = xs @ zs \<and> fst (split_lines (xs @ ys)) \<noteq> [])"
proof (cases "newline \<in> set ys")
  case False
  with assms show ?thesis by (simp add: split_lines_None)
next
  case True
  then obtain us vs where "ys = us @ newline # vs" "newline \<notin> set us" by (meson split_list_first)
  with assms split_lines_line [of "xs @ us" vs] show ?thesis by simp
qed

text \<open>A write with a newline at most as its last byte, as the server's are.\<close>

definition line_chunk :: "byte list \<Rightarrow> bool" where
  "line_chunk bs \<longleftrightarrow> newline \<notin> set (butlast bs)"

lemma line_chunk_cases:
  assumes "line_chunk bs"
  obtains (inside) "newline \<notin> set bs" | (line) xs where "bs = xs @ [newline]" "newline \<notin> set xs"
proof (cases "bs = [] \<or> last bs \<noteq> newline")
  case True
  then have "newline \<notin> set bs"
    using assms by (cases bs rule: rev_cases) (auto simp: line_chunk_def)
  then show ?thesis by (rule inside)
next
  case False
  then have "bs = butlast bs @ [newline]" by (metis append_butlast_last_id)
  then show ?thesis using line assms by (metis line_chunk_def)
qed

end
