(* ===== verification/Kernel.thy ===== *)
theory Kernel
  imports Lines
begin

text \<open>
  What the char driver uses of the Linux kernel, which is not part of the repository: the
  allocator, the copies from and to user space, the device's mutex and the registration of
  a character device. Each service is a parameter of the driver's definitions, a field of
  the record \<open>kernel\<close>; it may answer differently at every call, since it sees the whole
  kernel state. \<open>kernel_ok\<close> states the documented behaviour the proofs rely on. Reads
  and writes of allocated memory are checked here: one outside an allocation, or a
  pointer that is not a live allocation given to \<open>krealloc\<close> or \<open>kfree\<close>, is
  undefined behaviour.
\<close>

section \<open>Kernel memory\<close>

text \<open>The live allocations, by their address, with their bytes.\<close>

record kstate =
  cells :: "ptr \<Rightarrow> byte list option"
  tick :: nat

text \<open>What \<open>kmalloc(0)\<close> and \<open>krealloc(p, 0)\<close> return (\<^verbatim>\<open>linux/slab.h\<close>).\<close>

definition ZERO_SIZE_PTR :: ptr where
  "ZERO_SIZE_PTR = 16"

lemma ZERO_SIZE_PTR_neq [simp]: "ZERO_SIZE_PTR \<noteq> 0" "0 \<noteq> ZERO_SIZE_PTR"
  by (simp_all add: ZERO_SIZE_PTR_def)

abbreviation (input) ERESTARTSYS :: int where "ERESTARTSYS \<equiv> 512"
abbreviation (input) ENOMEM :: int where "ENOMEM \<equiv> 12"
abbreviation (input) EFAULT :: int where "EFAULT \<equiv> 14"
abbreviation (input) EINVAL :: int where "EINVAL \<equiv> 22"
abbreviation (input) ENOTTY :: int where "ENOTTY \<equiv> 25"

definition load :: "kstate \<Rightarrow> ptr \<Rightarrow> nat \<Rightarrow> nat \<Rightarrow> byte list option" where
  "load s p off n =
     (if n = 0 then Some []
      else case cells s p of None \<Rightarrow> None
           | Some bs \<Rightarrow> if off + n \<le> length bs then Some (take n (drop off bs)) else None)"

definition store :: "kstate \<Rightarrow> ptr \<Rightarrow> nat \<Rightarrow> byte list \<Rightarrow> kstate option" where
  "store s p off vs =
     (if vs = [] then Some s
      else case cells s p of None \<Rightarrow> None
           | Some bs \<Rightarrow>
               if off + length vs \<le> length bs
               then Some (s\<lparr>cells := (cells s)
                      (p \<mapsto> take off bs @ vs @ drop (off + length vs) bs)\<rparr>)
               else None)"

section \<open>Services\<close>

record kernel =
  kmalloc :: "kstate \<Rightarrow> size_t \<Rightarrow> ptr \<times> kstate"
  krealloc :: "kstate \<Rightarrow> ptr \<Rightarrow> size_t \<Rightarrow> ptr \<times> kstate"
  kfree :: "kstate \<Rightarrow> ptr \<Rightarrow> kstate"
  copy_from_user :: "kstate \<Rightarrow> size_t \<Rightarrow> size_t \<times> kstate"
  copy_to_user :: "kstate \<Rightarrow> size_t \<Rightarrow> size_t \<times> kstate"
  mutex_lock_interruptible :: "kstate \<Rightarrow> int \<times> kstate"
  alloc_chrdev_region :: "kstate \<Rightarrow> int \<times> nat \<times> kstate"
  cdev_add :: "kstate \<Rightarrow> int \<times> kstate"
  FMODE_STREAM :: uint32
  kmax :: nat

text \<open>A pointer that \<open>krealloc\<close> and \<open>kfree\<close> take.\<close>

definition live_ptr :: "kstate \<Rightarrow> ptr \<Rightarrow> bool" where
  "live_ptr s p \<longleftrightarrow> p = NULL \<or> p = ZERO_SIZE_PTR \<or> cells s p \<noteq> None"

definition k_realloc :: "kernel \<Rightarrow> kstate \<Rightarrow> ptr \<Rightarrow> size_t \<Rightarrow> (ptr \<times> kstate) option" where
  "k_realloc K s p n = (if live_ptr s p then Some (krealloc K s p n) else None)"

definition k_free :: "kernel \<Rightarrow> kstate \<Rightarrow> ptr \<Rightarrow> kstate option" where
  "k_free K s p = (if live_ptr s p then Some (kfree K s p) else None)"

section \<open>Their documented behaviour\<close>

text \<open>
  An allocation fails with \<open>NULL\<close> and changes nothing, or gives a new address with
  \<open>n\<close> bytes of unknown content; no request above \<open>kmax\<close> (KMALLOC_MAX_SIZE) succeeds.
\<close>

definition new_ptr :: "kstate \<Rightarrow> ptr \<Rightarrow> bool" where
  "new_ptr s p \<longleftrightarrow> p \<noteq> NULL \<and> p \<noteq> ZERO_SIZE_PTR \<and> cells s p = None"

definition kmalloc_ok :: "kernel \<Rightarrow> bool" where
  "kmalloc_ok K \<longleftrightarrow>
     (\<forall>s n p s'. kmalloc K s n = (p, s') \<longrightarrow>
        (p = NULL \<and> cells s' = cells s) \<or>
        (n = 0 \<and> p = ZERO_SIZE_PTR \<and> cells s' = cells s) \<or>
        (n \<noteq> 0 \<and> unat n \<le> kmax K \<and> new_ptr s p \<and>
         (\<exists>bs. length bs = unat n \<and> cells s' = (cells s)(p \<mapsto> bs))))"

text \<open>
  \<open>krealloc\<close> keeps the content up to the smaller of the two sizes, in place or moved;
  on failure the old allocation stays; size 0 frees it.
\<close>

definition old_bytes :: "kstate \<Rightarrow> ptr \<Rightarrow> byte list" where
  "old_bytes s p = (case cells s p of None \<Rightarrow> [] | Some bs \<Rightarrow> bs)"

definition krealloc_ok :: "kernel \<Rightarrow> bool" where
  "krealloc_ok K \<longleftrightarrow>
     (\<forall>s p n q s'. live_ptr s p \<longrightarrow> krealloc K s p n = (q, s') \<longrightarrow>
        (q = NULL \<and> n \<noteq> 0 \<and> cells s' = cells s) \<or>
        (n = 0 \<and> q = ZERO_SIZE_PTR \<and> cells s' = (cells s)(p := None)) \<or>
        (n \<noteq> 0 \<and> unat n \<le> kmax K \<and>
         (new_ptr s q \<or> q = p \<and> cells s p \<noteq> None) \<and>
         (\<exists>bs. length bs = unat n \<and>
            take (min (length (old_bytes s p)) (unat n)) bs =
              take (min (length (old_bytes s p)) (unat n)) (old_bytes s p) \<and>
            cells s' = (cells s)(p := None, q \<mapsto> bs))))"

definition kfree_ok :: "kernel \<Rightarrow> bool" where
  "kfree_ok K \<longleftrightarrow> (\<forall>s p. live_ptr s p \<longrightarrow> cells (kfree K s p) = (cells s)(p := None))"

text \<open>The other services do not touch the driver's allocations.\<close>

definition kframe_ok :: "kernel \<Rightarrow> bool" where
  "kframe_ok K \<longleftrightarrow>
     (\<forall>s n. cells (snd (copy_from_user K s n)) = cells s) \<and>
     (\<forall>s n. cells (snd (copy_to_user K s n)) = cells s) \<and>
     (\<forall>s. cells (snd (mutex_lock_interruptible K s)) = cells s) \<and>
     (\<forall>s. cells (snd (snd (alloc_chrdev_region K s))) = cells s) \<and>
     (\<forall>s. cells (snd (cdev_add K s)) = cells s)"

definition kernel_ok :: "kernel \<Rightarrow> bool" where
  "kernel_ok K \<longleftrightarrow>
     kmalloc_ok K \<and> krealloc_ok K \<and> kfree_ok K \<and> kframe_ok K \<and> kmax K < 2 ^ 40"

text \<open>No allocation is at the null address or at \<open>ZERO_SIZE_PTR\<close>.\<close>

definition kheap_ok :: "kstate \<Rightarrow> bool" where
  "kheap_ok s \<longleftrightarrow> cells s NULL = None \<and> cells s ZERO_SIZE_PTR = None"

section \<open>Lemmas\<close>

lemma load_Some_iff:
  "load s p off n = Some vs \<longleftrightarrow>
     (n = 0 \<and> vs = []) \<or>
     (n \<noteq> 0 \<and> (\<exists>bs. cells s p = Some bs \<and> off + n \<le> length bs \<and> vs = take n (drop off bs)))"
  by (auto simp: load_def split: option.splits if_splits)

lemma load_length: "load s p off n = Some vs \<Longrightarrow> length vs = n"
  by (auto simp: load_Some_iff)

lemma load_in [ub_simps]:
  "cells s p = Some bs \<Longrightarrow> off + n \<le> length bs \<Longrightarrow> load s p off n = Some (take n (drop off bs))"
  by (simp add: load_def)

lemma load_zero [simp, ub_simps]: "load s p off 0 = Some []"
  by (simp add: load_def)

lemma store_Nil [simp, ub_simps]: "store s p off [] = Some s"
  by (simp add: store_def)

lemma store_in [ub_simps]:
  "cells s p = Some bs \<Longrightarrow> off + length vs \<le> length bs \<Longrightarrow>
     store s p off vs =
       Some (s\<lparr>cells := (cells s)(p \<mapsto> take off bs @ vs @ drop (off + length vs) bs)\<rparr>)"
  by (cases s) (auto simp: store_def)

text \<open>The contracts as case distinctions on what a service answered.\<close>

lemma kmalloc_cases:
  assumes "kernel_ok K" "kmalloc K s n = (p, s')"
  obtains (fail) "p = NULL" "cells s' = cells s"
    | (zero) "n = 0" "p = ZERO_SIZE_PTR" "cells s' = cells s"
    | (new) bs where "n \<noteq> 0" "unat n \<le> kmax K" "new_ptr s p" "length bs = unat n"
        "cells s' = (cells s)(p \<mapsto> bs)"
proof -
  have "(p = NULL \<and> cells s' = cells s) \<or>
        (n = 0 \<and> p = ZERO_SIZE_PTR \<and> cells s' = cells s) \<or>
        (n \<noteq> 0 \<and> unat n \<le> kmax K \<and> new_ptr s p \<and>
         (\<exists>bs. length bs = unat n \<and> cells s' = (cells s)(p \<mapsto> bs)))"
    using assms by (simp add: kernel_ok_def kmalloc_ok_def)
  then show ?thesis using that by blast
qed

lemma k_realloc_cases:
  assumes "kernel_ok K" "k_realloc K s p n = Some (q, s')"
  obtains (fail) "q = NULL" "n \<noteq> 0" "cells s' = cells s"
    | (zero) "n = 0" "q = ZERO_SIZE_PTR" "cells s' = (cells s)(p := None)"
    | (moved) bs where "n \<noteq> 0" "unat n \<le> kmax K"
        "new_ptr s q \<or> q = p \<and> cells s p \<noteq> None" "length bs = unat n"
        "take (min (length (old_bytes s p)) (unat n)) bs =
           take (min (length (old_bytes s p)) (unat n)) (old_bytes s p)"
        "cells s' = (cells s)(p := None, q \<mapsto> bs)"
proof -
  have "live_ptr s p" and "krealloc K s p n = (q, s')"
    using assms(2) by (auto simp: k_realloc_def split: if_splits)
  then have "(q = NULL \<and> n \<noteq> 0 \<and> cells s' = cells s) \<or>
        (n = 0 \<and> q = ZERO_SIZE_PTR \<and> cells s' = (cells s)(p := None)) \<or>
        (n \<noteq> 0 \<and> unat n \<le> kmax K \<and>
         (new_ptr s q \<or> q = p \<and> cells s p \<noteq> None) \<and>
         (\<exists>bs. length bs = unat n \<and>
            take (min (length (old_bytes s p)) (unat n)) bs =
              take (min (length (old_bytes s p)) (unat n)) (old_bytes s p) \<and>
            cells s' = (cells s)(p := None, q \<mapsto> bs)))"
    using assms(1) by (simp add: kernel_ok_def krealloc_ok_def)
  then show ?thesis using that by blast
qed

lemma k_realloc_defined: "live_ptr s p \<Longrightarrow> \<exists>q s'. k_realloc K s p n = Some (q, s')"
  by (cases "krealloc K s p n") (simp add: k_realloc_def)

lemma k_free_live:
  assumes "kernel_ok K" "live_ptr s p"
  obtains s' where "k_free K s p = Some s'" "cells s' = (cells s)(p := None)"
  using assms by (simp add: k_free_def kernel_ok_def kfree_ok_def)

lemma kernel_frame:
  assumes "kernel_ok K"
  shows "copy_from_user K s n = (r, s') \<Longrightarrow> cells s' = cells s"
    and "copy_to_user K s n = (r, s') \<Longrightarrow> cells s' = cells s"
    and "mutex_lock_interruptible K s = (q, s') \<Longrightarrow> cells s' = cells s"
    and "cdev_add K s = (q, s') \<Longrightarrow> cells s' = cells s"
    and "alloc_chrdev_region K s = (q, m, s') \<Longrightarrow> cells s' = cells s"
proof -
  have f: "kframe_ok K" using assms by (simp add: kernel_ok_def)
  show "copy_from_user K s n = (r, s') \<Longrightarrow> cells s' = cells s"
    and "copy_to_user K s n = (r, s') \<Longrightarrow> cells s' = cells s"
    and "mutex_lock_interruptible K s = (q, s') \<Longrightarrow> cells s' = cells s"
    and "cdev_add K s = (q, s') \<Longrightarrow> cells s' = cells s"
    and "alloc_chrdev_region K s = (q, m, s') \<Longrightarrow> cells s' = cells s"
    using f unfolding kframe_ok_def by (metis snd_conv)+
qed

lemma kmax_less: "kernel_ok K \<Longrightarrow> kmax K < 2 ^ 40"
  by (simp add: kernel_ok_def)

lemma old_bytes_Some [simp]: "cells s p = Some bs \<Longrightarrow> old_bytes s p = bs"
  by (simp add: old_bytes_def)

lemma old_bytes_None [simp]: "cells s p = None \<Longrightarrow> old_bytes s p = []"
  by (simp add: old_bytes_def)

section \<open>A kernel that meets the contract\<close>

text \<open>
  For the witnesses: addresses are taken one after the other, an allocation that is too
  large or whose address is taken fails, \<open>krealloc\<close> always moves, and locking, copying
  and registering succeed.
\<close>

definition next_addr :: "kstate \<Rightarrow> ptr" where
  "next_addr s = 32 + tick s"

definition simple_alloc :: "kstate \<Rightarrow> ptr \<Rightarrow> size_t \<Rightarrow> byte list \<Rightarrow> ptr \<times> kstate" where
  "simple_alloc s old n bs =
     (if n = 0 then (ZERO_SIZE_PTR, s\<lparr>cells := (cells s)(old := None)\<rparr>)
      else if n \<le> 4096 \<and> cells s (next_addr s) = None
      then (next_addr s,
            s\<lparr>cells := (cells s)(old := None,
                next_addr s \<mapsto> take (unat n) bs @ replicate (unat n - length bs) 0),
              tick := tick s + 1\<rparr>)
      else (NULL, s))"

definition simple_kernel :: kernel where
  "simple_kernel =
     \<lparr>kmalloc = (\<lambda>s n. if cells s NULL = None then simple_alloc s NULL n [] else (NULL, s)),
      krealloc = (\<lambda>s p n. simple_alloc s p n (old_bytes s p)),
      kfree = (\<lambda>s p. s\<lparr>cells := (cells s)(p := None)\<rparr>),
      copy_from_user = (\<lambda>s n. (0, s)), copy_to_user = (\<lambda>s n. (0, s)),
      mutex_lock_interruptible = (\<lambda>s. (0, s)),
      alloc_chrdev_region = (\<lambda>s. (0, 240, s)), cdev_add = (\<lambda>s. (0, s)),
      FMODE_STREAM = 0x200000, kmax = 4096\<rparr>"

definition boot_state :: kstate where
  "boot_state = \<lparr>cells = (\<lambda>_. None), tick = 0\<rparr>"

lemma next_addr_neq [simp]: "next_addr s \<noteq> 0" "0 < next_addr s" "next_addr s \<noteq> ZERO_SIZE_PTR"
  by (simp_all add: next_addr_def ZERO_SIZE_PTR_def)

lemma simple_alloc_cases:
  assumes "simple_alloc s old n bs = (q, s')"
  shows "(q = NULL \<and> n \<noteq> 0 \<and> cells s' = cells s) \<or>
     (n = 0 \<and> q = ZERO_SIZE_PTR \<and> cells s' = (cells s)(old := None)) \<or>
     (n \<noteq> 0 \<and> unat n \<le> 4096 \<and> new_ptr s q \<and>
      (\<exists>bs'. length bs' = unat n \<and>
         take (min (length bs) (unat n)) bs' = take (min (length bs) (unat n)) bs \<and>
         cells s' = (cells s)(old := None, q \<mapsto> bs')))"
  using assms
  by (auto simp: simple_alloc_def new_ptr_def word_le_nat_alt min_def split: if_splits
      intro!: exI [of _ "take (unat n) bs @ replicate (unat n - length bs) 0"])

lemma simple_kernel_ok: "kernel_ok simple_kernel"
proof -
  have "kmalloc_ok simple_kernel"
    unfolding kmalloc_ok_def
  proof (intro allI impI)
    fix s n p s'
    assume "kmalloc simple_kernel s n = (p, s')"
    then consider "p = NULL" "s' = s" | "cells s NULL = None" "simple_alloc s NULL n [] = (p, s')"
      by (auto simp: simple_kernel_def split: if_splits)
    then show "(p = NULL \<and> cells s' = cells s) \<or>
        (n = 0 \<and> p = ZERO_SIZE_PTR \<and> cells s' = cells s) \<or>
        (n \<noteq> 0 \<and> unat n \<le> kmax simple_kernel \<and> new_ptr s p \<and>
         (\<exists>bs. length bs = unat n \<and> cells s' = (cells s)(p \<mapsto> bs)))"
    proof cases
      case 2
      with simple_alloc_cases [OF 2(2)] show ?thesis
        by (simp add: simple_kernel_def fun_upd_idem) blast
    qed simp
  qed
  moreover have "krealloc_ok simple_kernel"
    unfolding krealloc_ok_def
  proof (intro allI impI)
    fix s p n q s'
    assume "krealloc simple_kernel s p n = (q, s')"
    then have "simple_alloc s p n (old_bytes s p) = (q, s')"
      by (simp add: simple_kernel_def)
    from simple_alloc_cases [OF this]
    show "(q = NULL \<and> n \<noteq> 0 \<and> cells s' = cells s) \<or>
        (n = 0 \<and> q = ZERO_SIZE_PTR \<and> cells s' = (cells s)(p := None)) \<or>
        (n \<noteq> 0 \<and> unat n \<le> kmax simple_kernel \<and>
         (new_ptr s q \<or> q = p \<and> cells s p \<noteq> None) \<and>
         (\<exists>bs. length bs = unat n \<and>
            take (min (length (old_bytes s p)) (unat n)) bs =
              take (min (length (old_bytes s p)) (unat n)) (old_bytes s p) \<and>
            cells s' = (cells s)(p := None, q \<mapsto> bs)))"
      by (simp add: simple_kernel_def) blast
  qed
  moreover have "kfree_ok simple_kernel" "kframe_ok simple_kernel" "kmax simple_kernel < 2 ^ 40"
    by (simp_all add: kfree_ok_def kframe_ok_def simple_kernel_def)
  ultimately show ?thesis by (simp add: kernel_ok_def)
qed

end
