(* ===== verification/Char_Driver.thy ===== *)
theory Char_Driver
  imports Circular_Buffer Kernel
begin

text \<open>
  The char driver, \<^verbatim>\<open>aesd-char-driver/main.c\<close> with the structs of \<^verbatim>\<open>aesdchar.h\<close> and
  \<^verbatim>\<open>aesd_ioctl.h\<close>: one definition per file operation, over the device struct, the
  kernel's memory and the open file. \<open>None\<close> is undefined behaviour; an error return is
  the negative number the code returns. The log messages (PDEBUG, pr_info, printk) are
  left out. The device lock is the field \<open>lock\<close>; every handler runs between
  \<open>mutex_lock_interruptible\<close> and \<open>mutex_unlock\<close> of the same lock, so one handler is
  one step of the device.
\<close>

section \<open>Data\<close>

text \<open>
  \<open>struct aesd_dev\<close>; the fields \<open>cdev\<close> (registered or not), \<open>chrdev_held\<close> (the region
  of device numbers) and \<open>aesd_major\<close> stand for what the module keeps with the kernel.
\<close>

record aesd_dev =
  cdev_live :: bool
  chrdev_held :: bool
  aesd_major :: nat
  buffer :: ptr
  buffer_size :: int
  lock :: bool
  circ_buffer :: aesd_circular_buffer
  working_entry :: ptr
  working_size :: size_t
  total_size :: size_t

record "file" =
  f_pos :: loff_t
  f_mode :: uint32
  private_data :: ptr

record aesd_seekto =
  write_cmd :: uint32
  write_cmd_offset :: uint32

definition AESD_BUFFER_SIZE :: size_t where
  "AESD_BUFFER_SIZE = 1024"

text \<open>\<open>_IOWR(type, nr, size)\<close> packs direction (read and write: 3), size, type and number.\<close>

definition IOWR :: "uint32 \<Rightarrow> uint32 \<Rightarrow> uint32 \<Rightarrow> uint32" where
  "IOWR ty nr sz = or (push_bit 30 3) (or (push_bit 16 sz) (or (push_bit 8 ty) nr))"

definition AESD_IOC_MAGIC :: uint32 where
  "AESD_IOC_MAGIC = 22"

definition AESDCHAR_IOCSEEKTO :: uint32 where
  "AESDCHAR_IOCSEEKTO = IOWR AESD_IOC_MAGIC 1 8"

definition mutex_unlock :: "aesd_dev \<Rightarrow> aesd_dev" where
  "mutex_unlock d = d\<lparr>lock := False\<rparr>"

section \<open>open, release, fsync\<close>

text \<open>
  \<open>container_of\<close> of the first member is the same address; the mode loses the bit
  \<open>FMODE_STREAM\<close>, so that the file can be seeked.
\<close>

definition aesd_open :: "kernel \<Rightarrow> ptr \<Rightarrow> file \<Rightarrow> int \<times> file" where
  "aesd_open K i_cdev filp =
     (0, filp\<lparr>private_data := i_cdev, f_mode := and (f_mode filp) (not (FMODE_STREAM K))\<rparr>)"

definition aesd_release :: "file \<Rightarrow> int" where
  "aesd_release filp = 0"

definition aesd_fsync :: "file \<Rightarrow> loff_t \<Rightarrow> loff_t \<Rightarrow> int \<Rightarrow> int" where
  "aesd_fsync filp start end' datasync = 0"

section \<open>read\<close>

text \<open>
  The result: the return value, the bytes that reached the user's buffer, the new
  \<open>*f_pos\<close>, the device and the kernel state.
\<close>

definition aesd_read ::
  "kernel \<Rightarrow> aesd_dev \<Rightarrow> kstate \<Rightarrow> size_t \<Rightarrow> loff_t \<Rightarrow>
     (int \<times> byte list \<times> loff_t \<times> aesd_dev \<times> kstate) option" where
  "aesd_read K d s count pos =
     (let (r, s1) = mutex_lock_interruptible K s
      in if r \<noteq> 0 then Some (- ERESTARTSYS, [], pos, d, s1)
      else let d1 = d\<lparr>lock := True\<rparr>
      in do {
        (found, off) \<leftarrow> aesd_circular_buffer_find_entry_offset_for_fpos
                          (Some (circ_buffer d1)) pos (Some 0);
        case (found, off) of
          (Some slot, Some entry_offset) \<Rightarrow> do {
            e \<leftarrow> arr_get (entry (circ_buffer d1)) slot;
            let bytes_to_copy = esize e - entry_offset;
            let bytes_to_copy = (if count < bytes_to_copy then count else bytes_to_copy);
            bs \<leftarrow> load s1 (buffptr e) (unat entry_offset) (unat bytes_to_copy);
            let (left, s2) = copy_to_user K s1 bytes_to_copy;
            if left \<noteq> 0
            then Some (- EFAULT, take (unat (bytes_to_copy - left)) bs, pos, mutex_unlock d1, s2)
            else Some (sint bytes_to_copy, bs, pos + bytes_to_copy, mutex_unlock d1, s2)
          }
        | _ \<Rightarrow> Some (0, [], pos, mutex_unlock d1, s1)
      })"

section \<open>write\<close>

text \<open>
  The body of the loop in two halves: append the chunk to the working entry, then, if the
  working entry holds a newline, move the bytes up to it into a new entry of the ring. The
  boolean is false where the code jumps to \<open>free_buf\<close> with \<open>-ENOMEM\<close>.
\<close>

definition write_append ::
  "kernel \<Rightarrow> ptr \<Rightarrow> size_t \<Rightarrow> size_t \<Rightarrow> aesd_dev \<Rightarrow> kstate \<Rightarrow>
     (bool \<times> aesd_dev \<times> kstate) option" where
  "write_append K kbuf copied chunk d s = do {
     (p, s1) \<leftarrow> k_realloc K s (working_entry d) (working_size d + chunk);
     let d1 = d\<lparr>working_entry := p\<rparr>;
     if p = NULL then Some (False, d1, s1)
     else do {
       bs \<leftarrow> load s1 kbuf (unat copied) (unat chunk);
       s2 \<leftarrow> store s1 p (unat (working_size d1)) bs;
       Some (True, d1\<lparr>working_size := working_size d1 + chunk\<rparr>, s2)
     }
   }"

definition write_commit ::
  "kernel \<Rightarrow> aesd_dev \<Rightarrow> kstate \<Rightarrow> (bool \<times> aesd_dev \<times> kstate) option" where
  "write_commit K d s = do {
     wb \<leftarrow> load s (working_entry d) 0 (unat (working_size d));
     case memchr newline wb of
       None \<Rightarrow> Some (True, d, s)
     | Some i \<Rightarrow> (
         let entry_size = of_nat i + 1;
             (entry_buf, s1) = kmalloc K s entry_size
         in if entry_buf = NULL then Some (False, d, s1)
         else do {
           line \<leftarrow> load s1 (working_entry d) 0 (unat entry_size);
           s2 \<leftarrow> store s1 entry_buf 0 line;
           cb \<leftarrow> aesd_circular_buffer_add_entry (circ_buffer d)
                   \<lparr>buffptr = entry_buf, esize = entry_size\<rparr>;
           let leftover = working_size d - entry_size;
           rest \<leftarrow> load s2 (working_entry d) (unat entry_size) (unat leftover);
           s3 \<leftarrow> store s2 (working_entry d) 0 rest;
           (q, s4) \<leftarrow> k_realloc K s3 (working_entry d) leftover;
           Some (True, d\<lparr>circ_buffer := cb, working_size := leftover, working_entry := q\<rparr>, s4)
         })
   }"

text \<open>\<open>while (remaining)\<close>, with \<open>chunk = remaining\<close>.\<close>

function write_loop ::
  "kernel \<Rightarrow> ptr \<Rightarrow> size_t \<Rightarrow> size_t \<Rightarrow> aesd_dev \<Rightarrow> kstate \<Rightarrow>
     (bool \<times> aesd_dev \<times> kstate) option" where
  "write_loop K kbuf copied remaining d s =
     (if remaining = 0 then Some (True, d, s)
      else do {
        let chunk = remaining;
        (ok, d1, s1) \<leftarrow> write_append K kbuf copied chunk d s;
        if \<not> ok then Some (False, d1, s1)
        else do {
          (ok', d2, s2) \<leftarrow> write_commit K d1 s1;
          if \<not> ok' then Some (False, d2, s2)
          else write_loop K kbuf (copied + chunk) (remaining - chunk) d2 s2
        }
      })"
  by pat_completeness auto
termination
  by (relation "measure (\<lambda>(K, kbuf, copied, remaining, d, s). unat remaining)")
    (auto simp: unat_gt_0)

definition aesd_write ::
  "kernel \<Rightarrow> aesd_dev \<Rightarrow> kstate \<Rightarrow> byte list \<Rightarrow> size_t \<Rightarrow> (int \<times> aesd_dev \<times> kstate) option" where
  "aesd_write K d s buf count =
     (let (r, s1) = mutex_lock_interruptible K s
      in if r \<noteq> 0 then Some (- ERESTARTSYS, d, s1)
      else let d1 = d\<lparr>lock := True\<rparr>; (kbuf, s2) = kmalloc K s1 count
      in if kbuf = NULL then Some (- ENOMEM, mutex_unlock d1, s2)
      else let (left, s3) = copy_from_user K s2 count
      in if left \<noteq> 0 then do {
           s4 \<leftarrow> k_free K s3 kbuf;
           Some (- EFAULT, mutex_unlock d1, s4)
         }
         else do {
           s4 \<leftarrow> store s3 kbuf 0 (take (unat count) buf);
           (ok, d2, s5) \<leftarrow> write_loop K kbuf 0 count d1 s4;
           s6 \<leftarrow> k_free K s5 kbuf;
           Some (if ok then sint count else - ENOMEM, mutex_unlock d2, s6)
         })"

section \<open>llseek\<close>

text \<open>
  The total size: all ten slots when the ring is full, else the slots from \<open>out_offs\<close>
  until the index equals \<open>in_offs\<close>. No value is returned by a loop that never ends.
\<close>

definition full_size :: "aesd_circular_buffer \<Rightarrow> size_t option" where
  "full_size b =
     fold (\<lambda>i acc. do { t \<leftarrow> acc; e \<leftarrow> arr_get (entry b) i; Some (t + esize e) })
       [0..<AESDCHAR_MAX_WRITE_OPERATIONS_SUPPORTED] (Some 0)"

partial_function (option) live_size ::
  "aesd_circular_buffer \<Rightarrow> uint8 \<Rightarrow> size_t \<Rightarrow> size_t option" where
  "live_size b idx tot =
     (if idx = in_offs b then Some tot
      else do {
        e \<leftarrow> arr_get (entry b) (unat idx);
        live_size b (next_offs idx) (tot + esize e)
      })"

definition aesd_llseek ::
  "kernel \<Rightarrow> aesd_dev \<Rightarrow> kstate \<Rightarrow> file \<Rightarrow> loff_t \<Rightarrow> int \<Rightarrow>
     (int \<times> file \<times> aesd_dev \<times> kstate) option" where
  "aesd_llseek K d s filp off whence =
     (let (r, s1) = mutex_lock_interruptible K s
      in if r \<noteq> 0 then Some (- ERESTARTSYS, filp, d, s1)
      else let d1 = d\<lparr>lock := True\<rparr>
      in do {
        tot \<leftarrow> (if full (circ_buffer d1) then full_size (circ_buffer d1)
                   else live_size (circ_buffer d1) (out_offs (circ_buffer d1)) 0);
        case (if whence = 0 then Some off
              else if whence = 1 then Some (f_pos filp + off)
              else if whence = 2 then Some (tot + off)
              else None) of
          None \<Rightarrow> Some (- EINVAL, filp, mutex_unlock d1, s1)
        | Some newpos \<Rightarrow>
            if sint newpos < 0 then Some (- EINVAL, filp, mutex_unlock d1, s1)
            else Some (sint newpos, filp\<lparr>f_pos := newpos\<rparr>, mutex_unlock d1, s1)
      })"

section \<open>ioctl\<close>

text \<open>Step over \<open>left\<close> entries from slot \<open>buf_index\<close>, adding up their sizes.\<close>

fun ioctl_skip :: "aesd_buffer_entry list \<Rightarrow> nat \<Rightarrow> nat \<Rightarrow> size_t \<Rightarrow> (nat \<times> size_t) option" where
  "ioctl_skip es 0 buf_index total_bytes = Some (buf_index, total_bytes)"
| "ioctl_skip es (Suc left) buf_index total_bytes = do {
     e \<leftarrow> arr_get es buf_index;
     ioctl_skip es left ((buf_index + 1) mod AESDCHAR_MAX_WRITE_OPERATIONS_SUPPORTED)
       (total_bytes + esize e)
   }"

definition aesd_ioctl ::
  "kernel \<Rightarrow> aesd_dev \<Rightarrow> kstate \<Rightarrow> file \<Rightarrow> uint32 \<Rightarrow> aesd_seekto \<Rightarrow>
     (int \<times> file \<times> aesd_dev \<times> kstate) option" where
  "aesd_ioctl K d s filp cmd seekto =
     (if cmd \<noteq> AESDCHAR_IOCSEEKTO then Some (- ENOTTY, filp, d, s)
      else let (left, s1) = copy_from_user K s 8
      in if left \<noteq> 0 then Some (- EFAULT, filp, d, s1)
      else if AESDCHAR_MAX_WRITE_OPERATIONS_SUPPORTED \<le> unat (write_cmd seekto)
      then Some (- EINVAL, filp, d, s1)
      else let (r, s2) = mutex_lock_interruptible K s1
      in if r \<noteq> 0 then Some (- ERESTARTSYS, filp, d, s2)
      else let d1 = d\<lparr>lock := True\<rparr>
      in do {
        (buf_index, total_bytes) \<leftarrow> ioctl_skip (entry (circ_buffer d1))
            (unat (write_cmd seekto)) (unat (out_offs (circ_buffer d1))) 0;
        e \<leftarrow> arr_get (entry (circ_buffer d1)) buf_index;
        if esize e \<le> ucast (write_cmd_offset seekto)
        then Some (- EINVAL, filp, mutex_unlock d1, s2)
        else do {
          let total_bytes = total_bytes + ucast (write_cmd_offset seekto);
          (found, off) \<leftarrow> aesd_circular_buffer_find_entry_offset_for_fpos
                            (Some (circ_buffer d1)) total_bytes (Some 0);
          case found of
            None \<Rightarrow> Some (- EINVAL, filp, mutex_unlock d1, s2)
          | Some slot \<Rightarrow> Some (0, filp\<lparr>f_pos := total_bytes\<rparr>, mutex_unlock d1, s2)
        }
      })"

section \<open>Module load and unload\<close>

text \<open>The device as static storage starts: every field zero.\<close>

definition zero_dev :: aesd_dev where
  "zero_dev =
     \<lparr>cdev_live = False, chrdev_held = False, aesd_major = 0, buffer = NULL, buffer_size = 0,
      lock = False, circ_buffer = aesd_circular_buffer_init, working_entry = NULL,
      working_size = 0, total_size = 0\<rparr>"

definition aesd_setup_cdev :: "kernel \<Rightarrow> aesd_dev \<Rightarrow> kstate \<Rightarrow> int \<times> aesd_dev \<times> kstate" where
  "aesd_setup_cdev K d s =
     (let (err, s1) = cdev_add K s
      in (err, if err = 0 then d\<lparr>cdev_live := True\<rparr> else d, s1))"

definition aesd_init_module :: "kernel \<Rightarrow> aesd_dev \<Rightarrow> kstate \<Rightarrow> int \<times> aesd_dev \<times> kstate" where
  "aesd_init_module K d s =
     (let (result, major, s1) = alloc_chrdev_region K s
      in if result < 0 then (result, d\<lparr>aesd_major := major\<rparr>, s1)
      else let d1 = zero_dev\<lparr>chrdev_held := True, aesd_major := major\<rparr>;
               (result, d2, s2) = aesd_setup_cdev K d1 s1
      in if result \<noteq> 0 then (result, d2\<lparr>chrdev_held := False\<rparr>, s2)
      else let d3 = d2\<lparr>lock := False\<rparr>; (p, s3) = kmalloc K s2 AESD_BUFFER_SIZE
      in (result,
          d3\<lparr>buffer := p, buffer_size := 0, circ_buffer := aesd_circular_buffer_init,
             working_entry := NULL, working_size := 0\<rparr>,
          s3))"

text \<open>The body of \<open>AESD_CIRCULAR_BUFFER_FOREACH\<close> in the clean-up, over the given slots.\<close>

fun cleanup_slots :: "kernel \<Rightarrow> nat list \<Rightarrow> aesd_dev \<Rightarrow> kstate \<Rightarrow> (aesd_dev \<times> kstate) option" where
  "cleanup_slots K [] d s = Some (d, s)"
| "cleanup_slots K (i # is) d s = do {
     e \<leftarrow> arr_get (entry (circ_buffer d)) i;
     if buffptr e \<noteq> NULL then do {
       s1 \<leftarrow> k_free K s (buffptr e);
       es \<leftarrow> arr_set (entry (circ_buffer d)) i zero_entry;
       cleanup_slots K is (d\<lparr>circ_buffer := (circ_buffer d)\<lparr>entry := es\<rparr>\<rparr>) s1
     }
     else cleanup_slots K is d s
   }"

text \<open>
  \<open>device_destroy\<close> and \<open>class_destroy\<close> (\<^verbatim>\<open>main.c:431-432\<close>) are left out: they take the device node and
  the class away, which are no part of the state here.
\<close>

definition aesd_cleanup_module ::
  "kernel \<Rightarrow> aesd_dev \<Rightarrow> kstate \<Rightarrow> (aesd_dev \<times> kstate) option" where
  "aesd_cleanup_module K d s = do {
     (d1, s1) \<leftarrow> cleanup_slots K foreach_indices d s;
     (d2, s2) \<leftarrow> (if working_entry d1 \<noteq> NULL then do {
                    s2 \<leftarrow> k_free K s1 (working_entry d1);
                    Some (d1\<lparr>working_entry := NULL, working_size := 0\<rparr>, s2)
                  }
                  else Some (d1, s1));
     Some (d2\<lparr>cdev_live := False, chrdev_held := False\<rparr>, s2)
   }"

end
