(* ===== verification/Aesd_Socket.thy ===== *)
theory Aesd_Socket
  imports Char_Driver
begin

text \<open>
  The connection threads of the server, \<^verbatim>\<open>server/aesdsocket.c\<close>: how a byte stream from a
  client becomes packets, and what each packet does to the data file. The operating system
  is a parameter: a record of services over its own state. The build with
  \<open>USE_AESD_CHAR_DEVICE\<close> is the argument \<open>use_char\<close>. The mutex all threads share is seen
  from one thread: \<open>holds\<close> says whether it holds it, and unlocking a mutex one does not
  hold, or locking it twice, is undefined (\<open>None\<close>), as are a write outside the packet
  buffer and a scan that runs past it. \<open>None\<close> is also the value of a loop that never
  ends. The messages to syslog, stdout and stderr are left out.
\<close>

section \<open>Services\<close>

datatype oflag = O_RDONLY | O_WRONLY | O_RDWR | O_CREAT | O_APPEND | O_TRUNC

record 'w os =
  sys_open :: "'w \<Rightarrow> oflag list \<Rightarrow> int \<times> 'w"
  sys_close :: "'w \<Rightarrow> int \<Rightarrow> int \<times> 'w"
  sys_write :: "'w \<Rightarrow> int \<Rightarrow> byte list \<Rightarrow> int \<times> 'w"
  sys_fsync :: "'w \<Rightarrow> int \<Rightarrow> int \<times> 'w"
  sys_read :: "'w \<Rightarrow> int \<Rightarrow> nat \<Rightarrow> int \<times> byte list \<times> 'w"
  sys_ioctl :: "'w \<Rightarrow> int \<Rightarrow> uint32 \<Rightarrow> aesd_seekto \<Rightarrow> int \<times> 'w"
  sys_recv :: "'w \<Rightarrow> int \<Rightarrow> nat \<Rightarrow> int \<times> byte list \<times> 'w"
  sys_send :: "'w \<Rightarrow> int \<Rightarrow> byte list \<Rightarrow> int \<times> 'w"
  sys_realloc :: "'w \<Rightarrow> size_t \<Rightarrow> byte list option \<times> 'w"
  sys_lock :: "'w \<Rightarrow> 'w"
  sys_unlock :: "'w \<Rightarrow> 'w"

definition FILE_BUF_SIZE :: nat where "FILE_BUF_SIZE = 1024"

section \<open>The data file\<close>

definition write_to_file :: "'w os \<Rightarrow> 'w \<Rightarrow> byte list \<Rightarrow> int \<times> 'w" where
  "write_to_file os w data =
     (let (fd, w1) = sys_open os w [O_RDWR, O_CREAT, O_APPEND]
      in if fd = - 1 then (- 1, w1)
      else let (nr, w2) = sys_write os w1 fd data
      in if nr = - 1 then (- 1, snd (sys_close os w2 fd))
      else let (fs, w3) = sys_fsync os w2 fd
      in if fs = - 1 then (- 1, snd (sys_close os w3 fd))
      else let (cl, w4) = sys_close os w3 fd
      in if cl = - 1 then (- 1, w4) else (0, w4))"

definition send_ioctl :: "'w os \<Rightarrow> 'w \<Rightarrow> uint32 \<Rightarrow> uint32 \<Rightarrow> int \<times> 'w" where
  "send_ioctl os w cmd cmd_offset =
     (let seekto = \<lparr>write_cmd = cmd, write_cmd_offset = cmd_offset\<rparr>;
          (fd, w1) = sys_open os w [O_RDWR]
      in if fd = - 1 then (- 1, w1)
      else let (r, w2) = sys_ioctl os w1 fd AESDCHAR_IOCSEEKTO seekto
      in if r = - 1 then (- 1, w2)
      else let (cl, w3) = sys_close os w2 fd
      in if cl = - 1 then (- 1, w3) else (0, w3))"

text \<open>
  Sending a block, and the file from the descriptor's position on, to the client. The
  boolean is false where the code calls \<open>exit(1)\<close>.
\<close>

partial_function (option) send_all :: "'w os \<Rightarrow> int \<Rightarrow> byte list \<Rightarrow> 'w \<Rightarrow> (bool \<times> 'w) option" where
  "send_all os client_fd bs w =
     (if bs = [] then Some (True, w)
      else let (n, w1) = sys_send os w client_fd bs
      in if n = - 1 then Some (False, w1)
      else send_all os client_fd (drop (nat n) bs) w1)"

partial_function (option) echo_file :: "'w os \<Rightarrow> int \<Rightarrow> int \<Rightarrow> 'w \<Rightarrow> (bool \<times> 'w) option" where
  "echo_file os client_fd fd w =
     (let (bytes_read, bs, w1) = sys_read os w fd FILE_BUF_SIZE
      in if bytes_read \<le> 0 then Some (True, w1)
      else do {
        (ok, w2) \<leftarrow> send_all os client_fd (take (nat bytes_read) bs) w1;
        if ok then echo_file os client_fd fd w2 else Some (False, snd (sys_close os w2 fd))
      })"

section \<open>The seek command\<close>

text \<open>\<open>"AESDCHAR_IOCSEEKTO:"\<close>\<close>

definition seek_prefix :: "byte list" where
  "seek_prefix = [65, 69, 83, 68, 67, 72, 65, 82, 95, 73, 79, 67, 83, 69, 69, 75, 84, 79, 58]"

text \<open>
  \<open>strncmp(buf, s, strlen(s)) == 0\<close>: equal bytes up to the length of \<open>s\<close>; a byte is
  read only when all before it are equal.
\<close>

fun strncmp_eq :: "byte list \<Rightarrow> byte list \<Rightarrow> bool option" where
  "strncmp_eq buf [] = Some True"
| "strncmp_eq [] (c # s) = None"
| "strncmp_eq (b # buf) (c # s) = (if b = c then strncmp_eq buf s else Some False)"

definition isspace :: "byte \<Rightarrow> bool" where
  "isspace b \<longleftrightarrow> b = 32 \<or> (9 \<le> b \<and> b \<le> 13)"

definition isdigit :: "byte \<Rightarrow> bool" where
  "isdigit b \<longleftrightarrow> 48 \<le> b \<and> b \<le> 57"

text \<open>
  The scanning of \<open>%d\<close> in \<open>sscanf\<close>: white space is skipped, the newline included; then
  an optional sign and digits. The string ends at the first zero byte; a scan that
  reaches the end of the allocation has run past it. A number that is not an \<open>int\<close> is
  undefined. The inner option is no match.
\<close>

fun skip_space :: "byte list \<Rightarrow> byte list option" where
  "skip_space [] = None"
| "skip_space (b # bs) = (if isspace b then skip_space bs else Some (b # bs))"

fun scan_digits :: "nat \<Rightarrow> byte list \<Rightarrow> (nat \<times> byte list) option" where
  "scan_digits acc [] = None"
| "scan_digits acc (b # bs) =
     (if isdigit b then scan_digits (10 * acc + (unat b - 48)) bs else Some (acc, b # bs))"

definition scan_sign :: "byte list \<Rightarrow> int \<times> byte list" where
  "scan_sign bs =
     (case bs of b # rest \<Rightarrow> if b = 45 then (- 1, rest) else if b = 43 then (1, rest) else (1, bs)
      | [] \<Rightarrow> (1, bs))"

definition scan_int :: "byte list \<Rightarrow> (int \<times> byte list) option option" where
  "scan_int bs = do {
     bs1 \<leftarrow> skip_space bs;
     let (sg, bs2) = scan_sign bs1;
     (case bs2 of
        [] \<Rightarrow> None
      | b # _ \<Rightarrow>
          if \<not> isdigit b then Some None
          else do {
            (n, rest) \<leftarrow> scan_digits 0 bs2;
            let v = sg * int n;
            if - (2 ^ 31) \<le> v \<and> v < 2 ^ 31 then Some (Some (v, rest)) else None
          })
   }"

text \<open>
  \<open>sscanf(bs, "%d,%d", &x, &y) == 2\<close>, with the two values. The library asks for a string that a zero byte
  ends, which \<open>packet_buf\<close> need not be; here the bytes are read only as far as the scan goes, and it is
  undefined when it leaves the allocation.
\<close>

definition scan_pair :: "byte list \<Rightarrow> (int \<times> int) option option" where
  "scan_pair bs = do {
     r1 \<leftarrow> scan_int bs;
     (case r1 of
        None \<Rightarrow> Some None
      | Some (x, rest) \<Rightarrow>
          (case rest of
             [] \<Rightarrow> None
           | b # rest' \<Rightarrow>
               if b \<noteq> 44 then Some None
               else do {
                 r2 \<leftarrow> scan_int rest';
                 Some (map_option (\<lambda>(y, _). (x, y)) r2)
               }))
   }"

section \<open>A connection\<close>

record conn =
  packet_buf :: "byte list option"
  packet_len :: size_t
  packet_size :: size_t
  holds :: bool
  thread_complete_success :: bool

text \<open>Where the code goes on: the next byte, the next \<open>recv\<close>, \<open>client_done\<close>, \<open>exit\<close>.\<close>

datatype flow = Next_byte | Break_loop | Client_done | Exit int

definition mutex_lock' :: "'w os \<Rightarrow> conn \<Rightarrow> 'w \<Rightarrow> (conn \<times> 'w) option" where
  "mutex_lock' os c w = (if holds c then None else Some (c\<lparr>holds := True\<rparr>, sys_lock os w))"

definition mutex_unlock' :: "'w os \<Rightarrow> conn \<Rightarrow> 'w \<Rightarrow> (conn \<times> 'w) option" where
  "mutex_unlock' os c w = (if holds c then Some (c\<lparr>holds := False\<rparr>, sys_unlock os w) else None)"

text \<open>
  Growing the packet buffer: the bytes already there are kept, those after them are what
  the allocator returned. The boolean is false where the code goes to \<open>client_done\<close>.
\<close>

definition grow_packet :: "'w os \<Rightarrow> conn \<Rightarrow> 'w \<Rightarrow> bool \<times> conn \<times> 'w" where
  "grow_packet os c w =
     (if packet_size c < packet_len c + 1
      then let new_size = (if packet_size c \<noteq> 0 then packet_size c * 2 else 1024);
               (tmp, w1) = sys_realloc os w new_size
           in case tmp of
                None \<Rightarrow> (False, c\<lparr>packet_buf := None, packet_len := 0\<rparr>, w1)
              | Some fresh \<Rightarrow>
                  (let old = (case packet_buf c of None \<Rightarrow> [] | Some b \<Rightarrow> b)
                   in (True, c\<lparr>packet_buf := Some (take (unat new_size) old @ drop (length old) fresh),
                               packet_size := new_size\<rparr>, w1))
      else (True, c, w))"

text \<open>The branch of a seek command, once \<open>x\<close> and \<open>y\<close> are scanned.\<close>

definition handle_seek :: "'w os \<Rightarrow> int \<Rightarrow> int \<Rightarrow> int \<Rightarrow> conn \<Rightarrow> 'w \<Rightarrow> (flow \<times> conn \<times> 'w) option" where
  "handle_seek os client_fd x y c w = do {
     let seekto = \<lparr>write_cmd = of_int x, write_cmd_offset = of_int y\<rparr>;
     (c1, w1) \<leftarrow> mutex_lock' os c w;
     let (fd_ioctl, w2) = sys_open os w1 [O_RDWR];
     if fd_ioctl = - 1 then do { (c2, w3) \<leftarrow> mutex_unlock' os c1 w2; Some (Next_byte, c2, w3) }
     else do {
       let (r, w3) = sys_ioctl os w2 fd_ioctl AESDCHAR_IOCSEEKTO seekto;
       if r = - 1 then do { (c2, w4) \<leftarrow> mutex_unlock' os c1 w3; Some (Next_byte, c2, w4) }
       else do {
         (ok, w4) \<leftarrow> echo_file os client_fd fd_ioctl w3;
         if \<not> ok then do { (c2, w5) \<leftarrow> mutex_unlock' os c1 w4; Some (Exit 1, c2, w5) }
         else do {
           let (r2, w5) = sys_close os w4 fd_ioctl;
           (c2, w6) \<leftarrow> mutex_unlock' os c1 w5;
           Some (Next_byte, c2\<lparr>packet_len := 0\<rparr>, w6)
         }
       }
     }
   }"

text \<open>
  The branch that appends the packet to the file and echoes the file. \<open>None\<close> stands for the second unlock
  after a failed write as well as for a reply that never ends; \<open>Call_Unlock\<close> tells them apart.
\<close>

definition handle_data :: "'w os \<Rightarrow> int \<Rightarrow> byte list \<Rightarrow> conn \<Rightarrow> 'w \<Rightarrow> (flow \<times> conn \<times> 'w) option" where
  "handle_data os client_fd packet c w = do {
     (c1, w1) \<leftarrow> mutex_lock' os c w;
     let (fr, w2) = write_to_file os w1 packet;
     (c2, w3) \<leftarrow> (if fr = - 1 then mutex_unlock' os c1 w2 else Some (c1, w2));
     let (fd_send, w4) = sys_open os w3 [O_RDONLY];
     if fd_send = - 1 then do { (c3, w5) \<leftarrow> mutex_unlock' os c2 w4; Some (Break_loop, c3, w5) }
     else do {
       (ok, w5) \<leftarrow> echo_file os client_fd fd_send w4;
       if \<not> ok then Some (Exit 1, c2, w5)
       else do {
         let (r, w6) = sys_close os w5 fd_send;
         (c3, w7) \<leftarrow> mutex_unlock' os c2 w6;
         Some (Next_byte, c3\<lparr>packet_len := 0\<rparr>, w7)
       }
     }
   }"

definition handle_packet :: "bool \<Rightarrow> 'w os \<Rightarrow> int \<Rightarrow> conn \<Rightarrow> 'w \<Rightarrow> (flow \<times> conn \<times> 'w) option" where
  "handle_packet use_char os client_fd c w = do {
     b \<leftarrow> packet_buf c;
     let packet = take (unat (packet_len c)) b;
     cmd \<leftarrow> (if use_char
             then do {
               eq \<leftarrow> strncmp_eq b seek_prefix;
               if eq then scan_pair (drop (length seek_prefix) b) else Some None
             }
             else Some None);
     (case cmd of
        Some (x, y) \<Rightarrow> handle_seek os client_fd x y c w
      | None \<Rightarrow> handle_data os client_fd packet c w)
   }"

text \<open>The body of the loop over the received bytes.\<close>

definition process_byte :: "bool \<Rightarrow> 'w os \<Rightarrow> int \<Rightarrow> byte \<Rightarrow> conn \<Rightarrow> 'w \<Rightarrow> (flow \<times> conn \<times> 'w) option" where
  "process_byte use_char os client_fd ch c w =
     (let (ok, c1, w1) = grow_packet os c w
      in if \<not> ok then Some (Client_done, c1, w1)
      else do {
        b \<leftarrow> packet_buf c1;
        b' \<leftarrow> arr_set b (unat (packet_len c1)) ch;
        let c2 = c1\<lparr>packet_buf := Some b', packet_len := packet_len c1 + 1\<rparr>;
        if ch = newline then handle_packet use_char os client_fd c2 w1
        else Some (Next_byte, c2, w1)
      })"

fun bytes_loop :: "bool \<Rightarrow> 'w os \<Rightarrow> int \<Rightarrow> byte list \<Rightarrow> conn \<Rightarrow> 'w \<Rightarrow> (flow \<times> conn \<times> 'w) option" where
  "bytes_loop use_char os client_fd [] c w = Some (Next_byte, c, w)"
| "bytes_loop use_char os client_fd (ch # bs) c w = do {
     (fl, c1, w1) \<leftarrow> process_byte use_char os client_fd ch c w;
     (case fl of
        Next_byte \<Rightarrow> bytes_loop use_char os client_fd bs c1 w1
      | _ \<Rightarrow> Some (fl, c1, w1))
   }"

partial_function (option) recv_loop :: "bool \<Rightarrow> 'w os \<Rightarrow> int \<Rightarrow> conn \<Rightarrow> 'w \<Rightarrow> (flow \<times> conn \<times> 'w) option" where
  "recv_loop use_char os client_fd c w =
     (let (bytes_received, bs, w1) = sys_recv os w client_fd 1024
      in if bytes_received \<le> 0 then Some (Client_done, c, w1)
      else do {
        (fl, c1, w2) \<leftarrow> bytes_loop use_char os client_fd (take (nat bytes_received) bs) c w1;
        (case fl of
           Client_done \<Rightarrow> Some (fl, c1, w2)
         | Exit n \<Rightarrow> Some (fl, c1, w2)
         | _ \<Rightarrow> recv_loop use_char os client_fd c1 w2)
      })"

text \<open>\<open>client_done\<close>: the flag is set only where there is a packet buffer to free.\<close>

definition client_done :: "'w os \<Rightarrow> int \<Rightarrow> conn \<Rightarrow> 'w \<Rightarrow> conn \<times> 'w" where
  "client_done os client_fd c w =
     (let c1 = (if packet_buf c \<noteq> None
                then c\<lparr>packet_buf := None, packet_len := 0, packet_size := 0, thread_complete_success := True\<rparr>
                else c)
      in (c1, snd (sys_close os w client_fd)))"

definition new_conn :: conn where
  "new_conn = \<lparr>packet_buf = None, packet_len = 0, packet_size = 0, holds = False,
               thread_complete_success = False\<rparr>"

text \<open>A thread: it ends (\<open>Client_done\<close>) or ends the whole process (\<open>Exit\<close>).\<close>

definition handle_connection :: "bool \<Rightarrow> 'w os \<Rightarrow> int \<Rightarrow> 'w \<Rightarrow> (flow \<times> conn \<times> 'w) option" where
  "handle_connection use_char os client_fd w = do {
     (fl, c, w1) \<leftarrow> recv_loop use_char os client_fd new_conn w;
     (case fl of
        Exit n \<Rightarrow> Some (fl, c, w1)
      | _ \<Rightarrow> (let (c', w2) = client_done os client_fd c w1 in Some (Client_done, c', w2)))
   }"

text \<open>One round of the thread that logs the time; \<open>time_str\<close> is what \<open>strftime\<close> gave.\<close>

definition timestamp_round :: "'w os \<Rightarrow> byte list \<Rightarrow> conn \<Rightarrow> 'w \<Rightarrow> (conn \<times> 'w) option" where
  "timestamp_round os time_str c w = do {
     (c1, w1) \<leftarrow> mutex_lock' os c w;
     let (r, w2) = write_to_file os w1 time_str;
     mutex_unlock' os c1 w2
   }"

end
