(* ===== verification/Seek_Command.thy ===== *)
theory Seek_Command
  imports Aesd_Socket
begin

text \<open>
  The text of a seek command, \<^verbatim>\<open>AESDCHAR_IOCSEEKTO:X,Y\<close>: how \<open>strncmp\<close> and \<open>sscanf\<close> of
  \<^verbatim>\<open>server/aesdsocket.c\<close> recognise it and read it back, and the packets that are taken for one.
\<close>

section \<open>Scanning decimal numbers\<close>

text \<open>The command as a client writes it: decimal numbers without leading zeros.\<close>

fun decimal :: "nat \<Rightarrow> byte list" where
  "decimal n = (if n < 10 then [of_nat (48 + n)] else decimal (n div 10) @ [of_nat (48 + n mod 10)])"

declare decimal.simps [simp del]

lemma digit: "d < 10 \<Longrightarrow> isdigit (of_nat (48 + d)) \<and> unat (of_nat (48 + d) :: byte) = 48 + d"
proof -
  assume d: "d < 10"
  then have "unat (of_nat (48 + d) :: byte) = 48 + d" by (intro unat_of_nat_8) simp
  then show ?thesis using d by (simp only: isdigit_def word_le_nat_alt) simp
qed

lemma scan_digits_decimal:
  "\<exists>k. scan_digits acc (decimal n @ bs) = scan_digits (acc * 10 ^ k + n) bs"
proof (induction n arbitrary: acc bs rule: decimal.induct)
  case (1 n)
  show ?case
  proof (cases "n < 10")
    case True
    then have "scan_digits acc (decimal n @ bs) = scan_digits (acc * 10 ^ 1 + n) bs"
      using digit [OF True] by (simp add: decimal.simps [of n] mult.commute)
    then show ?thesis by blast
  next
    case False
    let ?d = "of_nat (48 + n mod 10) :: byte"
    obtain k where k: "scan_digits acc (decimal (n div 10) @ ?d # bs) =
        scan_digits (acc * 10 ^ k + n div 10) (?d # bs)"
      using 1 [OF False] by blast
    have "scan_digits (acc * 10 ^ k + n div 10) (?d # bs) =
        scan_digits (acc * 10 ^ Suc k + (10 * (n div 10) + n mod 10)) bs"
      using digit [of "n mod 10"] by (simp add: algebra_simps del: of_nat_add)
    then have "scan_digits acc (decimal n @ bs) = scan_digits (acc * 10 ^ Suc k + n) bs"
      using k False by (simp add: decimal.simps [of n])
    then show ?thesis by blast
  qed
qed

lemma decimal_head: "\<exists>d bs. d < 10 \<and> decimal n = of_nat (48 + d) # bs"
proof (induction n rule: decimal.induct)
  case (1 n)
  show ?case
  proof (cases "n < 10")
    case True
    then show ?thesis by (intro exI [of _ n] exI [of _ "[]"]) (simp add: decimal.simps)
  next
    case False
    from 1 [OF False] obtain d bs where "d < 10" "decimal (n div 10) = of_nat (48 + d) # bs" by blast
    then show ?thesis using False by (intro exI [of _ d]) (simp add: decimal.simps [of n])
  qed
qed

lemma digit_plain: "isdigit b \<Longrightarrow> \<not> isspace b \<and> b \<noteq> 45 \<and> b \<noteq> 43"
  by (auto simp: isdigit_def isspace_def word_le_nat_alt)

lemma scan_int_decimal:
  assumes "n < 2 ^ 31" "\<not> isdigit b"
  shows "scan_int (decimal n @ b # rest) = Some (Some (int n, b # rest))"
proof -
  obtain k where k: "scan_digits 0 (decimal n @ b # rest) = scan_digits (0 * 10 ^ k + n) (b # rest)"
    using scan_digits_decimal by blast
  obtain d bs where d: "d < 10" "decimal n = of_nat (48 + d) # bs" using decimal_head by blast
  note dig = digit [OF d(1)]
  note plain = digit_plain [OF conjunct1 [OF dig]]
  have "int n < 2 ^ 31" using assms(1) by (metis of_nat_less_numeral_power_cancel_iff)
  then show ?thesis
    using k assms(2) plain dig d(2) by (simp add: scan_int_def scan_sign_def del: of_nat_add)
qed

lemma scan_int_overflow:
  assumes "2 ^ 31 \<le> n"
  shows "scan_int (decimal n @ rest) = None"
proof -
  obtain k where k: "scan_digits 0 (decimal n @ rest) = scan_digits (0 * 10 ^ k + n) rest"
    using scan_digits_decimal by blast
  have mono: "scan_digits m bs = Some (m', r) \<Longrightarrow> m \<le> m'" for m m' bs r
    by (induction m bs rule: scan_digits.induct) (auto split: if_splits)
  obtain d bs where d: "d < 10" "decimal n = of_nat (48 + d) # bs" using decimal_head by blast
  note dig = digit [OF d(1)]
  note plain = digit_plain [OF conjunct1 [OF dig]]
  show ?thesis
  proof (cases "scan_digits n rest")
    case None
    then show ?thesis using k plain dig d(2) by (simp add: scan_int_def scan_sign_def del: of_nat_add)
  next
    case (Some r)
    then obtain m r' where m: "scan_digits n rest = Some (m, r')" "n \<le> m"
      using mono by (cases r) auto
    then have "(2 :: int) ^ 31 \<le> int m" using assms by (metis of_nat_le_iff of_nat_numeral of_nat_power order_trans)
    then show ?thesis using k m plain dig d(2) by (simp add: scan_int_def scan_sign_def del: of_nat_add)
  qed
qed

text \<open>The two numbers of a command, whatever stands in the buffer behind it.\<close>

lemma scan_pair_decimal:
  assumes "x < 2 ^ 31" "y < 2 ^ 31"
  shows "scan_pair ((decimal x @ 44 # decimal y @ [newline]) @ stale) = Some (Some (int x, int y))"
proof -
  have nd: "\<not> isdigit 44" "\<not> isdigit newline" by (simp_all add: isdigit_def word_le_nat_alt)
  show ?thesis
    using scan_int_decimal [OF assms(1) nd(1), of "decimal y @ newline # stale"]
      scan_int_decimal [OF assms(2) nd(2), of stale]
    by (simp add: scan_pair_def)
qed

section \<open>Packets that are commands\<close>

lemma strncmp_eq_take:
  "length s \<le> length b \<Longrightarrow> strncmp_eq b s = Some (take (length s) b = s)"
  by (induction b s rule: strncmp_eq.induct) auto

definition seek_packet :: "byte list \<Rightarrow> bool" where
  "seek_packet p \<longleftrightarrow> take (length seek_prefix) p = seek_prefix"

text \<open>A command with numbers that \<open>%d\<close> can hold, and the numbers of a packet.\<close>

definition seek_cmd :: "nat \<Rightarrow> nat \<Rightarrow> byte list" where
  "seek_cmd x y = seek_prefix @ decimal x @ 44 # decimal y @ [newline]"

definition command :: "byte list \<Rightarrow> bool" where
  "command p \<longleftrightarrow> (\<exists>x y. x < 2 ^ 31 \<and> y < 2 ^ 31 \<and> p = seek_cmd x y)"

definition seek_args :: "byte list \<Rightarrow> (nat \<times> nat) option" where
  "seek_args p =
     (if seek_packet p
      then case scan_pair (drop (length seek_prefix) p) of
             Some (Some (x, y)) \<Rightarrow> Some (nat x, nat y)
           | _ \<Rightarrow> None
      else None)"

lemma seek_packet_prefix: "seek_packet (seek_prefix @ bs)"
  by (simp add: seek_packet_def)

lemma seek_args_cmd: "x < 2 ^ 31 \<Longrightarrow> y < 2 ^ 31 \<Longrightarrow> seek_args (seek_cmd x y) = Some (x, y)"
  using scan_pair_decimal [of x y "[]"]
  by (simp add: seek_args_def seek_cmd_def seek_packet_prefix)

lemma seek_args_plain: "\<not> seek_packet p \<Longrightarrow> seek_args p = None"
  by (simp add: seek_args_def)

end
