(* ===== verification/Socket_Serving.thy ===== *)
theory Socket_Serving
  imports Seek_Command
begin

text \<open>
  A connection when the operating system serves it: the documented behaviour of the calls
  the server makes, seen through a view of the system state, and what a connection thread
  then does. The data file is abstract: what a write makes of it (\<open>v_append\<close>) and the
  bytes a reader gets (\<open>v_bytes\<close>), so that the plain file and the char device both fit.
\<close>

section \<open>The packet buffer\<close>

definition pending :: "conn \<Rightarrow> byte list" where
  "pending c = (case packet_buf c of None \<Rightarrow> [] | Some b \<Rightarrow> take (unat (packet_len c)) b)"

text \<open>No allocation has more than \<open>2 ^ 47\<close> bytes, the size of the address space.\<close>

definition conn_ok :: "conn \<Rightarrow> bool" where
  "conn_ok c \<longleftrightarrow>
     (case packet_buf c of None \<Rightarrow> packet_len c = 0 \<and> packet_size c = 0
      | Some b \<Rightarrow> length b = unat (packet_size c) \<and> 1024 \<le> length b) \<and>
     unat (packet_len c) \<le> unat (packet_size c) \<and> unat (packet_size c) \<le> 2 ^ 47"

definition realloc_ok :: "'w os \<Rightarrow> bool" where
  "realloc_ok os \<longleftrightarrow>
     (\<forall>w n fresh w'. sys_realloc os w n = (Some fresh, w') \<longrightarrow> length fresh = unat n \<and> unat n \<le> 2 ^ 47)"

lemma new_conn_ok: "conn_ok new_conn" "pending new_conn = []" "\<not> holds new_conn"
  by (simp_all add: conn_ok_def new_conn_def pending_def)

lemma length_pending: "conn_ok c \<Longrightarrow> length (pending c) = unat (packet_len c)"
  by (auto simp: conn_ok_def pending_def split: option.splits)

text \<open>The size asked for is never 0 and the doubling does not wrap.\<close>

lemma new_size_bounds:
  assumes "conn_ok c" "packet_size c < packet_len c + 1"
  shows "packet_len c = packet_size c"
    "unat (if packet_size c \<noteq> 0 then packet_size c * 2 else 1024) =
       (if packet_buf c = None then 1024 else 2 * unat (packet_len c))"
    "packet_buf c = None \<longleftrightarrow> packet_size c = 0"
proof -
  have l: "unat (packet_len c) \<le> unat (packet_size c)" "unat (packet_size c) \<le> 2 ^ 47"
    using assms(1) by (simp_all add: conn_ok_def)
  have "unat (packet_len c + 1) = unat (packet_len c) + 1"
    using unat_plus_64 [of "packet_len c" 1] l by simp
  then have "unat (packet_size c) = unat (packet_len c)"
    using assms(2) l by (simp add: word_less_nat_alt)
  then show eq: "packet_len c = packet_size c" by (simp add: word_unat_eq_iff)
  have "unat (packet_size c * 2) = unat (packet_size c) * 2"
    using l(2) by (simp add: unat_word_ariths)
  moreover show "packet_buf c = None \<longleftrightarrow> packet_size c = 0"
    using assms(1) by (auto simp: conn_ok_def split: option.splits)
  ultimately show "unat (if packet_size c \<noteq> 0 then packet_size c * 2 else 1024) =
       (if packet_buf c = None then 1024 else 2 * unat (packet_len c))"
    using eq by simp
qed

lemma grow_packet_ok:
  assumes "conn_ok c" "realloc_ok os" and g: "grow_packet os c w = (ok, c1, w1)" and ok: "ok"
  shows "conn_ok c1" "pending c1 = pending c" "unat (packet_len c1) < unat (packet_size c1)"
    "packet_buf c1 \<noteq> None" "packet_len c1 = packet_len c" "holds c1 = holds c"
    "thread_complete_success c1 = thread_complete_success c"
proof -
  have all: "conn_ok c1 \<and> pending c1 = pending c \<and> unat (packet_len c1) < unat (packet_size c1) \<and>
    packet_buf c1 \<noteq> None \<and> packet_len c1 = packet_len c \<and> holds c1 = holds c \<and>
    thread_complete_success c1 = thread_complete_success c"
  proof (cases "packet_size c < packet_len c + 1")
    case False
    have l: "unat (packet_len c) \<le> unat (packet_size c)" "unat (packet_size c) \<le> 2 ^ 47"
      using assms(1) by (simp_all add: conn_ok_def)
    have "unat (packet_len c + 1) = unat (packet_len c) + 1"
      using unat_plus_64 [of "packet_len c" 1] l by simp
    then have "unat (packet_len c) < unat (packet_size c)"
      using False by (simp add: word_less_nat_alt)
    then show ?thesis using g False assms(1)
      by (auto simp: grow_packet_def conn_ok_def split: option.splits)
  next
    case True
    let ?n = "if packet_size c \<noteq> 0 then packet_size c * 2 else 1024 :: size_t"
    note n = new_size_bounds [OF assms(1) True]
    obtain fresh where re: "sys_realloc os w ?n = (Some fresh, w1)"
      and c1: "c1 = c\<lparr>packet_buf := Some (take (unat ?n) (case packet_buf c of None \<Rightarrow> [] | Some b \<Rightarrow> b)
          @ drop (length (case packet_buf c of None \<Rightarrow> [] | Some b \<Rightarrow> b)) fresh), packet_size := ?n\<rparr>"
      using g ok True by (auto simp: grow_packet_def Let_def split: prod.splits option.splits)
    have f: "length fresh = unat ?n" "unat ?n \<le> 2 ^ 47"
      using assms(2) re unfolding realloc_ok_def by blast+
    show ?thesis
    proof (cases "packet_buf c")
      case None
      then have "packet_size c = 0" "packet_len c = 0" using assms(1) by (simp_all add: conn_ok_def)
      with None c1 f n(2) show ?thesis by (simp add: conn_ok_def pending_def)
    next
      case (Some b)
      then have "length b = unat (packet_len c)" "1024 \<le> length b"
        using assms(1) n(1) by (simp_all add: conn_ok_def)
      with Some c1 f n(2) show ?thesis by (simp add: conn_ok_def pending_def)
    qed
  qed
  then show "conn_ok c1" "pending c1 = pending c" "unat (packet_len c1) < unat (packet_size c1)"
    "packet_buf c1 \<noteq> None" "packet_len c1 = packet_len c" "holds c1 = holds c"
    "thread_complete_success c1 = thread_complete_success c" by blast+
qed

text \<open>One more byte in the packet.\<close>

definition put_byte :: "conn \<Rightarrow> byte \<Rightarrow> conn" where
  "put_byte c ch =
     (case packet_buf c of None \<Rightarrow> c
      | Some b \<Rightarrow> c\<lparr>packet_buf := Some (b[unat (packet_len c) := ch]), packet_len := packet_len c + 1\<rparr>)"

lemma put_byte_ok:
  assumes "conn_ok c" "unat (packet_len c) < unat (packet_size c)" "packet_buf c \<noteq> None"
  shows "conn_ok (put_byte c ch)" "pending (put_byte c ch) = pending c @ [ch]"
    "holds (put_byte c ch) = holds c" "packet_buf (put_byte c ch) \<noteq> None"
    "thread_complete_success (put_byte c ch) = thread_complete_success c"
proof -
  obtain b where b: "packet_buf c = Some b" using assms(3) by blast
  have l: "length b = unat (packet_size c)" "unat (packet_size c) \<le> 2 ^ 47"
    using assms(1) b by (simp_all add: conn_ok_def)
  have "unat (packet_len c + 1) = unat (packet_len c) + 1"
    using unat_plus_64 [of "packet_len c" 1] l assms(2) by simp
  with b l assms show "conn_ok (put_byte c ch)" "pending (put_byte c ch) = pending c @ [ch]"
    "holds (put_byte c ch) = holds c" "packet_buf (put_byte c ch) \<noteq> None"
    "thread_complete_success (put_byte c ch) = thread_complete_success c"
    by (simp_all add: put_byte_def conn_ok_def pending_def take_Suc_conv_app_nth take_update_cancel)
qed

lemma process_byte_put:
  assumes "conn_ok c" "realloc_ok os" and g: "grow_packet os c w = (True, c1, w1)"
  shows "conn_ok (put_byte c1 ch)" "pending (put_byte c1 ch) = pending c @ [ch]"
    "holds (put_byte c1 ch) = holds c" "packet_buf (put_byte c1 ch) \<noteq> None"
    "process_byte use_char os fd ch c w =
      (if ch = newline then handle_packet use_char os fd (put_byte c1 ch) w1
       else Some (Next_byte, put_byte c1 ch, w1))"
proof -
  note ok = grow_packet_ok [OF assms TrueI]
  obtain b where b: "packet_buf c1 = Some b" using ok(4) by blast
  then have "length b = unat (packet_size c1)" using ok(1) by (simp add: conn_ok_def)
  then show "process_byte use_char os fd ch c w =
      (if ch = newline then handle_packet use_char os fd (put_byte c1 ch) w1
       else Some (Next_byte, put_byte c1 ch, w1))"
    using g b ok(3) by (simp add: process_byte_def put_byte_def)
  show "conn_ok (put_byte c1 ch)" "pending (put_byte c1 ch) = pending c @ [ch]"
    "holds (put_byte c1 ch) = holds c" "packet_buf (put_byte c1 ch) \<noteq> None"
    using put_byte_ok [OF ok(1,3,4)] ok(2,6) by simp_all
qed

lemma process_byte_full:
  "grow_packet os c w = (False, c1, w1) \<Longrightarrow> process_byte use_char os fd ch c w = Some (Client_done, c1, w1)"
  by (simp add: process_byte_def)

section \<open>An operating system that serves\<close>

text \<open>
  The view: whether the system is in a good state, what the client has still to send and
  what it was sent, the file, which descriptors are open and what reading them will give.
\<close>

record ('w, 'f) view =
  v_ok :: "'w \<Rightarrow> bool"
  v_input :: "'w \<Rightarrow> byte list"
  v_sent :: "'w \<Rightarrow> byte list"
  v_store :: "'w \<Rightarrow> 'f"
  v_open :: "'w \<Rightarrow> int \<Rightarrow> bool"
  v_rest :: "'w \<Rightarrow> int \<Rightarrow> byte list"
  v_append :: "'f \<Rightarrow> byte list \<Rightarrow> 'f"
  v_bytes :: "'f \<Rightarrow> byte list"
  v_max :: nat

definition unchanged :: "('w, 'f) view \<Rightarrow> 'w \<Rightarrow> 'w \<Rightarrow> bool" where
  "unchanged V w w' \<longleftrightarrow>
     v_ok V w' \<and> v_input V w' = v_input V w \<and> v_sent V w' = v_sent V w \<and> v_store V w' = v_store V w"

definition packet :: "byte list \<Rightarrow> bool" where
  "packet p \<longleftrightarrow> (\<exists>xs. p = xs @ [newline] \<and> newline \<notin> set xs)"

text \<open>
  The documented behaviour of the calls while nothing fails: a write takes all of its
  bytes, \<open>send\<close> and \<open>recv\<close> move at least one byte and \<open>recv\<close> gives 0 when the client
  has finished, a read gives the next bytes and none only at the end.
\<close>

definition serves_open :: "'w os \<Rightarrow> ('w, 'f) view \<Rightarrow> bool" where
  "serves_open os V \<longleftrightarrow> (\<forall>w flags. v_ok V w \<longrightarrow>
     (\<exists>fd w'. sys_open os w flags = (fd, w') \<and> fd \<noteq> - 1 \<and> unchanged V w w' \<and>
        v_open V w' fd \<and> v_rest V w' fd = v_bytes V (v_store V w)))"

definition serves_write :: "'w os \<Rightarrow> ('w, 'f) view \<Rightarrow> bool" where
  "serves_write os V \<longleftrightarrow> (\<forall>w fd p. v_ok V w \<longrightarrow> v_open V w fd \<longrightarrow> packet p \<longrightarrow> length p \<le> v_max V \<longrightarrow>
     (\<exists>w'. sys_write os w fd p = (int (length p), w') \<and> v_ok V w' \<and> v_open V w' fd \<and>
        v_input V w' = v_input V w \<and> v_sent V w' = v_sent V w \<and>
        v_store V w' = v_append V (v_store V w) p))"

definition serves_fsync :: "'w os \<Rightarrow> ('w, 'f) view \<Rightarrow> bool" where
  "serves_fsync os V \<longleftrightarrow> (\<forall>w fd. v_ok V w \<longrightarrow> v_open V w fd \<longrightarrow>
     (\<exists>w'. sys_fsync os w fd = (0, w') \<and> unchanged V w w' \<and> v_open V w' fd))"

definition serves_close :: "'w os \<Rightarrow> ('w, 'f) view \<Rightarrow> bool" where
  "serves_close os V \<longleftrightarrow> (\<forall>w fd. v_ok V w \<longrightarrow> v_open V w fd \<longrightarrow>
     (\<exists>w'. sys_close os w fd = (0, w') \<and> unchanged V w w'))"

definition serves_read :: "'w os \<Rightarrow> ('w, 'f) view \<Rightarrow> bool" where
  "serves_read os V \<longleftrightarrow> (\<forall>w fd n. v_ok V w \<longrightarrow> v_open V w fd \<longrightarrow> 0 < n \<longrightarrow>
     (\<exists>bs w'. sys_read os w fd n = (int (length bs), bs, w') \<and> unchanged V w w' \<and> v_open V w' fd \<and>
        v_rest V w fd = bs @ v_rest V w' fd \<and> (bs = [] \<longrightarrow> v_rest V w fd = [])))"

definition serves_send :: "'w os \<Rightarrow> ('w, 'f) view \<Rightarrow> int \<Rightarrow> bool" where
  "serves_send os V cfd \<longleftrightarrow> (\<forall>w bs. v_ok V w \<longrightarrow> bs \<noteq> [] \<longrightarrow>
     (\<exists>k w'. sys_send os w cfd bs = (int k, w') \<and> 0 < k \<and> k \<le> length bs \<and>
        v_ok V w' \<and> v_sent V w' = v_sent V w @ take k bs \<and> v_input V w' = v_input V w \<and>
        v_store V w' = v_store V w \<and>
        (\<forall>fd. v_open V w fd \<longrightarrow> v_open V w' fd \<and> v_rest V w' fd = v_rest V w fd)))"

definition serves_recv :: "'w os \<Rightarrow> ('w, 'f) view \<Rightarrow> int \<Rightarrow> bool" where
  "serves_recv os V cfd \<longleftrightarrow> (\<forall>w n. v_ok V w \<longrightarrow> 0 < n \<longrightarrow>
     (\<exists>bs w'. sys_recv os w cfd n = (int (length bs), bs, w') \<and> length bs \<le> n \<and>
        v_ok V w' \<and> v_input V w = bs @ v_input V w' \<and> (bs = [] \<longrightarrow> v_input V w = []) \<and>
        v_sent V w' = v_sent V w \<and> v_store V w' = v_store V w))"

definition serves_hangup :: "'w os \<Rightarrow> ('w, 'f) view \<Rightarrow> int \<Rightarrow> bool" where
  "serves_hangup os V cfd \<longleftrightarrow> (\<forall>w. v_ok V w \<longrightarrow> unchanged V w (snd (sys_close os w cfd)))"

definition serves_memory :: "'w os \<Rightarrow> ('w, 'f) view \<Rightarrow> bool" where
  "serves_memory os V \<longleftrightarrow> realloc_ok os \<and> v_max V < 2 ^ 40 \<and>
     (\<forall>w n. v_ok V w \<longrightarrow> unat n \<le> 2 * v_max V + 1024 \<longrightarrow>
        (\<exists>fresh w'. sys_realloc os w n = (Some fresh, w') \<and> unchanged V w w'))"

definition serves_mutex :: "'w os \<Rightarrow> ('w, 'f) view \<Rightarrow> bool" where
  "serves_mutex os V \<longleftrightarrow>
     (\<forall>w. v_ok V w \<longrightarrow> unchanged V w (sys_lock os w) \<and> unchanged V w (sys_unlock os w))"

definition os_serves :: "'w os \<Rightarrow> ('w, 'f) view \<Rightarrow> int \<Rightarrow> bool" where
  "os_serves os V cfd \<longleftrightarrow>
     serves_open os V \<and> serves_write os V \<and> serves_fsync os V \<and> serves_close os V \<and> serves_read os V \<and>
     serves_send os V cfd \<and> serves_recv os V cfd \<and> serves_hangup os V cfd \<and>
     serves_memory os V \<and> serves_mutex os V"

section \<open>The loops\<close>

text \<open>What sending leaves alone.\<close>

definition sends :: "('w, 'f) view \<Rightarrow> byte list \<Rightarrow> 'w \<Rightarrow> 'w \<Rightarrow> bool" where
  "sends V bs w w' \<longleftrightarrow>
     v_ok V w' \<and> v_sent V w' = v_sent V w @ bs \<and> v_input V w' = v_input V w \<and> v_store V w' = v_store V w"

lemma sends_simps: "unchanged V w w' \<longleftrightarrow> sends V [] w w'"
  by (auto simp: unchanged_def sends_def)

lemma sends_trans: "sends V bs w w' \<Longrightarrow> sends V cs w' w'' \<Longrightarrow> sends V (bs @ cs) w w''"
  by (simp add: sends_def)

lemma sends_ok: "sends V bs w w' \<Longrightarrow> v_ok V w'"
  by (simp add: sends_def)

lemma send_all_serves:
  assumes "serves_send os V cfd"
  shows "v_ok V w \<Longrightarrow> \<exists>w'. send_all os cfd bs w = Some (True, w') \<and> sends V bs w w' \<and>
     (\<forall>fd. v_open V w fd \<longrightarrow> v_open V w' fd \<and> v_rest V w' fd = v_rest V w fd)"
proof (induction "length bs" arbitrary: bs w rule: less_induct)
  case less
  show ?case
  proof (cases "bs = []")
    case True
    then show ?thesis using less.prems by (simp add: send_all.simps sends_def)
  next
    case False
    obtain k w1 where s: "sys_send os w cfd bs = (int k, w1)" "0 < k" "k \<le> length bs"
      "sends V (take k bs) w w1"
      and fds: "\<forall>fd. v_open V w fd \<longrightarrow> v_open V w1 fd \<and> v_rest V w1 fd = v_rest V w fd"
      using assms less.prems False unfolding serves_send_def sends_def by blast
    have "length (drop k bs) < length bs" using s False by simp
    from less.hyps [OF this sends_ok [OF s(4)]] obtain w2 where
      r: "send_all os cfd (drop k bs) w1 = Some (True, w2)" "sends V (drop k bs) w1 w2"
        "\<forall>fd. v_open V w1 fd \<longrightarrow> v_open V w2 fd \<and> v_rest V w2 fd = v_rest V w1 fd" by blast
    have "send_all os cfd bs w = Some (True, w2)"
      using False s r(1) by (simp add: send_all.simps [of os cfd bs])
    then show ?thesis using sends_trans [OF s(4) r(2)] fds r(3) by auto
  qed
qed

lemma echo_file_serves:
  assumes R: "serves_read os V" and S: "serves_send os V cfd"
  shows "v_ok V w \<Longrightarrow> v_open V w fd \<Longrightarrow>
     \<exists>w'. echo_file os cfd fd w = Some (True, w') \<and> sends V (v_rest V w fd) w w' \<and> v_open V w' fd"
proof (induction "length (v_rest V w fd)" arbitrary: w rule: less_induct)
  case less
  have "0 < FILE_BUF_SIZE" by (simp add: FILE_BUF_SIZE_def)
  then obtain bs w1 where rd: "sys_read os w fd FILE_BUF_SIZE = (int (length bs), bs, w1)"
    and u: "unchanged V w w1" "v_open V w1 fd"
    and rest: "v_rest V w fd = bs @ v_rest V w1 fd" "bs = [] \<longrightarrow> v_rest V w fd = []"
    using R less.prems unfolding serves_read_def by blast
  show ?case
  proof (cases "bs = []")
    case True
    then have "echo_file os cfd fd w = Some (True, w1)"
      using rd by (simp add: echo_file.simps [of os cfd fd w])
    then show ?thesis using True u rest by (simp add: sends_simps)
  next
    case False
    have ok1: "v_ok V w1" using u(1) by (simp add: unchanged_def)
    obtain w2 where s: "send_all os cfd bs w1 = Some (True, w2)" "sends V bs w1 w2"
      "v_open V w2 fd" "v_rest V w2 fd = v_rest V w1 fd"
      using send_all_serves [OF S ok1, of bs] u(2) by auto
    have "length (v_rest V w2 fd) < length (v_rest V w fd)" using rest(1) s(4) False by simp
    from less.hyps [OF this sends_ok [OF s(2)] s(3)] obtain w3 where
      r: "echo_file os cfd fd w2 = Some (True, w3)" "sends V (v_rest V w2 fd) w2 w3" "v_open V w3 fd"
      by blast
    have "echo_file os cfd fd w = Some (True, w3)"
      using rd False s(1) r(1) by (simp add: echo_file.simps [of os cfd fd w])
    moreover have "sends V ([] @ bs @ v_rest V w2 fd) w w3"
      using u(1) s(2) r(2) sends_trans unfolding sends_simps by metis
    ultimately show ?thesis using rest(1) s(4) r(3) by simp
  qed
qed

lemma write_to_file_serves:
  assumes O: "serves_open os V" and W: "serves_write os V" and F: "serves_fsync os V" and C: "serves_close os V"
    and w: "v_ok V w" "packet p" "length p \<le> v_max V"
  shows "\<exists>w'. write_to_file os w p = (0, w') \<and> v_ok V w' \<and> v_input V w' = v_input V w \<and>
     v_sent V w' = v_sent V w \<and> v_store V w' = v_append V (v_store V w) p"
proof -
  obtain fd w1 where o: "sys_open os w [O_RDWR, O_CREAT, O_APPEND] = (fd, w1)" "fd \<noteq> - 1"
    and u1: "unchanged V w w1" "v_open V w1 fd"
    using O w(1) unfolding serves_open_def by blast
  have "v_ok V w1" using u1 by (simp add: unchanged_def)
  then obtain w2 where wr: "sys_write os w1 fd p = (int (length p), w2)" "v_ok V w2" "v_open V w2 fd"
    "v_input V w2 = v_input V w1" "v_sent V w2 = v_sent V w1"
    "v_store V w2 = v_append V (v_store V w1) p"
    using W w(2,3) u1(2) unfolding serves_write_def by blast
  obtain w3 where fs: "sys_fsync os w2 fd = (0, w3)" and u3: "unchanged V w2 w3" "v_open V w3 fd"
    using F wr(2,3) unfolding serves_fsync_def by blast
  have "v_ok V w3" using u3 by (simp add: unchanged_def)
  then obtain w4 where cl: "sys_close os w3 fd = (0, w4)" and u4: "unchanged V w3 w4"
    using C u3(2) unfolding serves_close_def by blast
  have "write_to_file os w p = (0, w4)"
    using o wr(1) fs cl by (simp add: write_to_file_def)
  then show ?thesis using u1(1) wr u3(1) u4 by (simp add: unchanged_def)
qed

section \<open>One packet\<close>

lemma handle_data_serves:
  assumes os: "os_serves os V cfd" and w: "v_ok V w" and p: "packet p" "length p \<le> v_max V"
    and c: "\<not> holds c"
  shows "\<exists>w'. handle_data os cfd p c w = Some (Next_byte, c\<lparr>packet_len := 0\<rparr>, w') \<and>
     v_ok V w' \<and> v_input V w' = v_input V w \<and> v_store V w' = v_append V (v_store V w) p \<and>
     v_sent V w' = v_sent V w @ v_bytes V (v_store V w')"
proof -
  have O: "serves_open os V" and W: "serves_write os V" and F: "serves_fsync os V" and C: "serves_close os V"
    and R: "serves_read os V" and S: "serves_send os V cfd" and M: "serves_mutex os V"
    using os by (simp_all add: os_serves_def)
  let ?w1 = "sys_lock os w"
  have u1: "unchanged V w ?w1" using M w by (simp add: serves_mutex_def)
  then have ok1: "v_ok V ?w1" by (simp add: unchanged_def)
  obtain w2 where wr: "write_to_file os ?w1 p = (0, w2)" and ok2: "v_ok V w2"
    and v2: "v_input V w2 = v_input V ?w1" "v_sent V w2 = v_sent V ?w1"
      "v_store V w2 = v_append V (v_store V ?w1) p"
    using write_to_file_serves [OF O W F C ok1 p] by blast
  obtain fd w4 where o: "sys_open os w2 [O_RDONLY] = (fd, w4)" "fd \<noteq> - 1" and u4: "unchanged V w2 w4"
    and fd: "v_open V w4 fd" "v_rest V w4 fd = v_bytes V (v_store V w2)"
    using O ok2 unfolding serves_open_def by blast
  have ok4: "v_ok V w4" using u4 by (simp add: unchanged_def)
  obtain w5 where e: "echo_file os cfd fd w4 = Some (True, w5)" and s5: "sends V (v_rest V w4 fd) w4 w5"
    and fd5: "v_open V w5 fd"
    using echo_file_serves [OF R S ok4 fd(1)] by blast
  obtain w6 where cl: "sys_close os w5 fd = (0, w6)" and u6: "unchanged V w5 w6"
    using C sends_ok [OF s5] fd5 unfolding serves_close_def by blast
  have "v_ok V w6" using u6 by (simp add: unchanged_def)
  then have u7: "unchanged V w6 (sys_unlock os w6)" using M by (simp add: serves_mutex_def)
  have cc: "c\<lparr>packet_len := 0, holds := False\<rparr> = c\<lparr>packet_len := 0\<rparr>" using c by (cases c) simp
  have "handle_data os cfd p c w = Some (Next_byte, c\<lparr>packet_len := 0\<rparr>, sys_unlock os w6)"
    using c wr o e cl cc by (simp add: handle_data_def mutex_lock'_def mutex_unlock'_def)
  moreover have "v_ok V (sys_unlock os w6) \<and> v_input V (sys_unlock os w6) = v_input V w \<and>
      v_store V (sys_unlock os w6) = v_append V (v_store V w) p \<and>
      v_sent V (sys_unlock os w6) = v_sent V w @ v_bytes V (v_store V (sys_unlock os w6))"
    using u1 v2 u4 s5 u6 u7 fd(2) by (simp add: unchanged_def sends_def)
  ultimately show ?thesis by blast
qed

text \<open>Stale bytes after a packet cannot complete the prefix, since a packet ends with a newline.\<close>

lemma seek_packet_take:
  assumes "packet (take n b)" "n \<le> length b" "take (length seek_prefix) b = seek_prefix"
  shows "seek_packet (take n b)"
proof (cases "length seek_prefix \<le> n")
  case True
  then show ?thesis using assms by (simp add: seek_packet_def min_def)
next
  case False
  obtain xs where xs: "take n b = xs @ [newline]" using assms(1) by (auto simp: packet_def)
  have "take n seek_prefix = take n (take (length seek_prefix) b)" using assms(3) by simp
  also have "\<dots> = take n b" using False by (simp add: min_def)
  finally have "newline \<in> set (take n seek_prefix)" by (simp add: xs)
  then have "newline \<in> set seek_prefix" by (meson in_set_takeD)
  then show ?thesis by (simp add: seek_prefix_def)
qed

lemma handle_packet_data:
  assumes "conn_ok c" "packet (pending c)" "use_char \<longrightarrow> \<not> seek_packet (pending c)"
  shows "handle_packet use_char os cfd c w = handle_data os cfd (pending c) c w"
proof -
  obtain b where b: "packet_buf c = Some b" and p: "pending c = take (unat (packet_len c)) b"
    using assms(2) by (cases "packet_buf c") (auto simp: pending_def packet_def)
  have l: "1024 \<le> length b" "unat (packet_len c) \<le> length b" using assms(1) b by (simp_all add: conn_ok_def)
  have "length seek_prefix \<le> length b" using l(1) by (simp add: seek_prefix_def)
  note cmp = strncmp_eq_take [OF this]
  show ?thesis
  proof (cases use_char)
    case True
    then have "take (length seek_prefix) b \<noteq> seek_prefix"
      using assms seek_packet_take [of "unat (packet_len c)" b] p l by auto
    then show ?thesis using True b p cmp by (simp add: handle_packet_def)
  qed (simp add: handle_packet_def b p)
qed

lemma handle_packet_seek:
  assumes "conn_ok c" "pending c = seek_prefix @ cmd @ later" "\<And>s. scan_pair (cmd @ s) = Some (Some (x, y))"
  shows "handle_packet True os cfd c w = handle_seek os cfd x y c w"
proof -
  obtain b where b: "packet_buf c = Some b" and p: "pending c = take (unat (packet_len c)) b"
    using assms(2) by (cases "packet_buf c") (auto simp: pending_def seek_prefix_def)
  have bs: "b = seek_prefix @ cmd @ later @ drop (unat (packet_len c)) b"
    using p assms(2) by (metis append.assoc append_take_drop_id)
  then have "length seek_prefix \<le> length b" "take (length seek_prefix) b = seek_prefix"
    by (metis append_eq_conv_conj le_add1 length_append)+
  moreover have "scan_pair (drop (length seek_prefix) b) = Some (Some (x, y))"
    using assms(3) bs by (metis append_eq_conv_conj)
  ultimately show ?thesis using b strncmp_eq_take [of seek_prefix b]
    by (simp add: handle_packet_def)
qed

text \<open>
  What \<open>ioctl\<close> with a seek does on a system that serves: it moves the reader to the byte
  that \<open>sk\<close> gives for the file and the two numbers, or refuses where there is none.
\<close>

definition serves_seek :: "'w os \<Rightarrow> ('w, 'f) view \<Rightarrow> ('f \<Rightarrow> nat \<Rightarrow> nat \<Rightarrow> nat option) \<Rightarrow> bool" where
  "serves_seek os V sk \<longleftrightarrow> (\<forall>w fd to. v_ok V w \<longrightarrow> v_open V w fd \<longrightarrow>
     (\<exists>r w'. sys_ioctl os w fd AESDCHAR_IOCSEEKTO to = (r, w') \<and> unchanged V w w' \<and>
        (case sk (v_store V w) (unat (write_cmd to)) (unat (write_cmd_offset to)) of
           None \<Rightarrow> r = - 1
         | Some p \<Rightarrow> r \<noteq> - 1 \<and> v_open V w' fd \<and> v_rest V w' fd = drop p (v_bytes V (v_store V w)))))"

lemma unat_of_int_32: "x < 2 ^ 31 \<Longrightarrow> unat (of_int (int x) :: uint32) = x"
  by (simp add: unat_of_nat take_bit_nat_eq_self)

lemma handle_seek_serves:
  assumes os: "os_serves os V cfd" and seek: "serves_seek os V sk" and w: "v_ok V w"
    and c: "\<not> holds c" and xy: "x < 2 ^ 31" "y < 2 ^ 31"
  shows "\<exists>w'. handle_seek os cfd (int x) (int y) c w =
       Some (Next_byte, if sk (v_store V w) x y = None then c else c\<lparr>packet_len := 0\<rparr>, w') \<and>
     v_ok V w' \<and> v_input V w' = v_input V w \<and> v_store V w' = v_store V w \<and>
     v_sent V w' = v_sent V w @
       (case sk (v_store V w) x y of None \<Rightarrow> [] | Some p \<Rightarrow> drop p (v_bytes V (v_store V w)))"
proof -
  have O: "serves_open os V" and C: "serves_close os V" and R: "serves_read os V"
    and S: "serves_send os V cfd" and M: "serves_mutex os V"
    using os by (simp_all add: os_serves_def)
  let ?to = "\<lparr>write_cmd = of_int (int x), write_cmd_offset = of_int (int y)\<rparr> :: aesd_seekto"
  let ?w1 = "sys_lock os w"
  have u1: "unchanged V w ?w1" using M w by (simp add: serves_mutex_def)
  then have ok1: "v_ok V ?w1" by (simp add: unchanged_def)
  obtain fd w2 where o: "sys_open os ?w1 [O_RDWR] = (fd, w2)" "fd \<noteq> - 1" "unchanged V ?w1 w2" "v_open V w2 fd"
    using O ok1 unfolding serves_open_def by blast
  then have ok2: "v_ok V w2" and st2: "v_store V w2 = v_store V w" using u1 by (simp_all add: unchanged_def)
  have args: "unat (write_cmd ?to) = x" "unat (write_cmd_offset ?to) = y"
    using unat_of_int_32 [OF xy(1)] unat_of_int_32 [OF xy(2)] by simp_all
  obtain r w3 where i: "sys_ioctl os w2 fd AESDCHAR_IOCSEEKTO ?to = (r, w3)" and u3: "unchanged V w2 w3"
    and fd3: "case sk (v_store V w2) (unat (write_cmd ?to)) (unat (write_cmd_offset ?to)) of
      None \<Rightarrow> r = - 1
    | Some p \<Rightarrow> r \<noteq> - 1 \<and> v_open V w3 fd \<and> v_rest V w3 fd = drop p (v_bytes V (v_store V w2))"
    using seek ok2 o(4) unfolding serves_seek_def by blast
  note at = fd3 [unfolded args st2]
  have ok3: "v_ok V w3" using u3 by (simp add: unchanged_def)
  have unlock: "unchanged V v (sys_unlock os v)" if "v_ok V v" for v
    using M that by (simp add: serves_mutex_def)
  have cc: "c\<lparr>holds := False\<rparr> = c" using c by (cases c) simp
  show ?thesis
  proof (cases "sk (v_store V w) x y")
    case None
    then have "handle_seek os cfd (int x) (int y) c w = Some (Next_byte, c, sys_unlock os w3)"
      using c cc o i at by (simp add: handle_seek_def mutex_lock'_def mutex_unlock'_def)
    then show ?thesis using None u1 o(3) u3 unlock [OF ok3] by (simp add: unchanged_def)
  next
    case (Some p)
    then have fd: "r \<noteq> - 1" "v_open V w3 fd" "v_rest V w3 fd = drop p (v_bytes V (v_store V w))"
      using at by simp_all
    obtain w4 where e: "echo_file os cfd fd w3 = Some (True, w4)" and s4: "sends V (v_rest V w3 fd) w3 w4"
      and fd4: "v_open V w4 fd" using echo_file_serves [OF R S ok3 fd(2)] by blast
    obtain w5 where cl: "sys_close os w4 fd = (0, w5)" and u5: "unchanged V w4 w5"
      using C sends_ok [OF s4] fd4 unfolding serves_close_def by blast
    have "v_ok V w5" using u5 by (simp add: unchanged_def)
    note u6 = unlock [OF this]
    have "c\<lparr>packet_len := 0, holds := False\<rparr> = c\<lparr>packet_len := 0\<rparr>" using c by (cases c) simp
    then have "handle_seek os cfd (int x) (int y) c w =
        Some (Next_byte, c\<lparr>packet_len := 0\<rparr>, sys_unlock os w5)"
      using c o i e cl fd(1) by (simp add: handle_seek_def mutex_lock'_def mutex_unlock'_def)
    then show ?thesis using Some fd(3) u1 o(3) u3 s4 u5 u6 by (simp add: unchanged_def sends_def)
  qed
qed

lemma grow_packet_serves:
  assumes "serves_memory os V" "v_ok V w" "conn_ok c" "length (pending c) \<le> v_max V"
  shows "\<exists>c1 w1. grow_packet os c w = (True, c1, w1) \<and> unchanged V w w1"
proof (cases "packet_size c < packet_len c + 1")
  case False
  then show ?thesis using assms(2) by (simp add: grow_packet_def unchanged_def)
next
  case True
  let ?n = "if packet_size c \<noteq> 0 then packet_size c * 2 else 1024 :: size_t"
  have "unat ?n \<le> 2 * v_max V + 1024"
    using new_size_bounds(2) [OF assms(3) True] assms(4) length_pending [OF assms(3)] by simp
  then obtain fresh w1 where "sys_realloc os w ?n = (Some fresh, w1)" "unchanged V w w1"
    using assms(1,2) unfolding serves_memory_def by blast
  then show ?thesis using True by (simp add: grow_packet_def Let_def)
qed

end
