(* ===== verification/Socket_Session.thy ===== *)
theory Socket_Session
  imports Socket_Serving
begin

text \<open>
  A whole connection on a system that serves, with data packets and seek commands: the
  abstract session, which handles the client's packets one after the other, and the loops of
  the connection thread, which compute it however \<open>recv\<close> cuts the bytes. After a seek command
  the driver refuses, the code no longer empties the packet buffer; the session then serves
  nothing more.
\<close>

section \<open>The abstract session\<close>

text \<open>The file afterwards, what the client was sent, and whether it is still served.\<close>

fun session :: "('w, 'f) view \<Rightarrow> bool \<Rightarrow> ('f \<Rightarrow> nat \<Rightarrow> nat \<Rightarrow> nat option) \<Rightarrow> 'f \<Rightarrow> byte list list \<Rightarrow>
    'f \<times> byte list \<times> bool" where
  "session V use_char sk f [] = (f, [], True)"
| "session V use_char sk f (p # ps) =
     (case (if use_char then seek_args p else None) of
        None \<Rightarrow>
          let f' = v_append V f p; (f2, out, served) = session V use_char sk f' ps
          in (f2, v_bytes V f' @ out, served)
      | Some (x, y) \<Rightarrow>
          (case sk f x y of
             None \<Rightarrow> (f, [], False)
           | Some k \<Rightarrow>
               let (f2, out, served) = session V use_char sk f ps
               in (f2, drop k (v_bytes V f) @ out, served)))"

declare session.simps [simp del]

lemma session_Nil [simp]: "session V u sk f [] = (f, [], True)"
  by (simp add: session.simps)

lemma session_data:
  "u \<longrightarrow> seek_args p = None \<Longrightarrow>
     session V u sk f (p # ps) =
       (fst (session V u sk (v_append V f p) ps),
        v_bytes V (v_append V f p) @ fst (snd (session V u sk (v_append V f p) ps)),
        snd (snd (session V u sk (v_append V f p) ps)))"
  by (simp add: session.simps Let_def split_beta)

lemma session_seek:
  "u \<Longrightarrow> seek_args p = Some (x, y) \<Longrightarrow>
     session V u sk f (p # ps) =
       (case sk f x y of None \<Rightarrow> (f, [], False)
        | Some k \<Rightarrow> (fst (session V u sk f ps), drop k (v_bytes V f) @ fst (snd (session V u sk f ps)),
            snd (snd (session V u sk f ps))))"
  by (simp add: session.simps Let_def split_beta split: option.split)

lemma session_append:
  "session V u sk f (ps @ qs) =
     (let (f1, o1, l1) = session V u sk f ps
      in if l1 then let (f2, o2, l2) = session V u sk f1 qs in (f2, o1 @ o2, l2) else (f1, o1, False))"
proof (induction ps arbitrary: f)
  case Nil
  then show ?case by (simp add: split_beta)
next
  case (Cons p ps)
  show ?case
  proof (cases "if u then seek_args p else None")
    case None
    then have "u \<longrightarrow> seek_args p = None" by (simp split: if_splits)
    note d = session_data [OF this]
    show ?thesis using Cons by (simp add: d split_beta Let_def)
  next
    case (Some a)
    then obtain x y where "u" "seek_args p = Some (x, y)" by (cases a) (simp split: if_splits)
    note s = session_seek [OF this]
    show ?thesis using Cons by (cases "sk f x y") (simp_all add: s split_beta Let_def)
  qed
qed

text \<open>Without commands: every packet is appended, and the file is sent back after each.\<close>

fun echoes :: "('w, 'f) view \<Rightarrow> 'f \<Rightarrow> byte list list \<Rightarrow> byte list" where
  "echoes V f [] = []"
| "echoes V f (p # ps) = v_bytes V (v_append V f p) @ echoes V (v_append V f p) ps"

lemma session_plain:
  "(\<And>p. p \<in> set ps \<Longrightarrow> u \<longrightarrow> \<not> seek_packet p) \<Longrightarrow>
     session V u sk f ps = (foldl (v_append V) f ps, echoes V f ps, True)"
  by (induction ps arbitrary: f) (simp_all add: session_data seek_args_plain)

text \<open>
  What a client may send: packets that fit, every seek command written as two numbers, and,
  where there is one, no more bytes than fit at all (a refused command keeps them).
\<close>

definition seeks :: "bool \<Rightarrow> byte list \<Rightarrow> bool" where
  "seeks use_char bs \<longleftrightarrow> use_char \<and> (\<exists>p \<in> set (fst (split_lines bs)). seek_packet p)"

definition fits :: "('w, 'f) view \<Rightarrow> bool \<Rightarrow> byte list \<Rightarrow> bool" where
  "fits V use_char bs \<longleftrightarrow>
     (\<forall>p \<in> set (fst (split_lines bs)). length p \<le> v_max V \<and> (use_char \<and> seek_packet p \<longrightarrow> command p)) \<and>
     length (snd (split_lines bs)) \<le> v_max V \<and> (seeks use_char bs \<longrightarrow> length bs \<le> v_max V)"

lemma fits_head: "fits V u (xs @ ys) \<Longrightarrow> newline \<notin> set xs \<Longrightarrow> length xs \<le> v_max V"
  using split_lines_head [of xs ys] hd_in_set [of "fst (split_lines (xs @ ys))"]
  by (fastforce simp: fits_def)

lemma length_split_snd: "length (snd (split_lines bs)) \<le> length bs"
proof (induction bs rule: split_lines.induct)
  case (1 bs)
  show ?case
  proof (cases "memchr newline bs")
    case None
    then show ?thesis by (simp add: memchr_None_iff split_lines_None)
  next
    case (Some i)
    then have "split_lines bs = apfst ((#) (take (Suc i) bs)) (split_lines (drop (Suc i) bs))"
      by (subst split_lines.simps) simp
    then show ?thesis using 1 [OF Some] by simp
  qed
qed

lemma seeks_append:
  "seeks u (xs @ ys) \<longleftrightarrow> seeks u xs \<or> seeks u (snd (split_lines xs) @ ys)"
  by (auto simp: seeks_def split_lines_append [of xs ys])

lemma fits_append:
  assumes "fits V u (xs @ ys)"
  shows "fits V u xs" "fits V u (snd (split_lines xs) @ ys)"
proof -
  note split = split_lines_append [of xs ys]
  have len: "seeks u xs \<or> seeks u (snd (split_lines xs) @ ys) \<Longrightarrow> length xs + length ys \<le> v_max V"
    using assms by (simp add: fits_def seeks_append [of u xs ys])
  show r: "fits V u (snd (split_lines xs) @ ys)"
    using assms len length_split_snd [of xs] by (auto simp: fits_def split ball_Un)
  show "fits V u xs"
    using assms len fits_head [OF r split_lines_snd] by (auto simp: fits_def split ball_Un)
qed

section \<open>The loops\<close>

text \<open>What a sequence of packets did to the file and to the client.\<close>

definition did :: "('w, 'f) view \<Rightarrow> 'f \<times> byte list \<times> bool \<Rightarrow> 'w \<Rightarrow> 'w \<Rightarrow> bool" where
  "did V r w w' \<longleftrightarrow> v_ok V w' \<and> v_store V w' = fst r \<and> v_sent V w' = v_sent V w @ fst (snd r)"

text \<open>A connection that holds a refused command.\<close>

definition refused :: "('w, 'f) view \<Rightarrow> ('f \<Rightarrow> nat \<Rightarrow> nat \<Rightarrow> nat option) \<Rightarrow> conn \<Rightarrow> 'w \<Rightarrow> bool" where
  "refused V sk c w \<longleftrightarrow> (\<exists>x y later. x < 2 ^ 31 \<and> y < 2 ^ 31 \<and> pending c = seek_cmd x y @ later \<and>
     sk (v_store V w) x y = None)"

lemma unchanged_trans: "unchanged V w w1 \<Longrightarrow> unchanged V w1 w2 \<Longrightarrow> unchanged V w w2"
  by (simp add: unchanged_def)

lemma handle_packet_cmd:
  assumes "conn_ok c" "pending c = seek_cmd x y @ later" "x < 2 ^ 31" "y < 2 ^ 31"
  shows "handle_packet True os cfd c w = handle_seek os cfd (int x) (int y) c w"
proof (rule handle_packet_seek [OF assms(1)])
  show "pending c = seek_prefix @ (decimal x @ 44 # decimal y @ [newline]) @ later"
    using assms(2) by (simp add: seek_cmd_def)
  show "scan_pair ((decimal x @ 44 # decimal y @ [newline]) @ s) = Some (Some (int x, int y))" for s
    by (rule scan_pair_decimal [OF assms(3,4)])
qed

lemma bytes_loop_refused:
  assumes os: "os_serves os V cfd" and seek: "serves_seek os V sk"
  shows "conn_ok c \<Longrightarrow> \<not> holds c \<Longrightarrow> v_ok V w \<Longrightarrow> refused V sk c w \<Longrightarrow>
     length (pending c @ bs) \<le> v_max V \<Longrightarrow>
     \<exists>c' w'. bytes_loop True os cfd bs c w = Some (Next_byte, c', w') \<and> conn_ok c' \<and> \<not> holds c' \<and>
       pending c' = pending c @ bs \<and> unchanged V w w' \<and> refused V sk c' w'"
proof (induction bs arbitrary: c w)
  case Nil
  then show ?case by (simp add: unchanged_def)
next
  case (Cons ch bs)
  have mem: "serves_memory os V" and re: "realloc_ok os"
    using os by (simp_all add: os_serves_def serves_memory_def)
  have "length (pending c) \<le> v_max V" using Cons.prems(5) by simp
  then obtain c1 w1 where g: "grow_packet os c w = (True, c1, w1)" and u1: "unchanged V w w1"
    using grow_packet_serves [OF mem Cons.prems(3,1)] by blast
  let ?c2 = "put_byte c1 ch"
  have c2: "conn_ok ?c2" "pending ?c2 = pending c @ [ch]" "\<not> holds ?c2"
    and step: "process_byte True os cfd ch c w =
        (if ch = newline then handle_packet True os cfd ?c2 w1 else Some (Next_byte, ?c2, w1))"
    using process_byte_put [OF Cons.prems(1) re g] Cons.prems(2) by simp_all
  have ok1: "v_ok V w1" using u1 by (simp add: unchanged_def)
  obtain x y later where xy: "x < 2 ^ 31" "y < 2 ^ 31" and pc: "pending c = seek_cmd x y @ later"
    and sk: "sk (v_store V w) x y = None" using Cons.prems(4) by (auto simp: refused_def)
  have "\<exists>w2. process_byte True os cfd ch c w = Some (Next_byte, ?c2, w2) \<and> unchanged V w w2"
  proof (cases "ch = newline")
    case False
    then show ?thesis using step u1 by simp
  next
    case True
    have "pending ?c2 = seek_cmd x y @ (later @ [ch])" using c2(2) pc by simp
    note h = handle_packet_cmd [OF c2(1) this xy, of os cfd w1]
    obtain w2 where "handle_seek os cfd (int x) (int y) ?c2 w1 = Some (Next_byte, ?c2, w2)" "v_ok V w2"
      "v_input V w2 = v_input V w1" "v_store V w2 = v_store V w1" "v_sent V w2 = v_sent V w1"
      using handle_seek_serves [OF os seek ok1 c2(3) xy] sk u1 by (auto simp: unchanged_def)
    then show ?thesis using True step h u1 by (simp add: unchanged_def)
  qed
  then obtain w2 where p: "process_byte True os cfd ch c w = Some (Next_byte, ?c2, w2)" "unchanged V w w2"
    by blast
  have "refused V sk ?c2 w2"
    using xy pc sk c2(2) p(2) unfolding refused_def unchanged_def by (metis append.assoc)
  moreover have "v_ok V w2" using p(2) by (simp add: unchanged_def)
  moreover have "length (pending ?c2 @ bs) \<le> v_max V" using Cons.prems(5) c2(2) by simp
  ultimately obtain c' w' where "bytes_loop True os cfd bs ?c2 w2 = Some (Next_byte, c', w')"
    "conn_ok c'" "\<not> holds c'" "pending c' = pending ?c2 @ bs" "unchanged V w2 w'" "refused V sk c' w'"
    using Cons.IH [OF c2(1,3)] by blast
  then show ?case using p c2(2) unchanged_trans [OF p(2)] by auto
qed

text \<open>The bytes of one \<open>recv\<close>, after those that are pending.\<close>

lemma did_unchanged: "unchanged V w w1 \<Longrightarrow> did V r w1 w' \<Longrightarrow> did V r w w'"
  by (simp add: did_def unchanged_def)

lemma bytes_loop_serves:
  assumes os: "os_serves os V cfd"
  shows "conn_ok c \<Longrightarrow> \<not> holds c \<Longrightarrow> v_ok V w \<Longrightarrow> newline \<notin> set (pending c) \<Longrightarrow>
     fits V use_char (pending c @ bs) \<Longrightarrow> (seeks use_char (pending c @ bs) \<Longrightarrow> serves_seek os V sk) \<Longrightarrow>
     \<exists>c' w'. bytes_loop use_char os cfd bs c w = Some (Next_byte, c', w') \<and> conn_ok c' \<and> \<not> holds c' \<and>
       did V (session V use_char sk (v_store V w) (fst (split_lines (pending c @ bs)))) w w' \<and>
       v_input V w' = v_input V w \<and> (bs \<noteq> [] \<or> packet_buf c \<noteq> None \<longrightarrow> packet_buf c' \<noteq> None) \<and>
       (if snd (snd (session V use_char sk (v_store V w) (fst (split_lines (pending c @ bs)))))
        then pending c' = snd (split_lines (pending c @ bs))
        else use_char \<and> refused V sk c' w' \<and> length (pending c') \<le> length (pending c @ bs))"
proof (induction bs arbitrary: c w)
  case Nil
  then show ?case by (simp add: split_lines_None did_def)
next
  case (Cons ch bs)
  have mem: "serves_memory os V" and re: "realloc_ok os"
    using os by (simp_all add: os_serves_def serves_memory_def)
  obtain c1 w1 where g: "grow_packet os c w = (True, c1, w1)" and u1: "unchanged V w w1"
    using grow_packet_serves [OF mem Cons.prems(3,1) fits_head [OF Cons.prems(5,4)]] by blast
  let ?c2 = "put_byte c1 ch"
  have c2: "conn_ok ?c2" "pending ?c2 = pending c @ [ch]" "\<not> holds ?c2" "packet_buf ?c2 \<noteq> None"
    and step: "process_byte use_char os cfd ch c w =
        (if ch = newline then handle_packet use_char os cfd ?c2 w1 else Some (Next_byte, ?c2, w1))"
    using process_byte_put [OF Cons.prems(1) re g] Cons.prems(2) by simp_all
  have ok1: "v_ok V w1" and st1: "v_store V w1 = v_store V w" using u1 by (simp_all add: unchanged_def)
  show ?case
  proof (cases "ch = newline")
    case False
    have nn: "newline \<notin> set (pending ?c2)" using Cons.prems(4) False c2(2) by auto
    have app: "pending ?c2 @ bs = pending c @ ch # bs" using c2(2) by simp
    obtain c' w' where
      "bytes_loop use_char os cfd bs ?c2 w1 = Some (Next_byte, c', w')" "conn_ok c'" "\<not> holds c'"
      "did V (session V use_char sk (v_store V w) (fst (split_lines (pending c @ ch # bs)))) w1 w'"
      "v_input V w' = v_input V w1" "packet_buf c' \<noteq> None"
      "if snd (snd (session V use_char sk (v_store V w) (fst (split_lines (pending c @ ch # bs)))))
       then pending c' = snd (split_lines (pending c @ ch # bs))
       else use_char \<and> refused V sk c' w' \<and> length (pending c') \<le> length (pending c @ ch # bs)"
      using Cons.IH [OF c2(1,3) ok1 nn, unfolded app st1] Cons.prems(5,6) c2(4) by blast
    then show ?thesis using step False u1 did_unchanged [OF u1] by (auto simp: unchanged_def)
  next
    case True
    let ?p = "pending c @ [newline]"
    have split: "split_lines (pending c @ ch # bs) = apfst ((#) ?p) (split_lines bs)"
      using split_lines_line [OF Cons.prems(4)] True by simp
    have p: "packet ?p" "length ?p \<le> v_max V" "use_char \<and> seek_packet ?p \<longrightarrow> command ?p"
      using Cons.prems(4,5) split by (auto simp: packet_def fits_def)
    have fits: "fits V use_char bs"
      using Cons.prems(5) split by (auto simp: fits_def seeks_def)
    have sks: "serves_seek os V sk" if "seeks use_char bs"
      using Cons.prems(6) split that by (auto simp: seeks_def)
    have pe: "pending ?c2 = ?p" using c2(2) True by simp
    show ?thesis
    proof (cases "use_char \<and> seek_packet ?p")
      case plain: False
      then have sa: "use_char \<longrightarrow> seek_args ?p = None" by (auto simp: seek_args_plain)
      note se = session_data [OF sa, of V sk "v_store V w" "fst (split_lines bs)"]
      have "packet (pending ?c2)" "use_char \<longrightarrow> \<not> seek_packet (pending ?c2)" using p plain pe by auto
      note data = handle_packet_data [OF c2(1) this, of os cfd w1]
      obtain w2 where h: "handle_packet use_char os cfd ?c2 w1 = Some (Next_byte, ?c2\<lparr>packet_len := 0\<rparr>, w2)"
        and v2: "v_ok V w2" "v_input V w2 = v_input V w1" "v_store V w2 = v_append V (v_store V w) ?p"
          "v_sent V w2 = v_sent V w1 @ v_bytes V (v_store V w2)"
        using handle_data_serves [OF os ok1 p(1,2) c2(3)] data pe st1 by auto
      let ?c3 = "?c2\<lparr>packet_len := 0\<rparr>"
      have c3: "conn_ok ?c3" "pending ?c3 = []" "\<not> holds ?c3" "packet_buf ?c3 \<noteq> None"
        using c2 by (auto simp: conn_ok_def pending_def split: option.splits)
      note pend3 = c3(2) append_Nil
      have no_nl: "newline \<notin> set []" by simp
      obtain c' w' where l:
        "bytes_loop use_char os cfd bs ?c3 w2 = Some (Next_byte, c', w')" "conn_ok c'" "\<not> holds c'"
        "did V (session V use_char sk (v_store V w2) (fst (split_lines bs))) w2 w'"
        "v_input V w' = v_input V w2" "packet_buf c' \<noteq> None"
        "if snd (snd (session V use_char sk (v_store V w2) (fst (split_lines bs))))
         then pending c' = snd (split_lines bs)
         else use_char \<and> refused V sk c' w' \<and> length (pending c') \<le> length bs"
        using Cons.IH [OF c3(1,3) v2(1), unfolded pend3, OF no_nl fits sks] c3(4) by blast
      have "did V (session V use_char sk (v_store V w) (?p # fst (split_lines bs))) w w'"
        using l(4) v2 u1 by (simp add: se did_def unchanged_def)
      moreover have "if snd (snd (session V use_char sk (v_store V w) (?p # fst (split_lines bs))))
         then pending c' = snd (split_lines bs)
         else use_char \<and> refused V sk c' w' \<and> length (pending c') \<le> length (pending c @ ch # bs)"
        using l(7) v2(3) by (auto simp: se split: if_splits)
      ultimately show ?thesis using step True h l split v2(2) u1 by (auto simp: unchanged_def)
    next
      case cmd: True
      then obtain x y where xy: "x < 2 ^ 31" "y < 2 ^ 31" and pxy: "?p = seek_cmd x y"
        using p(3) by (auto simp: command_def)
      have sv: "serves_seek os V sk" and small: "length (pending c @ ch # bs) \<le> v_max V"
        using Cons.prems(5,6) split cmd by (auto simp: seeks_def fits_def)
      have sa: "seek_args ?p = Some (x, y)" using seek_args_cmd [OF xy] pxy by simp
      note se = session_seek [OF conjunct1 [OF cmd] sa, of V sk "v_store V w" "fst (split_lines bs)"]
      have "pending ?c2 = seek_cmd x y @ []" using pe pxy by simp
      note h = handle_packet_cmd [OF c2(1) this xy, of os cfd w1]
      obtain w2 where hs: "handle_seek os cfd (int x) (int y) ?c2 w1 =
          Some (Next_byte, if sk (v_store V w1) x y = None then ?c2 else ?c2\<lparr>packet_len := 0\<rparr>, w2)"
        and v2: "v_ok V w2" "v_input V w2 = v_input V w1" "v_store V w2 = v_store V w1"
          "v_sent V w2 = v_sent V w1 @ (case sk (v_store V w1) x y of None \<Rightarrow> []
             | Some p \<Rightarrow> drop p (v_bytes V (v_store V w1)))"
        using handle_seek_serves [OF os sv ok1 c2(3) xy] by blast
      have u: "use_char = True" using cmd by simp
      show ?thesis
      proof (cases "sk (v_store V w) x y")
        case None
        have "refused V sk ?c2 w2"
          using xy pe pxy None v2(3) st1 unfolding refused_def
          by (intro exI [of _ x] exI [of _ y] exI [of _ "[]"]) simp
        then obtain c' w' where l: "bytes_loop True os cfd bs ?c2 w2 = Some (Next_byte, c', w')"
          "conn_ok c'" "\<not> holds c'" "pending c' = pending ?c2 @ bs" "unchanged V w2 w'" "refused V sk c' w'"
          using bytes_loop_refused [OF os sv c2(1,3) v2(1), of bs] small c2(2) by auto
        have "packet_buf c' \<noteq> None" using l(4) pe by (auto simp: pending_def split: option.splits)
        moreover have "did V (v_store V w, [], False) w w'"
          using l(5) v2 st1 None u1 by (simp add: did_def unchanged_def)
        moreover have "v_input V w' = v_input V w" using l(5) v2(2) u1 by (simp add: unchanged_def)
        ultimately show ?thesis using step True u h hs None st1 l split c2(2) by (simp add: se [unfolded u])
      next
        case (Some k)
        let ?c3 = "?c2\<lparr>packet_len := 0\<rparr>"
        have c3: "conn_ok ?c3" "pending ?c3 = []" "\<not> holds ?c3" "packet_buf ?c3 \<noteq> None"
          using c2 by (auto simp: conn_ok_def pending_def split: option.splits)
        have st2: "v_store V w2 = v_store V w" using v2(3) st1 by simp
        note pend3 = c3(2) append_Nil
        have no_nl: "newline \<notin> set []" by simp
        obtain c' w' where l:
          "bytes_loop use_char os cfd bs ?c3 w2 = Some (Next_byte, c', w')" "conn_ok c'" "\<not> holds c'"
          "did V (session V use_char sk (v_store V w) (fst (split_lines bs))) w2 w'"
          "v_input V w' = v_input V w2" "packet_buf c' \<noteq> None"
          "if snd (snd (session V use_char sk (v_store V w) (fst (split_lines bs))))
           then pending c' = snd (split_lines bs)
           else use_char \<and> refused V sk c' w' \<and> length (pending c') \<le> length bs"
          using Cons.IH [OF c3(1,3) v2(1), unfolded pend3 st2, OF no_nl fits sv] c3(4) by blast
        have "did V (session V use_char sk (v_store V w) (?p # fst (split_lines bs))) w w'"
          using l(4) v2(4) st1 Some u1 by (simp add: se did_def unchanged_def)
        moreover have "if snd (snd (session V use_char sk (v_store V w) (?p # fst (split_lines bs))))
           then pending c' = snd (split_lines bs)
           else use_char \<and> refused V sk c' w' \<and> length (pending c') \<le> length (pending c @ ch # bs)"
          using l(7) Some by (auto simp: se split: if_splits)
        ultimately show ?thesis using step True u h hs Some st1 l split v2(2) u1 by (auto simp: unchanged_def)
      qed
    qed
  qed
qed

lemma recv_loop_refused:
  assumes os: "os_serves os V cfd" and seek: "serves_seek os V sk"
  shows "conn_ok c \<Longrightarrow> \<not> holds c \<Longrightarrow> v_ok V w \<Longrightarrow> refused V sk c w \<Longrightarrow>
     length (pending c @ v_input V w) \<le> v_max V \<Longrightarrow>
     \<exists>c' w'. recv_loop True os cfd c w = Some (Client_done, c', w') \<and> \<not> holds c' \<and>
       v_ok V w' \<and> v_store V w' = v_store V w \<and> v_sent V w' = v_sent V w \<and> v_input V w' = [] \<and>
       packet_buf c' \<noteq> None"
proof (induction "length (v_input V w)" arbitrary: c w rule: less_induct)
  case less
  have rs: "serves_recv os V cfd" using os by (simp add: os_serves_def)
  obtain bs w1 where r: "sys_recv os w cfd 1024 = (int (length bs), bs, w1)" "v_ok V w1"
    and inp: "v_input V w = bs @ v_input V w1" "bs = [] \<longrightarrow> v_input V w = []"
    and v1: "v_sent V w1 = v_sent V w" "v_store V w1 = v_store V w"
    using rs less.prems(3) unfolding serves_recv_def by (metis zero_less_numeral)
  have ref1: "refused V sk c w1" using less.prems(4) v1 by (simp add: refused_def)
  show ?case
  proof (cases "bs = []")
    case True
    then have "recv_loop True os cfd c w = Some (Client_done, c, w1)"
      using r by (simp add: recv_loop.simps [of True os cfd c w])
    moreover have "packet_buf c \<noteq> None"
      using less.prems(4) by (auto simp: refused_def pending_def seek_cmd_def seek_prefix_def split: option.splits)
    ultimately show ?thesis using True inp less.prems(2) r(2) v1 by simp
  next
    case False
    have "length (pending c @ bs) \<le> v_max V" using less.prems(5) inp(1) by simp
    then obtain c2 w2 where b: "bytes_loop True os cfd bs c w1 = Some (Next_byte, c2, w2)"
      "conn_ok c2" "\<not> holds c2" "pending c2 = pending c @ bs" and u2: "unchanged V w1 w2"
      and ref2: "refused V sk c2 w2"
      using bytes_loop_refused [OF os seek less.prems(1,2) r(2) ref1] by blast
    have ok2: "v_ok V w2" using u2 by (simp add: unchanged_def)
    have "length (v_input V w2) < length (v_input V w)"
      "length (pending c2 @ v_input V w2) \<le> v_max V"
      using inp u2 False b(4) less.prems(5) by (simp_all add: unchanged_def)
    then obtain c3 w3 where l: "recv_loop True os cfd c2 w2 = Some (Client_done, c3, w3)" "\<not> holds c3"
      "v_ok V w3" "v_store V w3 = v_store V w2" "v_sent V w3 = v_sent V w2" "v_input V w3 = []"
      "packet_buf c3 \<noteq> None"
      using less.hyps [OF _ b(2,3) ok2 ref2] by blast
    have "recv_loop True os cfd c w = Some (Client_done, c3, w3)"
      using r False b(1) l(1) by (simp add: recv_loop.simps [of True os cfd c w])
    then show ?thesis using l u2 v1 by (simp add: unchanged_def)
  qed
qed

text \<open>Two pieces of a stream, one after the other.\<close>

lemma did_append:
  assumes "did V (session V u sk (v_store V w) ps) w w1" "snd (snd (session V u sk (v_store V w) ps))"
    and "did V (session V u sk (v_store V w1) qs) w1 w2"
  shows "did V (session V u sk (v_store V w) (ps @ qs)) w w2"
  using assms by (simp add: did_def session_append [of V u sk _ ps qs] split_beta Let_def)

lemma did_stopped:
  assumes "did V (session V u sk (v_store V w) ps) w w1" "\<not> snd (snd (session V u sk (v_store V w) ps))"
    and "v_ok V w2" "v_store V w2 = v_store V w1" "v_sent V w2 = v_sent V w1"
  shows "did V (session V u sk (v_store V w) (ps @ qs)) w w2"
  using assms by (simp add: did_def session_append [of V u sk _ ps qs] split_beta Let_def)

lemma recv_loop_serves:
  assumes os: "os_serves os V cfd"
  shows "conn_ok c \<Longrightarrow> \<not> holds c \<Longrightarrow> v_ok V w \<Longrightarrow> newline \<notin> set (pending c) \<Longrightarrow>
     fits V use_char (pending c @ v_input V w) \<Longrightarrow>
     (seeks use_char (pending c @ v_input V w) \<Longrightarrow> serves_seek os V sk) \<Longrightarrow>
     \<exists>c' w'. recv_loop use_char os cfd c w = Some (Client_done, c', w') \<and> \<not> holds c' \<and>
       did V (session V use_char sk (v_store V w) (fst (split_lines (pending c @ v_input V w)))) w w' \<and>
       v_input V w' = [] \<and> (v_input V w \<noteq> [] \<or> packet_buf c \<noteq> None \<longleftrightarrow> packet_buf c' \<noteq> None)"
proof (induction "length (v_input V w)" arbitrary: c w rule: less_induct)
  case less
  have rs: "serves_recv os V cfd" using os by (simp add: os_serves_def)
  obtain bs w1 where r: "sys_recv os w cfd 1024 = (int (length bs), bs, w1)" "v_ok V w1"
    and inp: "v_input V w = bs @ v_input V w1" "bs = [] \<longrightarrow> v_input V w = []"
    and v1: "v_sent V w1 = v_sent V w" "v_store V w1 = v_store V w"
    using rs less.prems(3) unfolding serves_recv_def by (metis zero_less_numeral)
  have from_w1: "did V q w1 w' \<Longrightarrow> did V q w w'" for q w' using v1 by (simp add: did_def)
  show ?case
  proof (cases "bs = []")
    case True
    then have "recv_loop use_char os cfd c w = Some (Client_done, c, w1)"
      using r by (simp add: recv_loop.simps [of use_char os cfd c w])
    then show ?thesis using True inp less.prems(2,4) r(2) v1 by (simp add: split_lines_None did_def)
  next
    case False
    let ?ps = "fst (split_lines (pending c @ bs))"
    have app: "pending c @ v_input V w = (pending c @ bs) @ v_input V w1" using inp(1) by simp
    note f = less.prems(5) [unfolded app]
    have sk1: "seeks use_char (pending c @ bs) \<Longrightarrow> serves_seek os V sk"
      and sk2: "seeks use_char (snd (split_lines (pending c @ bs)) @ v_input V w1) \<Longrightarrow> serves_seek os V sk"
      using less.prems(6) unfolding app seeks_append [of use_char "pending c @ bs"] by blast+
    obtain c2 w2 where b: "bytes_loop use_char os cfd bs c w1 = Some (Next_byte, c2, w2)"
      "conn_ok c2" "\<not> holds c2" and d2: "did V (session V use_char sk (v_store V w) ?ps) w1 w2"
      and i2: "v_input V w2 = v_input V w1" and pb: "packet_buf c2 \<noteq> None"
      and pc: "if snd (snd (session V use_char sk (v_store V w) ?ps))
        then pending c2 = snd (split_lines (pending c @ bs))
        else use_char \<and> refused V sk c2 w2 \<and> length (pending c2) \<le> length (pending c @ bs)"
      using bytes_loop_serves [OF os less.prems(1,2) r(2) less.prems(4) fits_append(1) [OF f] sk1] False v1
      by auto
    have lt: "length (v_input V w2) < length (v_input V w)" using inp i2 False by simp
    have ok2: "v_ok V w2" using d2 by (simp add: did_def)
    have cont: "recv_loop use_char os cfd c w = recv_loop use_char os cfd c2 w2"
      using r False b(1) by (simp add: recv_loop.simps [of use_char os cfd c w])
    have all: "fst (split_lines (pending c @ v_input V w)) =
        ?ps @ fst (split_lines (snd (split_lines (pending c @ bs)) @ v_input V w1))"
      using split_lines_append [of "pending c @ bs" "v_input V w1"] app by simp
    show ?thesis
    proof (cases "snd (snd (session V use_char sk (v_store V w) ?ps))")
      case True
      then have pc2: "pending c2 = snd (split_lines (pending c @ bs))" using pc by simp
      then have "newline \<notin> set (pending c2)" using split_lines_snd by simp
      moreover have "fits V use_char (pending c2 @ v_input V w2)"
        using fits_append(2) [OF f] pc2 i2 by simp
      moreover have "seeks use_char (pending c2 @ v_input V w2) \<Longrightarrow> serves_seek os V sk"
        using sk2 pc2 i2 by simp
      ultimately obtain c3 w3 where l: "recv_loop use_char os cfd c2 w2 = Some (Client_done, c3, w3)"
        "\<not> holds c3" and d3: "did V (session V use_char sk (v_store V w2)
            (fst (split_lines (pending c2 @ v_input V w2)))) w2 w3"
        and e: "v_input V w3 = []" "packet_buf c3 \<noteq> None"
        using less.hyps [OF lt b(2,3) ok2] pb by blast
      have "did V (session V use_char sk (v_store V w) (fst (split_lines (pending c @ v_input V w)))) w w3"
        using did_append [OF from_w1 [OF d2] True] d3 pc2 i2 all by simp
      then show ?thesis using cont l e inp False by simp
    next
      case stopped: False
      then have ref: "use_char" "refused V sk c2 w2" "length (pending c2) \<le> length (pending c @ bs)"
        using pc by simp_all
      have "seeks use_char (pending c @ bs)"
      proof (rule ccontr)
        assume "\<not> seeks use_char (pending c @ bs)"
        then have "\<And>p. p \<in> set ?ps \<Longrightarrow> use_char \<longrightarrow> \<not> seek_packet p" by (auto simp: seeks_def)
        from session_plain [OF this, where V = V and sk = sk and f = "v_store V w"] stopped
        show False by simp
      qed
      then have sv: "serves_seek os V sk" and len: "length (pending c @ v_input V w) \<le> v_max V"
        using sk1 f unfolding app fits_def seeks_append [of use_char "pending c @ bs"] by blast+
      have "length (pending c2 @ v_input V w2) \<le> v_max V" using ref(3) len inp(1) i2 by simp
      then obtain c3 w3 where l: "recv_loop use_char os cfd c2 w2 = Some (Client_done, c3, w3)" "\<not> holds c3"
        "v_ok V w3" "v_store V w3 = v_store V w2" "v_sent V w3 = v_sent V w2" "v_input V w3 = []"
        "packet_buf c3 \<noteq> None"
        using recv_loop_refused [OF os sv b(2,3) ok2 ref(2)] ref(1) by auto
      have "did V (session V use_char sk (v_store V w) (fst (split_lines (pending c @ v_input V w)))) w w3"
        using did_stopped [OF from_w1 [OF d2] stopped l(3,4,5)] all by simp
      then show ?thesis using cont l inp False by simp
    qed
  qed
qed

lemma recv_loop_empty:
  assumes "serves_recv os V cfd" "v_ok V w" "v_input V w = []"
  obtains w' where "recv_loop use_char os cfd c w = Some (Client_done, c, w')" "unchanged V w w'"
proof -
  obtain bs w1 where r: "sys_recv os w cfd 1024 = (int (length bs), bs, w1)" "v_ok V w1"
    and v: "v_input V w = bs @ v_input V w1" "v_sent V w1 = v_sent V w" "v_store V w1 = v_store V w"
    using assms unfolding serves_recv_def by (metis zero_less_numeral)
  have "bs = []" using v(1) assms(3) by simp
  then have "recv_loop use_char os cfd c w = Some (Client_done, c, w1)"
    using r by (simp add: recv_loop.simps [of use_char os cfd c w])
  then show ?thesis using that r(2) v assms(3) by (simp add: unchanged_def)
qed

text \<open>The thread: from an empty buffer to \<open>client_done\<close>.\<close>

lemma handle_connection_serves:
  assumes os: "os_serves os V cfd" and w: "v_ok V w" and fits: "fits V use_char (v_input V w)"
    and sk: "seeks use_char (v_input V w) \<Longrightarrow> serves_seek os V sk"
  shows "\<exists>c w'. handle_connection use_char os cfd w = Some (Client_done, c, w') \<and> \<not> holds c \<and>
     packet_buf c = None \<and> v_input V w' = [] \<and>
     did V (session V use_char sk (v_store V w) (fst (split_lines (v_input V w)))) w w' \<and>
     (thread_complete_success c \<longleftrightarrow> v_input V w \<noteq> [])"
proof -
  have hang: "serves_hangup os V cfd" using os by (simp add: os_serves_def)
  show ?thesis
  proof (cases "v_input V w = []")
    case True
    have "serves_recv os V cfd" using os by (simp add: os_serves_def)
    then obtain w1 where r: "recv_loop use_char os cfd new_conn w = Some (Client_done, new_conn, w1)"
      and u: "unchanged V w w1" using recv_loop_empty w True by metis
    have "unchanged V w1 (snd (sys_close os w1 cfd))"
      using hang u by (simp add: serves_hangup_def unchanged_def)
    then show ?thesis using r u True
      by (auto simp: handle_connection_def client_done_def new_conn_def unchanged_def split_lines_None did_def)
  next
    case False
    have nc: "newline \<notin> set (pending new_conn)" "pending new_conn @ v_input V w = v_input V w"
      by (simp_all add: new_conn_ok)
    obtain c1 w1 where r: "recv_loop use_char os cfd new_conn w = Some (Client_done, c1, w1)" "\<not> holds c1"
      and d: "did V (session V use_char sk (v_store V w) (fst (split_lines (v_input V w)))) w w1"
      and i: "v_input V w1 = []" and b: "packet_buf c1 \<noteq> None"
      using recv_loop_serves [OF os new_conn_ok(1,3) w nc(1), unfolded nc(2), OF fits sk] False
      by (auto simp: new_conn_ok)
    have "unchanged V w1 (snd (sys_close os w1 cfd))"
      using hang d by (simp add: serves_hangup_def did_def)
    then show ?thesis using r d i b False
      by (auto simp: handle_connection_def client_done_def unchanged_def did_def)
  qed
qed

end
