(* ===== verification/Byte_Steps.thy ===== *)
theory Byte_Steps
  imports Socket_Session
begin

text \<open>
  One received byte on a system that serves, from whatever state a connection can be in: the
  bytes that are pending are the beginning of a line, or start with a seek command that was
  refused. Between two bytes of a client others may write to the file, so a command that was
  refused can be answered at a later newline.
\<close>

section \<open>Pending bytes\<close>

definition blocked :: "byte list \<Rightarrow> bool" where
  "blocked p \<longleftrightarrow> (\<exists>x y later. x < 2 ^ 31 \<and> y < 2 ^ 31 \<and> p = seek_cmd x y @ later)"

definition waiting :: "bool \<Rightarrow> byte list \<Rightarrow> bool" where
  "waiting u p \<longleftrightarrow> newline \<notin> set p \<or> u \<and> blocked p"

lemma waiting_Nil [simp]: "waiting u []"
  by (simp add: waiting_def)

lemma blocked_append: "blocked p \<Longrightarrow> blocked (p @ q)"
  unfolding blocked_def by (metis append.assoc)

lemma decimal_digits: "b \<in> set (decimal n) \<Longrightarrow> isdigit b"
proof (induction n rule: decimal.induct)
  case (1 n)
  then show ?case using digit [of n] digit [of "n mod 10"]
    by (subst (asm) (2) decimal.simps) (auto simp del: of_nat_add split: if_splits)
qed

lemma seek_cmd_line:
  obtains xs where "seek_cmd x y = xs @ [newline]" "newline \<notin> set xs"
proof
  show "seek_cmd x y = (seek_prefix @ decimal x @ 44 # decimal y) @ [newline]" by (simp add: seek_cmd_def)
  have "\<not> isdigit newline" by (simp add: isdigit_def word_le_nat_alt)
  then have "newline \<notin> set (decimal n)" for n using decimal_digits by blast
  then show "newline \<notin> set (seek_prefix @ decimal x @ 44 # decimal y)" by (simp add: seek_prefix_def)
qed

lemma seek_cmd_packet: "seek_packet (seek_cmd x y)" "packet (seek_cmd x y)" "last (seek_cmd x y) = newline"
proof -
  show "seek_packet (seek_cmd x y)" by (simp add: seek_cmd_def seek_packet_prefix)
  obtain xs where "seek_cmd x y = xs @ [newline]" "newline \<notin> set xs" by (rule seek_cmd_line)
  then show "packet (seek_cmd x y)" "last (seek_cmd x y) = newline" by (auto simp: packet_def)
qed

lemma blocked_seeks: "blocked p \<Longrightarrow> u \<Longrightarrow> seeks u (p @ q)"
proof -
  assume "blocked p" and u: u
  then obtain x y later where p: "p = seek_cmd x y @ later" by (auto simp: blocked_def)
  obtain xs where xs: "seek_cmd x y = xs @ [newline]" "newline \<notin> set xs" by (rule seek_cmd_line)
  have "split_lines (p @ q) = apfst ((#) (seek_cmd x y)) (split_lines (later @ q))"
    using split_lines_line [OF xs(2), of "later @ q"] xs(1) p by simp
  then show "seeks u (p @ q)" using u seek_cmd_packet(1) by (simp add: seeks_def)
qed

lemma fits_bounds:
  assumes f: "fits V u (q @ [ch])" and q: "waiting u q"
  shows "length (q @ [ch]) \<le> v_max V"
    "u \<Longrightarrow> newline \<notin> set q \<Longrightarrow> ch = newline \<Longrightarrow> seek_packet (q @ [ch]) \<Longrightarrow> command (q @ [ch])"
proof -
  have line: "split_lines (q @ [newline]) = ([q @ [newline]], [])" if "newline \<notin> set q"
    using split_lines_line [OF that, of "[]"] by (simp add: split_lines_None)
  show "length (q @ [ch]) \<le> v_max V"
  proof (cases "newline \<in> set q")
    case True
    then have "seeks u (q @ [ch])" using q blocked_seeks by (auto simp: waiting_def)
    then show ?thesis using f by (simp add: fits_def)
  next
    case False
    then show ?thesis using f line by (cases "ch = newline") (auto simp: fits_def split_lines_None)
  qed
  show "u \<Longrightarrow> newline \<notin> set q \<Longrightarrow> ch = newline \<Longrightarrow> seek_packet (q @ [ch]) \<Longrightarrow> command (q @ [ch])"
    using f line by (auto simp: fits_def)
qed

section \<open>What a byte can do\<close>

text \<open>
  A packet that was stored, or bytes that begin with a seek command and were answered with the
  file from an offset on.
\<close>

datatype entry = Stored "byte list" | Answered "byte list" nat

fun entry_bytes :: "entry \<Rightarrow> byte list" where
  "entry_bytes (Stored p) = p"
| "entry_bytes (Answered p k) = p"

text \<open>When an entry is right for a file: what is stored is a line and no command, what was answered a command that the file can answer.\<close>

fun right_entry :: "bool \<Rightarrow> ('f \<Rightarrow> nat \<Rightarrow> nat \<Rightarrow> nat option) \<Rightarrow> 'f \<Rightarrow> entry \<Rightarrow> bool" where
  "right_entry u sk f (Stored p) = (packet p \<and> (u \<longrightarrow> \<not> seek_packet p))"
| "right_entry u sk f (Answered p k) =
     (u \<and> last p = newline \<and> (\<exists>x y later. x < 2 ^ 31 \<and> y < 2 ^ 31 \<and> p = seek_cmd x y @ later \<and> sk f x y = Some k))"

definition entry_effect :: "('w, 'f) view \<Rightarrow> entry option \<Rightarrow> 'f \<Rightarrow> 'f \<times> byte list" where
  "entry_effect V eo f =
     (case eo of
        None \<Rightarrow> (f, [])
      | Some (Stored p) \<Rightarrow> (v_append V f p, v_bytes V (v_append V f p))
      | Some (Answered p k) \<Rightarrow> (f, drop k (v_bytes V f)))"

lemma process_byte_serves:
  assumes os: "os_serves os V cfd" and sk: "u \<Longrightarrow> serves_seek os V sk"
    and c: "conn_ok c" "\<not> holds c" "waiting u (pending c)" and w: "v_ok V w"
    and fits: "fits V u (pending c @ [ch])"
  shows "\<exists>c' w' eo. process_byte u os cfd ch c w = Some (Next_byte, c', w') \<and> conn_ok c' \<and> \<not> holds c' \<and>
     v_ok V w' \<and> v_input V w' = v_input V w \<and>
     v_store V w' = fst (entry_effect V eo (v_store V w)) \<and>
     v_sent V w' = v_sent V w @ snd (entry_effect V eo (v_store V w)) \<and>
     (case eo of None \<Rightarrow> pending c' = pending c @ [ch] \<and> waiting u (pending c')
      | Some e \<Rightarrow> pending c' = [] \<and> entry_bytes e = pending c @ [ch] \<and> right_entry u sk (v_store V w) e)"
proof -
  let ?p = "pending c @ [ch]"
  have mem: "serves_memory os V" and re: "realloc_ok os"
    using os by (simp_all add: os_serves_def serves_memory_def)
  note len = fits_bounds(1) [OF fits c(3)]
  then obtain c1 w1 where g: "grow_packet os c w = (True, c1, w1)" and u1: "unchanged V w w1"
    using grow_packet_serves [OF mem w c(1)] by auto
  let ?c2 = "put_byte c1 ch"
  have c2: "conn_ok ?c2" "pending ?c2 = ?p" "\<not> holds ?c2"
    and step: "process_byte u os cfd ch c w =
        (if ch = newline then handle_packet u os cfd ?c2 w1 else Some (Next_byte, ?c2, w1))"
    using process_byte_put [OF c(1) re g] c(2) by simp_all
  have ok1: "v_ok V w1" and st1: "v_store V w1 = v_store V w" using u1 by (simp_all add: unchanged_def)
  have c3: "conn_ok (?c2\<lparr>packet_len := 0\<rparr>)" "pending (?c2\<lparr>packet_len := 0\<rparr>) = []" "\<not> holds (?c2\<lparr>packet_len := 0\<rparr>)"
    using c2 by (auto simp: conn_ok_def pending_def split: option.splits)
  show ?thesis
  proof (cases "ch = newline")
    case False
    then have "waiting u ?p" using c(3) blocked_append by (auto simp: waiting_def)
    then show ?thesis using step False u1 c2
      by (intro exI [of _ ?c2] exI [of _ w1] exI [of _ None]) (simp add: unchanged_def entry_effect_def)
  next
    case nl: True
    show ?thesis
    proof (cases "u \<and> blocked ?p")
      case True
      then obtain x y later where xy: "x < 2 ^ 31" "y < 2 ^ 31" and p: "?p = seek_cmd x y @ later"
        by (auto simp: blocked_def)
      note h = handle_packet_cmd [OF c2(1) c2(2) [unfolded p] xy, of os cfd w1]
      obtain w2 where hs: "handle_seek os cfd (int x) (int y) ?c2 w1 =
          Some (Next_byte, if sk (v_store V w1) x y = None then ?c2 else ?c2\<lparr>packet_len := 0\<rparr>, w2)"
        and v2: "v_ok V w2" "v_input V w2 = v_input V w1" "v_store V w2 = v_store V w1"
          "v_sent V w2 = v_sent V w1 @ (case sk (v_store V w1) x y of None \<Rightarrow> []
             | Some p \<Rightarrow> drop p (v_bytes V (v_store V w1)))"
        using handle_seek_serves [OF os sk ok1 c2(3) xy] True by blast
      have l: "last ?p = newline" using nl by simp
      have pb: "process_byte u os cfd ch c w =
          Some (Next_byte, if sk (v_store V w) x y = None then ?c2 else ?c2\<lparr>packet_len := 0\<rparr>, w2)"
        using step nl h hs st1 True by simp
      show ?thesis
      proof (cases "sk (v_store V w) x y")
        case None
        have "waiting u ?p" using True by (simp add: waiting_def)
        then show ?thesis using pb None v2 u1 c2
          by (intro exI [of _ ?c2] exI [of _ w2] exI [of _ None]) (simp add: unchanged_def entry_effect_def)
      next
        case (Some k)
        have "right_entry u sk (v_store V w) (Answered ?p k)" using True l xy p Some by auto
        then show ?thesis using pb Some v2 u1 c3
          by (intro exI [of _ "?c2\<lparr>packet_len := 0\<rparr>"] exI [of _ w2] exI [of _ "Some (Answered ?p k)"])
            (simp add: unchanged_def entry_effect_def del: right_entry.simps)
      qed
    next
      case False
      have start: "newline \<notin> set (pending c)"
        using c(3) False blocked_append by (auto simp: waiting_def)
      have plain: "u \<longrightarrow> \<not> seek_packet ?p"
      proof (intro impI notI)
        assume "u" "seek_packet ?p"
        then have "command ?p" using fits_bounds(2) [OF fits c(3)] start nl by blast
        then have "blocked ?p" unfolding command_def blocked_def by (metis append_Nil2)
        then show False using False \<open>u\<close> by blast
      qed
      have p: "packet ?p" using start nl by (auto simp: packet_def)
      obtain w2 where hd: "handle_data os cfd ?p ?c2 w1 = Some (Next_byte, ?c2\<lparr>packet_len := 0\<rparr>, w2)"
        and v2: "v_ok V w2" "v_input V w2 = v_input V w1" "v_store V w2 = v_append V (v_store V w1) ?p"
          "v_sent V w2 = v_sent V w1 @ v_bytes V (v_store V w2)"
        using handle_data_serves [OF os ok1 p len c2(3)] by blast
      have "handle_packet u os cfd ?c2 w1 = handle_data os cfd ?p ?c2 w1"
        using handle_packet_data [OF c2(1), of u os cfd w1] p plain c2(2) by simp
      then have pb: "process_byte u os cfd ch c w = Some (Next_byte, ?c2\<lparr>packet_len := 0\<rparr>, w2)"
        using step nl hd by simp
      then show ?thesis using v2 u1 c3 p plain
        by (intro exI [of _ "?c2\<lparr>packet_len := 0\<rparr>"] exI [of _ w2] exI [of _ "Some (Stored ?p)"])
          (simp add: unchanged_def entry_effect_def)
    qed
  qed
qed

end
