(* ===== verification/Server_Threads.thy ===== *)
theory Server_Threads
  imports Byte_Steps
begin

text \<open>
  The threads of the server together: the connection threads and the thread that logs the
  time take steps in any order on one system. A step of a connection thread is a \<open>recv\<close>, one
  received byte with all that it causes (after the last byte of a packet that is the section
  under the mutex), or the end of the inner loop: between these points it touches only its
  own buffer. The threads of a system that serves every client implement a log of packets and
  answered seek commands in which each client's stand in the order it sent them.
\<close>

section \<open>All clients in view\<close>

record ('w, 'f) server_view =
  s_ok :: "'w \<Rightarrow> bool"
  s_in :: "'w \<Rightarrow> int \<Rightarrow> byte list"
  s_out :: "'w \<Rightarrow> int \<Rightarrow> byte list"
  s_file :: "'w \<Rightarrow> 'f"
  s_open :: "'w \<Rightarrow> int \<Rightarrow> bool"
  s_rest :: "'w \<Rightarrow> int \<Rightarrow> byte list"
  s_append :: "'f \<Rightarrow> byte list \<Rightarrow> 'f"
  s_bytes :: "'f \<Rightarrow> byte list"
  s_max :: nat
  s_seek :: "'f \<Rightarrow> nat \<Rightarrow> nat \<Rightarrow> nat option"

text \<open>
  The view of one client. What is stored is the file together with the streams of all other
  clients, which its thread therefore leaves alone.
\<close>

type_synonym streams = "int \<Rightarrow> byte list \<times> byte list"

definition other_streams :: "('w, 'f) server_view \<Rightarrow> int \<Rightarrow> 'w \<Rightarrow> streams" where
  "other_streams S cfd w = (\<lambda>fd. if fd = cfd then ([], []) else (s_in S w fd, s_out S w fd))"

definition client_view :: "('w, 'f) server_view \<Rightarrow> int \<Rightarrow> ('w, 'f \<times> streams) view" where
  "client_view S cfd =
     \<lparr>v_ok = s_ok S, v_input = (\<lambda>w. s_in S w cfd), v_sent = (\<lambda>w. s_out S w cfd),
      v_store = (\<lambda>w. (s_file S w, other_streams S cfd w)), v_open = s_open S, v_rest = s_rest S,
      v_append = (\<lambda>(f, o') p. (s_append S f p, o')), v_bytes = (\<lambda>(f, o'). s_bytes S f), v_max = s_max S\<rparr>"

lemma client_view_simps [simp]:
  "v_ok (client_view S cfd) = s_ok S"
  "v_input (client_view S cfd) w = s_in S w cfd"
  "v_sent (client_view S cfd) w = s_out S w cfd"
  "v_store (client_view S cfd) w = (s_file S w, other_streams S cfd w)"
  "v_open (client_view S cfd) = s_open S"
  "v_rest (client_view S cfd) = s_rest S"
  "v_append (client_view S cfd) f p = (s_append S (fst f) p, snd f)"
  "v_bytes (client_view S cfd) f = s_bytes S (fst f)"
  "v_max (client_view S cfd) = s_max S"
  by (simp_all add: client_view_def split_beta)

definition client_sk :: "('w, 'f) server_view \<Rightarrow> 'f \<times> streams \<Rightarrow> nat \<Rightarrow> nat \<Rightarrow> nat option" where
  "client_sk S f x y = s_seek S (fst f) x y"

lemma other_streams_eq:
  "other_streams S cfd w' = other_streams S cfd w \<Longrightarrow> fd \<noteq> cfd \<Longrightarrow>
     s_in S w' fd = s_in S w fd \<and> s_out S w' fd = s_out S w fd"
  unfolding other_streams_def by (drule fun_cong [of _ _ fd]) simp

definition serves_clients :: "'w os \<Rightarrow> ('w, 'f) server_view \<Rightarrow> bool" where
  "serves_clients os S \<longleftrightarrow> (\<forall>cfd. os_serves os (client_view S cfd) cfd)"

text \<open>The driver also answers seek commands: \<open>s_seek\<close> gives the position, or refuses.\<close>

definition serves_seeks :: "'w os \<Rightarrow> ('w, 'f) server_view \<Rightarrow> bool" where
  "serves_seeks os S \<longleftrightarrow> (\<forall>cfd. serves_seek os (client_view S cfd) (client_sk S))"

section \<open>The steps of a connection thread\<close>

datatype phase = Receiving | Bytes "byte list" | Finished | Exiting int

record thread_state =
  th_phase :: phase
  th_conn :: conn

definition new_thread :: thread_state where
  "new_thread = \<lparr>th_phase = Receiving, th_conn = new_conn\<rparr>"

definition active :: "thread_state \<Rightarrow> bool" where
  "active t = (case th_phase t of Receiving \<Rightarrow> True | Bytes bs \<Rightarrow> True | _ \<Rightarrow> False)"

definition hang_up :: "'w os \<Rightarrow> int \<Rightarrow> conn \<Rightarrow> 'w \<Rightarrow> thread_state \<times> 'w" where
  "hang_up os cfd c w =
     (let (c', w') = client_done os cfd c w in (\<lparr>th_phase = Finished, th_conn = c'\<rparr>, w'))"

definition thread_step :: "bool \<Rightarrow> 'w os \<Rightarrow> int \<Rightarrow> thread_state \<Rightarrow> 'w \<Rightarrow> (thread_state \<times> 'w) option" where
  "thread_step use_char os cfd t w =
     (let c = th_conn t in
      case th_phase t of
        Receiving \<Rightarrow>
          (let (n, bs, w1) = sys_recv os w cfd 1024
           in if n \<le> 0 then Some (hang_up os cfd c w1)
              else Some (\<lparr>th_phase = Bytes (take (nat n) bs), th_conn = c\<rparr>, w1))
      | Bytes [] \<Rightarrow> Some (\<lparr>th_phase = Receiving, th_conn = c\<rparr>, w)
      | Bytes (ch # bs) \<Rightarrow> do {
          (fl, c1, w1) \<leftarrow> process_byte use_char os cfd ch c w;
          Some (case fl of
                  Next_byte \<Rightarrow> (\<lparr>th_phase = Bytes bs, th_conn = c1\<rparr>, w1)
                | Break_loop \<Rightarrow> (\<lparr>th_phase = Receiving, th_conn = c1\<rparr>, w1)
                | Client_done \<Rightarrow> hang_up os cfd c1 w1
                | Exit n \<Rightarrow> (\<lparr>th_phase = Exiting n, th_conn = c1\<rparr>, w1))
        }
      | _ \<Rightarrow> Some (t, w))"

text \<open>One thread on its own.\<close>

definition runs :: "bool \<Rightarrow> 'w os \<Rightarrow> int \<Rightarrow> thread_state \<times> 'w \<Rightarrow> thread_state \<times> 'w \<Rightarrow> bool" where
  "runs use_char os cfd = (\<lambda>(t, w) r. active t \<and> thread_step use_char os cfd t w = Some r)\<^sup>*\<^sup>*"

text \<open>What a thread in the middle of its work still has to do, in terms of the code's loops.\<close>

definition finish :: "'w os \<Rightarrow> int \<Rightarrow> flow \<times> conn \<times> 'w \<Rightarrow> flow \<times> conn \<times> 'w" where
  "finish os cfd = (\<lambda>(fl, c, w). case fl of Exit n \<Rightarrow> (fl, c, w) | _ \<Rightarrow> (Client_done, client_done os cfd c w))"

definition go_on :: "bool \<Rightarrow> 'w os \<Rightarrow> int \<Rightarrow> flow \<times> conn \<times> 'w \<Rightarrow> (flow \<times> conn \<times> 'w) option" where
  "go_on use_char os cfd = (\<lambda>(fl, c, w). case fl of
      Client_done \<Rightarrow> Some (fl, c, w)
    | Exit n \<Rightarrow> Some (fl, c, w)
    | _ \<Rightarrow> recv_loop use_char os cfd c w)"

definition rest_of :: "bool \<Rightarrow> 'w os \<Rightarrow> int \<Rightarrow> thread_state \<times> 'w \<Rightarrow> (flow \<times> conn \<times> 'w) option" where
  "rest_of use_char os cfd = (\<lambda>(t, w). case th_phase t of
      Receiving \<Rightarrow> map_option (finish os cfd) (recv_loop use_char os cfd (th_conn t) w)
    | Bytes bs \<Rightarrow> map_option (finish os cfd)
        (Option.bind (bytes_loop use_char os cfd bs (th_conn t) w) (go_on use_char os cfd))
    | Finished \<Rightarrow> Some (Client_done, th_conn t, w)
    | Exiting n \<Rightarrow> Some (Exit n, th_conn t, w))"

lemma handle_connection_finish:
  "handle_connection use_char os cfd w = map_option (finish os cfd) (recv_loop use_char os cfd new_conn w)"
  by (auto simp: handle_connection_def finish_def split: option.split flow.split bind_splits)

lemma recv_loop_go_on:
  "recv_loop use_char os cfd c w =
     (let (n, bs, w1) = sys_recv os w cfd 1024
      in if n \<le> 0 then Some (Client_done, c, w1)
      else Option.bind (bytes_loop use_char os cfd (take (nat n) bs) c w1) (go_on use_char os cfd))"
  unfolding go_on_def by (subst recv_loop.simps) (rule refl)

lemma step_rest_of:
  assumes "active t" "thread_step use_char os cfd t w = Some r"
  shows "rest_of use_char os cfd r = rest_of use_char os cfd (t, w)"
proof (cases "th_phase t")
  case Receiving
  then show ?thesis using assms(2)
    by (auto simp: thread_step_def rest_of_def recv_loop_go_on [of use_char os cfd "th_conn t"] hang_up_def
        finish_def split: prod.splits if_splits)
next
  case (Bytes bs)
  show ?thesis
  proof (cases bs)
    case Nil
    then show ?thesis using assms(2) Bytes
      by (auto simp: thread_step_def rest_of_def go_on_def)
  next
    case (Cons ch bs')
    obtain fl c1 w1 where p: "process_byte use_char os cfd ch (th_conn t) w = Some (fl, c1, w1)"
      using assms(2) Bytes Cons by (auto simp: thread_step_def split: bind_splits)
    then show ?thesis using assms(2) Bytes Cons
      by (cases fl) (auto simp: thread_step_def rest_of_def go_on_def finish_def hang_up_def split: prod.splits)
  qed
qed (use assms in \<open>simp_all add: active_def\<close>)

text \<open>After the bytes of a \<open>recv\<close>, and at the end.\<close>

definition after_bytes :: "'w os \<Rightarrow> int \<Rightarrow> flow \<times> conn \<times> 'w \<Rightarrow> thread_state \<times> 'w" where
  "after_bytes os cfd = (\<lambda>(fl, c, w). case fl of
      Client_done \<Rightarrow> hang_up os cfd c w
    | Exit n \<Rightarrow> (\<lparr>th_phase = Exiting n, th_conn = c\<rparr>, w)
    | _ \<Rightarrow> (\<lparr>th_phase = Receiving, th_conn = c\<rparr>, w))"

definition ended :: "flow \<times> conn \<times> 'w \<Rightarrow> thread_state \<times> 'w" where
  "ended = (\<lambda>(fl, c, w). (\<lparr>th_phase = (case fl of Exit n \<Rightarrow> Exiting n | _ \<Rightarrow> Finished), th_conn = c\<rparr>, w))"

lemma runs_refl: "runs use_char os cfd r r"
  by (simp add: runs_def)

lemma runs_step:
  "active t \<Longrightarrow> thread_step use_char os cfd t w = Some r \<Longrightarrow> runs use_char os cfd r r' \<Longrightarrow>
     runs use_char os cfd (t, w) r'"
  unfolding runs_def by (rule converse_rtranclp_into_rtranclp) auto

lemma runs_trans: "runs use_char os cfd r r1 \<Longrightarrow> runs use_char os cfd r1 r2 \<Longrightarrow> runs use_char os cfd r r2"
  unfolding runs_def by (rule rtranclp_trans)

lemma bytes_loop_runs:
  "bytes_loop use_char os cfd bs c w = Some r \<Longrightarrow>
     runs use_char os cfd (\<lparr>th_phase = Bytes bs, th_conn = c\<rparr>, w) (after_bytes os cfd r)"
proof (induction bs arbitrary: c w)
  case Nil
  then show ?case
    by (auto simp: active_def thread_step_def after_bytes_def intro!: runs_step [OF _ _ runs_refl])
next
  case (Cons ch bs)
  obtain fl c1 w1 where p: "process_byte use_char os cfd ch c w = Some (fl, c1, w1)"
    using Cons.prems by (auto split: bind_splits)
  have act: "active \<lparr>th_phase = Bytes (ch # bs), th_conn = c\<rparr>" by (simp add: active_def)
  show ?case
  proof (cases "fl = Next_byte")
    case True
    then have "bytes_loop use_char os cfd bs c1 w1 = Some r" using Cons.prems p by simp
    note runs_step [OF act _ Cons.IH [OF this]]
    then show ?thesis using p True by (simp add: thread_step_def)
  next
    case False
    then have "r = (fl, c1, w1)" using Cons.prems p by (cases fl) simp_all
    then have "thread_step use_char os cfd \<lparr>th_phase = Bytes (ch # bs), th_conn = c\<rparr> w = Some (after_bytes os cfd r)"
      using False p by (cases fl) (simp_all add: thread_step_def after_bytes_def)
    then show ?thesis by (rule runs_step [OF act _ runs_refl])
  qed
qed

lemma recv_loop_runs:
  assumes "recv_loop use_char os cfd c w = Some r"
  shows "runs use_char os cfd (\<lparr>th_phase = Receiving, th_conn = c\<rparr>, w) (ended (finish os cfd r))"
  using assms
proof (induction use_char os cfd c w r rule: recv_loop.raw_induct [rotated, consumes 1, case_names step])
  case (step loop use_char os cfd c w r)
  note IH = step.IH and hyps = step.hyps
  let ?t = "\<lparr>th_phase = Receiving, th_conn = c\<rparr>"
  have act: "active ?t" by (simp add: active_def)
  obtain n bs w1 where r: "sys_recv os w cfd 1024 = (n, bs, w1)" by (metis prod_cases3)
  show "runs use_char os cfd (?t, w) (ended (finish os cfd r))"
  proof (cases "n \<le> 0")
    case True
    then have "thread_step use_char os cfd ?t w = Some (ended (finish os cfd r))"
      using hyps r by (auto simp: thread_step_def ended_def finish_def hang_up_def split: prod.splits)
    then show ?thesis by (rule runs_step [OF act _ runs_refl])
  next
    case False
    let ?bs = "take (nat n) bs"
    have one: "thread_step use_char os cfd ?t w = Some (\<lparr>th_phase = Bytes ?bs, th_conn = c\<rparr>, w1)"
      using r False by (simp add: thread_step_def)
    obtain fl c1 w2 where b: "bytes_loop use_char os cfd ?bs c w1 = Some (fl, c1, w2)"
      using hyps r False by (auto split: bind_splits)
    note bytes = runs_step [OF act one bytes_loop_runs [OF b]]
    show ?thesis
    proof (cases "fl = Next_byte \<or> fl = Break_loop")
      case True
      then have "loop use_char os cfd c1 w2 = Some r" using hyps r False b by auto
      from IH [OF this] bytes True show ?thesis
        by (auto simp: after_bytes_def intro: runs_trans)
    next
      case last: False
      then have "after_bytes os cfd (fl, c1, w2) = ended (finish os cfd r)"
        using hyps r False b
        by (cases fl) (auto simp: after_bytes_def ended_def finish_def hang_up_def split: prod.splits)
      then show ?thesis using bytes by simp
    qed
  qed
qed

text \<open>
  The steps of a connection thread are the code of \<open>handle_connection\<close>: run on its own, a
  new thread reaches an end with this outcome exactly if \<open>handle_connection\<close> returns it.
\<close>

theorem thread_steps_are_handle_connection:
  "handle_connection use_char os cfd w = Some (fl, c, w') \<longleftrightarrow>
     (\<exists>t. runs use_char os cfd (new_thread, w) (t, w') \<and> th_conn t = c \<and>
        (th_phase t = Finished \<and> fl = Client_done \<or> (\<exists>n. th_phase t = Exiting n \<and> fl = Exit n)))"
proof
  assume "handle_connection use_char os cfd w = Some (fl, c, w')"
  then obtain r where r: "recv_loop use_char os cfd new_conn w = Some r" "finish os cfd r = (fl, c, w')"
    by (auto simp: handle_connection_finish)
  have "fl = Client_done \<or> (\<exists>n. fl = Exit n)"
    using r(2) by (auto simp: finish_def split: prod.splits flow.splits)
  then show "\<exists>t. runs use_char os cfd (new_thread, w) (t, w') \<and> th_conn t = c \<and>
        (th_phase t = Finished \<and> fl = Client_done \<or> (\<exists>n. th_phase t = Exiting n \<and> fl = Exit n))"
    using recv_loop_runs [OF r(1)] by (auto simp: r(2) new_thread_def ended_def)
next
  assume "\<exists>t. runs use_char os cfd (new_thread, w) (t, w') \<and> th_conn t = c \<and>
        (th_phase t = Finished \<and> fl = Client_done \<or> (\<exists>n. th_phase t = Exiting n \<and> fl = Exit n))"
  then obtain t where t: "runs use_char os cfd (new_thread, w) (t, w')"
    "rest_of use_char os cfd (t, w') = Some (fl, c, w')"
    by (auto simp: rest_of_def)
  have "rest_of use_char os cfd r' = rest_of use_char os cfd r" if "runs use_char os cfd r r'" for r r'
    using that unfolding runs_def by (induction rule: rtranclp_induct) (auto dest: step_rest_of)
  from this [OF t(1)] t(2) show "handle_connection use_char os cfd w = Some (fl, c, w')"
    by (simp add: rest_of_def new_thread_def handle_connection_finish)
qed

section \<open>The connection record, whatever the system answers\<close>

text \<open>A packet that was handled leaves the buffer and the flag alone, its length as it was or 0.\<close>

definition keeps_buffer :: "conn \<Rightarrow> conn \<Rightarrow> bool" where
  "keeps_buffer c c' \<longleftrightarrow> packet_buf c' = packet_buf c \<and> packet_size c' = packet_size c \<and>
     thread_complete_success c' = thread_complete_success c \<and> (packet_len c' = packet_len c \<or> packet_len c' = 0)"

lemma keeps_buffer_ok: "conn_ok c \<Longrightarrow> keeps_buffer c c' \<Longrightarrow> conn_ok c'"
  by (auto simp: conn_ok_def keeps_buffer_def split: option.splits)

lemma mutex_keeps:
  "mutex_lock' os c w = Some (c', w') \<Longrightarrow> c' = c\<lparr>holds := True\<rparr>"
  "mutex_unlock' os c w = Some (c', w') \<Longrightarrow> c' = c\<lparr>holds := False\<rparr>"
  by (auto simp: mutex_lock'_def mutex_unlock'_def split: if_splits)

lemma handle_seek_keeps:
  "handle_seek os cfd x y c w = Some (fl, c', w') \<Longrightarrow> keeps_buffer c c'"
  by (auto simp: handle_seek_def keeps_buffer_def Let_def dest!: mutex_keeps
      split: bind_splits prod.splits if_splits)

lemma handle_data_keeps:
  "handle_data os cfd p c w = Some (fl, c', w') \<Longrightarrow> keeps_buffer c c'"
  by (auto simp: handle_data_def keeps_buffer_def Let_def dest!: mutex_keeps
      split: bind_splits prod.splits if_splits)

lemma handle_packet_keeps:
  "handle_packet u os cfd c w = Some (fl, c', w') \<Longrightarrow> keeps_buffer c c'"
  by (auto simp: handle_packet_def dest!: handle_seek_keeps handle_data_keeps
      split: bind_splits option.splits prod.splits)

lemma process_byte_conn_ok:
  assumes "conn_ok c" "realloc_ok os" "process_byte u os cfd ch c w = Some (fl, c', w')"
  shows "fl = Client_done \<or> conn_ok c'"
proof -
  obtain ok c1 w1 where g: "grow_packet os c w = (ok, c1, w1)" by (metis prod_cases3)
  show ?thesis
  proof (cases ok)
    case True
    with g have "grow_packet os c w = (True, c1, w1)" by simp
    note put = process_byte_put [OF assms(1,2) this, where ch = ch]
    show ?thesis
      using assms(3) put(1,5) by (auto split: if_splits dest!: handle_packet_keeps intro: keeps_buffer_ok)
  next
    case False
    then show ?thesis using process_byte_full [of os c w c1 w1 u cfd ch] g assms(3) by simp
  qed
qed

text \<open>
  C15: a thread's record keeps its type whatever the system answers, failures included: while
  the thread runs, the buffer is null with length and size 0, or an allocation of exactly
  the recorded size, which is at least 1024 and cannot wrap, and the packet fits in it.
\<close>

theorem connection_stays_well_formed:
  assumes "realloc_ok os" "runs u os cfd (new_thread, w) (t, w')" "active t"
  shows "case packet_buf (th_conn t) of
      None \<Rightarrow> packet_len (th_conn t) = 0 \<and> packet_size (th_conn t) = 0
    | Some b \<Rightarrow> length b = unat (packet_size (th_conn t)) \<and> 1024 \<le> length b \<and> length b \<le> 2 ^ 47 \<and>
        unat (packet_len (th_conn t)) \<le> length b"
proof -
  have "active (fst r) \<longrightarrow> conn_ok (th_conn (fst r))" if "runs u os cfd (new_thread, w) r" for r
    using that unfolding runs_def
  proof (induction rule: rtranclp_induct)
    case base
    then show ?case using new_conn_ok by (simp add: new_thread_def)
  next
    case (step q r)
    obtain s v where q: "q = (s, v)" by fastforce
    then have s: "active s" "thread_step u os cfd s v = Some r" "conn_ok (th_conn s)" using step by auto
    note byte = process_byte_conn_ok [OF s(3) assms(1)]
    show ?case using s
      by (auto simp: thread_step_def active_def hang_up_def Let_def dest!: byte
          split: phase.splits list.splits bind_splits flow.splits prod.splits if_splits)
  qed
  from this [OF assms(2)] have "conn_ok (th_conn t)" using assms(3) by simp
  then show ?thesis by (auto simp: conn_ok_def split: option.splits)
qed

section \<open>All threads together\<close>

text \<open>
  The system, the thread of every client that was accepted, the timestamp thread's hold on
  the mutex, and the status once a thread has called \<open>exit\<close>.
\<close>

record 'w pool =
  p_world :: 'w
  p_threads :: "int \<Rightarrow> thread_state option"
  p_stamp :: conn
  p_exit :: "int option"

definition start_pool :: "'w \<Rightarrow> 'w pool" where
  "start_pool w = \<lparr>p_world = w, p_threads = (\<lambda>fd. None), p_stamp = new_conn, p_exit = None\<rparr>"

text \<open>What \<open>strftime\<close> writes into the 64 bytes of \<open>time_str\<close>: one line.\<close>

definition time_string :: "byte list \<Rightarrow> bool" where
  "time_string str \<longleftrightarrow> packet str \<and> length str < 64"

definition put_thread :: "int \<Rightarrow> thread_state \<times> 'w \<Rightarrow> 'w pool \<Rightarrow> 'w pool" where
  "put_thread cfd = (\<lambda>(t, w) p.
     p\<lparr>p_world := w, p_threads := (p_threads p)(cfd \<mapsto> t),
       p_exit := (case th_phase t of Exiting n \<Rightarrow> Some n | _ \<Rightarrow> p_exit p)\<rparr>)"

text \<open>Only the build without the driver has the timestamp thread.\<close>

inductive pool_step :: "bool \<Rightarrow> 'w os \<Rightarrow> 'w pool \<Rightarrow> 'w pool \<Rightarrow> bool" for use_char os where
  accept: "p_exit p = None \<Longrightarrow> p_threads p cfd = None \<Longrightarrow>
     pool_step use_char os p (p\<lparr>p_threads := (p_threads p)(cfd \<mapsto> new_thread)\<rparr>)"
| thread: "p_exit p = None \<Longrightarrow> p_threads p cfd = Some t \<Longrightarrow> active t \<Longrightarrow>
     thread_step use_char os cfd t (p_world p) = Some r \<Longrightarrow>
     pool_step use_char os p (put_thread cfd r p)"
| stamp: "p_exit p = None \<Longrightarrow> \<not> use_char \<Longrightarrow> time_string str \<Longrightarrow>
     timestamp_round os str (p_stamp p) (p_world p) = Some (c, w) \<Longrightarrow>
     pool_step use_char os p (p\<lparr>p_world := w, p_stamp := c\<rparr>)"

inductive_cases pool_stepE: "pool_step use_char os p p'"

section \<open>The log of packets\<close>

text \<open>
  Who caused an entry: a client, or the timestamp thread (\<open>None\<close>). For a packet it stored a
  client gets the file as it is right after that, for a seek command the file from the position
  on, as it is then.
\<close>

type_synonym history = "(int option \<times> entry) list"

definition packets_of :: "int \<Rightarrow> history \<Rightarrow> byte list list" where
  "packets_of cfd h = map (\<lambda>e. entry_bytes (snd e)) (filter (\<lambda>e. fst e = Some cfd) h)"

definition entry_file :: "('w, 'f) server_view \<Rightarrow> 'f \<Rightarrow> entry \<Rightarrow> 'f" where
  "entry_file S f e = (case e of Stored p \<Rightarrow> s_append S f p | Answered p k \<Rightarrow> f)"

definition entry_reply :: "('w, 'f) server_view \<Rightarrow> 'f \<Rightarrow> entry \<Rightarrow> byte list" where
  "entry_reply S f e = (case e of Stored p \<Rightarrow> s_bytes S (s_append S f p) | Answered p k \<Rightarrow> drop k (s_bytes S f))"

definition file_after :: "('w, 'f) server_view \<Rightarrow> 'f \<Rightarrow> history \<Rightarrow> 'f" where
  "file_after S f h = foldl (\<lambda>f e. entry_file S f (snd e)) f h"

fun replies :: "('w, 'f) server_view \<Rightarrow> 'f \<Rightarrow> int \<Rightarrow> history \<Rightarrow> byte list" where
  "replies S f cfd [] = []"
| "replies S f cfd ((who, e) # h) =
     (if who = Some cfd then entry_reply S f e else []) @ replies S (entry_file S f e) cfd h"

text \<open>Every entry is right for the file at its time; the driver's build has no time stamps.\<close>

fun right_history :: "bool \<Rightarrow> ('w, 'f) server_view \<Rightarrow> 'f \<Rightarrow> history \<Rightarrow> bool" where
  "right_history u S f [] = True"
| "right_history u S f ((who, e) # h) =
     (right_entry u (s_seek S) f e \<and> (u \<longrightarrow> who \<noteq> None) \<and> right_history u S (entry_file S f e) h)"

lemma packets_of_append [simp]: "packets_of cfd (h @ k) = packets_of cfd h @ packets_of cfd k"
  by (simp add: packets_of_def)

lemma packets_of_simps [simp]:
  "packets_of cfd [] = []"
  "packets_of cfd (e # h) = (if fst e = Some cfd then [entry_bytes (snd e)] else []) @ packets_of cfd h"
  by (simp_all add: packets_of_def)

lemma file_after_append: "file_after S f (h @ k) = file_after S (file_after S f h) k"
  by (simp add: file_after_def)

lemma file_after_simps [simp]:
  "file_after S f [] = f" "file_after S f (e # h) = file_after S (entry_file S f (snd e)) h"
  by (simp_all add: file_after_def)

lemma entry_simps [simp]:
  "entry_file S f (Stored p) = s_append S f p" "entry_file S f (Answered p k) = f"
  "entry_reply S f (Stored p) = s_bytes S (s_append S f p)" "entry_reply S f (Answered p k) = drop k (s_bytes S f)"
  by (simp_all add: entry_file_def entry_reply_def)

lemma replies_append: "replies S f cfd (h @ k) = replies S f cfd h @ replies S (file_after S f h) cfd k"
  by (induction h arbitrary: f) (auto simp: file_after_def)

lemma right_history_append:
  "right_history u S f (h @ k) \<longleftrightarrow> right_history u S f h \<and> right_history u S (file_after S f h) k"
proof (induction h arbitrary: f)
  case (Cons e h)
  then show ?case by (cases e) simp
qed simp

text \<open>Packets and a rest without a newline are the lines of what they make up.\<close>

lemma split_lines_packets:
  "\<forall>p \<in> set ps. packet p \<Longrightarrow> newline \<notin> set r \<Longrightarrow> split_lines (concat ps @ r) = (ps, r)"
proof (induction ps)
  case (Cons p ps)
  then obtain xs where "p = xs @ [newline]" "newline \<notin> set xs" by (auto simp: packet_def)
  then show ?case using Cons split_lines_line [of xs "concat ps @ r"] by simp
qed (simp add: split_lines_None)

text \<open>All entries end with a newline, so a client's bytes are cut between lines.\<close>

lemma right_entry_end: "right_entry u sk f e \<Longrightarrow> \<exists>xs. entry_bytes e = xs @ [newline]"
proof (cases e)
  case (Answered p k)
  assume "right_entry u sk f e"
  then obtain x y later where "p = seek_cmd x y @ later" "last p = newline" using Answered by auto
  then have "p \<noteq> []" "last p = newline" by (auto simp: seek_cmd_def)
  then show ?thesis using Answered by (metis append_butlast_last_id entry_bytes.simps(2))
qed (auto simp: packet_def)

lemma split_lines_end: "snd (split_lines (xs @ [newline])) = []"
  by (subst split_lines_append) (simp add: split_lines_line [OF split_lines_snd, of xs "[]", simplified] split_lines_None)

lemma right_history_entries: "right_history u S f h \<Longrightarrow> e \<in> set h \<Longrightarrow> \<exists>g. right_entry u (s_seek S) g (snd e)"
proof (induction h arbitrary: f)
  case (Cons d h)
  then show ?case by (cases d) auto
qed simp

lemma packets_of_entry:
  assumes h: "right_history u S f h" and p: "p \<in> set (packets_of cfd h)"
  obtains e g where "entry_bytes e = p" "right_entry u (s_seek S) g e"
proof -
  obtain d where d: "d \<in> set h" "p = entry_bytes (snd d)" using p by (auto simp: packets_of_def)
  from right_history_entries [OF h d(1)] show thesis using that d(2) by blast
qed

lemma packets_of_end:
  assumes "right_history u S f h" "p \<in> set (packets_of cfd h)"
  shows "\<exists>xs. p = xs @ [newline]"
  using packets_of_entry [OF assms] right_entry_end by metis

lemma split_lines_ends: "\<forall>p \<in> set ps. \<exists>xs. p = xs @ [newline] \<Longrightarrow> snd (split_lines (concat ps)) = []"
proof (cases ps rule: rev_cases)
  case (snoc qs q)
  assume "\<forall>p \<in> set ps. \<exists>xs. p = xs @ [newline]"
  then obtain xs where "q = xs @ [newline]" using snoc by auto
  then show ?thesis using split_lines_end [of "concat qs @ xs"] snoc by simp
qed (simp add: split_lines_None)

lemma packets_of_cut: "right_history u S f h \<Longrightarrow> snd (split_lines (concat (packets_of cfd h))) = []"
  by (rule split_lines_ends) (rule ballI, erule (1) packets_of_end)

text \<open>Of a client that sends no commands the entries are its lines.\<close>

lemma plain_client:
  assumes h: "right_history u S f h" and s: "stream = concat (packets_of cfd h) @ rest" "waiting u rest"
    and plain: "\<not> seeks u stream"
  shows "split_lines stream = (packets_of cfd h, rest)"
proof -
  have no: "\<not> seeks u (snd (split_lines xs) @ ys)" if "stream = xs @ ys" for xs ys
    using plain seeks_append [of u xs ys] that by blast
  have "\<not> (u \<and> blocked rest)"
    using no [OF s(1)] blocked_seeks [of rest u "[]"] packets_of_cut [OF h] by auto
  then have r: "newline \<notin> set rest" using s(2) by (auto simp: waiting_def)
  have "packet p" if p: "p \<in> set (packets_of cfd h)" for p
  proof -
    obtain us vs where ps: "packets_of cfd h = us @ p # vs" using p by (meson split_list)
    have "\<forall>q \<in> set us. \<exists>xs. q = xs @ [newline]"
      using packets_of_end [OF h, of _ cfd] unfolding ps by simp
    then have "snd (split_lines (concat us)) = []" by (rule split_lines_ends)
    then have "\<not> seeks u (p @ concat vs @ rest)" using no [of "concat us" "p @ concat vs @ rest"] s(1) ps by simp
    then have nb: "\<not> (u \<and> blocked p)" using blocked_seeks by blast
    obtain e g where e: "entry_bytes e = p" "right_entry u (s_seek S) g e" by (rule packets_of_entry [OF h p])
    then show ?thesis
    proof (cases e)
      case (Answered q k)
      then have "u" "blocked p" using e unfolding blocked_def by auto
      then show ?thesis using nb by blast
    qed auto
  qed
  then show ?thesis using split_lines_packets [OF _ r] s(1) by blast
qed

section \<open>The invariant\<close>

text \<open>
  What a thread has received but not yet stored, how many steps it can still take, and the
  state of a client: its thread has served some first bytes of its stream, and sent it the
  replies to exactly these.
\<close>

definition unread :: "thread_state \<Rightarrow> byte list" where
  "unread t = pending (th_conn t) @ (case th_phase t of Bytes bs \<Rightarrow> bs | _ \<Rightarrow> [])"

definition thread_work :: "('w, 'f) server_view \<Rightarrow> int \<Rightarrow> thread_state \<Rightarrow> 'w \<Rightarrow> nat" where
  "thread_work S cfd t w =
     (case th_phase t of
        Receiving \<Rightarrow> 3 * length (s_in S w cfd) + 1
      | Bytes bs \<Rightarrow> 3 * length (s_in S w cfd) + length bs + 2
      | _ \<Rightarrow> 0)"

definition thread_inv ::
  "bool \<Rightarrow> ('w, 'f) server_view \<Rightarrow> 'w \<Rightarrow> history \<Rightarrow> int \<Rightarrow> thread_state \<Rightarrow> 'w \<Rightarrow> bool" where
  "thread_inv u S w0 h cfd t w \<longleftrightarrow>
     (if active t
      then conn_ok (th_conn t) \<and> \<not> holds (th_conn t) \<and> waiting u (pending (th_conn t)) \<and>
        s_in S w0 cfd = concat (packets_of cfd h) @ unread t @ s_in S w cfd
      else th_phase t = Finished \<and> s_in S w cfd = [] \<and>
        (\<exists>rest. waiting u rest \<and> s_in S w0 cfd = concat (packets_of cfd h) @ rest))"

definition client_inv ::
  "bool \<Rightarrow> ('w, 'f) server_view \<Rightarrow> 'w \<Rightarrow> history \<Rightarrow> int \<Rightarrow> thread_state option \<Rightarrow> 'w \<Rightarrow> bool" where
  "client_inv u S w0 h cfd to w \<longleftrightarrow>
     s_out S w cfd = s_out S w0 cfd @ replies S (s_file S w0) cfd h \<and>
     (case to of
        None \<Rightarrow> s_in S w cfd = s_in S w0 cfd \<and> packets_of cfd h = []
      | Some t \<Rightarrow> thread_inv u S w0 h cfd t w)"

text \<open>What a step of a thread does to its client, to the file and to nobody else.\<close>

definition advances :: "bool \<Rightarrow> 'w os \<Rightarrow> ('w, 'f) server_view \<Rightarrow> 'w \<Rightarrow> history \<Rightarrow> int \<Rightarrow> thread_state \<Rightarrow> 'w \<Rightarrow>
    thread_state \<Rightarrow> 'w \<Rightarrow> history \<Rightarrow> bool" where
  "advances u os S w0 h cfd t w t' w' k \<longleftrightarrow>
     thread_step u os cfd t w = Some (t', w') \<and> s_ok S w' \<and> (\<forall>n. th_phase t' \<noteq> Exiting n) \<and>
     (\<forall>e \<in> set k. fst e = Some cfd) \<and> right_history u S (s_file S w) k \<and>
     s_file S w' = file_after S (s_file S w) k \<and>
     other_streams S cfd w' = other_streams S cfd w \<and> client_inv u S w0 (h @ k) cfd (Some t') w' \<and>
     thread_work S cfd t' w' < thread_work S cfd t w"

lemma recv_step_advances:
  assumes os: "os_serves os (client_view S cfd) cfd" and t: "th_phase t = Receiving" and w: "s_ok S w"
    and inv: "client_inv u S w0 h cfd (Some t) w"
  shows "\<exists>t' w'. advances u os S w0 h cfd t w t' w' []"
proof -
  let ?V = "client_view S cfd" and ?c = "th_conn t"
  have rs: "serves_recv os ?V cfd" and hu: "serves_hangup os ?V cfd" using os by (simp_all add: os_serves_def)
  from rs [unfolded serves_recv_def client_view_simps, rule_format, OF w, of 1024]
  obtain bs w1 where r: "sys_recv os w cfd 1024 = (int (length bs), bs, w1)" "s_ok S w1"
    and i: "s_in S w cfd = bs @ s_in S w1 cfd" "bs = [] \<longrightarrow> s_in S w cfd = []"
    and v: "s_out S w1 cfd = s_out S w cfd" "s_file S w1 = s_file S w" "other_streams S cfd w1 = other_streams S cfd w"
    by auto
  have act: "active t" using t by (simp add: active_def)
  show ?thesis
  proof (cases "bs = []")
    case True
    let ?w = "snd (sys_close os w1 cfd)"
    obtain c' where step: "thread_step u os cfd t w = Some (\<lparr>th_phase = Finished, th_conn = c'\<rparr>, ?w)"
      using t r(1) True by (simp add: thread_step_def hang_up_def client_done_def Let_def)
    have u: "s_ok S ?w" "s_in S ?w cfd = s_in S w1 cfd" "s_out S ?w cfd = s_out S w1 cfd" "s_file S ?w = s_file S w1"
      "other_streams S cfd ?w = other_streams S cfd w1"
      using hu r(2) by (simp_all add: serves_hangup_def unchanged_def)
    have whole: "s_in S w0 cfd = concat (packets_of cfd h) @ pending ?c" "waiting u (pending ?c)"
      using inv act i True t by (simp_all add: client_inv_def thread_inv_def unread_def)
    then have "client_inv u S w0 (h @ []) cfd (Some \<lparr>th_phase = Finished, th_conn = c'\<rparr>) ?w"
      using inv u v i True by (auto simp: client_inv_def thread_inv_def active_def)
    then show ?thesis using step u v t
      by (intro exI [of _ "\<lparr>th_phase = Finished, th_conn = c'\<rparr>"] exI [of _ ?w])
        (simp add: advances_def thread_work_def)
  next
    case False
    let ?t = "\<lparr>th_phase = Bytes bs, th_conn = ?c\<rparr>"
    have "thread_step u os cfd t w = Some (?t, w1)" using t r(1) False by (simp add: thread_step_def)
    moreover have "client_inv u S w0 (h @ []) cfd (Some ?t) w1"
      using inv act i(1) v t by (simp add: client_inv_def thread_inv_def active_def unread_def)
    moreover have "thread_work S cfd ?t w1 < thread_work S cfd t w"
      using i(1) False t by (cases bs) (simp_all add: thread_work_def)
    ultimately show ?thesis using r(2) v
      by (intro exI [of _ ?t] exI [of _ w1]) (simp add: advances_def)
  qed
qed

text \<open>What holds of a thread that has a byte to process.\<close>

lemma byte_ready:
  assumes t: "th_phase t = Bytes (ch # bs)" and h: "right_history u S f h"
    and inv: "client_inv u S w0 h cfd (Some t) w" and data: "fits (client_view S cfd) u (s_in S w0 cfd)"
  shows "conn_ok (th_conn t)" "\<not> holds (th_conn t)" "waiting u (pending (th_conn t))"
    "s_in S w0 cfd = concat (packets_of cfd h) @ (pending (th_conn t) @ [ch]) @ bs @ s_in S w cfd"
    "fits (client_view S cfd) u (pending (th_conn t) @ [ch])"
proof -
  let ?V = "client_view S cfd" and ?c = "th_conn t"
  have act: "active t" using t by (simp add: active_def)
  then show "conn_ok ?c" "\<not> holds ?c" "waiting u (pending ?c)"
    and whole: "s_in S w0 cfd = concat (packets_of cfd h) @ (pending ?c @ [ch]) @ bs @ s_in S w cfd"
    using inv t by (simp_all add: client_inv_def thread_inv_def unread_def)
  have "fits ?V u ((pending ?c @ [ch]) @ bs @ s_in S w cfd)"
    using data fits_append(2) [of ?V u "concat (packets_of cfd h)"] packets_of_cut [OF h] by (simp add: whole)
  then show "fits ?V u (pending ?c @ [ch])" by (rule fits_append(1))
qed

lemma byte_step_advances:
  assumes os: "os_serves os (client_view S cfd) cfd" and sk: "u \<Longrightarrow> serves_seek os (client_view S cfd) (client_sk S)"
    and t: "th_phase t = Bytes (ch # bs)" and w: "s_ok S w"
    and cur: "s_file S w = file_after S (s_file S w0) h" and h: "right_history u S (s_file S w0) h"
    and inv: "client_inv u S w0 h cfd (Some t) w" and data: "fits (client_view S cfd) u (s_in S w0 cfd)"
  shows "\<exists>t' w' k. advances u os S w0 h cfd t w t' w' k"
proof -
  let ?V = "client_view S cfd" and ?c = "th_conn t" and ?f = "(s_file S w, other_streams S cfd w)"
  have act: "active t" using t by (simp add: active_def)
  note ready = byte_ready [OF t h inv data]
  have "v_ok ?V w" using w by simp
  from process_byte_serves [OF os sk ready(1-3) this ready(5)]
  obtain c' w' eo where p: "process_byte u os cfd ch ?c w = Some (Next_byte, c', w')" "conn_ok c'" "\<not> holds c'"
    and w': "s_ok S w'" "s_in S w' cfd = s_in S w cfd"
    and eff: "(s_file S w', other_streams S cfd w') = fst (entry_effect ?V eo ?f)"
      "s_out S w' cfd = s_out S w cfd @ snd (entry_effect ?V eo ?f)"
    and eo: "case eo of None \<Rightarrow> pending c' = pending ?c @ [ch] \<and> waiting u (pending c')
      | Some e \<Rightarrow> pending c' = [] \<and> entry_bytes e = pending ?c @ [ch] \<and> right_entry u (client_sk S) ?f e"
    unfolding client_view_simps by blast
  let ?t = "\<lparr>th_phase = Bytes bs, th_conn = c'\<rparr>"
  let ?k = "case eo of None \<Rightarrow> [] | Some e \<Rightarrow> [(Some cfd, e)]"
  have re: "right_entry u (client_sk S) ?f e = right_entry u (s_seek S) (s_file S w) e" for e
    by (cases e) (simp_all add: client_sk_def)
  have eff': "s_file S w' = file_after S (s_file S w) ?k" "other_streams S cfd w' = other_streams S cfd w"
    "s_out S w' cfd = s_out S w cfd @ replies S (s_file S w) cfd ?k"
    using eff by (auto simp: entry_effect_def split: option.splits entry.splits)
  have k: "right_history u S (s_file S w) ?k" "\<forall>e \<in> set ?k. fst e = Some cfd"
    using eo by (auto simp: re split: option.splits)
  have "thread_step u os cfd t w = Some (?t, w')" using t p(1) by (simp add: thread_step_def)
  moreover have "s_in S w0 cfd = concat (packets_of cfd (h @ ?k)) @ unread ?t @ s_in S w' cfd"
    using ready(4) eo w'(2) by (auto simp: unread_def split: option.splits)
  moreover have "waiting u (pending c')" using eo by (auto simp: waiting_def split: option.splits)
  moreover have "s_out S w' cfd = s_out S w0 cfd @ replies S (s_file S w0) cfd (h @ ?k)"
    using inv eff'(3) cur by (simp add: client_inv_def replies_append)
  moreover have "thread_work S cfd ?t w' < thread_work S cfd t w" using t w'(2) by (simp add: thread_work_def)
  ultimately show ?thesis using p(2,3) w' eff'(1,2) k
    by (intro exI [of _ ?t] exI [of _ w'] exI [of _ ?k])
      (simp add: advances_def client_inv_def thread_inv_def active_def)
qed

lemma thread_step_advances:
  assumes "os_serves os (client_view S cfd) cfd" "u \<Longrightarrow> serves_seek os (client_view S cfd) (client_sk S)"
    "active t" "s_ok S w" "s_file S w = file_after S (s_file S w0) h"
    "right_history u S (s_file S w0) h" "client_inv u S w0 h cfd (Some t) w" "fits (client_view S cfd) u (s_in S w0 cfd)"
  shows "\<exists>t' w' k. advances u os S w0 h cfd t w t' w' k"
proof (cases "th_phase t")
  case Receiving
  from recv_step_advances [OF assms(1) this assms(4,7)] show ?thesis by blast
next
  case (Bytes bs)
  show ?thesis
  proof (cases bs)
    case Nil
    let ?t = "\<lparr>th_phase = Receiving, th_conn = th_conn t\<rparr>"
    have "thread_step u os cfd t w = Some (?t, w)" using Bytes Nil by (simp add: thread_step_def)
    moreover have "client_inv u S w0 (h @ []) cfd (Some ?t) w"
      using assms(3,7) Bytes Nil by (simp add: client_inv_def thread_inv_def active_def unread_def)
    ultimately show ?thesis using assms(4) Bytes
      by (intro exI [of _ ?t] exI [of _ w] exI [of _ "[]"]) (simp add: advances_def thread_work_def)
  next
    case (Cons ch bs')
    then show ?thesis using byte_step_advances [OF assms(1,2) _ assms(4-8)] Bytes by simp
  qed
qed (use assms(3) in \<open>simp_all add: active_def\<close>)

text \<open>
  The state of all threads, with the history of the file as a ghost: each client's packets
  stand in it in the order of its stream, and the driver's build has no other writers.
\<close>

definition pool_inv :: "bool \<Rightarrow> ('w, 'f) server_view \<Rightarrow> 'w \<Rightarrow> history \<Rightarrow> 'w pool \<Rightarrow> bool" where
  "pool_inv u S w0 h p \<longleftrightarrow>
     s_ok S (p_world p) \<and> p_exit p = None \<and> \<not> holds (p_stamp p) \<and> finite (dom (p_threads p)) \<and>
     right_history u S (s_file S w0) h \<and> s_file S (p_world p) = file_after S (s_file S w0) h \<and>
     (\<forall>cfd. client_inv u S w0 h cfd (p_threads p cfd) (p_world p))"

definition served_world :: "bool \<Rightarrow> 'w os \<Rightarrow> ('w, 'f) server_view \<Rightarrow> 'w \<Rightarrow> bool" where
  "served_world u os S w0 \<longleftrightarrow>
     serves_clients os S \<and> (u \<longrightarrow> serves_seeks os S) \<and> s_ok S w0 \<and> 64 \<le> s_max S \<and>
     (\<forall>cfd. fits (client_view S cfd) u (s_in S w0 cfd))"

lemma start_pool_inv: "s_ok S w0 \<Longrightarrow> pool_inv u S w0 [] (start_pool w0)"
  by (simp add: pool_inv_def start_pool_def client_inv_def new_conn_def)

text \<open>A client is not affected by what the others do.\<close>

lemma client_inv_frame:
  assumes "client_inv u S w0 h cfd to w" "s_in S w' cfd = s_in S w cfd" "s_out S w' cfd = s_out S w cfd"
    and "\<forall>e \<in> set k. fst e \<noteq> Some cfd"
  shows "client_inv u S w0 (h @ k) cfd to w'"
proof -
  have "packets_of cfd k = []" using assms(4) by (auto simp: packets_of_def filter_empty_conv)
  moreover have "replies S f cfd k = []" for f using assms(4) by (induction k arbitrary: f) auto
  ultimately show ?thesis using assms(1-3)
    by (cases to) (simp_all add: client_inv_def thread_inv_def replies_append)
qed

lemma thread_pool_inv:
  assumes w: "served_world u os S w0" and inv: "pool_inv u S w0 h p"
    and t: "p_threads p cfd = Some t" "active t"
  shows "\<exists>t' w' k. advances u os S w0 h cfd t (p_world p) t' w' k \<and>
     pool_inv u S w0 (h @ k) (put_thread cfd (t', w') p)"
proof -
  have os: "os_serves os (client_view S cfd) cfd" and data: "fits (client_view S cfd) u (s_in S w0 cfd)"
    and sk: "u \<Longrightarrow> serves_seek os (client_view S cfd) (client_sk S)"
    using w by (simp_all add: served_world_def serves_clients_def serves_seeks_def)
  have c: "client_inv u S w0 h cfd (Some t) (p_world p)" and ok: "s_ok S (p_world p)"
    and f: "s_file S (p_world p) = file_after S (s_file S w0) h" and ps: "right_history u S (s_file S w0) h"
    using inv t(1) unfolding pool_inv_def by metis+
  from thread_step_advances [OF os sk t(2) ok f ps c data]
  obtain t' w' k where a: "advances u os S w0 h cfd t (p_world p) t' w' k" by blast
  have others: "s_in S w' fd = s_in S (p_world p) fd \<and> s_out S w' fd = s_out S (p_world p) fd" if "fd \<noteq> cfd" for fd
    using a other_streams_eq [of S cfd w' "p_world p"] that by (simp add: advances_def)
  have k: "\<forall>e \<in> set k. fst e \<noteq> Some fd" if "fd \<noteq> cfd" for fd using a that by (auto simp: advances_def)
  have "client_inv u S w0 (h @ k) fd (((p_threads p)(cfd \<mapsto> t')) fd) w'" for fd
  proof (cases "fd = cfd")
    case False
    then show ?thesis
      using client_inv_frame [of u S w0 h fd "p_threads p fd" "p_world p" w' k] inv others k
      by (simp add: pool_inv_def)
  qed (use a in \<open>simp add: advances_def\<close>)
  moreover have "(case th_phase t' of Exiting n \<Rightarrow> Some n | _ \<Rightarrow> p_exit p) = None"
    using a inv by (simp add: advances_def pool_inv_def split: phase.split)
  ultimately have "pool_inv u S w0 (h @ k) (put_thread cfd (t', w') p)"
    using a inv f by (auto simp: pool_inv_def put_thread_def advances_def file_after_append right_history_append)
  then show ?thesis using a by blast
qed

lemma stamp_pool_inv:
  assumes w: "served_world u os S w0" and inv: "pool_inv u S w0 h p"
    and r: "\<not> u" "time_string str" "timestamp_round os str (p_stamp p) (p_world p) = Some (c, w')"
  shows "pool_inv u S w0 (h @ [(None, Stored str)]) (p\<lparr>p_world := w', p_stamp := c\<rparr>)"
proof -
  let ?V = "client_view S 0" and ?w = "p_world p"
  have os: "serves_open os ?V" "serves_write os ?V" "serves_fsync os ?V" "serves_close os ?V" "serves_mutex os ?V"
    using w by (simp_all add: served_world_def serves_clients_def os_serves_def)
  have str: "packet str" "length str \<le> v_max ?V"
    using w r(2) by (simp_all add: served_world_def time_string_def)
  let ?w1 = "sys_lock os ?w"
  have 1: "unchanged ?V ?w ?w1" "v_ok ?V ?w1"
    using os(5) inv by (simp_all add: serves_mutex_def pool_inv_def unchanged_def)
  obtain w2 where 2: "write_to_file os ?w1 str = (0, w2)" "v_ok ?V w2" "v_input ?V w2 = v_input ?V ?w1"
    "v_sent ?V w2 = v_sent ?V ?w1" "v_store ?V w2 = v_append ?V (v_store ?V ?w1) str"
    using write_to_file_serves [OF os(1-4) 1(2) str] by blast
  have "unchanged ?V w2 (sys_unlock os w2)" using os(5) 2(2) by (simp add: serves_mutex_def)
  moreover have "w' = sys_unlock os w2" "\<not> holds c"
    using r(3) 2(1) inv by (auto simp: timestamp_round_def mutex_lock'_def mutex_unlock'_def pool_inv_def)
  ultimately have v: "s_ok S w'" "s_file S w' = s_append S (s_file S ?w) str"
    "s_in S w' 0 = s_in S ?w 0" "s_out S w' 0 = s_out S ?w 0" "other_streams S 0 w' = other_streams S 0 ?w"
    using 1 2 by (auto simp: unchanged_def)
  have same: "s_in S w' fd = s_in S ?w fd \<and> s_out S w' fd = s_out S ?w fd" for fd
    using other_streams_eq [OF v(5)] v(3,4) by (cases "fd = 0") simp_all
  have "client_inv u S w0 (h @ [(None, Stored str)]) fd (p_threads p fd) w'" for fd
    by (rule client_inv_frame [of _ _ _ _ _ _ ?w]) (use inv same in \<open>simp_all add: pool_inv_def\<close>)
  then show ?thesis
    using inv v str(1) r(1) \<open>\<not> holds c\<close> by (simp add: pool_inv_def file_after_append right_history_append)
qed

lemma pool_step_inv:
  assumes w: "served_world u os S w0" and inv: "pool_inv u S w0 h p" and "pool_step u os p p'"
  shows "\<exists>k. pool_inv u S w0 (h @ k) p'"
  using assms(3)
proof cases
  case (accept cfd)
  have "client_inv u S w0 h cfd (Some new_thread) (p_world p)"
    using inv accept(3) new_conn_ok
    by (auto simp: pool_inv_def client_inv_def thread_inv_def active_def new_thread_def unread_def dest!: spec [of _ cfd])
  then have "pool_inv u S w0 h p'" using inv accept(1) by (simp add: pool_inv_def)
  then show ?thesis by (intro exI [of _ "[]"]) simp
next
  case (thread cfd t r)
  then show ?thesis using thread_pool_inv [OF w inv thread(3,4)] by (auto simp: advances_def)
next
  case (stamp str c w')
  then show ?thesis using stamp_pool_inv [OF w inv] by blast
qed

lemma pool_reaches_inv:
  assumes w: "served_world u os S w0" and "(pool_step u os)\<^sup>*\<^sup>* (start_pool w0) p"
  shows "\<exists>h. pool_inv u S w0 h p"
  using assms(2)
proof (induction rule: rtranclp_induct)
  case base
  then show ?case using w start_pool_inv [of S w0 u] by (auto simp: served_world_def)
next
  case (step p p')
  then show ?case using pool_step_inv [OF w] by blast
qed

section \<open>Properties of all schedules\<close>

text \<open>
  However the connection threads and the timestamp thread interleave, the file is what
  one history makes of it: packets that were stored, one after the other, and seek commands
  that were answered. Each client's entries stand in it in the order it sent them, the others
  are time strings (with the driver there are none), and each client has been sent exactly the
  answers to its entries, with the file as it was at that moment. What a client sent and is in
  no entry is still on its way, or, when its thread has ended, the beginning of a line or
  something after a seek command that was refused. No thread ever comes to undefined
  behaviour, and none ends the process.
\<close>

theorem threads_share_one_log:
  assumes "served_world u os S w0" "(pool_step u os)\<^sup>*\<^sup>* (start_pool w0) p"
  shows "p_exit p = None \<and>
    (\<exists>h. s_file S (p_world p) = file_after S (s_file S w0) h \<and> right_history u S (s_file S w0) h \<and>
       (\<forall>cfd. \<exists>rest. s_in S w0 cfd = concat (packets_of cfd h) @ rest \<and>
          s_out S (p_world p) cfd = s_out S w0 cfd @ replies S (s_file S w0) cfd h \<and>
          (\<forall>t. p_threads p cfd = Some t \<longrightarrow>
             (if active t then \<exists>r. thread_step u os cfd t (p_world p) = Some r else waiting u rest))))"
proof -
  obtain h where inv: "pool_inv u S w0 h p" using pool_reaches_inv [OF assms] by blast
  have "\<exists>rest. s_in S w0 cfd = concat (packets_of cfd h) @ rest \<and>
      s_out S (p_world p) cfd = s_out S w0 cfd @ replies S (s_file S w0) cfd h \<and>
      (\<forall>t. p_threads p cfd = Some t \<longrightarrow>
         (if active t then \<exists>r. thread_step u os cfd t (p_world p) = Some r else waiting u rest))" for cfd
  proof -
    have c: "client_inv u S w0 h cfd (p_threads p cfd) (p_world p)" using inv by (simp add: pool_inv_def)
    show ?thesis
    proof (cases "p_threads p cfd")
      case None
      then show ?thesis using c by (simp add: client_inv_def)
    next
      case (Some t)
      show ?thesis
      proof (cases "active t")
        case True
        then show ?thesis using c Some thread_pool_inv [OF assms(1) inv Some True]
          by (auto simp: client_inv_def thread_inv_def advances_def)
      next
        case False
        then show ?thesis using c Some by (auto simp: client_inv_def thread_inv_def)
      qed
    qed
  qed
  then show ?thesis using inv unfolding pool_inv_def by blast
qed

text \<open>Steps of the accepted clients' threads only, and how many of them there can be.\<close>

definition client_step :: "bool \<Rightarrow> 'w os \<Rightarrow> 'w pool \<Rightarrow> 'w pool \<Rightarrow> bool" where
  "client_step u os p p' \<longleftrightarrow>
     (\<exists>cfd t r. p_exit p = None \<and> p_threads p cfd = Some t \<and> active t \<and>
        thread_step u os cfd t (p_world p) = Some r \<and> p' = put_thread cfd r p)"

definition total_work :: "('w, 'f) server_view \<Rightarrow> 'w pool \<Rightarrow> nat" where
  "total_work S p = (\<Sum>cfd \<in> dom (p_threads p). thread_work S cfd (the (p_threads p cfd)) (p_world p))"

lemma client_step_inv:
  assumes w: "served_world u os S w0" and inv: "pool_inv u S w0 h p" and step: "client_step u os p p'"
  shows "\<exists>k. pool_inv u S w0 (h @ k) p'" "total_work S p' < total_work S p"
proof -
  obtain cfd t r where t: "p_threads p cfd = Some t" "active t" "thread_step u os cfd t (p_world p) = Some r"
    and p': "p' = put_thread cfd r p" using step by (auto simp: client_step_def)
  obtain t' w' k where a: "advances u os S w0 h cfd t (p_world p) t' w' k"
    and i: "pool_inv u S w0 (h @ k) (put_thread cfd (t', w') p)"
    using thread_pool_inv [OF w inv t(1,2)] by blast
  have r: "r = (t', w')" using a t(3) by (simp add: advances_def)
  then show "\<exists>k. pool_inv u S w0 (h @ k) p'" using i p' by blast
  have dom: "dom (p_threads p') = dom (p_threads p)" "finite (dom (p_threads p))" "cfd \<in> dom (p_threads p)"
    using inv t(1) by (auto simp: p' r put_thread_def pool_inv_def)
  have other: "thread_work S fd (the (p_threads p' fd)) (p_world p') = thread_work S fd (the (p_threads p fd)) (p_world p)"
    if "fd \<noteq> cfd" for fd
    using other_streams_eq [of S cfd w' "p_world p" fd] a that
    by (simp add: p' r put_thread_def advances_def thread_work_def split: phase.split)
  have less: "thread_work S cfd (the (p_threads p' cfd)) (p_world p') <
      thread_work S cfd (the (p_threads p cfd)) (p_world p)"
    using a t(1) by (simp add: p' r put_thread_def advances_def)
  have le: "thread_work S fd (the (p_threads p' fd)) (p_world p') \<le> thread_work S fd (the (p_threads p fd)) (p_world p)"
    for fd using less other [of fd] by (cases "fd = cfd") simp_all
  show "total_work S p' < total_work S p"
    unfolding total_work_def dom(1) using dom(2,3) less le by (intro sum_strict_mono_ex1) blast+
qed

lemma client_step_pool: "client_step u os p p' \<Longrightarrow> pool_step u os p p'"
  by (auto simp: client_step_def intro: pool_step.thread)

text \<open>From any state that can be reached the threads can be run until all have finished.\<close>

lemma clients_run_out:
  assumes w: "served_world u os S w0"
  shows "pool_inv u S w0 h p \<Longrightarrow> \<exists>q. (client_step u os)\<^sup>*\<^sup>* p q \<and> (\<nexists>r. client_step u os q r)"
proof (induction "total_work S p" arbitrary: p h rule: less_induct)
  case less
  show ?case
  proof (cases "\<exists>p'. client_step u os p p'")
    case True
    then obtain p' where p': "client_step u os p p'" by blast
    note step = client_step_inv [OF w less.prems p']
    obtain k where "pool_inv u S w0 (h @ k) p'" using step(1) by blast
    from less.hyps [OF step(2) this] p' show ?thesis by (meson converse_rtranclp_into_rtranclp)
  qed blast
qed

lemma client_steps_pool: "(client_step u os)\<^sup>*\<^sup>* p q \<Longrightarrow> (pool_step u os)\<^sup>*\<^sup>* p q"
  by (rule rtranclp_mono [THEN predicate2D]) (auto intro: client_step_pool)

lemma client_step_dom: "client_step u os p q \<Longrightarrow> dom (p_threads q) = dom (p_threads p)"
  by (auto simp: client_step_def put_thread_def split: prod.splits if_splits)

lemma client_steps_dom: "(client_step u os)\<^sup>*\<^sup>* p q \<Longrightarrow> dom (p_threads q) = dom (p_threads p)"
  by (induction rule: rtranclp_induct) (simp_all add: client_step_dom)

lemma stuck_inactive:
  assumes w: "served_world u os S w0" and inv: "pool_inv u S w0 h p" and t: "p_threads p cfd = Some t"
    and stuck: "\<nexists>q. client_step u os p q"
  shows "\<not> active t"
proof
  assume act: "active t"
  then obtain r where "thread_step u os cfd t (p_world p) = Some r"
    using thread_pool_inv [OF w inv t act] by (auto simp: advances_def)
  then have "client_step u os p (put_thread cfd r p)"
    using act t inv unfolding client_step_def pool_inv_def by blast
  then show False using stuck by blast
qed

text \<open>
  The threads of the clients that were accepted finish: from any state that can be
  reached they can take only boundedly many steps, in whatever order, and when none can
  step any more, each has read its client's stream to the end and has finished.
\<close>

theorem client_threads_finish:
  assumes "served_world u os S w0" "(pool_step u os)\<^sup>*\<^sup>* (start_pool w0) p"
    and "(client_step u os ^^ n) p p'"
  shows "n \<le> total_work S p \<and>
    ((\<nexists>q. client_step u os p' q) \<longrightarrow>
     (\<forall>cfd t. p_threads p' cfd = Some t \<longrightarrow> th_phase t = Finished \<and> s_in S (p_world p') cfd = []))"
proof -
  obtain h where inv: "pool_inv u S w0 h p" using pool_reaches_inv [OF assms(1,2)] by blast
  have "(\<exists>h. pool_inv u S w0 h p') \<and> n + total_work S p' \<le> total_work S p"
    using assms(3)
  proof (induction n arbitrary: p')
    case 0
    then show ?case using inv by auto
  next
    case (Suc n)
    then obtain q where q: "(client_step u os ^^ n) p q" "client_step u os q p'" by auto
    obtain h' where "pool_inv u S w0 h' q" "n + total_work S q \<le> total_work S p" using Suc.IH [OF q(1)] by blast
    then show ?case using client_step_inv [OF assms(1) _ q(2)] by fastforce
  qed
  then obtain h' where n: "n \<le> total_work S p" and i: "pool_inv u S w0 h' p'" by auto
  have "th_phase t = Finished \<and> s_in S (p_world p') cfd = []"
    if stuck: "\<nexists>q. client_step u os p' q" and t: "p_threads p' cfd = Some t" for cfd t
  proof -
    have "\<not> active t" using stuck_inactive [OF assms(1) i t stuck] .
    moreover have "client_inv u S w0 h' cfd (Some t) (p_world p')"
      using i t unfolding pool_inv_def by metis
    ultimately show ?thesis by (simp add: client_inv_def thread_inv_def)
  qed
  then show ?thesis using n by blast
qed

end
