(* ===== verification/Driver_Memory.thy ===== *)
theory Driver_Memory
  imports Char_Driver
begin

text \<open>
  The memory the char driver owns: the invariant that ties the device struct to the
  kernel's allocations, and what each half of the write loop does to it. The invariant
  holds whatever the allocator answers; \<open>intact\<close> is what a failed \<open>krealloc\<close> breaks.
\<close>

section \<open>The invariant\<close>

definition owned :: "aesd_dev \<Rightarrow> ptr list" where
  "owned d = map buffptr (ring_list (circ_buffer d))"

text \<open>A valid entry: not empty, allocated, as long as its size says.\<close>

definition entry_in :: "kernel \<Rightarrow> kstate \<Rightarrow> aesd_buffer_entry \<Rightarrow> bool" where
  "entry_in K s e \<longleftrightarrow>
     esize e \<noteq> 0 \<and> unat (esize e) \<le> kmax K \<and>
     cells s (buffptr e) \<noteq> None \<and> length (old_bytes s (buffptr e)) = unat (esize e)"

text \<open>The working entry: a live allocation of \<open>working_size\<close> bytes, or nothing.\<close>

definition work_mem :: "aesd_dev \<Rightarrow> kstate \<Rightarrow> bool" where
  "work_mem d s \<longleftrightarrow>
     (cells s (working_entry d) = None \<longrightarrow>
        working_entry d = NULL \<or> working_entry d = ZERO_SIZE_PTR \<and> working_size d = 0) \<and>
     (cells s (working_entry d) \<noteq> None \<longrightarrow>
        length (old_bytes s (working_entry d)) = unat (working_size d))"

definition dev_core :: "kernel \<Rightarrow> aesd_dev \<Rightarrow> kstate \<Rightarrow> bool" where
  "dev_core K d s \<longleftrightarrow>
     kheap_ok s \<and> ring_fresh (circ_buffer d) \<and>
     (\<forall>e \<in> set (ring_list (circ_buffer d)). entry_in K s e) \<and>
     distinct (owned d) \<and> working_entry d \<notin> set (owned d) \<and>
     work_mem d s \<and> unat (working_size d) \<le> kmax K"

definition dev_inv :: "kernel \<Rightarrow> aesd_dev \<Rightarrow> kstate \<Rightarrow> bool" where
  "dev_inv K d s \<longleftrightarrow> dev_core K d s \<and> \<not> lock d"

section \<open>The abstract view\<close>

text \<open>The lines the ring holds, oldest first, and the bytes not yet ended by a newline.\<close>

definition lines :: "aesd_dev \<Rightarrow> kstate \<Rightarrow> byte list list" where
  "lines d s = map (\<lambda>e. old_bytes s (buffptr e)) (ring_list (circ_buffer d))"

definition partial :: "aesd_dev \<Rightarrow> kstate \<Rightarrow> byte list" where
  "partial d s = old_bytes s (working_entry d)"

definition intact :: "aesd_dev \<Rightarrow> kstate \<Rightarrow> bool" where
  "intact d s \<longleftrightarrow> length (partial d s) = unat (working_size d)"

section \<open>Consequences\<close>

lemma dev_core_lock [simp]: "dev_core K (d\<lparr>lock := l\<rparr>) s = dev_core K d s"
  by (simp add: dev_core_def owned_def work_mem_def)

lemma view_lock [simp]:
  "lines (d\<lparr>lock := l\<rparr>) s = lines d s" "partial (d\<lparr>lock := l\<rparr>) s = partial d s"
  "intact (d\<lparr>lock := l\<rparr>) s = intact d s" "owned (d\<lparr>lock := l\<rparr>) = owned d"
  by (simp_all add: lines_def partial_def intact_def owned_def)

lemma dev_core_ring [dest]: "dev_core K d s \<Longrightarrow> ring_fresh (circ_buffer d)"
  by (simp add: dev_core_def)

lemma entry_in_Some:
  "entry_in K s e \<Longrightarrow> \<exists>bs. cells s (buffptr e) = Some bs \<and> length bs = unat (esize e)"
  by (auto simp: entry_in_def)

lemma entry_in_cong:
  "cells s' (buffptr e) = cells s (buffptr e) \<Longrightarrow> entry_in K s' e = entry_in K s e"
  by (simp add: entry_in_def old_bytes_def)

lemma kheap_ok_ptr: "kheap_ok s \<Longrightarrow> cells s p = Some bs \<Longrightarrow> p \<noteq> NULL \<and> p \<noteq> ZERO_SIZE_PTR"
  by (metis kheap_ok_def option.distinct(1))

lemma dev_core_heap: "dev_core K d s \<Longrightarrow> kheap_ok s"
  by (simp add: dev_core_def)

lemmas dev_core_ptr = kheap_ok_ptr [OF dev_core_heap]

lemma owned_live: "dev_core K d s \<Longrightarrow> p \<in> set (owned d) \<Longrightarrow> \<exists>bs. cells s p = Some bs"
  by (fastforce simp: dev_core_def owned_def dest: entry_in_Some)

lemma entry_ptr:
  assumes "dev_core K d s" "e \<in> set (ring_list (circ_buffer d))"
  shows "buffptr e \<in> set (owned d)" "buffptr e \<noteq> working_entry d" "entry_in K s e"
proof -
  show own: "buffptr e \<in> set (owned d)" using assms(2) by (simp add: owned_def)
  show "entry_in K s e" using assms by (simp add: dev_core_def)
  have "working_entry d \<notin> set (owned d)" using assms(1) by (simp add: dev_core_def)
  with own show "buffptr e \<noteq> working_entry d" by metis
qed

lemma work_live: "dev_core K d s \<Longrightarrow> live_ptr s (working_entry d)"
  by (auto simp: dev_core_def work_mem_def live_ptr_def)

lemma partial_le: "dev_core K d s \<Longrightarrow> length (partial d s) \<le> unat (working_size d)"
  by (cases "cells s (working_entry d)") (auto simp: dev_core_def work_mem_def partial_def)

lemma intact_iff:
  assumes "dev_core K d s"
  shows "intact d s \<longleftrightarrow> working_size d = 0 \<or> working_entry d \<noteq> NULL"
proof (cases "cells s (working_entry d)")
  case None
  with assms show ?thesis
    by (auto simp: dev_core_def work_mem_def intact_def partial_def unat_eq_0 dest: sym)
next
  case (Some bs)
  with assms dev_core_ptr [OF assms Some] show ?thesis
    by (auto simp: dev_core_def work_mem_def intact_def partial_def)
qed

lemma dev_core_frame:
  assumes "dev_core K d s" "kheap_ok s'"
    and same: "\<And>p. p \<in> set (owned d) \<or> p = working_entry d \<Longrightarrow> cells s' p = cells s p"
  shows "dev_core K d s'" "lines d s' = lines d s" "partial d s' = partial d s"
    "intact d s' = intact d s"
proof -
  have ring: "cells s' (buffptr e) = cells s (buffptr e)"
    if "e \<in> set (ring_list (circ_buffer d))" for e
    using same that by (simp add: owned_def)
  then have "\<forall>e \<in> set (ring_list (circ_buffer d)). entry_in K s' e"
    using assms(1) by (simp add: dev_core_def entry_in_cong [OF ring])
  then show "dev_core K d s'"
    using assms by (simp add: dev_core_def work_mem_def old_bytes_def)
  show "lines d s' = lines d s"
    using ring by (simp add: lines_def old_bytes_def)
  show partial: "partial d s' = partial d s"
    using same by (simp add: partial_def old_bytes_def)
  show "intact d s' = intact d s" by (simp add: intact_def partial)
qed

lemma dev_core_cells:
  assumes "dev_core K d s" "cells s' = cells s"
  shows "dev_core K d s'" "lines d s' = lines d s" "partial d s' = partial d s"
    "intact d s' = intact d s"
  using assms dev_core_frame [OF assms(1), of s'] by (simp_all add: dev_core_def kheap_ok_def)

lemma new_ptr_not_owned:
  assumes "dev_core K d s" "new_ptr s p"
  shows "p \<notin> set (owned d)" "p \<noteq> working_entry d"
  using assms owned_live [OF assms(1), of p]
  by (auto simp: new_ptr_def dev_core_def work_mem_def)

text \<open>A new entry in the ring.\<close>

lemma dev_core_add:
  assumes core: "dev_core K d s" and e: "entry_in K s e"
    and new: "buffptr e \<notin> set (owned d)" "buffptr e \<noteq> working_entry d"
    and add: "aesd_circular_buffer_add_entry (circ_buffer d) e = Some cb"
  shows "dev_core K (d\<lparr>circ_buffer := cb\<rparr>) s"
    and "lines (d\<lparr>circ_buffer := cb\<rparr>) s = take_last 10 (lines d s @ [old_bytes s (buffptr e)])"
    and "owned (d\<lparr>circ_buffer := cb\<rparr>) = take_last 10 (owned d @ [buffptr e])"
proof -
  have fresh: "ring_fresh (circ_buffer d)" using core by blast
  then have list: "ring_list cb = take_last 10 (ring_list (circ_buffer d) @ [e])"
    using add add_entry_ring(3) by blast
  then have sub: "set (ring_list cb) \<subseteq> insert e (set (ring_list (circ_buffer d)))"
    using set_take_last [of 10 "ring_list (circ_buffer d) @ [e]"] by auto
  show owned: "owned (d\<lparr>circ_buffer := cb\<rparr>) = take_last 10 (owned d @ [buffptr e])"
    by (simp add: owned_def list take_last_map)
  have "distinct (owned d @ [buffptr e])"
    using core new by (simp add: dev_core_def)
  then have "distinct (owned (d\<lparr>circ_buffer := cb\<rparr>))"
    unfolding owned take_last_def by (rule distinct_drop)
  moreover have "working_entry d \<notin> set (owned (d\<lparr>circ_buffer := cb\<rparr>))"
    using set_take_last [of 10 "owned d @ [buffptr e]"] core new
    unfolding owned by (auto simp: dev_core_def)
  ultimately show "dev_core K (d\<lparr>circ_buffer := cb\<rparr>) s"
    using core sub e add_entry_fresh [OF fresh add]
    by (auto simp: dev_core_def work_mem_def)
  show "lines (d\<lparr>circ_buffer := cb\<rparr>) s = take_last 10 (lines d s @ [old_bytes s (buffptr e)])"
    by (simp add: lines_def list take_last_map)
qed

section \<open>Appending to the working entry\<close>

text \<open>
  The kernel copy of the user's bytes: its own allocation, apart from all the device owns.
\<close>

definition apart :: "aesd_dev \<Rightarrow> kstate \<Rightarrow> ptr \<Rightarrow> bool" where
  "apart d s p \<longleftrightarrow> cells s p \<noteq> None \<and> p \<notin> set (owned d) \<and> p \<noteq> working_entry d"

lemma write_append_cases:
  assumes K: "kernel_ok K" and core: "dev_core K d s" and kb: "apart d s kbuf"
    "cells s kbuf = Some bs" and chunk: "length bs = unat chunk" "chunk \<noteq> 0" "unat chunk \<le> kmax K"
  obtains (nomem) s1 where
      "write_append K kbuf 0 chunk d s = Some (False, d\<lparr>working_entry := NULL\<rparr>, s1)"
      "cells s1 = cells s"
    | (appended) p vs s1 where
      "write_append K kbuf 0 chunk d s =
         Some (True, d\<lparr>working_entry := p, working_size := working_size d + chunk\<rparr>, s1)"
      "new_ptr s p \<or> p = working_entry d \<and> cells s (working_entry d) \<noteq> None"
      "cells s1 = (cells s)(working_entry d := None, p \<mapsto> vs)"
      "length vs = unat (working_size d + chunk)"
      "unat (working_size d + chunk) = unat (working_size d) + unat chunk"
      "unat (working_size d + chunk) \<le> kmax K"
      "take (length (partial d s)) vs = partial d s" "drop (unat (working_size d)) vs = bs"
proof -
  let ?n = "working_size d + chunk"
  obtain q s1 where re: "k_realloc K s (working_entry d) ?n = Some (q, s1)"
    using k_realloc_defined [OF work_live [OF core]] by blast
  have "unat (working_size d) + unat chunk < 2 ^ 64"
    using core chunk kmax_less [OF K] by (simp add: dev_core_def)
  then have sum: "unat ?n = unat (working_size d) + unat chunk" by (rule unat_plus_64)
  have "unat chunk \<noteq> 0" using chunk(2) by (simp add: unat_eq_0)
  then have n0: "?n \<noteq> 0" using sum by (metis add_is_0 unat_0)
  from K re show ?thesis
  proof (cases rule: k_realloc_cases)
    case fail
    with re show ?thesis using nomem by (simp add: write_append_def)
  next
    case zero
    with n0 show ?thesis by simp
  next
    case (moved rs)
    have q: "q \<noteq> NULL"
      using moved(3) dev_core_ptr [OF core] by (auto simp: new_ptr_def)
    have "q \<noteq> kbuf" using moved(3) kb by (auto simp: new_ptr_def apart_def)
    then have k1: "cells s1 kbuf = Some bs" using moved kb by (auto simp: apart_def)
    let ?vs = "take (unat (working_size d)) rs @ bs"
    have le: "length (partial d s) \<le> unat (working_size d)" using partial_le [OF core] .
    have len: "length ?vs = unat ?n" using moved sum chunk by simp
    obtain s2 where st: "store s1 q (unat (working_size d)) bs = Some s2"
      and c2: "cells s2 = (cells s)(working_entry d := None, q \<mapsto> ?vs)"
      using moved sum chunk by (simp add: store_in)
    have old: "take (length (partial d s)) ?vs = partial d s"
    proof -
      have "take (length (partial d s)) ?vs = take (length (partial d s)) rs"
        using le moved sum by (simp add: min_def)
      also have "\<dots> = partial d s"
        using moved(5) le sum by (simp add: min_def partial_def)
      finally show ?thesis .
    qed
    have app: "write_append K kbuf 0 chunk d s =
        Some (True, d\<lparr>working_entry := q, working_size := ?n\<rparr>, s2)"
      using re q k1 chunk st by (simp add: write_append_def load_in)
    show ?thesis
      by (rule appended [OF app moved(3) c2 len sum moved(2) old]) (use moved sum in simp)
  qed
qed

lemma dev_core_append:
  assumes core: "dev_core K d s"
    and p: "new_ptr s p \<or> p = working_entry d \<and> cells s (working_entry d) \<noteq> None"
    and c: "cells s1 = (cells s)(working_entry d := None, p \<mapsto> vs)"
    and len: "length vs = unat n" "unat n \<le> kmax K"
  shows "dev_core K (d\<lparr>working_entry := p, working_size := n\<rparr>) s1"
    and "lines (d\<lparr>working_entry := p, working_size := n\<rparr>) s1 = lines d s"
    and "owned (d\<lparr>working_entry := p, working_size := n\<rparr>) = owned d"
proof -
  let ?d = "d\<lparr>working_entry := p, working_size := n\<rparr>"
  have pn: "p \<notin> set (owned d)" "p \<noteq> NULL" "p \<noteq> ZERO_SIZE_PTR"
    using p core new_ptr_not_owned [OF core, of p] dev_core_ptr [OF core, of p]
    by (auto simp: new_ptr_def dev_core_def)
  have heap: "kheap_ok s1" using core pn c by (auto simp: kheap_ok_def dev_core_def)
  have ring: "cells s1 (buffptr e) = cells s (buffptr e)"
    if "e \<in> set (ring_list (circ_buffer d))" for e
    using entry_ptr [OF core that] pn by (auto simp: c)
  then show "lines ?d s1 = lines d s" by (simp add: lines_def old_bytes_def)
  show "owned ?d = owned d" by (simp add: owned_def)
  show "dev_core K ?d s1"
    using core pn ring heap c len
    by (auto simp: dev_core_def entry_in_cong [OF ring] work_mem_def owned_def)
qed

section \<open>Committing a line\<close>

text \<open>Dropping the first \<open>n\<close> bytes of the working entry: memmove, then a smaller krealloc.\<close>

lemma shrink_cases:
  assumes K: "kernel_ok K" and core: "dev_core K d s" and w: "cells s (working_entry d) = Some bs"
    and n: "n \<le> length bs" "left = of_nat (length bs - n)"
  obtains q s1 s2 where
    "store s (working_entry d) 0 (drop n bs) = Some s1"
    "k_realloc K s1 (working_entry d) left = Some (q, s2)"
    "dev_core K (d\<lparr>working_size := left, working_entry := q\<rparr>) s2"
    "lines (d\<lparr>working_size := left, working_entry := q\<rparr>) s2 = lines d s"
    "owned (d\<lparr>working_size := left, working_entry := q\<rparr>) = owned d"
    "unat left = length bs - n"
    "left = 0 \<or> q \<noteq> NULL \<longrightarrow> partial (d\<lparr>working_size := left, working_entry := q\<rparr>) s2 = drop n bs"
    "\<forall>r. cells s r \<noteq> None \<longrightarrow> r \<noteq> working_entry d \<longrightarrow> cells s2 r = cells s r \<and> r \<noteq> q"
proof -
  let ?w = "working_entry d"
  have len: "length bs = unat (working_size d)" "unat (working_size d) \<le> kmax K"
    using core w by (auto simp: dev_core_def work_mem_def)
  have "length bs - n < 2 ^ 64" using len kmax_less [OF K] by simp
  then have left: "unat left = length bs - n" using n by (simp only: unat_of_nat_64)
  have w0: "?w \<noteq> NULL" "?w \<noteq> ZERO_SIZE_PTR"
    using dev_core_ptr [OF core w] by auto
  define bs1 where "bs1 = drop n bs @ drop (length bs - n) bs"
  obtain s1 where st: "store s ?w 0 (drop n bs) = Some s1"
    and c1: "cells s1 = (cells s)(?w \<mapsto> bs1)"
  proof (cases "drop n bs = []")
    case True
    then show ?thesis using that [of s] w by (auto simp: bs1_def fun_upd_idem)
  next
    case False
    then show ?thesis using that w by (simp add: store_def bs1_def)
  qed
  have heap1: "kheap_ok s1" using core w0 c1 by (auto simp: dev_core_def kheap_ok_def)
  have "live_ptr s1 ?w" by (simp add: live_ptr_def c1)
  then obtain q s2 where re: "k_realloc K s1 ?w left = Some (q, s2)"
    using k_realloc_defined by blast
  let ?d = "d\<lparr>working_size := left, working_entry := q\<rparr>"
  have owned: "owned ?d = owned d" by (simp add: owned_def)
  consider (fail) "q = NULL" "left \<noteq> 0" "cells s2 = cells s1"
    | (zero) "left = 0" "q = ZERO_SIZE_PTR" "cells s2 = (cells s1)(?w := None)"
    | (moved) "left \<noteq> 0" "new_ptr s1 q \<or> q = ?w" "cells s2 = (cells s1)(?w := None, q \<mapsto> drop n bs)"
    using K re
  proof (cases rule: k_realloc_cases)
    case (moved rs)
    have "old_bytes s1 ?w = bs1" by (simp add: c1)
    moreover have "length bs1 = length bs" by (simp add: bs1_def n)
    ultimately have "min (length (old_bytes s1 ?w)) (unat left) = length bs - n"
      and "old_bytes s1 ?w = bs1" using left by simp_all
    then have "take (length bs - n) rs = take (length bs - n) bs1"
      using moved(5) by (simp only:)
    then have "rs = drop n bs" using moved(4) left by (simp add: bs1_def)
    with moved show ?thesis using that(3) by blast
  qed (use that in blast)+
  then have res: "(\<forall>r. cells s r \<noteq> None \<longrightarrow> r \<noteq> ?w \<longrightarrow> cells s2 r = cells s r \<and> r \<noteq> q) \<and>
      work_mem ?d s2 \<and> kheap_ok s2 \<and>
      (left = 0 \<or> q \<noteq> NULL \<longrightarrow> partial ?d s2 = drop n bs)"
  proof cases
    case fail
    with heap1 w0 c1 dev_core_ptr [OF core] show ?thesis
      by (auto simp: work_mem_def kheap_ok_def)
  next
    case zero
    then have "drop n bs = []" using left n by simp
    with zero heap1 w0 c1 show ?thesis
      by (auto simp: work_mem_def kheap_ok_def partial_def)
  next
    case moved
    with heap1 w0 c1 left show ?thesis
      by (auto simp: work_mem_def kheap_ok_def partial_def new_ptr_def split: if_splits)
  qed
  then have nq: "\<And>r. cells s r \<noteq> None \<Longrightarrow> r \<noteq> ?w \<Longrightarrow> cells s2 r = cells s r \<and> r \<noteq> q"
    and w2: "work_mem ?d s2" and heap2: "kheap_ok s2"
    and part: "left = 0 \<or> q \<noteq> NULL \<longrightarrow> partial ?d s2 = drop n bs"
    by blast+
  have ring: "cells s2 (buffptr e) = cells s (buffptr e) \<and> buffptr e \<noteq> q"
    if "e \<in> set (ring_list (circ_buffer d))" for e
  proof -
    have "buffptr e \<in> set (owned d)" using that by (simp add: owned_def)
    moreover have "buffptr e \<noteq> ?w" using entry_ptr [OF core that] by simp
    ultimately show ?thesis using nq owned_live [OF core] by (metis option.distinct(1))
  qed
  then have lines: "lines ?d s2 = lines d s" by (simp add: lines_def old_bytes_def)
  have "unat left \<le> kmax K" using left len by simp
  then have core2: "dev_core K ?d s2"
    using core ring w2 heap2
    by (auto simp: dev_core_def entry_in_cong [OF conjunct1 [OF ring]] owned_def)
  show ?thesis
    by (rule that [OF st re core2 lines owned left part]) (use nq in blast)
qed

lemma apart_line:
  assumes "apart d s r" "cells s p = None \<and> owned d' = take_last 10 (owned d @ [p])"
    and "cells s' r = cells s r \<and> r \<noteq> working_entry d'"
  shows "cells s' r = cells s r \<and> apart d' s' r"
  using assms set_take_last [of 10 "owned d @ [p]"] by (auto simp: apart_def)

lemma write_commit_cases:
  assumes K: "kernel_ok K" and core: "dev_core K d s" and w: "cells s (working_entry d) = Some bs"
  obtains (no_line) "memchr newline bs = None" "write_commit K d s = Some (True, d, s)"
    | (nomem) i s' where "memchr newline bs = Some i"
        "write_commit K d s = Some (False, d, s')" "cells s' = cells s"
    | (line) i d' s' where "memchr newline bs = Some i"
        "write_commit K d s = Some (True, d', s')" "dev_core K d' s'"
        "lines d' s' = take_last 10 (lines d s @ [take (Suc i) bs])"
        "unat (working_size d') = length bs - Suc i"
        "intact d' s' \<Longrightarrow> partial d' s' = drop (Suc i) bs"
        "lock d' = lock d"
        "\<exists>p. cells s p = None \<and> owned d' = take_last 10 (owned d @ [p])"
        "\<And>r. cells s r \<noteq> None \<Longrightarrow> r \<noteq> working_entry d \<Longrightarrow>
           cells s' r = cells s r \<and> r \<noteq> working_entry d'"
proof (cases "memchr newline bs")
  case None
  have "length bs = unat (working_size d)" using core w by (simp add: dev_core_def work_mem_def)
  then have "load s (working_entry d) 0 (unat (working_size d)) = Some bs"
    using w by (auto simp: load_def)
  with None no_line show ?thesis by (simp add: write_commit_def)
next
  case (Some i)
  let ?w = "working_entry d" and ?n = "of_nat i + 1 :: size_t"
  have len: "length bs = unat (working_size d)" "unat (working_size d) \<le> kmax K"
    using core w by (auto simp: dev_core_def work_mem_def)
  have i: "i < length bs" using memchr_SomeD [OF Some] by simp
  have n: "unat ?n = Suc i"
  proof -
    have "Suc i < 2 ^ 64" using i len kmax_less [OF K] by simp
    then show ?thesis using unat_of_nat_64 [of "Suc i"] by (simp add: add.commute)
  qed
  have n0: "?n \<noteq> 0" using n by (metis nat.distinct(1) unat_0)
  have wb: "load s ?w 0 (unat (working_size d)) = Some bs"
    using w len by (auto simp: load_def)
  obtain p s1 where km: "kmalloc K s ?n = (p, s1)" by fastforce
  from K km show ?thesis
  proof (cases rule: kmalloc_cases)
    case fail
    then have "write_commit K d s = Some (False, d, s1)"
      using wb Some km by (simp add: write_commit_def)
    with Some fail nomem show ?thesis by blast
  next
    case zero
    with n0 show ?thesis by simp
  next
    case (new lb)
    have p: "p \<noteq> NULL" "p \<noteq> ZERO_SIZE_PTR" "p \<notin> set (owned d)" "p \<noteq> ?w" "cells s p = None"
      using new new_ptr_not_owned [OF core] by (auto simp: new_ptr_def)
    let ?line = "take (Suc i) bs" and ?rest = "drop (Suc i) bs"
    let ?e = "\<lparr>buffptr = p, esize = ?n\<rparr>"
    have ld: "load s1 ?w 0 (unat ?n) = Some ?line"
      using new w p i n by (simp add: load_in)
    obtain s2 where st: "store s1 p 0 ?line = Some s2" and c2: "cells s2 = (cells s)(p \<mapsto> ?line)"
      using new i n by (simp add: store_in)
    have heap2: "kheap_ok s2" using dev_core_heap [OF core] p by (simp add: kheap_ok_def c2)
    have fr2: "cells s2 r = cells s r" if "r \<in> set (owned d) \<or> r = ?w" for r
      using that p by (auto simp: c2)
    have core2: "dev_core K d s2" and lines2: "lines d s2 = lines d s"
      using dev_core_frame(1,2) [OF core heap2 fr2] by blast+
    have e: "entry_in K s2 ?e"
      using n n0 i new by (simp add: entry_in_def c2)
    obtain cb where add: "aesd_circular_buffer_add_entry (circ_buffer d) ?e = Some cb"
      using add_entry_defined core by blast
    let ?d1 = "d\<lparr>circ_buffer := cb\<rparr>"
    have core1: "dev_core K ?d1 s2" and lines1: "lines ?d1 s2 = take_last 10 (lines d s @ [?line])"
      and owned1: "owned ?d1 = take_last 10 (owned d @ [p])"
      using dev_core_add [OF core2 e _ _ add] p lines2 by (simp_all add: c2)
    let ?left = "working_size d - ?n"
    have left: "?left = of_nat (length bs - Suc i)"
      using len i n by (simp add: of_nat_diff)
    have uleft: "unat ?left = length bs - Suc i"
      using i len n by (simp add: unat_minus_64)
    have w2: "cells s2 (working_entry ?d1) = Some bs" using w p by (simp add: c2)
    have rest: "load s2 ?w (unat ?n) (unat ?left) = Some ?rest"
      using w2 i uleft n by (auto simp: load_def)
    have si: "Suc i \<le> length bs" using i by simp
    obtain q s3 s4 where sh: "store s2 (working_entry ?d1) 0 ?rest = Some s3"
        "k_realloc K s3 (working_entry ?d1) ?left = Some (q, s4)"
      and core4: "dev_core K (?d1\<lparr>working_size := ?left, working_entry := q\<rparr>) s4"
      and lines4: "lines (?d1\<lparr>working_size := ?left, working_entry := q\<rparr>) s4 = lines ?d1 s2"
      and owned4: "owned (?d1\<lparr>working_size := ?left, working_entry := q\<rparr>) = owned ?d1"
      and "unat ?left = length bs - Suc i"
      and part4: "?left = 0 \<or> q \<noteq> NULL \<longrightarrow>
        partial (?d1\<lparr>working_size := ?left, working_entry := q\<rparr>) s4 = ?rest"
      and fr4: "\<forall>r. cells s2 r \<noteq> None \<longrightarrow> r \<noteq> working_entry ?d1 \<longrightarrow>
        cells s4 r = cells s2 r \<and> r \<noteq> q"
      by (rule shrink_cases [OF K core1 w2 si left])
    let ?d' = "?d1\<lparr>working_size := ?left, working_entry := q\<rparr>"
    have commit: "write_commit K d s = Some (True, ?d', s4)"
      using wb Some km p ld st add rest sh by (simp add: write_commit_def Let_def)
    have keep: "cells s4 r = cells s r \<and> r \<noteq> working_entry ?d'"
      if "cells s r \<noteq> None" "r \<noteq> ?w" for r
    proof -
      have "r \<noteq> p" using that p by auto
      then show ?thesis using fr4 that by (simp add: c2)
    qed
    have new_owned: "cells s p = None \<and> owned ?d' = take_last 10 (owned d @ [p])"
      using p owned1 owned4 by simp
    show ?thesis
    proof (rule line [OF Some commit core4])
      show "lines ?d' s4 = take_last 10 (lines d s @ [?line])" by (simp only: lines4 lines1)
      show "unat (working_size ?d') = length bs - Suc i" using uleft by simp
      show "partial ?d' s4 = ?rest" if "intact ?d' s4"
        using that part4 intact_iff [OF core4] by simp
      show "\<exists>p. cells s p = None \<and> owned ?d' = take_last 10 (owned d @ [p])"
        using new_owned by blast
    qed (use keep in simp_all)
  qed
qed

section \<open>The loop\<close>

text \<open>
  \<open>vs\<close> is the working entry after the append: the bytes that were there, and the new
  ones from the old \<open>working_size\<close> on. Where the working entry had been lost the bytes in
  between are whatever the allocator returned.
\<close>

definition appended :: "aesd_dev \<Rightarrow> kstate \<Rightarrow> byte list \<Rightarrow> byte list \<Rightarrow> bool" where
  "appended d s buf vs \<longleftrightarrow>
     length vs = unat (working_size d) + length buf \<and>
     take (length (partial d s)) vs = partial d s \<and> drop (unat (working_size d)) vs = buf"

text \<open>What the commit leaves: the first line of \<open>vs\<close> in the ring, the rest pending.\<close>

definition committed ::
  "aesd_dev \<Rightarrow> kstate \<Rightarrow> byte list \<Rightarrow> aesd_dev \<Rightarrow> kstate \<Rightarrow> bool" where
  "committed d s vs d' s' \<longleftrightarrow>
     (case memchr newline vs of
        None \<Rightarrow> lines d' s' = lines d s \<and> intact d' s' \<and> partial d' s' = vs
      | Some i \<Rightarrow>
          lines d' s' = take_last 10 (lines d s @ [take (Suc i) vs]) \<and>
          unat (working_size d') = length vs - Suc i \<and>
          (intact d' s' \<longrightarrow> partial d' s' = drop (Suc i) vs))"

lemma appended_intact: "intact d s \<Longrightarrow> appended d s buf vs \<Longrightarrow> vs = partial d s @ buf"
  by (metis append_take_drop_id appended_def intact_def)

lemma dev_core_lost:
  assumes core: "dev_core K d s"
  shows "dev_core K (d\<lparr>working_entry := NULL\<rparr>) s"
proof -
  have "NULL \<notin> set (owned d)"
    using owned_live [OF core] dev_core_heap [OF core] by (force simp: kheap_ok_def)
  then show ?thesis
    using core by (auto simp: dev_core_def work_mem_def kheap_ok_def owned_def)
qed

lemma write_loop_cases:
  assumes K: "kernel_ok K" and core: "dev_core K d s" and kb: "apart d s kbuf"
    "cells s kbuf = Some buf" and count: "length buf = unat count" "count \<noteq> 0" "unat count \<le> kmax K"
  obtains (lost) s' where
      "write_loop K kbuf 0 count d s = Some (False, d\<lparr>working_entry := NULL\<rparr>, s')"
      "cells s' = cells s"
    | (kept) d' s' vs where "write_loop K kbuf 0 count d s = Some (False, d', s')"
      "dev_core K d' s'" "appended d s buf vs" "lines d' s' = lines d s" "intact d' s'"
      "partial d' s' = vs" "apart d' s' kbuf" "lock d' = lock d"
    | (written) d' s' vs where "write_loop K kbuf 0 count d s = Some (True, d', s')"
      "dev_core K d' s'" "appended d s buf vs" "committed d s vs d' s'"
      "apart d' s' kbuf" "lock d' = lock d"
proof -
  note unfold = write_loop.simps [of K kbuf 0 count d s] write_loop.simps [of K kbuf count 0]
  from K core kb count show ?thesis
  proof (cases rule: write_append_cases)
    case (nomem s1)
    with count lost show ?thesis by (simp add: unfold)
  next
    case (appended p vs s1)
    let ?d1 = "d\<lparr>working_entry := p, working_size := working_size d + count\<rparr>"
    have core1: "dev_core K ?d1 s1" and lines1: "lines ?d1 s1 = lines d s"
      and owned1: "owned ?d1 = owned d"
      using dev_core_append [OF core appended(2,3,4,6)] by simp_all
    have w1: "cells s1 (working_entry ?d1) = Some vs" by (simp add: appended(3))
    then have part1: "partial ?d1 s1 = vs" "intact ?d1 s1"
      using appended(4) by (simp_all add: partial_def intact_def)
    have kb1: "apart ?d1 s1 kbuf"
      using kb appended(2,3) by (auto simp: apart_def owned_def new_ptr_def)
    have app: "appended d s buf vs"
      using appended count by (simp add: appended_def)
    from K core1 w1 show ?thesis
    proof (cases rule: write_commit_cases)
      case no_line
      then have loop: "write_loop K kbuf 0 count d s = Some (True, ?d1, s1)"
        using appended(1) count by (simp add: unfold)
      have "committed d s vs ?d1 s1" using no_line lines1 part1 by (simp add: committed_def)
      then show ?thesis using written [OF loop core1 app] kb1 by simp
    next
      case (nomem i s2)
      then have loop: "write_loop K kbuf 0 count d s = Some (False, ?d1, s2)"
        using appended(1) count by (simp add: unfold)
      have "apart ?d1 s2 kbuf" using kb1 nomem(3) by (simp add: apart_def)
      then show ?thesis
        using kept [OF loop _ app] dev_core_cells [OF core1 nomem(3)] lines1 part1 by simp
    next
      case (line i d' s2)
      then have loop: "write_loop K kbuf 0 count d s = Some (True, d', s2)"
        using appended(1) count by (simp add: unfold)
      have "committed d s vs d' s2" using line lines1 by (simp add: committed_def)
      moreover obtain p' where p': "cells s1 p' = None \<and> owned d' = take_last 10 (owned ?d1 @ [p'])"
        using line(8) by blast
      have "apart d' s2 kbuf"
        using apart_line [OF kb1 p' line(9)] kb1 by (simp add: apart_def)
      ultimately show ?thesis using written [OF loop line(3) app] line by simp
    qed
  qed
qed

section \<open>The handler\<close>

text \<open>
  The end of the handler: the kernel copy is freed, which the device does not see.
\<close>

lemma free_apart:
  assumes K: "kernel_ok K" and core: "dev_core K d s" and "apart d s r"
  obtains s' where "k_free K s r = Some s'" "dev_core K d s'" "lines d s' = lines d s"
    "partial d s' = partial d s" "intact d s' = intact d s"
proof -
  have "live_ptr s r" using assms(3) by (auto simp: live_ptr_def apart_def)
  then obtain s' where fr: "k_free K s r = Some s'" and c: "cells s' = (cells s)(r := None)"
    by (rule k_free_live [OF K])
  have heap: "kheap_ok s'" using dev_core_heap [OF core] by (simp add: kheap_ok_def c)
  have "cells s' p = cells s p" if "p \<in> set (owned d) \<or> p = working_entry d" for p
    using that assms(3) by (auto simp: apart_def c)
  note dev_core_frame [OF core heap this]
  then show ?thesis using that [OF fr] by blast
qed

lemma committed_view:
  "lines d1 s1 = lines d2 s2 \<Longrightarrow> committed d1 s1 vs d' s' = committed d2 s2 vs d' s'"
  by (auto simp: committed_def split: option.splits)

lemma appended_view:
  "partial d1 s1 = partial d2 s2 \<Longrightarrow> working_size d1 = working_size d2 \<Longrightarrow>
     appended d1 s1 buf vs = appended d2 s2 buf vs"
  by (simp add: appended_def)

lemma committed_final:
  "lines d2 s2 = lines d1 s1 \<Longrightarrow> partial d2 s2 = partial d1 s1 \<Longrightarrow> intact d2 s2 = intact d1 s1 \<Longrightarrow>
     working_size d2 = working_size d1 \<Longrightarrow> committed d s vs d1 s1 \<Longrightarrow> committed d s vs d2 s2"
  by (auto simp: committed_def split: option.splits)

text \<open>
  What a write does, on every branch: refused before it touched the working entry, out of
  memory while growing it (\<open>lost\<close>) or while making the entry (\<open>kept\<close>), or done.
\<close>

inductive write_outcome ::
  "kernel \<Rightarrow> aesd_dev \<Rightarrow> kstate \<Rightarrow> byte list \<Rightarrow> int \<Rightarrow> aesd_dev \<Rightarrow> kstate \<Rightarrow> bool"
  for K d s buf where
  refused: "ret = - ERESTARTSYS \<or> ret = - ENOMEM \<or> ret = - EFAULT \<Longrightarrow>
    lines d' s' = lines d s \<Longrightarrow> partial d' s' = partial d s \<Longrightarrow> intact d' s' = intact d s \<Longrightarrow>
    write_outcome K d s buf ret d' s'"
| lost: "lines d' s' = lines d s \<Longrightarrow> working_entry d' = NULL \<Longrightarrow>
    working_size d' = working_size d \<Longrightarrow> write_outcome K d s buf (- ENOMEM) d' s'"
| kept: "appended d s buf (partial d' s') \<Longrightarrow> lines d' s' = lines d s \<Longrightarrow> intact d' s' \<Longrightarrow>
    write_outcome K d s buf (- ENOMEM) d' s'"
| empty: "buf = [] \<Longrightarrow> lines d' s' = lines d s \<Longrightarrow> partial d' s' = partial d s \<Longrightarrow>
    intact d' s' = intact d s \<Longrightarrow> write_outcome K d s buf 0 d' s'"
| written: "buf \<noteq> [] \<Longrightarrow> length buf \<le> kmax K \<Longrightarrow> appended d s buf vs \<Longrightarrow>
    committed d s vs d' s' \<Longrightarrow> write_outcome K d s buf (int (length buf)) d' s'"

inductive_cases write_outcomeE: "write_outcome K d s buf ret d' s'"

lemma sint_small: "kernel_ok K \<Longrightarrow> unat (n :: size_t) \<le> kmax K \<Longrightarrow> sint n = int (unat n)"
  using kmax_less [of K] by (intro sint_nonneg_64) simp

text \<open>The handler once the user's bytes are in the kernel copy.\<close>

lemma write_copied:
  assumes K: "kernel_ok K" and core: "dev_core K d s" and kb: "apart d s kbuf"
    "cells s kbuf = Some buf" and count: "length buf = unat count" "count \<noteq> 0" "unat count \<le> kmax K"
  obtains ok d' s5 s6 where "write_loop K kbuf 0 count d s = Some (ok, d', s5)"
    "k_free K s5 kbuf = Some s6" "dev_core K d' s6"
    "write_outcome K d s buf (if ok then sint count else - ENOMEM) d' s6"
  using K core kb count
proof (cases rule: write_loop_cases)
  case (lost s5)
  let ?d2 = "d\<lparr>working_entry := NULL\<rparr>"
  have core5: "dev_core K ?d2 s5" using dev_core_cells(1) [OF dev_core_lost [OF core] lost(2)] .
  have "apart ?d2 s5 kbuf"
    using kb lost(2) dev_core_ptr [OF core kb(2)] by (simp add: apart_def owned_def)
  then obtain s6 where fr: "k_free K s5 kbuf = Some s6" and core6: "dev_core K ?d2 s6"
    and l6: "lines ?d2 s6 = lines ?d2 s5" using free_apart [OF K core5] by blast
  have "lines ?d2 s5 = lines d s"
    using dev_core_cells(2) [OF core lost(2)] by (simp add: lines_def)
  then have "write_outcome K d s buf (- ENOMEM) ?d2 s6"
    using l6 by (intro write_outcome.lost) simp_all
  then show ?thesis using that [OF lost(1) fr core6] by simp
next
  case (kept d2 s5 vs)
  obtain s6 where "k_free K s5 kbuf = Some s6" "dev_core K d2 s6" "lines d2 s6 = lines d2 s5"
    "partial d2 s6 = partial d2 s5" "intact d2 s6 = intact d2 s5"
    using free_apart [OF K kept(2,7)] .
  moreover from this have "write_outcome K d s buf (- ENOMEM) d2 s6"
    using kept by (intro write_outcome.kept) simp_all
  ultimately show ?thesis using that [OF kept(1)] by simp
next
  case (written d2 s5 vs)
  obtain s6 where fr: "k_free K s5 kbuf = Some s6" "dev_core K d2 s6"
    and view: "lines d2 s6 = lines d2 s5" "partial d2 s6 = partial d2 s5" "intact d2 s6 = intact d2 s5"
    using free_apart [OF K written(2,5)] .
  have "committed d s vs d2 s6" using committed_final [OF view _ written(4)] by simp
  then have "write_outcome K d s buf (int (length buf)) d2 s6"
    using written(3) count by (intro write_outcome.written) (auto simp: unat_eq_0)
  then show ?thesis
    using that [OF written(1) fr] sint_small [OF K count(3)] count(1) by simp
qed

lemma write_outcome_view:
  assumes "write_outcome K d1 s1 buf ret d' s'"
    and "lines d1 s1 = lines d s" "partial d1 s1 = partial d s" "working_size d1 = working_size d"
    and "intact d1 s1 = intact d s"
  shows "write_outcome K d s buf ret (d'\<lparr>lock := l\<rparr>) s'"
  using assms(1)
proof cases
  case (written vs)
  have "committed d s vs (d'\<lparr>lock := l\<rparr>) s'"
    using written committed_view [OF assms(2)] committed_final [of "d'\<lparr>lock := l\<rparr>" s' d' s'] by simp
  moreover have "appended d s buf vs"
    using written appended_view [OF assms(3,4)] by simp
  ultimately show ?thesis using written write_outcome.written by simp
qed (use assms(2-) appended_view [OF assms(3,4)] in \<open>auto intro: write_outcome.intros\<close>)

text \<open>A branch that leaves the device alone, whatever it returns.\<close>

lemma outcome_refused:
  assumes "dev_core K d s" "cells s' = cells s" "ret = - ERESTARTSYS \<or> ret = - ENOMEM \<or> ret = - EFAULT"
  shows "dev_inv K (d\<lparr>lock := False\<rparr>) s' \<and> write_outcome K d s buf ret (d\<lparr>lock := False\<rparr>) s'"
  using dev_core_cells [OF assms(1,2)] assms(1,3)
  by (auto simp: dev_inv_def intro: write_outcome.refused)

text \<open>The user's bytes go to a new allocation, or are not there at all.\<close>

lemma write_copy_in:
  assumes core: "dev_core K d s" and new: "new_ptr s kbuf" "length kb = length buf"
    and c: "cells s3 = (cells s)(kbuf \<mapsto> kb)"
  obtains s4 where "store s3 kbuf 0 buf = Some s4" "dev_core K d s4" "lines d s4 = lines d s"
    "partial d s4 = partial d s" "intact d s4 = intact d s" "apart d s4 kbuf"
    "buf \<noteq> [] \<Longrightarrow> cells s4 kbuf = Some buf"
proof -
  have p: "kbuf \<notin> set (owned d)" "kbuf \<noteq> working_entry d" "kbuf \<noteq> NULL" "kbuf \<noteq> ZERO_SIZE_PTR"
    using new new_ptr_not_owned [OF core] by (auto simp: new_ptr_def)
  obtain s4 where st: "store s3 kbuf 0 buf = Some s4"
    and c4: "cells s4 = (cells s)(kbuf \<mapsto> if buf = [] then kb else buf)"
    using c new by (cases "buf = []") (simp_all add: store_in)
  have heap4: "kheap_ok s4" using dev_core_heap [OF core] p by (simp add: kheap_ok_def c4)
  have "cells s4 r = cells s r" if "r \<in> set (owned d) \<or> r = working_entry d" for r
    using that p by (auto simp: c4)
  note v4 = dev_core_frame [OF core heap4 this]
  show ?thesis by (rule that [OF st v4]) (use p in \<open>auto simp: apart_def c4\<close>)
qed

lemma aesd_write_outcome:
  assumes K: "kernel_ok K" and inv: "dev_inv K d s" and count: "length buf = unat count"
  shows "\<exists>ret d' s'. aesd_write K d s buf count = Some (ret, d', s') \<and> dev_inv K d' s' \<and>
     write_outcome K d s buf ret d' s'"
proof -
  have core: "dev_core K d s" and unlocked: "d\<lparr>lock := False\<rparr> = d"
    using inv by (cases d, simp add: dev_inv_def)+
  let ?d1 = "d\<lparr>lock := True\<rparr>"
  obtain r s1 where lk: "mutex_lock_interruptible K s = (r, s1)" by fastforce
  obtain kbuf s2 where km: "kmalloc K s1 count = (kbuf, s2)" by fastforce
  obtain left s3 where cp: "copy_from_user K s2 count = (left, s3)" by fastforce
  have c1: "cells s1 = cells s" and c3: "cells s3 = cells s2"
    using kernel_frame(3) [OF K lk] kernel_frame(1) [OF K cp] .
  have unlock: "mutex_unlock d' = d'\<lparr>lock := False\<rparr>" for d' by (simp add: mutex_unlock_def)
  note refused = outcome_refused [OF core, where buf = buf]
  show ?thesis
  proof (cases "r = 0")
    case False
    then show ?thesis using refused [OF c1, of "- ERESTARTSYS"] unlocked by (simp add: aesd_write_def lk)
  next
    case True
    note step = aesd_write_def lk True km cp Let_def
    from K km show ?thesis
    proof (cases rule: kmalloc_cases)
      case fail
      then show ?thesis using refused [of s2 "- ENOMEM"] c1 by (simp add: step unlock)
    next
      case zero
      then have "live_ptr s3 kbuf" and b: "buf = []" using count by (auto simp: live_ptr_def)
      then obtain s4 where fr: "k_free K s3 kbuf = Some s4"
        and "cells s4 = (cells s3)(kbuf := None)" using k_free_live [OF K] by blast
      then have c4: "cells s4 = cells s"
        using c3 zero c1 dev_core_heap [OF core] by (simp add: kheap_ok_def fun_upd_idem)
      have "dev_inv K (d\<lparr>lock := False\<rparr>) s4 \<and> write_outcome K d s buf 0 (d\<lparr>lock := False\<rparr>) s4"
        using dev_core_cells [OF core c4] core b by (auto simp: dev_inv_def intro: write_outcome.empty)
      then show ?thesis using zero fr b refused [OF c4, of "- EFAULT"] km cp
        by (auto simp: aesd_write_def lk True Let_def unlock write_loop.simps)
    next
      case (new kb)
      then have n: "new_ptr s kbuf" "kbuf \<noteq> NULL" "cells s3 = (cells s)(kbuf \<mapsto> kb)"
        "length kb = length buf" using c1 c3 count by (auto simp: new_ptr_def)
      show ?thesis
      proof (cases "left = 0")
        case False
        have "live_ptr s3 kbuf" by (simp add: live_ptr_def n)
        then obtain s4 where fr: "k_free K s3 kbuf = Some s4"
          and "cells s4 = (cells s3)(kbuf := None)" by (rule k_free_live [OF K])
        then have "cells s4 = cells s" using n by (simp add: new_ptr_def fun_upd_idem)
        then show ?thesis using False n fr refused [of s4 "- EFAULT"] by (simp add: step unlock)
      next
        case True
        have core': "dev_core K ?d1 s" using core by simp
        obtain s4 where st: "store s3 kbuf 0 buf = Some s4" "dev_core K ?d1 s4"
          and v4: "lines ?d1 s4 = lines ?d1 s" "partial ?d1 s4 = partial ?d1 s"
            "intact ?d1 s4 = intact ?d1 s"
          and kb: "apart ?d1 s4 kbuf" "buf \<noteq> [] \<Longrightarrow> cells s4 kbuf = Some buf"
          using write_copy_in [OF core' n(1) n(4) n(3)] by blast
        have "buf \<noteq> []" using new(1) count by (auto simp: unat_eq_0)
        then obtain ok d' s5 s6 where loop: "write_loop K kbuf 0 count ?d1 s4 = Some (ok, d', s5)"
          "k_free K s5 kbuf = Some s6" and core6: "dev_core K d' s6"
          and out: "write_outcome K ?d1 s4 buf (if ok then sint count else - ENOMEM) d' s6"
          using write_copied [OF K st(2) kb(1) kb(2) count new(1,2)] by blast
        have "write_outcome K d s buf (if ok then sint count else - ENOMEM) (d'\<lparr>lock := False\<rparr>) s6"
          using write_outcome_view [OF out] v4 by simp
        then show ?thesis
          using True n count st loop core6 by (simp add: step unlock dev_inv_def)
      qed
    qed
  qed
qed

end
