(* ===== verification/Driver_Ops.thy ===== *)
theory Driver_Ops
  imports Driver_Memory
begin

text \<open>
  The file operations of the char driver against the abstract device: a list of at most
  ten lines and the bytes not yet ended by a newline. Each \<open>spec_\<close> function is the
  operation on that view; the lemmas say that the handler computes it, for every answer of
  the kernel.
\<close>

section \<open>The abstract device\<close>

type_synonym abs_dev = "byte list list \<times> byte list"

definition spec_write :: "abs_dev \<Rightarrow> byte list \<Rightarrow> abs_dev" where
  "spec_write a buf =
     (let vs = snd a @ buf
      in if buf = [] then a
         else case memchr newline vs of
           None \<Rightarrow> (fst a, vs)
         | Some i \<Rightarrow> (take_last 10 (fst a @ [take (Suc i) vs]), drop (Suc i) vs))"

definition spec_read :: "byte list list \<Rightarrow> nat \<Rightarrow> nat \<Rightarrow> byte list" where
  "spec_read ls count pos =
     (case locate (map length ls) pos of
        None \<Rightarrow> []
      | Some (k, off) \<Rightarrow> take count (drop off (ls ! k)))"

definition spec_seek :: "byte list list \<Rightarrow> nat \<Rightarrow> nat \<Rightarrow> nat option" where
  "spec_seek ls cmd off =
     (if cmd < length ls \<and> off < length (ls ! cmd)
      then Some (sum_list (map length (take cmd ls)) + off)
      else None)"

definition dev_log :: "aesd_dev \<Rightarrow> kstate \<Rightarrow> byte list" where
  "dev_log d s = concat (lines d s)"

lemma spec_seek_inside:
  assumes "spec_seek ls cmd off = Some p"
  shows "locate (map length ls) p = Some (cmd, off)" "p < length (concat ls)"
proof -
  have *: "cmd < length ls" "off < length (ls ! cmd)" "p = sum_list (map length (take cmd ls)) + off"
    using assms by (auto simp: spec_seek_def split: if_splits)
  then show at: "locate (map length ls) p = Some (cmd, off)"
    using locate_sum [of cmd "map length ls" off] by (simp add: take_map)
  show "p < length (concat ls)"
    using at locate_None_iff [of "map length ls" p] by (simp add: length_concat not_le)
qed

lemma spec_read_prefix: "\<exists>rest. drop pos (concat ls) = spec_read ls count pos @ rest"
proof (cases "locate (map length ls) pos")
  case None
  then show ?thesis by (simp add: spec_read_def)
next
  case (Some r)
  then obtain k off where r: "locate (map length ls) pos = Some (k, off)" by (cases r) simp
  have "drop pos (concat ls) =
      take count (drop off (ls ! k)) @ drop count (drop off (ls ! k)) @ concat (drop (Suc k) ls)"
    by (simp only: locate_concat [OF r] append_assoc [symmetric] append_take_drop_id)
  with r show ?thesis by (simp add: spec_read_def)
qed

lemma spec_read_Nil_iff: "spec_read ls count pos = [] \<longleftrightarrow> count = 0 \<or> length (concat ls) \<le> pos"
proof (cases "locate (map length ls) pos")
  case None
  then have "length (concat ls) \<le> pos" by (simp add: locate_None_iff length_concat)
  with None show ?thesis by (simp add: spec_read_def)
next
  case (Some r)
  then obtain k off where r: "locate (map length ls) pos = Some (k, off)" by (cases r) simp
  have "\<not> length (concat ls) \<le> pos"
    using locate_None_iff [of "map length ls" pos] Some by (simp add: length_concat)
  moreover have "off < length (ls ! k)" using locate_SomeD [OF r] by auto
  ultimately show ?thesis using r by (simp add: spec_read_def)
qed

lemma length_spec_read: "length (spec_read ls count pos) \<le> count"
  by (auto simp: spec_read_def split: option.splits)

section \<open>Sizes and positions\<close>

lemma ring_sizes_lines: "dev_core K d s \<Longrightarrow> ring_sizes (circ_buffer d) = map length (lines d s)"
  by (auto simp: ring_sizes_def lines_def dev_core_def entry_in_def)

lemma length_lines [simp]: "length (lines d s) = ring_count (circ_buffer d)"
  by (simp add: lines_def)

lemma length_dev_log: "dev_core K d s \<Longrightarrow> length (dev_log d s) = sum_list (ring_sizes (circ_buffer d))"
  by (simp add: dev_log_def length_concat ring_sizes_lines)

lemma sum_list_bound: "(\<And>x. x \<in> set xs \<Longrightarrow> x \<le> m) \<Longrightarrow> sum_list xs \<le> length xs * (m :: nat)"
  by (induction xs) (auto simp: add_mono)

lemma dev_log_bound:
  assumes "kernel_ok K" "dev_core K d s"
  shows "length (dev_log d s) < 2 ^ 44"
proof -
  have "sum_list (ring_sizes (circ_buffer d)) \<le> ring_count (circ_buffer d) * kmax K"
    using sum_list_bound [of "ring_sizes (circ_buffer d)" "kmax K"] assms(2)
    by (auto simp: ring_sizes_def dev_core_def entry_in_def)
  also have "\<dots> \<le> 10 * kmax K" using ring_count_le by simp
  also have "\<dots> < 2 ^ 44" using kmax_less [OF assms(1)] by simp
  finally show ?thesis by (simp add: length_dev_log [OF assms(2)])
qed

lemma dev_sizes_fit: "kernel_ok K \<Longrightarrow> dev_core K d s \<Longrightarrow> sizes_fit (circ_buffer d)"
  using dev_log_bound [of K d s] by (simp add: sizes_fit_def length_dev_log)

section \<open>read\<close>

text \<open>
  What a read returns: the lock was interrupted, the copy to the user failed, or the bytes
  of \<open>spec_read\<close> with the position moved past them.
\<close>

inductive read_outcome ::
  "byte list list \<Rightarrow> nat \<Rightarrow> loff_t \<Rightarrow> int \<Rightarrow> byte list \<Rightarrow> loff_t \<Rightarrow> bool" for ls count pos where
  interrupted: "read_outcome ls count pos (- ERESTARTSYS) [] pos"
| fault: "read_outcome ls count pos (- EFAULT) bs pos"
| data: "bs = spec_read ls count (unat pos) \<Longrightarrow>
    unat pos' = unat pos + length bs \<Longrightarrow> read_outcome ls count pos (int (length bs)) bs pos'"

inductive_cases read_outcomeE: "read_outcome ls count pos ret bs pos'"

lemma read_slot:
  assumes K: "kernel_ok K" and core: "dev_core K d s"
    and loc: "locate (map length (lines d s)) (unat pos) = Some (k, off)"
  obtains e bs where "arr_get (entry (circ_buffer d)) (ring_idx (circ_buffer d) k) = Some e"
    "lines d s ! k = bs" "cells s (buffptr e) = Some bs" "length bs = unat (esize e)"
    "off < length bs" "length bs \<le> kmax K"
proof -
  have k: "k < ring_count (circ_buffer d)" and off: "off < length (lines d s ! k)"
    using locate_SomeD [OF loc] by auto
  let ?e = "ring_list (circ_buffer d) ! k"
  have mem: "?e \<in> set (ring_list (circ_buffer d))" using k by simp
  then obtain bs where bs: "cells s (buffptr ?e) = Some bs" "length bs = unat (esize ?e)"
    using entry_in_Some [OF entry_ptr(3) [OF core]] by blast
  have "length (entry (circ_buffer d)) = 10"
    using core by (auto simp: dev_core_def ring_fresh_def ring_inv_def)
  then have "arr_get (entry (circ_buffer d)) (ring_idx (circ_buffer d) k) = Some ?e"
    using k by (simp add: ring_list_nth)
  moreover have "lines d s ! k = bs" using k bs by (simp add: lines_def)
  moreover have "unat (esize ?e) \<le> kmax K" using entry_ptr(3) [OF core mem] by (simp add: entry_in_def)
  ultimately show ?thesis using that bs off by simp
qed

text \<open>The number of bytes to copy, in \<open>size_t\<close> arithmetic.\<close>

lemma bytes_to_copy:
  fixes count size off :: size_t
  assumes "unat off \<le> unat size"
  shows "unat (if count < size - off then count else size - off) =
    min (unat count) (unat size - unat off)"
  using unat_minus_64 [OF assms] by (auto simp: word_less_nat_alt)

lemma aesd_read_outcome:
  assumes K: "kernel_ok K" and inv: "dev_inv K d s"
  shows "\<exists>ret bs pos' s'. aesd_read K d s count pos = Some (ret, bs, pos', d, s') \<and>
     cells s' = cells s \<and> read_outcome (lines d s) (unat count) pos ret bs pos'"
proof -
  have core: "dev_core K d s" and unlocked: "mutex_unlock (d\<lparr>lock := True\<rparr>) = d"
    using inv by (cases d, simp add: dev_inv_def mutex_unlock_def)+
  have ring: "ring_inv (circ_buffer d)" using core by blast
  note fit = dev_sizes_fit [OF K core]
  obtain r s1 where lk: "mutex_lock_interruptible K s = (r, s1)" by fastforce
  have c1: "cells s1 = cells s" using kernel_frame(3) [OF K lk] .
  show ?thesis
  proof (cases "r = 0")
    case False
    then show ?thesis using c1 by (auto simp: aesd_read_def lk intro: read_outcome.intros)
  next
    case True
    note step = aesd_read_def lk True Let_def find_entry [OF ring fit] ring_sizes_lines [OF core]
    show ?thesis
    proof (cases "locate (map length (lines d s)) (unat pos)")
      case None
      then have "read_outcome (lines d s) (unat count) pos 0 [] pos"
        using read_outcome.data [of "[]" "lines d s" "unat count" pos pos]
        by (simp add: spec_read_def)
      then show ?thesis using None c1 by (simp add: step unlocked)
    next
      case (Some ko)
      then obtain k off where loc: "locate (map length (lines d s)) (unat pos) = Some (k, off)"
        by (cases ko) simp
      obtain e bs where e: "arr_get (entry (circ_buffer d)) (ring_idx (circ_buffer d) k) = Some e"
        and bs: "lines d s ! k = bs" "cells s1 (buffptr e) = Some bs" "length bs = unat (esize e)"
        and off: "off < length bs" "length bs \<le> kmax K"
        using read_slot [OF K core loc] c1 by metis
      have uoff: "unat (of_nat off :: size_t) = off"
        using off kmax_less [OF K] by (simp add: unat_of_nat_64)
      define n where "n = (if count < esize e - of_nat off then count else esize e - of_nat off)"
      have n: "unat n = min (unat count) (length bs - off)"
        using bytes_to_copy [of "of_nat off" "esize e" count] bs(3) off uoff by (simp add: n_def)
      let ?out = "take (unat n) (drop off bs)"
      have out: "?out = spec_read (lines d s) (unat count) (unat pos)"
        using loc bs n by (simp add: spec_read_def min_def)
      have len: "length ?out = unat n" using n by simp
      have ld: "load s1 (buffptr e) off (unat n) = Some ?out"
        using bs(2) off n by (simp add: load_in)
      obtain left s2 where cp: "copy_to_user K s1 n = (left, s2)" by fastforce
      have c2: "cells s2 = cells s" using kernel_frame(2) [OF K cp] c1 by simp
      have rd: "aesd_read K d s count pos =
          (if left \<noteq> 0 then Some (- EFAULT, take (unat (n - left)) ?out, pos, d, s2)
           else Some (sint n, ?out, pos + n, d, s2))"
        using loc e ld cp uoff unlocked by (simp add: step flip: n_def)
      have "unat pos + unat n < 2 ^ 64"
      proof -
        have "unat pos < length (dev_log d s)"
          using locate_None_iff [of "map length (lines d s)" "unat pos"] loc
          by (simp add: dev_log_def length_concat not_le)
        then show ?thesis using dev_log_bound [OF K core] n off kmax_less [OF K] by simp
      qed
      then have "unat (pos + n) = unat pos + length ?out" using len unat_plus_64 by simp
      then have "read_outcome (lines d s) (unat count) pos (int (length ?out)) ?out (pos + n)"
        by (rule read_outcome.data [OF out])
      moreover have "sint n = int (length ?out)" using sint_small [OF K, of n] n len off by simp
      ultimately show ?thesis using rd c2 by (auto intro: read_outcome.fault)
    qed
  qed
qed

end
