(* ===== verification/Driver_Seek.thy ===== *)
theory Driver_Seek
  imports Driver_Ops
begin

text \<open>
  The two handlers that move a file's position, \<open>llseek\<close> and the \<open>ioctl\<close>
  \<open>AESDCHAR_IOCSEEKTO\<close>, against the abstract log: the total size the code adds up over
  the ring is the length of the log, and the command and offset of an \<open>ioctl\<close> are the
  line and the place in it.
\<close>

section \<open>Sums of sizes\<close>

lemma unat_sum_esize [c_arith]:
  "sum_list (map (unat \<circ> esize) es) < 2 ^ 64 \<Longrightarrow>
     unat (sum_list (map esize es)) = sum_list (map (unat \<circ> esize) es)"
  by (induction es) (simp_all add: unat_plus_64)

lemma full_size_from:
  "n \<le> length (entry b) \<Longrightarrow>
     fold (\<lambda>i acc. do { t \<leftarrow> acc; e \<leftarrow> arr_get (entry b) i; Some (t + esize e) }) [0..<n] (Some t) =
     Some (t + sum_list (map esize (take n (entry b))))"
  by (induction n) (simp_all add: take_Suc_conv_app_nth add.assoc)

lemma sum_list_rotate: "sum_list (rotate n xs) = sum_list (xs :: 'a :: comm_monoid_add list)"
proof (induction n)
  case (Suc n)
  then show ?case by (cases "rotate n xs") (simp_all add: add.commute)
qed simp

lemma full_size_eq:
  assumes "ring_inv b" "full b"
  shows "full_size b = Some (sum_list (map esize (ring_list b)))"
proof -
  have len: "length (entry b) = 10" using assms by (simp add: ring_inv_def)
  have "ring_list b = rotate (unat (out_offs b)) (entry b)"
    using assms len
    by (simp add: list_eq_iff_nth_eq ring_list_nth ring_idx_def nth_rotate ring_count_def)
  then have "sum_list (map esize (ring_list b)) = sum_list (map esize (entry b))"
    by (simp add: rotate_map [symmetric] sum_list_rotate)
  then show ?thesis using full_size_from [of 10 b 0] len by (simp add: full_size_def)
qed

lemma live_size_from:
  assumes inv: "ring_inv b" "\<not> full b"
    and k: "k \<le> ring_count b" "unat idx = (unat (out_offs b) + k) mod 10"
  shows "live_size b idx tot = Some (tot + sum_list (map esize (drop k (ring_list b))))"
  using k
proof (induction "ring_count b - k" arbitrary: k idx tot)
  case 0
  then have "idx = in_offs b" using ring_in_offs [OF inv(1)] by (simp add: word_unat_eq_iff)
  with 0 show ?case by (simp add: live_size.simps)
next
  case (Suc n)
  then have less: "k < ring_count b" by simp
  have "ring_count b < 10"
    using ring_count_le [of b] ring_count_full_iff [OF inv(1)] inv(2) by linarith
  then have "idx \<noteq> in_offs b"
    using ring_in_offs [OF inv(1)] less Suc.prems(2) out_offs_less [OF inv(1)]
      mod10_inj [of "unat (out_offs b)" k "ring_count b"] by auto
  moreover have "arr_get (entry b) (unat idx) = Some (ring_list b ! k)"
    using less inv Suc.prems(2) by (simp add: ring_list_nth ring_idx_def ring_inv_def)
  moreover have "drop k (ring_list b) = ring_list b ! k # drop (Suc k) (ring_list b)"
    using less by (simp add: Cons_nth_drop_Suc)
  moreover have "live_size b (next_offs idx) (tot + esize (ring_list b ! k)) =
      Some (tot + esize (ring_list b ! k) + sum_list (map esize (drop (Suc k) (ring_list b))))"
    by (rule Suc.hyps(1)) (use Suc less in \<open>simp_all add: mod_simps\<close>)
  ultimately show ?case by (simp add: live_size.simps [of b idx] add.assoc)
qed

text \<open>What \<open>llseek\<close> adds up is the length of the log, and the loop ends.\<close>

lemma seek_total:
  assumes "kernel_ok K" "dev_core K d s"
  shows "(if full (circ_buffer d) then full_size (circ_buffer d)
          else live_size (circ_buffer d) (out_offs (circ_buffer d)) 0) =
         Some (of_nat (length (dev_log d s)))"
proof -
  let ?b = "circ_buffer d"
  have inv: "ring_inv ?b" using assms by blast
  have "(if full ?b then full_size ?b else live_size ?b (out_offs ?b) 0) =
      Some (sum_list (map esize (ring_list ?b)))"
    using full_size_eq [OF inv] live_size_from [OF inv, of 0 "out_offs ?b" 0] out_offs_less [OF inv]
    by simp
  moreover have "sum_list (map esize (ring_list ?b)) = of_nat (length (dev_log d s))"
    using dev_sizes_fit [OF assms] length_dev_log [OF assms(2)] unat_sum_esize [of "ring_list ?b"]
    by (metis ring_sizes_def sizes_fit_def of_nat_unat_64)
  ultimately show ?thesis by simp
qed

section \<open>llseek\<close>

definition spec_llseek :: "nat \<Rightarrow> loff_t \<Rightarrow> loff_t \<Rightarrow> int \<Rightarrow> loff_t option" where
  "spec_llseek len pos off whence =
     (let target = (if whence = 0 then Some off else if whence = 1 then Some (pos + off)
                    else if whence = 2 then Some (of_nat len + off) else None)
      in case target of None \<Rightarrow> None | Some p \<Rightarrow> if sint p < 0 then None else Some p)"

inductive seek_outcome :: "loff_t option \<Rightarrow> file \<Rightarrow> int \<Rightarrow> file \<Rightarrow> bool" for target filp where
  interrupted: "seek_outcome target filp (- ERESTARTSYS) filp"
| invalid: "target = None \<Longrightarrow> seek_outcome target filp (- EINVAL) filp"
| moved: "target = Some p \<Longrightarrow> seek_outcome target filp (sint p) (filp\<lparr>f_pos := p\<rparr>)"

inductive_cases seek_outcomeE: "seek_outcome target filp ret filp'"

lemma aesd_llseek_outcome:
  assumes K: "kernel_ok K" and inv: "dev_inv K d s"
  shows "\<exists>ret filp' s'. aesd_llseek K d s filp off whence = Some (ret, filp', d, s') \<and>
     cells s' = cells s \<and>
     seek_outcome (spec_llseek (length (dev_log d s)) (f_pos filp) off whence) filp ret filp' \<and>
     (ret = - ERESTARTSYS \<longleftrightarrow> fst (mutex_lock_interruptible K s) \<noteq> 0)"
proof -
  have core: "dev_core K d s" and unlocked: "mutex_unlock (d\<lparr>lock := True\<rparr>) = d"
    using inv by (cases d, simp add: dev_inv_def mutex_unlock_def)+
  obtain r s1 where lk: "mutex_lock_interruptible K s = (r, s1)" by fastforce
  note c1 = kernel_frame(3) [OF K lk]
  show ?thesis
  proof (cases "r = 0")
    case False
    then show ?thesis using c1 by (auto simp: aesd_llseek_def lk intro: seek_outcome.interrupted)
  next
    case True
    let ?t = "spec_llseek (length (dev_log d s)) (f_pos filp) off whence"
    have "aesd_llseek K d s filp off whence =
        Some (case ?t of None \<Rightarrow> (- EINVAL, filp, d, s1) | Some p \<Rightarrow> (sint p, filp\<lparr>f_pos := p\<rparr>, d, s1))"
      using True unlocked seek_total [OF K core]
      by (cases "full (circ_buffer d)") (simp_all add: aesd_llseek_def lk Let_def spec_llseek_def)
    moreover have "0 \<le> sint p" if "?t = Some p" for p
      using that by (auto simp: spec_llseek_def Let_def split: option.splits if_splits)
    ultimately show ?thesis using c1 True lk
      by (cases ?t) (fastforce intro: seek_outcome.intros)+
  qed
qed

section \<open>ioctl\<close>

lemma ioctl_skip_from:
  "length es = 10 \<Longrightarrow> idx < 10 \<Longrightarrow>
     ioctl_skip es n idx tot = Some ((idx + n) mod 10, tot + sum_list (map esize (ring_from es idx n)))"
proof (induction n arbitrary: idx tot)
  case 0
  then show ?case by (simp add: ring_from_def)
next
  case (Suc n)
  then show ?case by (simp add: ring_from_Suc add.assoc mod_simps)
qed

lemma ring_from_take:
  "n \<le> ring_count b \<Longrightarrow> ring_from (entry b) (unat (out_offs b)) n = take n (ring_list b)"
  by (simp add: ring_from_def ring_list_def ring_idx_def take_map)

text \<open>The slot of a command number beyond the valid entries holds a zeroed entry.\<close>

lemma slot_beyond:
  assumes "ring_fresh b" "ring_count b \<le> n" "n < 10"
  shows "entry b ! ring_idx b n = zero_entry"
  using assms(1) ring_idx_less [of b n]
proof (cases rule: ring_fresh_slot)
  case (valid k)
  then have "k = n"
    using assms out_offs_less [of b] ring_count_le [of b]
      mod10_inj [of "unat (out_offs b)" k n] by (auto simp: ring_idx_def)
  with valid assms show ?thesis by simp
qed

definition ioctl_target :: "byte list list \<Rightarrow> aesd_seekto \<Rightarrow> loff_t option" where
  "ioctl_target ls seekto =
     map_option of_nat (spec_seek ls (unat (write_cmd seekto)) (unat (write_cmd_offset seekto)))"

inductive ioctl_outcome :: "byte list list \<Rightarrow> uint32 \<Rightarrow> aesd_seekto \<Rightarrow> file \<Rightarrow> int \<Rightarrow> file \<Rightarrow> bool"
  for ls cmd seekto filp where
  unknown: "cmd \<noteq> AESDCHAR_IOCSEEKTO \<Longrightarrow> ioctl_outcome ls cmd seekto filp (- ENOTTY) filp"
| stopped: "cmd = AESDCHAR_IOCSEEKTO \<Longrightarrow> ret = - EFAULT \<or> ret = - ERESTARTSYS \<Longrightarrow>
    ioctl_outcome ls cmd seekto filp ret filp"
| out_of_range: "cmd = AESDCHAR_IOCSEEKTO \<Longrightarrow> ioctl_target ls seekto = None \<Longrightarrow>
    ioctl_outcome ls cmd seekto filp (- EINVAL) filp"
| seeked: "cmd = AESDCHAR_IOCSEEKTO \<Longrightarrow> ioctl_target ls seekto = Some p \<Longrightarrow>
    ioctl_outcome ls cmd seekto filp 0 (filp\<lparr>f_pos := p\<rparr>)"

inductive_cases ioctl_outcomeE: "ioctl_outcome ls cmd seekto filp ret filp'"

lemma unat_ucast_32_64 [simp]: "unat (ucast (x :: uint32) :: size_t) = unat x"
proof -
  have "unat x < 2 ^ 32" using unsigned_less [of x, where 'a = nat] by simp
  then have "unat x < 2 ^ 64" by simp
  then show ?thesis by (simp add: unsigned_ucast_eq take_bit_nat_eq_self)
qed

text \<open>The part of the handler that runs under the lock.\<close>

lemma ioctl_locked:
  assumes K: "kernel_ok K" and core: "dev_core K d s" and n: "unat (write_cmd seekto) < 10"
    and e: "e = entry (circ_buffer d) ! ring_idx (circ_buffer d) (unat (write_cmd seekto))"
    and tot: "tot = sum_list (map esize (ring_from (entry (circ_buffer d))
        (unat (out_offs (circ_buffer d))) (unat (write_cmd seekto)))) + ucast (write_cmd_offset seekto)"
  shows "if esize e \<le> ucast (write_cmd_offset seekto) then ioctl_target (lines d s) seekto = None
         else ioctl_target (lines d s) seekto = Some tot \<and>
           unat tot < length (dev_log d s)"
proof -
  let ?b = "circ_buffer d" and ?n = "unat (write_cmd seekto)" and ?o = "unat (write_cmd_offset seekto)"
  have fresh: "ring_fresh ?b" using core by blast
  show ?thesis
  proof (cases "?n < ring_count ?b")
    case False
    then have "e = zero_entry" using slot_beyond [OF fresh _ n] e by simp
    then show ?thesis using False by (simp add: ioctl_target_def spec_seek_def zero_entry_def)
  next
    case True
    then have e': "e = ring_list ?b ! ?n" using e by (simp add: ring_list_nth)
    note sz = ring_sizes_lines [OF core]
    have len: "length (lines d s ! ?n) = unat (esize e)"
      using True e' arg_cong [OF sz, of "\<lambda>xs. xs ! ?n"] by (simp add: ring_sizes_def)
    have le: "esize e \<le> ucast (write_cmd_offset seekto) \<longleftrightarrow> unat (esize e) \<le> ?o"
      by (simp add: word_le_nat_alt)
    let ?sum = "sum_list (map length (take ?n (lines d s)))"
    have sum: "sum_list (map (unat \<circ> esize) (take ?n (ring_list ?b))) = ?sum"
      using arg_cong [OF sz, of "take ?n"] by (simp add: ring_sizes_def take_map)
    have loc: "?o < unat (esize e) \<Longrightarrow> ?sum + ?o < length (dev_log d s)"
      using locate_sum [of ?n "map length (lines d s)" ?o] True len
        locate_None_iff [of "map length (lines d s)" "?sum + ?o"]
      by (simp add: dev_log_def length_concat take_map not_le)
    show ?thesis
    proof (cases "?o < unat (esize e)")
      case False
      then show ?thesis using le len True by (simp add: ioctl_target_def spec_seek_def)
    next
      case True': True
      have b: "?sum + ?o < 2 ^ 64" using loc [OF True'] dev_log_bound [OF K core] by simp
      then have "unat (sum_list (map esize (take ?n (ring_list ?b)))) = ?sum"
        using unat_sum_esize [of "take ?n (ring_list ?b)"] sum by simp
      then have u: "unat tot = ?sum + ?o"
        using tot True b by (simp add: ring_from_take unat_plus_64)
      then have "tot = of_nat (?sum + ?o)" by (metis of_nat_unat_64)
      then show ?thesis using le True True' u loc [OF True'] len
        by (simp add: ioctl_target_def spec_seek_def)
    qed
  qed
qed

lemma aesd_ioctl_outcome:
  assumes K: "kernel_ok K" and inv: "dev_inv K d s"
  shows "\<exists>ret filp' s'. aesd_ioctl K d s filp cmd seekto = Some (ret, filp', d, s') \<and>
     cells s' = cells s \<and> ioctl_outcome (lines d s) cmd seekto filp ret filp'"
proof -
  have core: "dev_core K d s" and unlocked: "mutex_unlock (d\<lparr>lock := True\<rparr>) = d"
    using inv by (cases d, simp add: dev_inv_def mutex_unlock_def)+
  let ?b = "circ_buffer d" and ?n = "unat (write_cmd seekto)"
  have ring: "ring_inv ?b" and len: "length (entry ?b) = 10" and out: "unat (out_offs ?b) < 10"
    using core by (auto simp: ring_inv_def dest!: dev_core_ring ring_fresh_inv)
  obtain left s1 where cp: "copy_from_user K s 8 = (left, s1)" by fastforce
  obtain r s2 where lk: "mutex_lock_interruptible K s1 = (r, s2)" by fastforce
  have c: "cells s1 = cells s" "cells s2 = cells s"
    using kernel_frame(1) [OF K cp] kernel_frame(3) [OF K lk] by simp_all
  note step = aesd_ioctl_def cp lk Let_def
  consider (early) "cmd \<noteq> AESDCHAR_IOCSEEKTO \<or> left \<noteq> 0" | (cmd) "cmd = AESDCHAR_IOCSEEKTO" "left = 0"
    by blast
  then show ?thesis
  proof cases
    case early
    then show ?thesis using c by (auto simp: step intro: ioctl_outcome.intros)
  next
    case cmd
    show ?thesis
    proof (cases "?n < 10 \<and> r = 0")
      case False
      have "ioctl_target (lines d s) seekto = None" if "10 \<le> ?n"
        using that ring_count_le [of ?b] by (simp add: ioctl_target_def spec_seek_def)
      then show ?thesis using c cmd False by (auto simp: step not_less intro: ioctl_outcome.intros)
    next
      case True
      let ?e = "entry ?b ! ring_idx ?b ?n"
      let ?tot = "sum_list (map esize (ring_from (entry ?b) (unat (out_offs ?b)) ?n))"
      note locked = ioctl_locked [OF K core _ refl refl, of seekto]
      have skip: "ioctl_skip (entry ?b) ?n (unat (out_offs ?b)) 0 = Some (ring_idx ?b ?n, ?tot)"
        using ioctl_skip_from [OF len out] by (simp add: ring_idx_def)
      show ?thesis
      proof (cases "esize ?e \<le> ucast (write_cmd_offset seekto)")
        case small: True
        then show ?thesis using cmd True c skip len unlocked locked
          by (auto simp: step not_le intro: ioctl_outcome.out_of_range)
      next
        case False
        let ?p = "?tot + ucast (write_cmd_offset seekto)"
        have t: "ioctl_target (lines d s) seekto = Some ?p" "unat ?p < length (dev_log d s)"
          using locked False True by simp_all
        then have "locate (map length (lines d s)) (unat ?p) \<noteq> None"
          by (simp add: locate_None_iff dev_log_def length_concat)
        then obtain k off where "locate (ring_sizes ?b) (unat ?p) = Some (k, off)"
          using ring_sizes_lines [OF core] by auto
        then have "aesd_ioctl K d s filp cmd seekto = Some (0, filp\<lparr>f_pos := ?p\<rparr>, d, s2)"
          using cmd True False skip len unlocked
          by (simp add: step not_le find_entry [OF ring dev_sizes_fit [OF K core]])
        then show ?thesis using c cmd t(1) by (auto intro: ioctl_outcome.seeked)
      qed
    qed
  qed
qed

end
