(* ===== verification/Driver_Lifecycle.thy ===== *)
theory Driver_Lifecycle
  imports Driver_Seek
begin

text \<open>
  The life of the device: loading the module, any sequence of calls of its file
  operations, and unloading it. A call is one of the handlers of \<open>aesd_fops\<close> with its
  arguments; every handler runs to the end under the device's lock, so a history of the
  device is a sequence of calls.
\<close>

section \<open>Calls\<close>

datatype call =
    Call_open "file" ptr
  | Call_release "file"
  | Call_read size_t loff_t
  | Call_write "byte list"
  | Call_llseek "file" loff_t int
  | Call_ioctl "file" uint32 aesd_seekto
  | Call_fsync "file" loff_t loff_t int

text \<open>\<open>aesd_fops\<close>: what each call does to the device, and its return value.\<close>

definition aesd_fops :: "kernel \<Rightarrow> aesd_dev \<times> kstate \<Rightarrow> call \<Rightarrow> (int \<times> aesd_dev \<times> kstate) option" where
  "aesd_fops K ds c =
     (case ds of (d, s) \<Rightarrow>
       (case c of
          Call_open filp i_cdev \<Rightarrow> Some (fst (aesd_open K i_cdev filp), d, s)
        | Call_release filp \<Rightarrow> Some (aesd_release filp, d, s)
        | Call_read count pos \<Rightarrow> do {
            (ret, bs, pos', d', s') \<leftarrow> aesd_read K d s count pos;
            Some (ret, d', s')
          }
        | Call_write buf \<Rightarrow> aesd_write K d s buf (of_nat (length buf))
        | Call_llseek filp off whence \<Rightarrow> do {
            (ret, filp', d', s') \<leftarrow> aesd_llseek K d s filp off whence;
            Some (ret, d', s')
          }
        | Call_ioctl filp cmd seekto \<Rightarrow> do {
            (ret, filp', d', s') \<leftarrow> aesd_ioctl K d s filp cmd seekto;
            Some (ret, d', s')
          }
        | Call_fsync filp start end' datasync \<Rightarrow> Some (aesd_fsync filp start end' datasync, d, s)))"

fun run_calls :: "kernel \<Rightarrow> aesd_dev \<times> kstate \<Rightarrow> call list \<Rightarrow> (int list \<times> aesd_dev \<times> kstate) option" where
  "run_calls K ds [] = Some ([], ds)"
| "run_calls K ds (c # cs) = do {
     (ret, ds1) \<leftarrow> aesd_fops K ds c;
     (rets, ds2) \<leftarrow> run_calls K ds1 cs;
     Some (ret # rets, ds2)
   }"

text \<open>A user buffer has less than $2^{64}$ bytes.\<close>

definition call_fits :: "call \<Rightarrow> bool" where
  "call_fits c = (case c of Call_write buf \<Rightarrow> length buf < 2 ^ 64 | _ \<Rightarrow> True)"

lemma dev_inv_cells: "dev_inv K d s \<Longrightarrow> cells s' = cells s \<Longrightarrow> dev_inv K d s'"
  using dev_core_cells(1) by (auto simp: dev_inv_def)

lemma aesd_fops_safe:
  assumes K: "kernel_ok K" and inv: "dev_inv K d s" and fits: "call_fits c"
  shows "\<exists>ret d' s'. aesd_fops K (d, s) c = Some (ret, d', s') \<and> dev_inv K d' s'"
proof (cases c)
  case (Call_read count pos)
  then show ?thesis
    using aesd_read_outcome [OF K inv, of count pos] dev_inv_cells [OF inv]
    by (auto simp: aesd_fops_def)
next
  case (Call_write buf)
  then have "length buf = unat (of_nat (length buf) :: size_t)"
    using fits by (simp add: call_fits_def unat_of_nat_64)
  then show ?thesis
    using aesd_write_outcome [OF K inv] Call_write by (simp add: aesd_fops_def) blast
next
  case (Call_llseek filp off whence)
  then show ?thesis
    using aesd_llseek_outcome [OF K inv, of filp off whence] dev_inv_cells [OF inv]
    by (auto simp: aesd_fops_def)
next
  case (Call_ioctl filp cmd seekto)
  then show ?thesis
    using aesd_ioctl_outcome [OF K inv, of filp cmd seekto] dev_inv_cells [OF inv]
    by (auto simp: aesd_fops_def)
qed (use inv in \<open>auto simp: aesd_fops_def\<close>)

lemma run_calls_safe:
  assumes K: "kernel_ok K"
  shows "dev_inv K d s \<Longrightarrow> list_all call_fits cs \<Longrightarrow>
     \<exists>rets d' s'. run_calls K (d, s) cs = Some (rets, d', s') \<and> dev_inv K d' s'"
proof (induction cs arbitrary: d s)
  case (Cons c cs)
  obtain ret d1 s1 where 1: "aesd_fops K (d, s) c = Some (ret, d1, s1)" "dev_inv K d1 s1"
    using aesd_fops_safe [OF K Cons.prems(1), of c] Cons.prems(2) by auto
  obtain rets d2 s2 where "run_calls K (d1, s1) cs = Some (rets, d2, s2)" "dev_inv K d2 s2"
    using Cons.IH [OF 1(2)] Cons.prems(2) by auto
  with 1 show ?case by simp
qed simp

section \<open>Loading the module\<close>

lemma init_module_inv:
  assumes K: "kernel_ok K" and heap: "kheap_ok s" and init: "aesd_init_module K d s = (0, d', s')"
  shows "dev_inv K d' s'" "lines d' s' = []" "partial d' s' = []" "intact d' s'"
    "cdev_live d'" "chrdev_held d'"
proof -
  obtain r major s1 where 1: "alloc_chrdev_region K s = (r, major, s1)" by (metis prod_cases3)
  obtain q s2 where 2: "cdev_add K s1 = (q, s2)" by fastforce
  obtain p s3 where 3: "kmalloc K s2 AESD_BUFFER_SIZE = (p, s3)" by fastforce
  note unfold = aesd_init_module_def 1 aesd_setup_cdev_def 2 3 Let_def
  have q0: "q = 0" and r0: "\<not> r < 0"
    using init by (auto simp: unfold split: if_splits)
  have d': "d' = \<lparr>cdev_live = True, chrdev_held = True, aesd_major = major, buffer = p,
      buffer_size = 0, lock = False, circ_buffer = aesd_circular_buffer_init, working_entry = NULL,
      working_size = 0, total_size = 0\<rparr>" and s': "s' = s3"
    using init q0 r0 by (simp_all add: unfold zero_dev_def split: if_splits)
  have c2: "cells s2 = cells s"
    using kernel_frame(5) [OF K 1] kernel_frame(4) [OF K 2] by simp
  from K 3 have heap3: "kheap_ok s3"
  proof (cases rule: kmalloc_cases)
    case (new bs)
    then show ?thesis using heap c2 by (auto simp: kheap_ok_def new_ptr_def)
  qed (use heap c2 in \<open>simp_all add: kheap_ok_def\<close>)
  then have "cells s3 NULL = None" by (simp add: kheap_ok_def)
  then show "dev_inv K d' s'" "lines d' s' = []" "partial d' s' = []" "intact d' s'"
    "cdev_live d'" "chrdev_held d'"
    using heap3 by (simp_all add: d' s' dev_inv_def dev_core_def owned_def work_mem_def
        ring_fresh_init lines_def partial_def intact_def)
qed

text \<open>A load that fails gives back the region of device numbers and allocates nothing.\<close>

lemma init_module_fails:
  assumes "kernel_ok K" "aesd_init_module K d s = (r, d', s')" "r \<noteq> 0" "\<not> chrdev_held d" "\<not> cdev_live d"
    and "0 \<le> fst (alloc_chrdev_region K s) \<or> r < 0"
  shows "cells s' = cells s" "\<not> chrdev_held d'" "\<not> cdev_live d'"
proof -
  obtain r1 major s1 where 1: "alloc_chrdev_region K s = (r1, major, s1)" by (metis prod_cases3)
  obtain q s2 where 2: "cdev_add K s1 = (q, s2)" by fastforce
  note unfold = aesd_init_module_def 1 aesd_setup_cdev_def 2 Let_def
  show "cells s' = cells s" "\<not> chrdev_held d'" "\<not> cdev_live d'"
    using assms kernel_frame(5) [OF assms(1) 1] kernel_frame(4) [OF assms(1) 2]
    by (auto simp: unfold zero_dev_def split: if_splits prod.splits)
qed

section \<open>Unloading the module\<close>

abbreviation slot_ptr :: "aesd_dev \<Rightarrow> nat \<Rightarrow> ptr" where
  "slot_ptr d i \<equiv> buffptr (entry (circ_buffer d) ! i)"

lemma cleanup_slots_frees:
  assumes K: "kernel_ok K"
  shows "length (entry (circ_buffer d)) = 10 \<Longrightarrow> kheap_ok s \<Longrightarrow> distinct is \<Longrightarrow>
     \<forall>i \<in> set is. i < 10 \<and> live_ptr s (slot_ptr d i) \<Longrightarrow>
     inj_on (slot_ptr d) {i \<in> set is. slot_ptr d i \<noteq> NULL} \<Longrightarrow>
     \<exists>d' s'. cleanup_slots K is d s = Some (d', s') \<and>
       (\<forall>p. cells s' p = (if p \<in> slot_ptr d ` set is then None else cells s p)) \<and>
       working_entry d' = working_entry d \<and> buffer d' = buffer d"
proof (induction "is" arbitrary: d s)
  case (Cons i "is")
  have i: "i < length (entry (circ_buffer d))" using Cons.prems by simp
  show ?case
  proof (cases "slot_ptr d i = NULL")
    case True
    have "{j \<in> set (i # is). slot_ptr d j \<noteq> NULL} = {j \<in> set is. slot_ptr d j \<noteq> NULL}"
      using True by auto
    then obtain d' s' where "cleanup_slots K is d s = Some (d', s')"
      and c: "\<forall>p. cells s' p = (if p \<in> slot_ptr d ` set is then None else cells s p)"
      and "working_entry d' = working_entry d \<and> buffer d' = buffer d"
      using Cons.IH [of d s] Cons.prems by auto
    moreover have "cells s NULL = None" using Cons.prems by (simp add: kheap_ok_def)
    ultimately show ?thesis using True i by auto
  next
    case False
    obtain s1 where fr: "k_free K s (slot_ptr d i) = Some s1"
      and c1: "cells s1 = (cells s)(slot_ptr d i := None)"
      using k_free_live [OF K, of s "slot_ptr d i"] Cons.prems by auto
    let ?d = "d\<lparr>circ_buffer := (circ_buffer d)\<lparr>entry := (entry (circ_buffer d))[i := zero_entry]\<rparr>\<rparr>"
    have ptr: "slot_ptr ?d j = slot_ptr d j" if "j \<in> set is" for j
    proof -
      have "i \<noteq> j" using that Cons.prems(3) by auto
      then show ?thesis by simp
    qed
    have live: "live_ptr s1 (slot_ptr d j)" if "j \<in> set is" for j
    proof (cases "slot_ptr d j = NULL")
      case nn: False
      have "slot_ptr d j \<noteq> slot_ptr d i"
        using inj_onD [OF Cons.prems(5), of j i] that nn False Cons.prems(3) by auto
      then show ?thesis using Cons.prems(4) that by (auto simp: live_ptr_def c1)
    qed (simp add: live_ptr_def)
    have "kheap_ok s1" using Cons.prems(2) by (simp add: kheap_ok_def c1)
    moreover have "inj_on (slot_ptr ?d) {j \<in> set is. slot_ptr ?d j \<noteq> NULL}"
      using Cons.prems(5) ptr by (auto simp: inj_on_def)
    ultimately obtain d' s' where "cleanup_slots K is ?d s1 = Some (d', s')"
      and "\<forall>p. cells s' p = (if p \<in> slot_ptr ?d ` set is then None else cells s1 p)"
      and "working_entry d' = working_entry d \<and> buffer d' = buffer d"
      using Cons.IH [of ?d s1] Cons.prems live ptr by auto
    moreover have "slot_ptr ?d ` set is = slot_ptr d ` set is" using ptr by (rule image_cong [OF refl])
    ultimately show ?thesis using False i fr c1 by auto
  qed
qed simp

text \<open>The slots of the ring hold what the device owns, and null pointers.\<close>

lemma slot_ptrs:
  assumes "dev_core K d s" "i < 10"
  shows "slot_ptr d i = NULL \<or> (\<exists>k < ring_count (circ_buffer d).
           ring_idx (circ_buffer d) k = i \<and> owned d ! k = slot_ptr d i)"
  using dev_core_ring [OF assms(1)] assms(2)
  by (cases rule: ring_fresh_slot) (auto simp: owned_def ring_list_nth zero_entry_def)

lemma slot_ptr_inj:
  assumes "dev_core K d s"
  shows "inj_on (slot_ptr d) {i \<in> set foreach_indices. slot_ptr d i \<noteq> NULL}"
proof (rule inj_onI)
  fix i j
  assume ij: "i \<in> {i \<in> set foreach_indices. slot_ptr d i \<noteq> NULL}"
    "j \<in> {i \<in> set foreach_indices. slot_ptr d i \<noteq> NULL}" and eq: "slot_ptr d i = slot_ptr d j"
  obtain k where k: "k < ring_count (circ_buffer d)" "ring_idx (circ_buffer d) k = i"
      "owned d ! k = slot_ptr d i"
    using slot_ptrs [OF assms, of i] ij by (auto simp: foreach_indices_def)
  obtain l where l: "l < ring_count (circ_buffer d)" "ring_idx (circ_buffer d) l = j"
      "owned d ! l = slot_ptr d j"
    using slot_ptrs [OF assms, of j] ij by (auto simp: foreach_indices_def)
  have "distinct (owned d)" "length (owned d) = ring_count (circ_buffer d)"
    using assms by (simp_all add: dev_core_def owned_def)
  then have "k = l" using k l eq by (simp add: distinct_conv_nth) metis
  with k l show "i = j" by simp
qed

lemma slot_ptr_image:
  assumes "dev_core K d s"
  shows "slot_ptr d ` set foreach_indices - {NULL} = set (owned d)"
proof
  show "slot_ptr d ` set foreach_indices - {NULL} \<subseteq> set (owned d)"
  proof
    fix p assume "p \<in> slot_ptr d ` set foreach_indices - {NULL}"
    then obtain i where i: "i < 10" "p = slot_ptr d i" "p \<noteq> NULL"
      by (auto simp: foreach_indices_def)
    then obtain k where "k < ring_count (circ_buffer d)" "owned d ! k = p"
      using slot_ptrs [OF assms i(1)] by auto
    then show "p \<in> set (owned d)" by (metis length_map length_ring_list nth_mem owned_def)
  qed
  have "e \<in> set (ring_list (circ_buffer d)) \<Longrightarrow> buffptr e \<in> slot_ptr d ` set foreach_indices" for e
    by (fastforce simp: in_set_conv_nth ring_list_nth foreach_indices_def)
  moreover have "NULL \<notin> set (owned d)"
    using owned_live [OF assms] dev_core_heap [OF assms] by (force simp: kheap_ok_def)
  ultimately show "set (owned d) \<subseteq> slot_ptr d ` set foreach_indices - {NULL}"
    by (auto simp: owned_def)
qed

lemma cleanup_module_frees:
  assumes K: "kernel_ok K" and core: "dev_core K d s"
  shows "\<exists>d' s'. aesd_cleanup_module K d s = Some (d', s') \<and>
     (\<forall>p. cells s' p = (if p \<in> set (owned d) \<or> p = working_entry d then None else cells s p)) \<and>
     \<not> cdev_live d' \<and> \<not> chrdev_held d' \<and> buffer d' = buffer d"
proof -
  note heap = dev_core_heap [OF core]
  have len: "length (entry (circ_buffer d)) = 10"
    using core by (auto simp: ring_inv_def dest!: dev_core_ring ring_fresh_inv)
  have live: "\<forall>i \<in> set foreach_indices. i < 10 \<and> live_ptr s (slot_ptr d i)"
    using slot_ptr_image [OF core] owned_live [OF core]
    by (fastforce simp: live_ptr_def foreach_indices_def)
  have "distinct foreach_indices" by (simp add: foreach_indices_def)
  then obtain d1 s1 where cl: "cleanup_slots K foreach_indices d s = Some (d1, s1)"
    and c1: "\<forall>p. cells s1 p = (if p \<in> slot_ptr d ` set foreach_indices then None else cells s p)"
    and d1: "working_entry d1 = working_entry d" "buffer d1 = buffer d"
    using cleanup_slots_frees [OF K len heap _ live slot_ptr_inj [OF core]] by blast
  have c1': "cells s1 p = (if p \<in> set (owned d) then None else cells s p)" for p
    using c1 slot_ptr_image [OF core] heap by (auto simp: kheap_ok_def)
  show ?thesis
  proof (cases "working_entry d = NULL")
    case True
    then show ?thesis using cl d1 c1' heap
      by (simp add: aesd_cleanup_module_def kheap_ok_def)
  next
    case False
    have "working_entry d \<notin> set (owned d)" using core by (simp add: dev_core_def)
    then have "live_ptr s1 (working_entry d)"
      using work_live [OF core] c1' by (simp add: live_ptr_def)
    then obtain s2 where "k_free K s1 (working_entry d) = Some s2"
      and "cells s2 = (cells s1)(working_entry d := None)" by (rule k_free_live [OF K])
    then show ?thesis using cl d1 c1' False by (simp add: aesd_cleanup_module_def)
  qed
qed

end
