(* ===== verification/Driver_Serving.thy ===== *)
theory Driver_Serving
  imports Driver_Lifecycle
begin

text \<open>
  The char driver while the kernel has memory: no allocation of at most \<open>kmax\<close> bytes fails,
  copies between user and kernel space succeed and no lock is interrupted. Then a write that
  fits is never refused and loses nothing, a read returns the bytes there are, and a seek is
  refused only when its target does not exist. Which states of the kernel have memory is the
  predicate \<open>room\<close>.
\<close>

section \<open>A kernel with memory\<close>

definition kernel_serves :: "kernel \<Rightarrow> (kstate \<Rightarrow> bool) \<Rightarrow> bool" where
  "kernel_serves K room \<longleftrightarrow>
     (\<forall>s n. room s \<longrightarrow> unat n \<le> kmax K \<longrightarrow> fst (kmalloc K s n) \<noteq> NULL \<and> room (snd (kmalloc K s n))) \<and>
     (\<forall>s p n. room s \<longrightarrow> live_ptr s p \<longrightarrow> unat n \<le> kmax K \<longrightarrow>
        fst (krealloc K s p n) \<noteq> NULL \<and> room (snd (krealloc K s p n))) \<and>
     (\<forall>s p. room s \<longrightarrow> live_ptr s p \<longrightarrow> room (kfree K s p)) \<and>
     (\<forall>s n. room s \<longrightarrow> fst (copy_from_user K s n) = 0 \<and> room (snd (copy_from_user K s n))) \<and>
     (\<forall>s n. room s \<longrightarrow> fst (copy_to_user K s n) = 0 \<and> room (snd (copy_to_user K s n))) \<and>
     (\<forall>s. room s \<longrightarrow> fst (mutex_lock_interruptible K s) = 0 \<and> room (snd (mutex_lock_interruptible K s))) \<and>
     (\<forall>s p bs. room s \<longrightarrow> cells s p \<noteq> None \<longrightarrow> room (s\<lparr>cells := (cells s)(p \<mapsto> bs)\<rparr>))"

lemma kmalloc_serves:
  "kernel_serves K room \<Longrightarrow> kmalloc K s n = (p, s') \<Longrightarrow> room s \<Longrightarrow> unat n \<le> kmax K \<Longrightarrow> p \<noteq> NULL \<and> room s'"
  unfolding kernel_serves_def by (metis fst_conv snd_conv)

lemma k_realloc_serves:
  "kernel_serves K room \<Longrightarrow> k_realloc K s p n = Some (q, s') \<Longrightarrow> room s \<Longrightarrow> unat n \<le> kmax K \<Longrightarrow> q \<noteq> NULL \<and> room s'"
  unfolding kernel_serves_def k_realloc_def by (metis fst_conv option.distinct(1) option.inject snd_conv)

lemma k_free_serves:
  "kernel_serves K room \<Longrightarrow> k_free K s p = Some s' \<Longrightarrow> room s \<Longrightarrow> room s'"
  unfolding kernel_serves_def k_free_def by (metis option.distinct(1) option.inject)

lemma copy_from_user_serves:
  "kernel_serves K room \<Longrightarrow> copy_from_user K s n = (left, s') \<Longrightarrow> room s \<Longrightarrow> left = 0 \<and> room s'"
  unfolding kernel_serves_def by (metis fst_conv snd_conv)

lemma copy_to_user_serves:
  "kernel_serves K room \<Longrightarrow> copy_to_user K s n = (left, s') \<Longrightarrow> room s \<Longrightarrow> left = 0 \<and> room s'"
  unfolding kernel_serves_def by (metis fst_conv snd_conv)

lemma lock_serves:
  "kernel_serves K room \<Longrightarrow> mutex_lock_interruptible K s = (r, s') \<Longrightarrow> room s \<Longrightarrow> r = 0 \<and> room s'"
  unfolding kernel_serves_def by (metis fst_conv snd_conv)

lemma store_serves:
  assumes serves: "kernel_serves K room" and "store s p off bs = Some s'" "room s"
  shows "room s'"
proof (cases "bs = []")
  case False
  with assms(2) obtain old where "cells s p = Some old"
    "s' = s\<lparr>cells := (cells s)(p \<mapsto> take off old @ bs @ drop (off + length bs) old)\<rparr>"
    by (auto simp: store_def split: option.splits if_splits)
  then show ?thesis using serves assms(3) unfolding kernel_serves_def by (metis option.distinct(1))
qed (use assms in simp)

section \<open>write\<close>

lemma write_append_serves:
  assumes serves: "kernel_serves K room"
    and w: "write_append K kbuf copied chunk d s = Some (ok, d', s')" "room s"
    and max: "unat (working_size d + chunk) \<le> kmax K"
  shows "ok \<and> room s' \<and> working_entry d' \<noteq> NULL \<and> working_size d' = working_size d + chunk"
proof -
  obtain p s1 where re: "k_realloc K s (working_entry d) (working_size d + chunk) = Some (p, s1)"
    using w(1) by (auto simp: write_append_def bind_Some_iff)
  then have p: "p \<noteq> NULL" "room s1" using k_realloc_serves [OF serves re w(2) max] by simp_all
  obtain bs s2 where "load s1 kbuf (unat copied) (unat chunk) = Some bs"
    and st: "store s1 p (unat (working_size d)) bs = Some s2"
    and r: "ok" "d' = d\<lparr>working_entry := p, working_size := working_size d + chunk\<rparr>" "s' = s2"
    using w(1) re p by (auto simp: write_append_def bind_Some_iff)
  then show ?thesis using p store_serves [OF serves st] by simp
qed

lemma write_commit_serves:
  assumes K: "kernel_ok K" and serves: "kernel_serves K room"
    and w: "write_commit K d s = Some (ok, d', s')" "room s" "working_entry d \<noteq> NULL"
    and max: "unat (working_size d) \<le> kmax K"
  shows "ok \<and> room s' \<and> working_entry d' \<noteq> NULL"
proof -
  obtain wb where wb: "load s (working_entry d) 0 (unat (working_size d)) = Some wb"
    using w(1) by (auto simp: write_commit_def bind_Some_iff)
  show ?thesis
  proof (cases "memchr newline wb")
    case None
    then show ?thesis using w wb by (simp add: write_commit_def)
  next
    case (Some i)
    let ?n = "of_nat i + 1 :: size_t"
    have i: "i < unat (working_size d)" using memchr_SomeD [OF Some] load_length [OF wb] by simp
    have "unat (of_nat (Suc i) :: size_t) = Suc i"
      using i max kmax_less [OF K] by (intro unat_of_nat_64) simp
    then have n: "unat ?n = Suc i" by (simp add: add.commute)
    obtain p s1 where km: "kmalloc K s ?n = (p, s1)" by fastforce
    have p: "p \<noteq> NULL" "room s1"
      using kmalloc_serves [OF serves km w(2)] n i max by simp_all
    obtain line s2 cb rest s3 q s4 where st: "store s1 p 0 line = Some s2"
      "store s2 (working_entry d) 0 rest = Some s3"
      and re: "k_realloc K s3 (working_entry d) (working_size d - ?n) = Some (q, s4)"
      and r: "ok" "d' = d\<lparr>circ_buffer := cb, working_size := working_size d - ?n, working_entry := q\<rparr>" "s' = s4"
      using w(1) wb Some km p(1) by (auto simp: write_commit_def bind_Some_iff Let_def)
    have "unat (working_size d - ?n) \<le> kmax K"
      using unat_minus_64 [of ?n "working_size d"] n i max by simp
    moreover have "room s3" using store_serves [OF serves st(2) store_serves [OF serves st(1) p(2)]] .
    ultimately show ?thesis using k_realloc_serves [OF serves re] r by simp
  qed
qed

lemma write_loop_serves:
  assumes K: "kernel_ok K" and serves: "kernel_serves K room"
    and w: "write_loop K kbuf 0 count d s = Some (ok, d', s')" "room s" "count \<noteq> 0"
    and max: "unat (working_size d + count) \<le> kmax K"
  shows "ok \<and> room s' \<and> working_entry d' \<noteq> NULL"
proof -
  obtain ok1 d1 s1 where a: "write_append K kbuf 0 count d s = Some (ok1, d1, s1)"
    using w(1,3) by (auto simp: write_loop.simps [of K kbuf 0 count] bind_Some_iff)
  note a1 = write_append_serves [OF serves a w(2) max]
  then obtain ok2 d2 s2 where c: "write_commit K d1 s1 = Some (ok2, d2, s2)"
    using w(1,3) a by (auto simp: write_loop.simps [of K kbuf 0 count] bind_Some_iff)
  have c1: "ok2 \<and> room s2 \<and> working_entry d2 \<noteq> NULL"
    using write_commit_serves [OF K serves c] a1 max by simp
  have "write_loop K kbuf 0 count d s = Some (True, d2, s2)"
    using a a1 c c1 w(3) by (simp add: write_loop.simps [of K kbuf 0 count] write_loop.simps [of K kbuf count 0])
  then show ?thesis using w(1) c1 by simp
qed

lemma aesd_write_serves:
  assumes K: "kernel_ok K" and serves: "kernel_serves K room"
    and w: "aesd_write K d s buf count = Some (ret, d', s')" and room: "room s" and n0: "count \<noteq> 0"
    and max: "unat (working_size d) + unat count \<le> kmax K"
  shows "ret = int (unat count) \<and> room s' \<and> working_entry d' \<noteq> NULL"
proof -
  have sum: "unat (working_size d + count) \<le> kmax K"
    using unat_plus_64 [of "working_size d" count] max kmax_less [OF K] by simp
  obtain r s1 where lk: "mutex_lock_interruptible K s = (r, s1)" by fastforce
  note l1 = lock_serves [OF serves lk room]
  obtain kbuf s2 where km: "kmalloc K s1 count = (kbuf, s2)" by fastforce
  have k2: "kbuf \<noteq> NULL" "room s2" using kmalloc_serves [OF serves km] l1 max by simp_all
  obtain left s3 where cp: "copy_from_user K s2 count = (left, s3)" by fastforce
  note c3 = copy_from_user_serves [OF serves cp k2(2)]
  obtain s4 ok d2 s5 s6 where st: "store s3 kbuf 0 (take (unat count) buf) = Some s4"
    and lp: "write_loop K kbuf 0 count (d\<lparr>lock := True\<rparr>) s4 = Some (ok, d2, s5)"
    and fr: "k_free K s5 kbuf = Some s6"
    and r: "ret = (if ok then sint count else - ENOMEM)" "d' = mutex_unlock d2" "s' = s6"
    using w lk l1 km k2 cp c3 by (auto simp: aesd_write_def Let_def bind_Some_iff)
  have "room s4" using store_serves [OF serves st] c3 by simp
  then have "ok \<and> room s5 \<and> working_entry d2 \<noteq> NULL"
    using write_loop_serves [OF K serves lp _ n0] sum by simp
  then show ?thesis using r k_free_serves [OF serves fr] sint_small [OF K, of count] max by (simp add: mutex_unlock_def)
qed

lemma write_serves:
  assumes K: "kernel_ok K" and serves: "kernel_serves K room"
    and inv: "dev_inv K d s" and int: "intact d s" and room: "room s"
    and len: "length buf = unat count" "buf \<noteq> []" "length (partial d s) + length buf \<le> kmax K"
  shows "\<exists>d' s'. aesd_write K d s buf count = Some (int (length buf), d', s') \<and>
     dev_inv K d' s' \<and> intact d' s' \<and> room s' \<and>
     (lines d' s', partial d' s') = spec_write (lines d s, partial d s) buf"
proof -
  have count: "count \<noteq> 0" using len by (auto simp: unat_eq_0)
  obtain ret d' s' where w: "aesd_write K d s buf count = Some (ret, d', s')" and inv': "dev_inv K d' s'"
    and out: "write_outcome K d s buf ret d' s'"
    using aesd_write_outcome [OF K inv len(1)] by blast
  have "unat (working_size d) + unat count \<le> kmax K" using int len by (simp add: intact_def)
  note ok = aesd_write_serves [OF K serves w room count this]
  then have ret: "ret = int (length buf)" using len(1) by simp
  have int': "intact d' s'"
    using inv' ok by (auto simp: dev_inv_def dev_core_def work_mem_def intact_def partial_def)
  have neg: "ret \<noteq> - k" if "0 < k" for k using ret that by linarith
  from out have "(lines d' s', partial d' s') = spec_write (lines d s, partial d s) buf"
  proof cases
    case (written vs)
    then show ?thesis using appended_intact [OF int written(4)] int'
      by (auto simp: spec_write_def committed_def split: option.splits)
  qed (use neg [of 512] neg [of 12] neg [of 14] len in auto)
  then show ?thesis using w ret inv' int' ok by blast
qed

section \<open>read and the seek ioctl\<close>

lemma read_serves:
  assumes K: "kernel_ok K" and serves: "kernel_serves K room"
    and inv: "dev_inv K d s" and room: "room s"
  shows "\<exists>bs pos' s'. aesd_read K d s count pos = Some (int (length bs), bs, pos', d, s') \<and>
     cells s' = cells s \<and> room s' \<and> bs = spec_read (lines d s) (unat count) (unat pos) \<and>
     unat pos' = unat pos + length bs"
proof -
  obtain ret bs pos' s' where r: "aesd_read K d s count pos = Some (ret, bs, pos', d, s')" "cells s' = cells s"
    and out: "read_outcome (lines d s) (unat count) pos ret bs pos'"
    using aesd_read_outcome [OF K inv] by blast
  obtain q s1 where lk: "mutex_lock_interruptible K s = (q, s1)" by fastforce
  note l1 = lock_serves [OF serves lk room]
  have "room s' \<and> (ret = 0 \<and> pos' = pos \<or> (\<exists>n. ret = sint n \<and> pos' = pos + n))"
  proof -
    obtain found off where f: "aesd_circular_buffer_find_entry_offset_for_fpos (Some (circ_buffer d)) pos (Some 0) =
        Some (found, off)"
      using r(1) lk l1 by (auto simp: aesd_read_def Let_def bind_Some_iff)
    show ?thesis
    proof (cases "\<exists>slot o'. found = Some slot \<and> off = Some o'")
      case False
      then have "found = None \<or> off = None" by auto
      then have "ret = 0 \<and> pos' = pos \<and> s' = s1"
        using r(1) lk l1 f by (cases found; cases off) (simp_all add: aesd_read_def Let_def)
      then show ?thesis using l1 by simp
    next
      case True
      then obtain slot o' where fo: "found = Some slot" "off = Some o'" by blast
      obtain e n bs1 where n: "arr_get (entry (circ_buffer d)) slot = Some e"
        "n = (if count < esize e - o' then count else esize e - o')"
        "load s1 (buffptr e) (unat o') (unat n) = Some bs1"
        using r(1) lk l1 f fo by (auto simp: aesd_read_def Let_def bind_Some_iff)
      obtain left s2 where cp: "copy_to_user K s1 n = (left, s2)" by fastforce
      note c2 = copy_to_user_serves [OF serves cp conjunct2 [OF l1]]
      have "ret = sint n \<and> pos' = pos + n \<and> s' = s2"
        using r(1) lk l1 f fo n(1,3) c2 cp by (simp add: aesd_read_def Let_def flip: n(2))
      then show ?thesis using c2 by blast
    qed
  qed
  then have rm: "room s'" and st: "pos' = pos \<Longrightarrow> ret = 0" by auto
  from out show ?thesis
  proof cases
    case (data)
    then show ?thesis using r rm by blast
  qed (use st in auto)
qed

lemma ioctl_serves:
  assumes K: "kernel_ok K" and serves: "kernel_serves K room"
    and inv: "dev_inv K d s" and room: "room s"
  shows "\<exists>ret filp' s'. aesd_ioctl K d s filp AESDCHAR_IOCSEEKTO to = Some (ret, filp', d, s') \<and>
     cells s' = cells s \<and> room s' \<and>
     (case ioctl_target (lines d s) to of None \<Rightarrow> ret < 0 \<and> filp' = filp
      | Some p \<Rightarrow> ret = 0 \<and> filp' = filp\<lparr>f_pos := p\<rparr>)"
proof -
  obtain ret filp' s' where r: "aesd_ioctl K d s filp AESDCHAR_IOCSEEKTO to = Some (ret, filp', d, s')"
    "cells s' = cells s" and out: "ioctl_outcome (lines d s) AESDCHAR_IOCSEEKTO to filp ret filp'"
    using aesd_ioctl_outcome [OF K inv] by blast
  obtain left s1 where cp: "copy_from_user K s 8 = (left, s1)" by fastforce
  note c1 = copy_from_user_serves [OF serves cp room]
  obtain q s2 where lk: "mutex_lock_interruptible K s1 = (q, s2)" by fastforce
  note l2 = lock_serves [OF serves lk conjunct2 [OF c1]]
  have st: "room s' \<and> (ret = 0 \<or> ret = - EINVAL)"
    using r cp c1 lk l2
    by (auto simp: aesd_ioctl_def Let_def bind_Some_iff split: if_splits option.splits)
  from out show ?thesis
  proof cases
    case stopped
    then show ?thesis using st by auto
  qed (use r st in auto)
qed

section \<open>A kernel that serves\<close>

text \<open>The memory of the kernel of the witnesses: all addresses from the next one on are free.\<close>

definition simple_room :: "kstate \<Rightarrow> bool" where
  "simple_room s \<longleftrightarrow> cells s NULL = None \<and> (\<forall>p \<ge> next_addr s. cells s p = None)"

lemma simple_alloc_room:
  assumes "simple_room s" "n \<le> 4096"
  shows "fst (simple_alloc s p n bs) \<noteq> NULL \<and> simple_room (snd (simple_alloc s p n bs))"
  using assms by (auto simp: simple_room_def simple_alloc_def next_addr_def ZERO_SIZE_PTR_def)

lemma simple_kernel_serves: "kernel_serves simple_kernel simple_room"
proof -
  have n: "unat n \<le> 4096 \<longleftrightarrow> n \<le> 4096" for n :: size_t by (simp add: word_le_nat_alt)
  have "simple_room s \<Longrightarrow> cells s NULL = None" for s by (simp add: simple_room_def)
  moreover have "simple_room s \<Longrightarrow> cells s p \<noteq> None \<Longrightarrow> simple_room (s\<lparr>cells := (cells s)(p \<mapsto> bs)\<rparr>)" for s p bs
    by (cases "p = NULL") (auto simp: simple_room_def next_addr_def)
  moreover have "simple_room s \<Longrightarrow> simple_room (s\<lparr>cells := (cells s)(p := None)\<rparr>)" for s p
    by (auto simp: simple_room_def next_addr_def)
  ultimately show ?thesis
    using simple_alloc_room by (simp add: kernel_serves_def simple_kernel_def n)
qed

end
