(* ===== verification/Driver_Props.thy ===== *)
theory Driver_Props
  imports Driver_Lifecycle
begin

text \<open>
  The properties of the char driver, and the runs of a loaded device on which they are
  witnessed: no history of calls has undefined behaviour, writes build the log of the
  last ten lines, reads and seeks see exactly that log, unloading frees what the device
  owns; and what the code loses or leaks.
\<close>

section \<open>Lines in a stream of writes\<close>

lemma spec_write_inside:
  "newline \<notin> set part \<Longrightarrow> newline \<notin> set bs \<Longrightarrow> spec_write (ls, part) bs = (ls, part @ bs)"
  by (simp add: spec_write_def Let_def memchr_None_iff [THEN iffD2])

lemma spec_write_line:
  "newline \<notin> set part \<Longrightarrow> newline \<notin> set xs \<Longrightarrow>
     spec_write (ls, part) (xs @ newline # ys) = (take_last 10 (ls @ [part @ xs @ [newline]]), ys)"
  using memchr_snoc_newline [of newline "part @ xs" ys] by (simp add: spec_write_def)

lemma spec_writes_stream:
  "list_all line_chunk bufs \<Longrightarrow> newline \<notin> set part \<Longrightarrow> length ls \<le> 10 \<Longrightarrow>
     foldl spec_write (ls, part) bufs =
       (take_last 10 (ls @ fst (split_lines (part @ concat bufs))),
        snd (split_lines (part @ concat bufs)))"
proof (induction bufs arbitrary: ls part)
  case Nil
  then show ?case by (simp add: split_lines_None)
next
  case (Cons b bufs)
  from Cons.prems(1) have "line_chunk b" by simp
  then show ?case
  proof (cases rule: line_chunk_cases)
    case inside
    then show ?thesis using Cons by (simp add: spec_write_inside)
  next
    case (line xs)
    have "foldl spec_write (ls, part) (b # bufs) =
        (take_last 10 (take_last 10 (ls @ [part @ xs @ [newline]]) @ fst (split_lines (concat bufs))),
         snd (split_lines (concat bufs)))"
      using line Cons by (simp add: spec_write_line)
    moreover have "split_lines (part @ concat (b # bufs)) =
        apfst ((#) (part @ xs @ [newline])) (split_lines (concat bufs))"
      using split_lines_line [of "part @ xs" "concat bufs"] line Cons.prems(2) by simp
    ultimately show ?thesis by (simp add: take_last_append)
  qed
qed

section \<open>Writes\<close>

lemma lines_le_ten: "length (lines d s) \<le> 10"
  by (simp add: ring_count_le)

lemma write_spec:
  assumes K: "kernel_ok K" and inv: "dev_inv K d s" and int: "intact d s"
    and count: "length buf = unat count"
  obtains ret d' s' where "aesd_write K d s buf count = Some (ret, d', s')" "dev_inv K d' s'"
    "write_outcome K d s buf ret d' s'"
    "0 \<le> ret \<longrightarrow> ret = int (length buf) \<and> lines d' s' = fst (spec_write (lines d s, partial d s) buf) \<and>
       unat (working_size d') = length (snd (spec_write (lines d s, partial d s) buf)) \<and>
       (intact d' s' \<longrightarrow> partial d' s' = snd (spec_write (lines d s, partial d s) buf))"
proof -
  obtain ret d' s' where w: "aesd_write K d s buf count = Some (ret, d', s')" "dev_inv K d' s'"
    and out: "write_outcome K d s buf ret d' s'"
    using aesd_write_outcome [OF K inv count] by blast
  from out have "0 \<le> ret \<longrightarrow> ret = int (length buf) \<and>
      lines d' s' = fst (spec_write (lines d s, partial d s) buf) \<and>
      unat (working_size d') = length (snd (spec_write (lines d s, partial d s) buf)) \<and>
      (intact d' s' \<longrightarrow> partial d' s' = snd (spec_write (lines d s, partial d s) buf))"
  proof cases
    case empty
    then show ?thesis using int by (simp add: spec_write_def intact_def)
  next
    case (written vs)
    then show ?thesis using appended_intact [OF int written(4)]
      by (auto simp: spec_write_def committed_def intact_def split: option.splits)
  qed auto
  with w out that show ?thesis by blast
qed

text \<open>A device that has lost its pending bytes has a null working entry.\<close>

lemma not_intact:
  assumes "dev_inv K d s" "\<not> intact d s"
  shows "working_entry d = NULL" "partial d s = []" "working_size d \<noteq> 0"
proof -
  have core: "dev_core K d s" using assms(1) by (simp add: dev_inv_def)
  then show p: "working_entry d = NULL" and "working_size d \<noteq> 0" using intact_iff assms(2) by blast+
  have "cells s NULL = None" using dev_core_heap [OF core] by (simp add: kheap_ok_def)
  then show "partial d s = []" using p by (simp add: partial_def old_bytes_def)
qed

lemma committed_spec:
  assumes "committed d s (held @ buf) d' s'" "buf \<noteq> []" "dev_inv K d' s'"
  shows "let (ls, rest) = spec_write (lines d s, held) buf in
    lines d' s' = ls \<and> unat (working_size d') = length rest \<and>
    (if intact d' s' then partial d' s' = rest
     else working_entry d' = NULL \<and> partial d' s' = [] \<and> rest \<noteq> [] \<and> newline \<in> set (held @ buf))"
proof (cases "memchr newline (held @ buf)")
  case None
  then show ?thesis using assms(1,2) by (auto simp: committed_def spec_write_def intact_def)
next
  case (Some i)
  have nl: "newline \<in> set (held @ buf)" using Some memchr_None_iff [of newline "held @ buf"] by auto
  have c: "lines d' s' = take_last 10 (lines d s @ [take (Suc i) (held @ buf)])"
    "unat (working_size d') = length (drop (Suc i) (held @ buf))"
    "intact d' s' \<longrightarrow> partial d' s' = drop (Suc i) (held @ buf)"
    using assms(1) Some by (simp_all add: committed_def)
  have "drop (Suc i) (held @ buf) \<noteq> []" if "\<not> intact d' s'"
    using not_intact(3) [OF assms(3) that] c(2) by (auto simp: unat_eq_0 simp del: length_drop)
  moreover have "spec_write (lines d s, held) buf =
      (take_last 10 (lines d s @ [take (Suc i) (held @ buf)]), drop (Suc i) (held @ buf))"
    using Some assms(2) by (simp add: spec_write_def)
  ultimately show ?thesis using c nl not_intact(1,2) [OF assms(3)] by (simp only: Let_def prod.case) simp
qed

text \<open>
  C3: a write always returns, whatever the kernel answers, also on a device that has lost its
  pending bytes. If it succeeds it took the whole buffer. The bytes \<open>held\<close> that it appends to are
  the pending bytes, or, when these were lost, as many bytes as \<open>working_size\<close> still counts. The lines are
  then what the specification says, and so are the pending bytes - except when a line was committed
  and the \<open>krealloc\<close> that shrinks the working entry to the bytes after it has failed: then the write
  reports success too, but these bytes are lost, the working entry is \<open>NULL\<close> and \<open>working_size\<close> still
  counts them.
\<close>

theorem write_extends_log:
  assumes "kernel_ok K" "dev_inv K d s" "length buf = unat count"
  shows "\<exists>ret d' s'. aesd_write K d s buf count = Some (ret, d', s') \<and> dev_inv K d' s' \<and>
     (0 \<le> ret \<longrightarrow> ret = int (length buf) \<and>
        (\<exists>held. (if intact d s then held = partial d s else length held = unat (working_size d)) \<and>
           (let (ls, rest) = spec_write (lines d s, held) buf in
              lines d' s' = ls \<and>
              (if buf = [] then partial d' s' = partial d s \<and> intact d' s' = intact d s
               else unat (working_size d') = length rest \<and>
                 (if intact d' s' then partial d' s' = rest
                  else working_entry d' = NULL \<and> partial d' s' = [] \<and> rest \<noteq> [] \<and> newline \<in> set (held @ buf))))))"
proof -
  obtain ret d' s' where w: "aesd_write K d s buf count = Some (ret, d', s')" "dev_inv K d' s'"
    and out: "write_outcome K d s buf ret d' s'"
    using aesd_write_outcome [OF assms] by blast
  from out w show ?thesis
  proof cases
    case empty
    let ?held = "if intact d s then partial d s else replicate (unat (working_size d)) 0"
    show ?thesis using w empty
      by (intro exI [of _ ret] exI [of _ d'] exI [of _ s'] conjI impI exI [of _ ?held]) (simp_all add: spec_write_def)
  next
    case (written vs)
    let ?held = "take (unat (working_size d)) vs"
    have held: "if intact d s then ?held = partial d s else length ?held = unat (working_size d)"
      using written(4) by (auto simp: appended_def intact_def)
    have vs: "vs = ?held @ buf"
      using written(4) append_take_drop_id [of "unat (working_size d)" vs] by (simp add: appended_def)
    have "committed d s (?held @ buf) d' s'" using written(5) vs by simp
    from committed_spec [OF this written(2) w(2)] show ?thesis using w written(1,2) held
      by (intro exI [of _ ret] exI [of _ d'] exI [of _ s'] conjI impI exI [of _ ?held]) (simp_all split: if_splits)
  qed auto
qed

text \<open>
  C23: a write that fails leaves the log of lines as it was. The pending bytes are as they
  were, or are gone (the working entry became \<open>NULL\<close>), or have already taken the
  buffer although the caller is told \<open>-ENOMEM\<close>.
\<close>

theorem write_error_keeps_lines:
  assumes "kernel_ok K" "dev_inv K d s" "length buf = unat count"
  shows "\<exists>ret d' s'. aesd_write K d s buf count = Some (ret, d', s') \<and> dev_inv K d' s' \<and>
     (ret < 0 \<longrightarrow> ret \<in> {- ERESTARTSYS, - ENOMEM, - EFAULT} \<and> lines d' s' = lines d s \<and>
        (partial d' s' = partial d s \<or>
         (ret = - ENOMEM \<and> working_entry d' = NULL \<and> working_size d' = working_size d) \<or>
         (ret = - ENOMEM \<and> length (partial d' s') = unat (working_size d) + length buf \<and>
            take (length (partial d s)) (partial d' s') = partial d s \<and>
            drop (unat (working_size d)) (partial d' s') = buf)))"
proof -
  obtain ret d' s' where w: "aesd_write K d s buf count = Some (ret, d', s')" "dev_inv K d' s'"
    and out: "write_outcome K d s buf ret d' s'"
    using aesd_write_outcome [OF assms] by blast
  from out have "ret < 0 \<longrightarrow> ret \<in> {- ERESTARTSYS, - ENOMEM, - EFAULT} \<and> lines d' s' = lines d s \<and>
      (partial d' s' = partial d s \<or>
       (ret = - ENOMEM \<and> working_entry d' = NULL \<and> working_size d' = working_size d) \<or>
       (ret = - ENOMEM \<and> length (partial d' s') = unat (working_size d) + length buf \<and>
          take (length (partial d s)) (partial d' s') = partial d s \<and>
          drop (unat (working_size d)) (partial d' s') = buf))"
    by cases (auto simp: appended_def)
  with w show ?thesis by blast
qed

text \<open>A chunk of a line never leaves the working entry half shrunk.\<close>

lemma write_chunk_step:
  assumes K: "kernel_ok K" and inv: "dev_inv K d s" and int: "intact d s"
    and nl: "newline \<notin> set (partial d s)" and chunk: "line_chunk buf" "length buf < 2 ^ 64"
    and run: "aesd_write K d s buf (of_nat (length buf)) = Some (ret, d', s')" "0 \<le> ret"
  shows "dev_inv K d' s'" "intact d' s'" "newline \<notin> set (partial d' s')" "ret = int (length buf)"
    "(lines d' s', partial d' s') = spec_write (lines d s, partial d s) buf"
proof -
  have count: "length buf = unat (of_nat (length buf) :: size_t)"
    using chunk(2) by (simp add: unat_of_nat_64)
  let ?sp = "spec_write (lines d s, partial d s) buf"
  have inv': "dev_inv K d' s'" and out: "write_outcome K d s buf ret d' s'"
    and sp: "ret = int (length buf)" "lines d' s' = fst ?sp" "unat (working_size d') = length (snd ?sp)"
      "intact d' s' \<Longrightarrow> partial d' s' = snd ?sp"
    using write_spec [OF K inv int count] run by (metis option.inject prod.inject)+
  have int': "intact d' s' \<and> newline \<notin> set (snd ?sp)"
    using chunk(1)
  proof (cases rule: line_chunk_cases)
    case (line xs)
    then have "snd ?sp = []" using spec_write_line [OF nl, of xs "lines d s" "[]"] by simp
    then show ?thesis using sp(3) inv' intact_iff [of K d' s']
      by (simp add: dev_inv_def unat_eq_0)
  next
    case inside
    from out have "intact d' s'"
    proof cases
      case (written vs)
      have "memchr newline vs = None"
        using inside nl appended_intact [OF int written(4)] by (simp add: memchr_None_iff)
      then show ?thesis using written(5) by (simp add: committed_def)
    qed (use int run(2) in auto)
    then show ?thesis using spec_write_inside [OF nl inside] nl inside by simp
  qed
  then show "dev_inv K d' s'" "intact d' s'" "newline \<notin> set (partial d' s')" "ret = int (length buf)"
    "(lines d' s', partial d' s') = ?sp"
    using inv' sp by simp_all
qed

lemma write_chunks_run:
  assumes K: "kernel_ok K"
  shows "dev_inv K d s \<Longrightarrow> intact d s \<Longrightarrow> newline \<notin> set (partial d s) \<Longrightarrow>
     list_all (\<lambda>b. line_chunk b \<and> length b < 2 ^ 64) bufs \<Longrightarrow>
     \<exists>rets d' s'. run_calls K (d, s) (map Call_write bufs) = Some (rets, d', s') \<and> dev_inv K d' s' \<and>
       (list_all (\<lambda>r. 0 \<le> r) rets \<longrightarrow> intact d' s' \<and> rets = map (int \<circ> length) bufs \<and>
         (lines d' s', partial d' s') = foldl spec_write (lines d s, partial d s) bufs)"
proof (induction bufs arbitrary: d s)
  case (Cons b bufs)
  have fits: "list_all call_fits (map Call_write (b # bufs))"
    using Cons.prems(4) by (auto simp: call_fits_def list_all_iff)
  obtain ret d1 s1 where w: "aesd_fops K (d, s) (Call_write b) = Some (ret, d1, s1)" "dev_inv K d1 s1"
    using aesd_fops_safe [OF K Cons.prems(1), of "Call_write b"] fits by auto
  show ?case
  proof (cases "0 \<le> ret")
    case True
    have "aesd_write K d s b (of_nat (length b)) = Some (ret, d1, s1)"
      using w(1) by (simp add: aesd_fops_def)
    note step = write_chunk_step [OF K Cons.prems(1-3) _ _ this True]
    then have "intact d1 s1" "newline \<notin> set (partial d1 s1)" "ret = int (length b)"
      and eq: "(lines d1 s1, partial d1 s1) = spec_write (lines d s, partial d s) b"
      using Cons.prems(4) by auto
    with Cons.IH [OF w(2)] Cons.prems(4) obtain rets d2 s2 where
      "run_calls K (d1, s1) (map Call_write bufs) = Some (rets, d2, s2)" "dev_inv K d2 s2"
      "list_all (\<lambda>r. 0 \<le> r) rets \<longrightarrow> intact d2 s2 \<and> rets = map (int \<circ> length) bufs \<and>
         (lines d2 s2, partial d2 s2) = foldl spec_write (lines d1 s1, partial d1 s1) bufs"
      by auto
    then show ?thesis using w(1) \<open>ret = int (length b)\<close> eq by (simp add: o_def)
  next
    case False
    have "list_all call_fits (map Call_write bufs)" using fits by simp
    then obtain rets d2 s2 where "run_calls K (d1, s1) (map Call_write bufs) = Some (rets, d2, s2)"
      "dev_inv K d2 s2" using run_calls_safe [OF K w(2)] by blast
    then show ?thesis using w(1) False by simp
  qed
qed simp

text \<open>
  C4: writing a stream in chunks that each end at a newline or lie inside a line, from a
  device that has lost nothing: if every write succeeds, the device keeps the last ten
  complete lines of its old log and the stream together, and the unfinished line at the
  end, whatever the chunking was.
\<close>

theorem writes_log_last_ten_lines:
  assumes "kernel_ok K" "dev_inv K d s" "intact d s" "newline \<notin> set (partial d s)"
    and "list_all (\<lambda>b. line_chunk b \<and> length b < 2 ^ 64) bufs"
  shows "\<exists>rets d' s'. run_calls K (d, s) (map Call_write bufs) = Some (rets, d', s') \<and> dev_inv K d' s' \<and>
     (list_all (\<lambda>r. 0 \<le> r) rets \<longrightarrow> rets = map (int \<circ> length) bufs \<and>
        lines d' s' = take_last 10 (lines d s @ fst (split_lines (partial d s @ concat bufs))) \<and>
        partial d' s' = snd (split_lines (partial d s @ concat bufs)))"
proof -
  have "list_all line_chunk bufs" using assms(5) by (simp add: list_all_iff)
  note stream = spec_writes_stream [OF this assms(4) lines_le_ten, of d s]
  obtain rets d' s' where "run_calls K (d, s) (map Call_write bufs) = Some (rets, d', s')" "dev_inv K d' s'"
    and "list_all (\<lambda>r. 0 \<le> r) rets \<longrightarrow> rets = map (int \<circ> length) bufs \<and>
       (lines d' s', partial d' s') = foldl spec_write (lines d s, partial d s) bufs"
    using write_chunks_run [OF assms] by blast
  then show ?thesis unfolding stream by auto
qed

text \<open>
  A write whose bytes hold two newlines commits only the first line: the loop over
  \<open>remaining\<close> takes the whole buffer in one pass and looks for one newline, so the second
  line stays pending although it is complete.
\<close>

theorem second_line_stays_pending:
  assumes "kernel_ok K" "dev_inv K d s" "intact d s" "newline \<notin> set (partial d s)"
    and "newline \<notin> set xs" "newline \<in> set ys" "length (xs @ newline # ys) = unat count"
  shows "\<exists>ret d' s'. aesd_write K d s (xs @ newline # ys) count = Some (ret, d', s') \<and>
     (0 \<le> ret \<longrightarrow> lines d' s' = take_last 10 (lines d s @ [partial d s @ xs @ [newline]]) \<and>
        (intact d' s' \<longrightarrow> partial d' s' = ys))"
  using write_spec [OF assms(1-3,7)] spec_write_line [OF assms(4,5), of "lines d s" ys]
  by (metis fst_conv snd_conv)

section \<open>Reads\<close>

text \<open>
  C6: a read returns, whatever the kernel answers, and changes nothing but the position. If
  it succeeds it gives the bytes of the log from the position on, up to the end of the line
  the position is in and at most \<open>count\<close>, moves the position past them, and gives none
  only at the end of the log (or for a count of 0).
\<close>

theorem read_returns_log_bytes:
  assumes "kernel_ok K" "dev_inv K d s"
  shows "\<exists>ret bs pos' s'. aesd_read K d s count pos = Some (ret, bs, pos', d, s') \<and> dev_inv K d s' \<and>
     lines d s' = lines d s \<and> partial d s' = partial d s \<and>
     (ret < 0 \<longrightarrow> ret \<in> {- ERESTARTSYS, - EFAULT} \<and> pos' = pos) \<and>
     (0 \<le> ret \<longrightarrow> ret = int (length bs) \<and> unat pos' = unat pos + length bs \<and>
        length bs \<le> unat count \<and> (\<exists>rest. drop (unat pos) (dev_log d s) = bs @ rest) \<and>
        (bs = [] \<longleftrightarrow> count = 0 \<or> length (dev_log d s) \<le> unat pos) \<and>
        bs = spec_read (lines d s) (unat count) (unat pos))"
proof -
  obtain ret bs pos' s' where rd: "aesd_read K d s count pos = Some (ret, bs, pos', d, s')"
    and c: "cells s' = cells s" and out: "read_outcome (lines d s) (unat count) pos ret bs pos'"
    using aesd_read_outcome [OF assms] by blast
  have core: "dev_core K d s" using assms(2) by (simp add: dev_inv_def)
  have "(ret < 0 \<longrightarrow> ret \<in> {- ERESTARTSYS, - EFAULT} \<and> pos' = pos) \<and>
      (0 \<le> ret \<longrightarrow> ret = int (length bs) \<and> unat pos' = unat pos + length bs \<and>
         length bs \<le> unat count \<and> (\<exists>rest. drop (unat pos) (dev_log d s) = bs @ rest) \<and>
         (bs = [] \<longleftrightarrow> count = 0 \<or> length (dev_log d s) \<le> unat pos) \<and>
         bs = spec_read (lines d s) (unat count) (unat pos))"
    using out
  proof cases
    case data
    then show ?thesis
      using spec_read_prefix [of "unat pos" "lines d s" "unat count"]
        spec_read_Nil_iff [of "lines d s" "unat count" "unat pos"]
        length_spec_read [of "lines d s" "unat count" "unat pos"]
      by (simp add: dev_log_def unat_eq_0)
  qed simp_all
  then show ?thesis
    using rd dev_inv_cells [OF assms(2) c] dev_core_cells(2,3) [OF core c] by blast
qed

definition device_read ::
  "kernel \<Rightarrow> size_t \<Rightarrow> aesd_dev \<times> kstate \<Rightarrow> loff_t \<Rightarrow> (int \<times> byte list \<times> loff_t \<times> aesd_dev \<times> kstate) option" where
  "device_read K count ds pos = aesd_read K (fst ds) (snd ds) count pos"

interpretation dev_source: byte_source "device_read K count" "\<lambda>(d, s). dev_log d s" unat
    "\<lambda>(d, s). kernel_ok K \<and> count \<noteq> 0 \<and> dev_inv K d s" for K count
proof
  fix ds :: "aesd_dev \<times> kstate" and pos
  assume inv: "case ds of (d, s) \<Rightarrow> kernel_ok K \<and> count \<noteq> 0 \<and> dev_inv K d s"
  obtain d s where ds: "ds = (d, s)" by (cases ds)
  with inv have K: "kernel_ok K" and count: "count \<noteq> 0" and inv': "dev_inv K d s" by auto
  obtain ret bs pos' s' where rd: "aesd_read K d s count pos = Some (ret, bs, pos', d, s')"
    and c: "cells s' = cells s" and out: "read_outcome (lines d s) (unat count) pos ret bs pos'"
    using aesd_read_outcome [OF K inv'] by blast
  have "(0 < ret \<longrightarrow> bs \<noteq> [] \<and> unat pos' = unat pos + length bs \<and>
         (\<exists>rest. drop (unat pos) (dev_log d s) = bs @ rest)) \<and>
      (ret = 0 \<longrightarrow> length (dev_log d s) \<le> unat pos)"
    using out
  proof cases
    case data
    then show ?thesis
      using spec_read_prefix [of "unat pos" "lines d s" "unat count"] count
        spec_read_Nil_iff [of "lines d s" "unat count" "unat pos"]
      by (simp add: dev_log_def unat_eq_0)
  qed simp_all
  moreover have "dev_log d s' = dev_log d s"
    using dev_core_cells(2) [of K d s s'] inv' c by (simp add: dev_inv_def dev_log_def)
  ultimately show "\<exists>ret bs pos' s'. device_read K count ds pos = Some (ret, bs, pos', s') \<and>
      (case s' of (d, s) \<Rightarrow> kernel_ok K \<and> count \<noteq> 0 \<and> dev_inv K d s) \<and>
      (case s' of (d, s) \<Rightarrow> dev_log d s) = (case ds of (d, s) \<Rightarrow> dev_log d s) \<and>
      (0 < ret \<longrightarrow> bs \<noteq> [] \<and> unat pos' = unat pos + length bs \<and>
         (\<exists>rest. drop (unat pos) (case ds of (d, s) \<Rightarrow> dev_log d s) = bs @ rest)) \<and>
      (ret = 0 \<longrightarrow> length (case ds of (d, s) \<Rightarrow> dev_log d s) \<le> unat pos)"
    using rd K count dev_inv_cells [OF inv' c] by (auto simp: ds device_read_def)
qed

text \<open>
  C7: reading with any non-zero buffer size until a read returns nothing ends after at most
  one read for each byte of the log, and one. If it ends with 0 the client has exactly the
  log from its position on; if a read failed, a prefix of that.
\<close>

theorem reading_until_end_gives_log:
  assumes "kernel_ok K" "dev_inv K d s" "count \<noteq> 0" "length (dev_log d s) - unat pos < fuel"
  shows "\<exists>ret bs d' s'. read_all (device_read K count) fuel (d, s) pos = Some (ret, bs, d', s') \<and>
     dev_inv K d' s' \<and> ret \<le> 0 \<and>
     (\<exists>rest. drop (unat pos) (dev_log d s) = bs @ rest \<and> (ret = 0 \<longrightarrow> rest = []))"
  using dev_source.read_all_content [of K count "(d, s)" pos fuel] assms by auto

section \<open>Seeks\<close>

text \<open>
  C22: \<open>llseek\<close> returns on every device and adds up the length of the log: unless the lock
  was interrupted, the new position is the offset, the old position plus it, or the end
  of the log plus it; another \<open>whence\<close>, or a negative position, is \<open>-EINVAL\<close> and
  leaves the file alone.
\<close>

theorem llseek_sets_position:
  assumes "kernel_ok K" "dev_inv K d s"
  shows "\<exists>ret filp' s'. aesd_llseek K d s filp off whence = Some (ret, filp', d, s') \<and> dev_inv K d s' \<and>
     (if fst (mutex_lock_interruptible K s) \<noteq> 0 then ret = - ERESTARTSYS \<and> filp' = filp
      else case (if whence = 0 then Some off else if whence = 1 then Some (f_pos filp + off)
                 else if whence = 2 then Some (of_nat (length (dev_log d s)) + off) else None) of
             None \<Rightarrow> ret = - EINVAL \<and> filp' = filp
           | Some p \<Rightarrow> if sint p < 0 then ret = - EINVAL \<and> filp' = filp
                        else ret = sint p \<and> filp' = filp\<lparr>f_pos := p\<rparr>)"
proof -
  obtain ret filp' s' where sk: "aesd_llseek K d s filp off whence = Some (ret, filp', d, s')"
    "cells s' = cells s"
    and out: "seek_outcome (spec_llseek (length (dev_log d s)) (f_pos filp) off whence) filp ret filp'"
    and lk: "ret = - ERESTARTSYS \<longleftrightarrow> fst (mutex_lock_interruptible K s) \<noteq> 0"
    using aesd_llseek_outcome [OF assms] by blast
  from out show ?thesis
    by cases (use sk lk dev_inv_cells [OF assms(2) sk(2)] in
      \<open>auto simp: spec_llseek_def Let_def split: option.splits if_splits\<close>)
qed

text \<open>
  C20: the \<open>ioctl\<close> seek accepts exactly a command number below the number of lines and an
  offset below that line's length, and then sets the position to that byte of the log;
  outside them it is \<open>-EINVAL\<close>, and on any error the file is left alone.
\<close>

theorem ioctl_seeks_into_line:
  assumes "kernel_ok K" "dev_inv K d s"
  shows "\<exists>ret filp' s'. aesd_ioctl K d s filp cmd seekto = Some (ret, filp', d, s') \<and> dev_inv K d s' \<and>
     (ret \<noteq> 0 \<longrightarrow> ret \<in> {- ENOTTY, - EFAULT, - EINVAL, - ERESTARTSYS} \<and> filp' = filp) \<and>
     (ret = - ENOTTY \<longleftrightarrow> cmd \<noteq> AESDCHAR_IOCSEEKTO) \<and>
     (ret = - EINVAL \<longrightarrow> length (lines d s) \<le> unat (write_cmd seekto) \<or>
        length (lines d s ! unat (write_cmd seekto)) \<le> unat (write_cmd_offset seekto)) \<and>
     (ret = 0 \<longrightarrow> unat (write_cmd seekto) < length (lines d s) \<and>
        unat (write_cmd_offset seekto) < length (lines d s ! unat (write_cmd seekto)) \<and>
        filp' = filp\<lparr>f_pos := of_nat (sum_list (map length (take (unat (write_cmd seekto)) (lines d s)))
          + unat (write_cmd_offset seekto))\<rparr>)"
proof -
  obtain ret filp' s' where io: "aesd_ioctl K d s filp cmd seekto = Some (ret, filp', d, s')"
    "cells s' = cells s" and out: "ioctl_outcome (lines d s) cmd seekto filp ret filp'"
    using aesd_ioctl_outcome [OF assms] by blast
  from out show ?thesis
    by cases (use io dev_inv_cells [OF assms(2) io(2)] in
      \<open>auto simp: ioctl_target_def spec_seek_def split: if_splits\<close>)
qed

lemma spec_read_seek:
  "spec_seek ls cmd off = Some p \<Longrightarrow> spec_read ls count p = take count (drop off (ls ! cmd))"
  by (simp add: spec_read_def spec_seek_inside(1))

text \<open>
  C21: a read after a successful \<open>AESDCHAR_IOCSEEKTO\<close>, at the position it has set, gives the bytes of the
  chosen line from the chosen offset on, at most \<open>count\<close>, unless it fails with an error.
\<close>

theorem ioctl_then_read:
  assumes "kernel_ok K" "dev_inv K d s"
    and "aesd_ioctl K d s filp AESDCHAR_IOCSEEKTO seekto = Some (0, filp', d1, s1)"
  shows "\<exists>ret bs pos' s2. aesd_read K d1 s1 count (f_pos filp') = Some (ret, bs, pos', d1, s2) \<and>
     (0 \<le> ret \<longrightarrow> ret = int (length bs) \<and>
        bs = take (unat count) (drop (unat (write_cmd_offset seekto)) (lines d s ! unat (write_cmd seekto))))"
proof -
  have d1: "d1 = d" and c: "cells s1 = cells s"
    and out: "ioctl_outcome (lines d s) AESDCHAR_IOCSEEKTO seekto filp 0 filp'"
    using aesd_ioctl_outcome [OF assms(1,2), of filp AESDCHAR_IOCSEEKTO seekto] assms(3) by auto
  from out obtain p where "ioctl_target (lines d s) seekto = Some p" and f: "f_pos filp' = p"
    by cases auto
  then obtain q where q: "spec_seek (lines d s) (unat (write_cmd seekto)) (unat (write_cmd_offset seekto)) = Some q"
    "p = of_nat q" by (auto simp: ioctl_target_def)
  have core: "dev_core K d s" using assms(2) by (simp add: dev_inv_def)
  have "spec_read (lines d s) 1 q \<noteq> []"
    using spec_read_seek [OF q(1), of 1] q(1) by (auto simp: spec_seek_def split: if_splits)
  then have "q < length (dev_log d s)" by (simp add: spec_read_Nil_iff dev_log_def)
  then have uq: "unat p = q" using q(2) dev_log_bound [OF assms(1) core] by (simp add: unat_of_nat_64)
  have inv1: "dev_inv K d s1" using dev_inv_cells [OF assms(2) c] .
  have l1: "lines d s1 = lines d s" using dev_core_cells(2) [OF core c] .
  obtain ret bs pos' s2 where rd: "aesd_read K d s1 count p = Some (ret, bs, pos', d, s2)"
    and ro: "read_outcome (lines d s1) (unat count) p ret bs pos'"
    using aesd_read_outcome [OF assms(1) inv1] by blast
  from ro have "0 \<le> ret \<longrightarrow> ret = int (length bs) \<and> bs = spec_read (lines d s) (unat count) q"
    by cases (auto simp: uq l1)
  then show ?thesis using rd d1 f spec_read_seek [OF q(1)] by auto
qed

section \<open>Loading, unloading and leaks\<close>

text \<open>
  C5: from a successful load, no sequence of calls of the file operations, with whatever
  arguments and whatever the kernel answers, reads or writes outside an allocation, frees
  anything twice or leaves the lock taken; and the module can then be unloaded, which frees
  every line of the ring and the working entry and touches no other allocation.
\<close>

theorem every_history_is_safe:
  assumes "kernel_ok K" "kheap_ok s0" "aesd_init_module K d0 s0 = (0, d, s)" "list_all call_fits cs"
  shows "\<exists>rets d' s'. run_calls K (d, s) cs = Some (rets, d', s') \<and> dev_inv K d' s' \<and>
     (\<exists>d'' s''. aesd_cleanup_module K d' s' = Some (d'', s'') \<and> \<not> cdev_live d'' \<and> \<not> chrdev_held d'' \<and>
        (\<forall>p. cells s'' p = (if p \<in> set (owned d') \<or> p = working_entry d' then None else cells s' p)))"
proof -
  obtain rets d' s' where run: "run_calls K (d, s) cs = Some (rets, d', s')" "dev_inv K d' s'"
    using run_calls_safe [OF assms(1) init_module_inv(1) [OF assms(1-3)] assms(4)] by blast
  then have "dev_core K d' s'" by (simp add: dev_inv_def)
  from cleanup_module_frees [OF assms(1) this] run show ?thesis by blast
qed

text \<open>
  A load that fails allocates nothing and gives the device numbers back.
\<close>

theorem failed_load_leaves_nothing:
  assumes "kernel_ok K" "aesd_init_module K zero_dev s = (r, d', s')" "r \<noteq> 0"
  shows "cells s' = cells s \<and> \<not> chrdev_held d' \<and> \<not> cdev_live d'"
proof -
  obtain r1 major s1 where 1: "alloc_chrdev_region K s = (r1, major, s1)" by (metis prod_cases3)
  have "0 \<le> fst (alloc_chrdev_region K s) \<or> r < 0"
    using assms(2) by (cases "r1 < 0") (simp_all add: aesd_init_module_def 1)
  with init_module_fails [OF assms] show ?thesis by (simp add: zero_dev_def)
qed

text \<open>
  Unloading leaks the buffer of \<open>AESD_BUFFER_SIZE\<close> bytes that loading allocated:
  nothing uses it and nothing frees it.
\<close>

theorem unload_leaks_buffer:
  assumes "kernel_ok K" "kheap_ok s0" "aesd_init_module K d0 s0 = (0, d, s)" "buffer d \<noteq> NULL"
  shows "\<exists>d' s'. aesd_cleanup_module K d s = Some (d', s') \<and> cells s' (buffer d') \<noteq> None"
proof -
  obtain r major s1 where 1: "alloc_chrdev_region K s0 = (r, major, s1)" by (metis prod_cases3)
  obtain q s2 where 2: "cdev_add K s1 = (q, s2)" by fastforce
  obtain p s3 where 3: "kmalloc K s2 AESD_BUFFER_SIZE = (p, s3)" by fastforce
  have d: "buffer d = p" "s = s3" "working_entry d = NULL" "circ_buffer d = aesd_circular_buffer_init"
    using assms(3)
    by (auto simp: aesd_init_module_def 1 aesd_setup_cdev_def 2 3 Let_def zero_dev_def split: if_splits)
  have live: "cells s (buffer d) \<noteq> None"
    using assms(1) 3
  proof (cases rule: kmalloc_cases)
    case zero
    then show ?thesis by (simp add: AESD_BUFFER_SIZE_def)
  qed (use d assms(4) in auto)
  have "dev_core K d s" using init_module_inv(1) [OF assms(1-3)] by (simp add: dev_inv_def)
  from cleanup_module_frees [OF assms(1) this] live d assms(4) show ?thesis
    by (auto simp: owned_def)
qed

text \<open>
  C24: committing a line when the ring is full drops the oldest entry without freeing its
  buffer: the allocation stays live and the device has no pointer to it left.
\<close>

theorem overwritten_line_is_leaked:
  assumes "kernel_ok K" "dev_core K d s" "full (circ_buffer d)"
    and "cells s (working_entry d) = Some bs" "newline \<in> set bs"
  shows "\<exists>ok d' s'. write_commit K d s = Some (ok, d', s') \<and>
     (ok \<longrightarrow> cells s' (hd (owned d)) = cells s (hd (owned d)) \<and> cells s' (hd (owned d)) \<noteq> None \<and>
        hd (owned d) \<notin> set (owned d') \<and> hd (owned d) \<noteq> working_entry d')"
  using assms(1,2,4)
proof (cases rule: write_commit_cases)
  case no_line
  then show ?thesis using assms(5) by (simp add: memchr_None_iff)
next
  case (nomem i s')
  then show ?thesis by blast
next
  case (line i d' s')
  let ?p = "hd (owned d)"
  have "length (owned d) = 10" using assms(3) by (simp add: owned_def ring_count_def)
  then obtain ps where ps: "owned d = ?p # ps" by (cases "owned d") simp_all
  then have mem: "?p \<in> set (owned d)" by (metis list.set_intros(1))
  obtain b where b: "cells s ?p = Some b" using owned_live [OF assms(2) mem] by blast
  have w: "?p \<noteq> working_entry d" using assms(2) mem by (metis dev_core_def)
  obtain q where q: "cells s q = None" "owned d' = take_last 10 (owned d @ [q])" using line(8) by blast
  then have "owned d' = ps @ [q]"
    using take_last_full_snoc [of "owned d" 10 q] \<open>length (owned d) = 10\<close> ps
    by (metis list.sel(3) zero_less_numeral)
  moreover have "distinct (owned d)" using assms(2) by (simp add: dev_core_def)
  ultimately have "?p \<notin> set (owned d')" using ps b q(1) by (metis Un_insert_right distinct.simps(2)
    insert_iff list.simps(15) option.distinct(1) set_append sup_bot.right_neutral list.set(1))
  then show ?thesis using line(2) line(9) [of ?p] b w by auto
qed

text \<open>
  C25: when growing the working entry fails, its pointer is overwritten with \<open>NULL\<close>: the
  pending bytes are no longer reachable, their allocation stays live, and
  \<open>working_size\<close> still counts them.
\<close>

theorem failed_growth_loses_pending_bytes:
  assumes "kernel_ok K" "dev_core K d s" "intact d s" "partial d s \<noteq> []"
    and "k_realloc K s (working_entry d) (working_size d + chunk) = Some (NULL, s')"
  shows "\<exists>d'. write_append K kbuf copied chunk d s = Some (False, d', s') \<and>
     partial d' s' = [] \<and> unat (working_size d') = length (partial d s) \<and> \<not> intact d' s' \<and>
     cells s' (working_entry d) = Some (partial d s) \<and>
     working_entry d \<notin> set (owned d') \<and> working_entry d \<noteq> working_entry d'"
proof -
  obtain bs where w: "cells s (working_entry d) = Some bs" and bs: "partial d s = bs"
    using assms(4) by (cases "cells s (working_entry d)") (auto simp: partial_def)
  have wn: "working_entry d \<noteq> NULL" using dev_core_ptr [OF assms(2) w] by simp
  have c: "cells s' = cells s"
    using assms(1,5) by (cases rule: k_realloc_cases) (use wn in \<open>auto simp: new_ptr_def\<close>)
  have "cells s' NULL = None" using dev_core_heap [OF assms(2)] c by (simp add: kheap_ok_def)
  then show ?thesis
    using assms(2,3,4,5) w bs wn c
    by (auto simp: write_append_def intact_def partial_def owned_def dev_core_def)
qed

section \<open>Witnesses\<close>

text \<open>A loaded device on the simple kernel, and the device after some calls.\<close>

definition booted :: "aesd_dev \<times> kstate" where
  "booted = snd (aesd_init_module simple_kernel zero_dev boot_state)"

lemma boot_heap: "kheap_ok boot_state"
  by (simp add: boot_state_def kheap_ok_def)

lemma booted_init: "aesd_init_module simple_kernel zero_dev boot_state = (0, fst booted, snd booted)"
proof -
  have "fst (aesd_init_module simple_kernel zero_dev boot_state) = 0" by code_simp
  then show ?thesis by (simp add: booted_def prod_eq_iff)
qed

lemmas booted_ok = init_module_inv [OF simple_kernel_ok boot_heap booted_init]

text \<open>A device with two lines and the start of a third.\<close>

definition sample_mem :: kstate where
  "sample_mem = \<lparr>cells = (\<lambda>p. if p = 100 then Some [97, 98, newline]
       else if p = 101 then Some [99, 100, newline] else if p = 102 then Some [101] else None), tick = 200\<rparr>"

definition sample_dev :: aesd_dev where
  "sample_dev = zero_dev\<lparr>circ_buffer :=
       \<lparr>entry = [\<lparr>buffptr = 100, esize = 3\<rparr>, \<lparr>buffptr = 101, esize = 3\<rparr>] @ replicate 8 zero_entry,
        in_offs = 2, out_offs = 0, full = False\<rparr>,
     working_entry := 102, working_size := 1\<rparr>"

lemma sample_list: "ring_list (circ_buffer sample_dev) =
    [\<lparr>buffptr = 100, esize = 3\<rparr>, \<lparr>buffptr = 101, esize = 3\<rparr>]"
  by code_simp

lemma sample_core: "dev_core simple_kernel sample_dev sample_mem"
proof -
  have "ring_fresh (circ_buffer sample_dev)"
    by (simp add: sample_dev_def zero_dev_def ring_fresh_def ring_inv_def)
  moreover have "\<forall>e \<in> set (ring_list (circ_buffer sample_dev)). entry_in simple_kernel sample_mem e"
    by (simp add: sample_list entry_in_def sample_mem_def simple_kernel_def old_bytes_def)
  moreover have "distinct (owned sample_dev)" "102 \<notin> set (owned sample_dev)"
    by (simp_all add: owned_def sample_list)
  moreover have "kheap_ok sample_mem" by (simp add: kheap_ok_def sample_mem_def ZERO_SIZE_PTR_def)
  moreover have "work_mem sample_dev sample_mem"
    by (simp add: work_mem_def sample_dev_def sample_mem_def old_bytes_def)
  ultimately show ?thesis
    by (simp add: dev_core_def sample_dev_def simple_kernel_def)
qed

lemma sample_inv: "dev_inv simple_kernel sample_dev sample_mem"
  using sample_core by (simp add: dev_inv_def) (simp add: sample_dev_def zero_dev_def)

lemma sample_view:
  "lines sample_dev sample_mem = [[97, 98, newline], [99, 100, newline]]"
  "partial sample_dev sample_mem = [101]"
  "intact sample_dev sample_mem"
  by code_simp+

text \<open>Two lines and a half, in four writes.\<close>

definition some_writes :: "call list" where
  "some_writes = [Call_write [97, 98, newline], Call_write [99], Call_write [100, newline], Call_write [101]]"

lemma some_writes_fit: "list_all call_fits some_writes"
  by (simp add: some_writes_def call_fits_def)

text \<open>A kernel that cannot give a single byte, so that shrinking the working entry to one byte fails.\<close>

definition tight_kernel :: kernel where
  "tight_kernel = simple_kernel\<lparr>krealloc := (\<lambda>s p n. if n = 1 then (NULL, s) else krealloc simple_kernel s p n)\<rparr>"

lemma tight_kernel_ok: "kernel_ok tight_kernel"
  using simple_kernel_ok
  by (simp add: kernel_ok_def kmalloc_ok_def krealloc_ok_def kfree_ok_def kframe_ok_def tight_kernel_def)

lemma tight_inv: "dev_inv tight_kernel d s = dev_inv simple_kernel d s"
  by (simp add: dev_inv_def dev_core_def entry_in_def tight_kernel_def)

text \<open>In the second run the byte after the newline is lost.\<close>

theorem write_extends_log_witness:
  "(\<exists>d' s'. aesd_write simple_kernel sample_dev sample_mem [102, newline, 103] 3 = Some (3, d', s') \<and>
     lines d' s' = [[97, 98, newline], [99, 100, newline], [101, 102, newline]] \<and> partial d' s' = [103]) \<and>
   (\<exists>d' s'. aesd_write tight_kernel sample_dev sample_mem [102, newline, 103] 3 = Some (3, d', s') \<and>
     lines d' s' = [[97, 98, newline], [99, 100, newline], [101, 102, newline]] \<and> partial d' s' = [] \<and>
     working_entry d' = NULL \<and> unat (working_size d') = 1)"
proof -
  let ?d = "sample_dev" and ?s = "sample_mem" and ?buf = "[102, newline, 103]"
  have ev: "map_option (\<lambda>(ret, d', s'). (ret, intact d' s')) (aesd_write simple_kernel ?d ?s ?buf 3) = Some (3, True)"
    "map_option (\<lambda>(ret, d', s'). (ret, intact d' s')) (aesd_write tight_kernel ?d ?s ?buf 3) = Some (3, False)"
    by code_simp+
  have sp: "spec_write (lines ?d ?s, partial ?d ?s) ?buf =
      ([[97, 98, newline], [99, 100, newline], [101, 102, newline]], [103])"
    by (simp add: sample_view spec_write_def)
  have inv: "dev_inv tight_kernel ?d ?s" by (simp add: tight_inv sample_inv)
  from write_extends_log [OF simple_kernel_ok sample_inv, of ?buf 3] ev(1) sp
  have "\<exists>d' s'. aesd_write simple_kernel ?d ?s ?buf 3 = Some (3, d', s') \<and>
     lines d' s' = [[97, 98, newline], [99, 100, newline], [101, 102, newline]] \<and> partial d' s' = [103]"
    by (auto simp: sample_view(3))
  moreover from write_extends_log [OF tight_kernel_ok inv, of ?buf 3] ev(2) sp
  have "\<exists>d' s'. aesd_write tight_kernel ?d ?s ?buf 3 = Some (3, d', s') \<and>
     lines d' s' = [[97, 98, newline], [99, 100, newline], [101, 102, newline]] \<and> partial d' s' = [] \<and>
     working_entry d' = NULL \<and> unat (working_size d') = 1"
    by (auto simp: sample_view(3))
  ultimately show ?thesis ..
qed

text \<open>A kernel whose user copies fail.\<close>

definition faulty_kernel :: kernel where
  "faulty_kernel = simple_kernel\<lparr>copy_from_user := (\<lambda>s n. (n, s))\<rparr>"

lemma faulty_kernel_ok: "kernel_ok faulty_kernel"
  using simple_kernel_ok
  by (simp add: kernel_ok_def kmalloc_ok_def krealloc_ok_def kfree_ok_def kframe_ok_def faulty_kernel_def)

lemma faulty_inv: "dev_inv faulty_kernel d s = dev_inv simple_kernel d s"
  by (simp add: dev_inv_def dev_core_def entry_in_def faulty_kernel_def)

theorem write_error_keeps_lines_witness:
  "\<exists>ret d' s'. aesd_write faulty_kernel sample_dev sample_mem [102, newline] 2 =
       Some (ret, d', s') \<and> ret = - EFAULT \<and>
     lines d' s' = [[97, 98, newline], [99, 100, newline]] \<and> partial d' s' = [101]"
proof -
  let ?d = "sample_dev" and ?s = "sample_mem"
  have ev: "map_option fst (aesd_write faulty_kernel ?d ?s [102, newline] 2) = Some (- EFAULT)"
    by code_simp
  have inv: "dev_inv faulty_kernel ?d ?s" by (simp add: faulty_inv sample_inv)
  obtain ret d' s' where "aesd_write faulty_kernel ?d ?s [102, newline] 2 = Some (ret, d', s')"
    "ret < 0 \<longrightarrow> lines d' s' = lines ?d ?s \<and> (partial d' s' = partial ?d ?s \<or> ret = - ENOMEM)"
    using write_error_keeps_lines [OF faulty_kernel_ok inv, of "[102, newline]" 2] by auto
  with ev show ?thesis by (auto simp: sample_view)
qed

theorem writes_log_last_ten_lines_witness:
  "\<exists>rets d' s'. run_calls simple_kernel (sample_dev, sample_mem) (map Call_write [[102, newline], [], [103]]) =
       Some (rets, d', s') \<and> rets = [2, 0, 1] \<and>
     lines d' s' = [[97, 98, newline], [99, 100, newline], [101, 102, newline]] \<and> partial d' s' = [103]"
proof -
  let ?d = "sample_dev" and ?s = "sample_mem"
  let ?bufs = "[[102, newline], [], [103 :: byte]]"
  have ev: "map_option fst (run_calls simple_kernel (?d, ?s) (map Call_write ?bufs)) = Some [2, 0, 1]"
    by code_simp
  have "list_all (\<lambda>b. line_chunk b \<and> length b < 2 ^ 64) ?bufs" "newline \<notin> set (partial ?d ?s)"
    by (simp_all add: line_chunk_def sample_view)
  from writes_log_last_ten_lines [OF simple_kernel_ok sample_inv
      sample_view(3) this(2,1)]
  obtain rets d' s' where "run_calls simple_kernel (?d, ?s) (map Call_write ?bufs) = Some (rets, d', s')"
    "list_all (\<lambda>r. 0 \<le> r) rets \<longrightarrow>
      lines d' s' = take_last 10 (lines ?d ?s @ fst (split_lines (partial ?d ?s @ concat ?bufs))) \<and>
      partial d' s' = snd (split_lines (partial ?d ?s @ concat ?bufs))" by blast
  moreover have "split_lines (partial ?d ?s @ concat ?bufs) = ([[101, 102, newline]], [103])"
    by (simp add: sample_view) code_simp
  ultimately show ?thesis using ev by (auto simp: sample_view)
qed

theorem second_line_stays_pending_witness:
  "\<exists>ret d' s'. aesd_write simple_kernel sample_dev sample_mem
       [102, newline, 103, newline] 4 = Some (ret, d', s') \<and> ret = 4 \<and>
     lines d' s' = [[97, 98, newline], [99, 100, newline], [101, 102, newline]] \<and>
     partial d' s' = [103, newline]"
proof -
  let ?d = "sample_dev" and ?s = "sample_mem"
  have ev: "map_option (\<lambda>(ret, d', s'). (ret, intact d' s'))
      (aesd_write simple_kernel ?d ?s [102, newline, 103, newline] 4) = Some (4, True)" by code_simp
  have "newline \<notin> set (partial ?d ?s)" "newline \<notin> set [102]" "newline \<in> set [103, newline]"
    by (simp_all add: sample_view)
  from second_line_stays_pending [OF simple_kernel_ok sample_inv
      sample_view(3) this, of 4]
  obtain ret d' s' where "aesd_write simple_kernel ?d ?s [102, newline, 103, newline] 4 = Some (ret, d', s')"
    "0 \<le> ret \<longrightarrow> lines d' s' = take_last 10 (lines ?d ?s @ [partial ?d ?s @ [102] @ [newline]]) \<and>
      (intact d' s' \<longrightarrow> partial d' s' = [103, newline])" by auto
  with ev show ?thesis by (auto simp: sample_view)
qed

theorem read_returns_log_bytes_witness:
  "\<exists>ret bs pos' s'. aesd_read simple_kernel sample_dev sample_mem 8 4 =
       Some (ret, bs, pos', sample_dev, s') \<and> ret = 2 \<and> bs = [100, newline] \<and> unat pos' = 6"
proof -
  let ?d = "sample_dev" and ?s = "sample_mem"
  have ev: "map_option fst (aesd_read simple_kernel ?d ?s 8 4) = Some 2" by code_simp
  have sp: "spec_read (lines ?d ?s) 8 4 = [100, newline]" by (simp add: sample_view spec_read_def)
  show ?thesis
    using read_returns_log_bytes [OF simple_kernel_ok sample_inv, of 8 4]
      ev by (auto simp: sp)
qed

theorem reading_until_end_gives_log_witness:
  "\<exists>bs d' s'. read_all (device_read simple_kernel 2) 10 (sample_dev, sample_mem) 1 = Some (0, bs, d', s') \<and>
     bs = [98, newline, 99, 100, newline]"
proof -
  let ?d = "sample_dev" and ?s = "sample_mem"
  have log: "dev_log ?d ?s = [97, 98, newline, 99, 100, newline]"
    by (simp add: dev_log_def sample_view)
  have "map_option fst (read_all (device_read simple_kernel 2) 10 (?d, ?s) 1) = Some 0" by code_simp
  then show ?thesis
    using reading_until_end_gives_log [OF simple_kernel_ok sample_inv,
      of 2 1 10] by (auto simp: log)
qed

theorem llseek_sets_position_witness:
  "\<exists>ret filp' s'. aesd_llseek simple_kernel sample_dev sample_mem
       \<lparr>f_pos = 1, f_mode = 0, private_data = 0\<rparr> (- 2) 2 = Some (ret, filp', sample_dev, s') \<and>
     ret = 4 \<and> f_pos filp' = 4"
proof -
  have "dev_log sample_dev sample_mem = [97, 98, newline, 99, 100, newline]"
    by (simp add: dev_log_def sample_view)
  then show ?thesis
    using llseek_sets_position [OF simple_kernel_ok sample_inv,
      of "\<lparr>f_pos = 1, f_mode = 0, private_data = 0\<rparr>" "- 2" 2]
    by (auto simp: simple_kernel_def)
qed

theorem ioctl_seeks_into_line_witness:
  "\<exists>ret filp' s'. aesd_ioctl simple_kernel sample_dev sample_mem
       \<lparr>f_pos = 0, f_mode = 0, private_data = 0\<rparr> AESDCHAR_IOCSEEKTO \<lparr>write_cmd = 1, write_cmd_offset = 2\<rparr> =
       Some (ret, filp', sample_dev, s') \<and> ret = 0 \<and> f_pos filp' = 5"
proof -
  have ev: "map_option fst (aesd_ioctl simple_kernel sample_dev sample_mem
      \<lparr>f_pos = 0, f_mode = 0, private_data = 0\<rparr> AESDCHAR_IOCSEEKTO
      \<lparr>write_cmd = 1, write_cmd_offset = 2\<rparr>) = Some 0" by code_simp
  show ?thesis
    using ioctl_seeks_into_line [OF simple_kernel_ok sample_inv,
      of "\<lparr>f_pos = 0, f_mode = 0, private_data = 0\<rparr>" AESDCHAR_IOCSEEKTO
        "\<lparr>write_cmd = 1, write_cmd_offset = 2\<rparr>"] ev
    by (auto simp: sample_view)
qed

theorem ioctl_then_read_witness:
  "\<exists>filp' d1 s1 ret bs pos' s2.
     aesd_ioctl simple_kernel sample_dev sample_mem
       \<lparr>f_pos = 0, f_mode = 0, private_data = 0\<rparr> AESDCHAR_IOCSEEKTO \<lparr>write_cmd = 1, write_cmd_offset = 1\<rparr> =
       Some (0, filp', d1, s1) \<and>
     aesd_read simple_kernel d1 s1 16 (f_pos filp') = Some (ret, bs, pos', d1, s2) \<and> ret = 2 \<and>
     bs = [100, newline]"
proof -
  let ?d = "sample_dev" and ?s = "sample_mem"
  let ?f = "\<lparr>f_pos = 0, f_mode = 0, private_data = 0\<rparr> :: file"
  let ?to = "\<lparr>write_cmd = 1, write_cmd_offset = 1\<rparr>"
  have ev: "Option.bind (aesd_ioctl simple_kernel ?d ?s ?f AESDCHAR_IOCSEEKTO ?to) (\<lambda>(r, f', d1, s1).
      map_option (\<lambda>x. (r, fst x)) (aesd_read simple_kernel d1 s1 16 (f_pos f'))) = Some (0, 2)"
    by code_simp
  then obtain f' d1 s1 x where io: "aesd_ioctl simple_kernel ?d ?s ?f AESDCHAR_IOCSEEKTO ?to = Some (0, f', d1, s1)"
    and x: "aesd_read simple_kernel d1 s1 16 (f_pos f') = Some (2, x)"
    by (auto simp: bind_Some_iff)
  show ?thesis
    using ioctl_then_read [OF simple_kernel_ok sample_inv io, of 16] io x
    by (auto simp: sample_view)
qed

theorem every_history_is_safe_witness:
  "\<exists>rets d' s' d'' s''. run_calls simple_kernel booted some_writes = Some (rets, d', s') \<and>
     dev_inv simple_kernel d' s' \<and> aesd_cleanup_module simple_kernel d' s' = Some (d'', s'') \<and> \<not> cdev_live d''"
  using every_history_is_safe [OF simple_kernel_ok boot_heap booted_init some_writes_fit] by auto

text \<open>A kernel without device numbers left.\<close>

definition no_numbers_kernel :: kernel where
  "no_numbers_kernel = simple_kernel\<lparr>cdev_add := (\<lambda>s. (- 16, s))\<rparr>"

lemma no_numbers_kernel_ok: "kernel_ok no_numbers_kernel"
  using simple_kernel_ok
  by (simp add: kernel_ok_def kmalloc_ok_def krealloc_ok_def kfree_ok_def kframe_ok_def no_numbers_kernel_def)

theorem failed_load_leaves_nothing_witness:
  "fst (aesd_init_module no_numbers_kernel zero_dev boot_state) = - 16 \<and>
   cells (snd (snd (aesd_init_module no_numbers_kernel zero_dev boot_state))) = cells boot_state \<and>
   \<not> chrdev_held (fst (snd (aesd_init_module no_numbers_kernel zero_dev boot_state)))"
proof -
  obtain r d' s' where i: "aesd_init_module no_numbers_kernel zero_dev boot_state = (r, d', s')"
    by (metis prod_cases3)
  have "fst (aesd_init_module no_numbers_kernel zero_dev boot_state) = - 16" by code_simp
  then have "r = - 16" by (simp add: i)
  then show ?thesis using failed_load_leaves_nothing [OF no_numbers_kernel_ok i] by (simp add: i)
qed

theorem unload_leaks_buffer_witness:
  "\<exists>d' s'. aesd_cleanup_module simple_kernel (fst booted) (snd booted) = Some (d', s') \<and>
     cells s' (buffer d') \<noteq> None"
proof (rule unload_leaks_buffer [OF simple_kernel_ok boot_heap booted_init])
  show "buffer (fst booted) \<noteq> NULL" by code_simp
qed

text \<open>A device with ten lines, and the bytes of an eleventh in the working entry.\<close>

definition full_mem :: kstate where
  "full_mem = \<lparr>cells = (\<lambda>p. if 100 \<le> p \<and> p < 110 then Some [of_nat (p - 52), newline]
                           else if p = 200 then Some [65, newline] else None),
               tick = 300\<rparr>"

definition full_dev :: aesd_dev where
  "full_dev = zero_dev\<lparr>circ_buffer :=
       \<lparr>entry = map (\<lambda>k. \<lparr>buffptr = k, esize = 2\<rparr>) [100..<110], in_offs = 3, out_offs = 3, full = True\<rparr>,
     working_entry := 200, working_size := 2\<rparr>"

lemma full_dev_list: "ring_list (circ_buffer full_dev) =
    map (\<lambda>k. \<lparr>buffptr = k, esize = 2\<rparr>) [103, 104, 105, 106, 107, 108, 109, 100, 101, 102]"
  by code_simp

lemma full_dev_core: "dev_core simple_kernel full_dev full_mem"
proof -
  have "ring_fresh (circ_buffer full_dev)"
    by (simp add: full_dev_def zero_dev_def ring_fresh_def ring_inv_def)
  moreover have "\<forall>e \<in> set (ring_list (circ_buffer full_dev)). entry_in simple_kernel full_mem e"
    by (simp add: full_dev_list entry_in_def full_mem_def simple_kernel_def old_bytes_def)
  moreover have "distinct (owned full_dev)" "200 \<notin> set (owned full_dev)"
    by (simp_all add: owned_def full_dev_list)
  moreover have "kheap_ok full_mem" by (simp add: kheap_ok_def full_mem_def ZERO_SIZE_PTR_def)
  moreover have "work_mem full_dev full_mem"
    by (simp add: work_mem_def full_dev_def full_mem_def old_bytes_def)
  ultimately show ?thesis
    by (simp add: dev_core_def full_dev_def simple_kernel_def)
qed

theorem overwritten_line_is_leaked_witness:
  "\<exists>d' s'. write_commit simple_kernel full_dev full_mem = Some (True, d', s') \<and>
     cells s' (hd (owned full_dev)) \<noteq> None \<and> hd (owned full_dev) \<notin> set (owned d')"
proof -
  have ev: "map_option fst (write_commit simple_kernel full_dev full_mem) = Some True"
    by code_simp
  have "full (circ_buffer full_dev)"
    "cells full_mem (working_entry full_dev) = Some [65, newline]"
    by code_simp+
  from overwritten_line_is_leaked [OF simple_kernel_ok full_dev_core this] ev
  show ?thesis by auto
qed

theorem failed_growth_loses_pending_bytes_witness:
  "\<exists>d'. write_append simple_kernel 77 0 4096 sample_dev sample_mem =
       Some (False, d', sample_mem) \<and> partial d' sample_mem = [] \<and>
     cells sample_mem (working_entry sample_dev) = Some [101]"
proof -
  let ?d = "sample_dev" and ?s = "sample_mem"
  have "map_option fst (k_realloc simple_kernel ?s (working_entry ?d) (working_size ?d + 4096)) = Some NULL"
    by code_simp
  then obtain s' where s': "k_realloc simple_kernel ?s (working_entry ?d) (working_size ?d + 4096) = Some (NULL, s')"
    by auto
  then have "s' = ?s"
    by (auto simp: k_realloc_def simple_kernel_def simple_alloc_def split: if_splits)
  with failed_growth_loses_pending_bytes [OF simple_kernel_ok sample_core
      sample_view(3) _ s', of 77 0] show ?thesis
    by (auto simp: sample_view)
qed

end
