(* ===== verification/Device_Server.thy ===== *)
theory Device_Server
  imports Server_Threads Driver_Serving Driver_Props
begin

text \<open>
  The server built with \<open>USE_AESD_CHAR_DEVICE\<close> on top of the char driver: the system calls a
  connection thread makes on the device file run the handlers of \<open>aesd_fops\<close>. This system
  serves, so a connection holds the session of its packets on the driver's log. What is left
  open are the sockets, the choice of descriptors and the C library's allocator, a record of
  parameters.
\<close>

section \<open>The system\<close>

text \<open>
  The device and the kernel's memory, the open files of the device, and for every socket what
  its client has still to send and what it was sent. A handler with undefined behaviour
  brings the system down.
\<close>

record world =
  w_dev :: aesd_dev
  w_mem :: kstate
  w_fds :: "int \<Rightarrow> file option"
  w_in :: "int \<Rightarrow> byte list"
  w_out :: "int \<Rightarrow> byte list"
  w_crashed :: bool

text \<open>The next descriptor, how many bytes a \<open>recv\<close> or \<open>send\<close> moves, and \<open>realloc\<close>.\<close>

record host =
  h_fd :: "world \<Rightarrow> int"
  h_recv :: "world \<Rightarrow> int \<Rightarrow> nat"
  h_send :: "world \<Rightarrow> int \<Rightarrow> nat"
  h_alloc :: "world \<Rightarrow> size_t \<Rightarrow> byte list option"

text \<open>Linux moves at most \<open>MAX_RW_COUNT\<close> bytes in one \<open>read\<close> or \<open>write\<close>.\<close>

definition MAX_RW_COUNT :: nat where "MAX_RW_COUNT = 0x7ffff000"

definition new_file :: "file" where
  "new_file = \<lparr>f_pos = 0, f_mode = 0, private_data = NULL\<rparr>"

text \<open>An error number of a handler becomes the return value -1 of the system call.\<close>

definition sys_ret :: "int \<Rightarrow> int" where
  "sys_ret r = (if r < 0 then - 1 else r)"

definition dev_open :: "kernel \<Rightarrow> host \<Rightarrow> world \<Rightarrow> oflag list \<Rightarrow> int \<times> world" where
  "dev_open K H w flags =
     (let fd = h_fd H w; (r, filp) = aesd_open K 1 new_file
      in if r \<noteq> 0 then (- 1, w) else (fd, w\<lparr>w_fds := (w_fds w)(fd \<mapsto> filp)\<rparr>))"

definition dev_close :: "world \<Rightarrow> int \<Rightarrow> int \<times> world" where
  "dev_close w fd = (0, w\<lparr>w_fds := (w_fds w)(fd := None)\<rparr>)"

definition dev_write :: "kernel \<Rightarrow> world \<Rightarrow> int \<Rightarrow> byte list \<Rightarrow> int \<times> world" where
  "dev_write K w fd bs =
     (case w_fds w fd of
        None \<Rightarrow> (- 1, w)
      | Some filp \<Rightarrow>
          let buf = take MAX_RW_COUNT bs
          in case aesd_write K (w_dev w) (w_mem w) buf (of_nat (length buf)) of
               None \<Rightarrow> (- 1, w\<lparr>w_crashed := True\<rparr>)
             | Some (r, d, s) \<Rightarrow> (sys_ret r, w\<lparr>w_dev := d, w_mem := s\<rparr>))"

definition dev_fsync :: "world \<Rightarrow> int \<Rightarrow> int \<times> world" where
  "dev_fsync w fd =
     (case w_fds w fd of None \<Rightarrow> (- 1, w) | Some filp \<Rightarrow> (sys_ret (aesd_fsync filp 0 (- 1) 0), w))"

definition dev_read :: "kernel \<Rightarrow> world \<Rightarrow> int \<Rightarrow> nat \<Rightarrow> int \<times> byte list \<times> world" where
  "dev_read K w fd n =
     (case w_fds w fd of
        None \<Rightarrow> (- 1, [], w)
      | Some filp \<Rightarrow>
          case aesd_read K (w_dev w) (w_mem w) (of_nat (min n MAX_RW_COUNT)) (f_pos filp) of
            None \<Rightarrow> (- 1, [], w\<lparr>w_crashed := True\<rparr>)
          | Some (r, bs, pos, d, s) \<Rightarrow>
              (sys_ret r, bs, w\<lparr>w_dev := d, w_mem := s, w_fds := (w_fds w)(fd \<mapsto> filp\<lparr>f_pos := pos\<rparr>)\<rparr>))"

definition dev_ioctl :: "kernel \<Rightarrow> world \<Rightarrow> int \<Rightarrow> uint32 \<Rightarrow> aesd_seekto \<Rightarrow> int \<times> world" where
  "dev_ioctl K w fd cmd to =
     (case w_fds w fd of
        None \<Rightarrow> (- 1, w)
      | Some filp \<Rightarrow>
          case aesd_ioctl K (w_dev w) (w_mem w) filp cmd to of
            None \<Rightarrow> (- 1, w\<lparr>w_crashed := True\<rparr>)
          | Some (r, filp', d, s) \<Rightarrow>
              (sys_ret r, w\<lparr>w_dev := d, w_mem := s, w_fds := (w_fds w)(fd \<mapsto> filp')\<rparr>))"

definition sock_recv :: "host \<Rightarrow> world \<Rightarrow> int \<Rightarrow> nat \<Rightarrow> int \<times> byte list \<times> world" where
  "sock_recv H w fd n =
     (let bs = take (min n (h_recv H w fd)) (w_in w fd)
      in (int (length bs), bs, w\<lparr>w_in := (w_in w)(fd := drop (length bs) (w_in w fd))\<rparr>))"

definition sock_send :: "host \<Rightarrow> world \<Rightarrow> int \<Rightarrow> byte list \<Rightarrow> int \<times> world" where
  "sock_send H w fd bs =
     (let now = take (h_send H w fd) bs
      in (int (length now), w\<lparr>w_out := (w_out w)(fd := w_out w fd @ now)\<rparr>))"

definition device_os :: "kernel \<Rightarrow> host \<Rightarrow> world os" where
  "device_os K H =
     \<lparr>sys_open = dev_open K H, sys_close = dev_close, sys_write = dev_write K, sys_fsync = dev_fsync,
      sys_read = dev_read K, sys_ioctl = dev_ioctl K, sys_recv = sock_recv H, sys_send = sock_send H,
      sys_realloc = (\<lambda>w n. (h_alloc H w n, w)), sys_lock = (\<lambda>w. w), sys_unlock = (\<lambda>w. w)\<rparr>"

section \<open>It serves\<close>

text \<open>
  The parameters while nothing fails: descriptors are not -1, \<open>recv\<close> and \<open>send\<close> move
  something, and \<open>realloc\<close> has the memory that packets of at most \<open>m\<close> bytes need.
\<close>

definition host_ok :: "host \<Rightarrow> nat \<Rightarrow> bool" where
  "host_ok H m \<longleftrightarrow>
     (\<forall>w. h_fd H w \<noteq> - 1) \<and> (\<forall>w fd. 0 < h_recv H w fd \<and> 0 < h_send H w fd) \<and>
     (\<forall>w n bs. h_alloc H w n = Some bs \<longrightarrow> length bs = unat n \<and> unat n \<le> 2 ^ 47) \<and>
     (\<forall>w n. unat n \<le> 2 * m + 1024 \<longrightarrow> h_alloc H w n \<noteq> None)"

text \<open>The state between two packets: nothing is lost and no line is unfinished.\<close>

definition device_ok :: "kernel \<Rightarrow> (kstate \<Rightarrow> bool) \<Rightarrow> world \<Rightarrow> bool" where
  "device_ok K room w \<longleftrightarrow>
     dev_inv K (w_dev w) (w_mem w) \<and> intact (w_dev w) (w_mem w) \<and> partial (w_dev w) (w_mem w) = [] \<and>
     room (w_mem w) \<and> \<not> w_crashed w"

abbreviation w_lines :: "world \<Rightarrow> byte list list" where
  "w_lines w \<equiv> lines (w_dev w) (w_mem w)"

text \<open>
  The view of all clients and of the one at \<open>cfd\<close>: the file is the driver's log, of which the
  last ten lines are kept.
\<close>

definition dev_others :: "int \<Rightarrow> world \<Rightarrow> streams" where
  "dev_others cfd w = (\<lambda>fd. if fd = cfd then ([], []) else (w_in w fd, w_out w fd))"

definition device_clients :: "kernel \<Rightarrow> (kstate \<Rightarrow> bool) \<Rightarrow> nat \<Rightarrow> (world, byte list list) server_view" where
  "device_clients K room m =
     \<lparr>s_ok = device_ok K room, s_in = w_in, s_out = w_out, s_file = w_lines,
      s_open = (\<lambda>w fd. w_fds w fd \<noteq> None),
      s_rest = (\<lambda>w fd. case w_fds w fd of None \<Rightarrow> [] | Some filp \<Rightarrow> drop (unat (f_pos filp)) (concat (w_lines w))),
      s_append = (\<lambda>ls p. take_last 10 (ls @ [p])), s_bytes = concat, s_max = m, s_seek = spec_seek\<rparr>"

definition device_view ::
  "kernel \<Rightarrow> (kstate \<Rightarrow> bool) \<Rightarrow> nat \<Rightarrow> int \<Rightarrow> (world, byte list list \<times> streams) view" where
  "device_view K room m cfd = client_view (device_clients K room m) cfd"

definition device_sk :: "byte list list \<times> streams \<Rightarrow> nat \<Rightarrow> nat \<Rightarrow> nat option" where
  "device_sk f x y = spec_seek (fst f) x y"

lemma device_clients_simps:
  "s_ok (device_clients K room m) = device_ok K room"
  "s_in (device_clients K room m) = w_in" "s_out (device_clients K room m) = w_out"
  "s_file (device_clients K room m) = w_lines" "s_max (device_clients K room m) = m"
  "s_append (device_clients K room m) ls p = take_last 10 (ls @ [p])"
  "s_bytes (device_clients K room m) = concat" "s_seek (device_clients K room m) = spec_seek"
  by (simp_all add: device_clients_def)

lemma device_others: "other_streams (device_clients K room m) cfd = dev_others cfd"
  by (rule ext) (simp add: other_streams_def dev_others_def device_clients_simps cong: if_cong)

lemma view_simps:
  "v_ok (device_view K room m cfd) = device_ok K room"
  "v_input (device_view K room m cfd) w = w_in w cfd"
  "v_sent (device_view K room m cfd) w = w_out w cfd"
  "v_store (device_view K room m cfd) w = (w_lines w, dev_others cfd w)"
  "v_open (device_view K room m cfd) w fd \<longleftrightarrow> w_fds w fd \<noteq> None"
  "v_append (device_view K room m cfd) f p = (take_last 10 (fst f @ [p]), snd f)"
  "v_bytes (device_view K room m cfd) f = concat (fst f)"
  "v_max (device_view K room m cfd) = m"
  by (simp_all add: device_view_def device_others) (simp_all add: device_clients_def)

lemma rest_simps:
  "w_fds w fd = Some filp \<Longrightarrow>
     v_rest (device_view K room m cfd) w fd = drop (unat (f_pos filp)) (concat (w_lines w))"
  by (simp add: device_view_def device_clients_def)

lemma os_simps:
  "sys_open (device_os K H) = dev_open K H" "sys_close (device_os K H) = dev_close"
  "sys_write (device_os K H) = dev_write K" "sys_fsync (device_os K H) = dev_fsync"
  "sys_read (device_os K H) = dev_read K" "sys_ioctl (device_os K H) = dev_ioctl K"
  "sys_recv (device_os K H) = sock_recv H" "sys_send (device_os K H) = sock_send H"
  "sys_realloc (device_os K H) w n = (h_alloc H w n, w)"
  "sys_lock (device_os K H) w = w" "sys_unlock (device_os K H) w = w"
  by (simp_all add: device_os_def)

lemma same_cells_ok:
  assumes "device_ok K room w" "cells s = cells (w_mem w)" "room s"
  shows "device_ok K room (w\<lparr>w_mem := s\<rparr>)" "w_lines (w\<lparr>w_mem := s\<rparr>) = w_lines w"
proof -
  have "old_bytes s p = old_bytes (w_mem w) p" for p using assms(2) by (simp add: old_bytes_def)
  then have "intact (w_dev w) s = intact (w_dev w) (w_mem w)" "partial (w_dev w) s = partial (w_dev w) (w_mem w)"
    "lines (w_dev w) s = lines (w_dev w) (w_mem w)"
    by (simp_all add: lines_def partial_def intact_def)
  then show "device_ok K room (w\<lparr>w_mem := s\<rparr>)" "w_lines (w\<lparr>w_mem := s\<rparr>) = w_lines w"
    using assms dev_inv_cells [of K "w_dev w" "w_mem w" s] by (simp_all add: device_ok_def)
qed

lemma device_fds [simp]:
  "device_ok K room (w\<lparr>w_fds := f\<rparr>) = device_ok K room w"
  "dev_others cfd (w\<lparr>w_fds := f\<rparr>) = dev_others cfd w"
  "dev_others cfd (w\<lparr>w_mem := s\<rparr>) = dev_others cfd w"
  "dev_others cfd (w\<lparr>w_dev := d\<rparr>) = dev_others cfd w"
  by (simp_all add: device_ok_def dev_others_def cong: if_cong)

lemma device_streams [simp]:
  "device_ok K room (w\<lparr>w_in := i\<rparr>) = device_ok K room w"
  "device_ok K room (w\<lparr>w_out := i\<rparr>) = device_ok K room w"
  "dev_others cfd (w\<lparr>w_in := (w_in w)(cfd := x)\<rparr>) = dev_others cfd w"
  "dev_others cfd (w\<lparr>w_out := (w_out w)(cfd := x)\<rparr>) = dev_others cfd w"
  "v_rest (device_view K room m cfd) (w\<lparr>w_out := i\<rparr>) fd = v_rest (device_view K room m cfd) w fd"
  by (simp_all add: device_ok_def dev_others_def device_view_def device_clients_def cong: if_cong split: option.splits)

lemma spec_write_packet:
  assumes "packet p"
  shows "spec_write (ls, []) p = (take_last 10 (ls @ [p]), [])"
proof -
  obtain xs where "p = xs @ [newline]" "newline \<notin> set xs" using assms by (auto simp: packet_def)
  then show ?thesis using memchr_snoc_newline [of newline xs "[]"] by (simp add: spec_write_def)
qed

lemma dev_write_serves:
  assumes K: "kernel_ok K" and S: "kernel_serves K room" and w: "device_ok K room w" "w_fds w fd \<noteq> None"
    and p: "packet p" "length p \<le> m" and m: "m \<le> kmax K" "m \<le> MAX_RW_COUNT"
  shows "\<exists>d s. dev_write K w fd p = (int (length p), w\<lparr>w_dev := d, w_mem := s\<rparr>) \<and>
     device_ok K room (w\<lparr>w_dev := d, w_mem := s\<rparr>) \<and> lines d s = take_last 10 (w_lines w @ [p])"
proof -
  have fit: "length p < 2 ^ 64" using p m by (simp add: MAX_RW_COUNT_def)
  have ne: "p \<noteq> []" using p(1) by (auto simp: packet_def)
  have inv: "dev_inv K (w_dev w) (w_mem w)" "intact (w_dev w) (w_mem w)" "room (w_mem w)"
    and part: "partial (w_dev w) (w_mem w) = []" and nc: "\<not> w_crashed w"
    using w by (simp_all add: device_ok_def)
  obtain d s where "aesd_write K (w_dev w) (w_mem w) p (of_nat (length p)) = Some (int (length p), d, s)"
    "dev_inv K d s" "intact d s" "room s"
    "(lines d s, partial d s) = spec_write (w_lines w, partial (w_dev w) (w_mem w)) p"
    using write_serves [OF K S inv, of p "of_nat (length p)"] fit ne part p m by (auto simp: unat_of_nat_64)
  then show ?thesis using w(2) p m part nc
    by (intro exI [of _ d] exI [of _ s])
      (auto simp: dev_write_def sys_ret_def device_ok_def spec_write_packet [OF p(1)])
qed

lemma dev_read_serves:
  assumes K: "kernel_ok K" and S: "kernel_serves K room" and w: "device_ok K room w" "w_fds w fd = Some filp"
    and n: "0 < n"
  shows "\<exists>bs pos s. dev_read K w fd n = (int (length bs), bs,
       w\<lparr>w_mem := s, w_fds := (w_fds w)(fd \<mapsto> filp\<lparr>f_pos := pos\<rparr>)\<rparr>) \<and>
     cells s = cells (w_mem w) \<and> room s \<and>
     drop (unat (f_pos filp)) (concat (w_lines w)) = bs @ drop (unat pos) (concat (w_lines w)) \<and>
     (bs = [] \<longrightarrow> drop (unat (f_pos filp)) (concat (w_lines w)) = [])"
proof -
  let ?n = "min n MAX_RW_COUNT"
  have cnt: "unat (of_nat ?n :: size_t) = ?n" "0 < ?n"
    using n by (simp_all add: unat_of_nat_64 MAX_RW_COUNT_def)
  have inv: "dev_inv K (w_dev w) (w_mem w)" "room (w_mem w)" using w by (simp_all add: device_ok_def)
  obtain bs pos s where r: "aesd_read K (w_dev w) (w_mem w) (of_nat ?n) (f_pos filp) =
      Some (int (length bs), bs, pos, w_dev w, s)" "cells s = cells (w_mem w)" "room s"
    and bs: "bs = spec_read (w_lines w) ?n (unat (f_pos filp))" "unat pos = unat (f_pos filp) + length bs"
    using read_serves [OF K S inv, of "of_nat ?n" "f_pos filp"] cnt by auto
  obtain rest where rest: "drop (unat (f_pos filp)) (concat (w_lines w)) = bs @ rest"
    using spec_read_prefix bs(1) by blast
  then have "rest = drop (length bs) (drop (unat (f_pos filp)) (concat (w_lines w)))" by simp
  then have "rest = drop (unat pos) (concat (w_lines w))" using bs(2) by (simp add: add.commute)
  moreover have "bs = [] \<longrightarrow> drop (unat (f_pos filp)) (concat (w_lines w)) = []"
    using bs(1) cnt(2) spec_read_Nil_iff by auto
  ultimately show ?thesis using r rest w(2)
    by (intro exI [of _ bs] exI [of _ pos] exI [of _ s]) (simp add: dev_read_def sys_ret_def)
qed

lemma device_serves:
  assumes K: "kernel_ok K" and S: "kernel_serves K room" and H: "host_ok H m"
    and m: "m \<le> kmax K" "m \<le> MAX_RW_COUNT"
  shows "os_serves (device_os K H) (device_view K room m cfd) cfd"
proof -
  let ?os = "device_os K H" and ?V = "device_view K room m cfd"
  note s = os_simps view_simps unchanged_def
  have h: "h_fd H w \<noteq> - 1" "0 < h_recv H w fd" "0 < h_send H w fd" for w fd
    using H by (simp_all add: host_ok_def)
  have "serves_open ?os ?V"
    unfolding serves_open_def s
  proof (intro allI impI)
    fix w flags assume "device_ok K room w"
    let ?f = "snd (aesd_open K 1 new_file)"
    let ?w = "w\<lparr>w_fds := (w_fds w)(h_fd H w \<mapsto> ?f)\<rparr>"
    have "dev_open K H w flags = (h_fd H w, ?w)" by (simp add: dev_open_def aesd_open_def Let_def)
    moreover have "v_rest ?V ?w (h_fd H w) = concat (w_lines w)"
      by (subst rest_simps [where filp = ?f]) (simp_all add: aesd_open_def new_file_def)
    ultimately show "\<exists>fd w'. dev_open K H w flags = (fd, w') \<and> fd \<noteq> - 1 \<and>
       (device_ok K room w' \<and> w_in w' cfd = w_in w cfd \<and> w_out w' cfd = w_out w cfd \<and>
        (w_lines w', dev_others cfd w') = (w_lines w, dev_others cfd w)) \<and>
       w_fds w' fd \<noteq> None \<and> v_rest ?V w' fd = concat (fst (w_lines w, dev_others cfd w))"
      using h(1) \<open>device_ok K room w\<close> by (intro exI [of _ "h_fd H w"] exI [of _ ?w]) simp
  qed
  moreover have "serves_write ?os ?V"
    unfolding serves_write_def s
  proof (intro allI impI)
    fix w fd p assume a: "device_ok K room w" "w_fds w fd \<noteq> None" "packet p" "length p \<le> m"
    from dev_write_serves [OF K S a m] obtain d s where
      "dev_write K w fd p = (int (length p), w\<lparr>w_dev := d, w_mem := s\<rparr>)"
      "device_ok K room (w\<lparr>w_dev := d, w_mem := s\<rparr>)" "lines d s = take_last 10 (w_lines w @ [p])" by blast
    with a(2) show "\<exists>w'. dev_write K w fd p = (int (length p), w') \<and> device_ok K room w' \<and>
        w_fds w' fd \<noteq> None \<and> w_in w' cfd = w_in w cfd \<and> w_out w' cfd = w_out w cfd \<and>
        (w_lines w', dev_others cfd w') =
          (take_last 10 (fst (w_lines w, dev_others cfd w) @ [p]), snd (w_lines w, dev_others cfd w))"
      by (intro exI [of _ "w\<lparr>w_dev := d, w_mem := s\<rparr>"]) simp
  qed
  moreover have "serves_fsync ?os ?V"
    by (auto simp: serves_fsync_def s dev_fsync_def aesd_fsync_def sys_ret_def)
  moreover have "serves_close ?os ?V" "serves_hangup ?os ?V cfd"
    by (auto simp: serves_close_def serves_hangup_def s dev_close_def)
  moreover have "serves_read ?os ?V"
    unfolding serves_read_def s
  proof (intro allI impI)
    fix w fd n assume w: "device_ok K room w" "w_fds w fd \<noteq> None" and n: "0 < (n :: nat)"
    then obtain filp where filp: "w_fds w fd = Some filp" by blast
    from dev_read_serves [OF K S w(1) filp n] obtain bs pos s where r:
      "dev_read K w fd n = (int (length bs), bs, w\<lparr>w_mem := s, w_fds := (w_fds w)(fd \<mapsto> filp\<lparr>f_pos := pos\<rparr>)\<rparr>)"
      "cells s = cells (w_mem w)" "room s"
      "drop (unat (f_pos filp)) (concat (w_lines w)) = bs @ drop (unat pos) (concat (w_lines w))"
      "bs = [] \<longrightarrow> drop (unat (f_pos filp)) (concat (w_lines w)) = []" by blast
    let ?w = "w\<lparr>w_mem := s, w_fds := (w_fds w)(fd \<mapsto> filp\<lparr>f_pos := pos\<rparr>)\<rparr>"
    note sc = same_cells_ok [OF w(1) r(2,3)]
    have "device_ok K room ?w" "w_lines ?w = w_lines w" using sc by simp_all
    moreover from this have "v_rest ?V ?w fd = drop (unat pos) (concat (w_lines w))"
      by (subst rest_simps [where filp = "filp\<lparr>f_pos := pos\<rparr>"]) simp_all
    ultimately show "\<exists>bs w'. dev_read K w fd n = (int (length bs), bs, w') \<and>
       (device_ok K room w' \<and> w_in w' cfd = w_in w cfd \<and> w_out w' cfd = w_out w cfd \<and>
        (w_lines w', dev_others cfd w') = (w_lines w, dev_others cfd w)) \<and>
       w_fds w' fd \<noteq> None \<and> v_rest ?V w fd = bs @ v_rest ?V w' fd \<and> (bs = [] \<longrightarrow> v_rest ?V w fd = [])"
      using r rest_simps [OF filp]
      by (intro exI [of _ bs] exI [of _ ?w]) simp
  qed
  moreover have "serves_send ?os ?V cfd"
    unfolding serves_send_def s
  proof (intro allI impI)
    fix w bs assume w: "device_ok K room w" and "bs \<noteq> ([] :: byte list)"
    let ?k = "min (h_send H w cfd) (length bs)"
    let ?w = "w\<lparr>w_out := (w_out w)(cfd := w_out w cfd @ take (h_send H w cfd) bs)\<rparr>"
    have "sock_send H w cfd bs = (int ?k, ?w)" by (simp add: sock_send_def min.commute)
    moreover have "0 < ?k" using h \<open>bs \<noteq> []\<close> by simp
    moreover have "take ?k bs = take (h_send H w cfd) bs" by (simp add: min_def)
    moreover have "device_ok K room ?w" using w by (simp add: device_ok_def)
    ultimately show "\<exists>k w'. sock_send H w cfd bs = (int k, w') \<and> 0 < k \<and> k \<le> length bs \<and>
        device_ok K room w' \<and> w_out w' cfd = w_out w cfd @ take k bs \<and> w_in w' cfd = w_in w cfd \<and>
        (w_lines w', dev_others cfd w') = (w_lines w, dev_others cfd w) \<and>
        (\<forall>fd. w_fds w fd \<noteq> None \<longrightarrow> w_fds w' fd \<noteq> None \<and> v_rest ?V w' fd = v_rest ?V w fd)"
      by (intro exI [of _ ?k] exI [of _ ?w]) simp
  qed
  moreover have "serves_recv ?os ?V cfd"
    unfolding serves_recv_def s
  proof (intro allI impI)
    fix w n assume w: "device_ok K room w" and n: "0 < (n :: nat)"
    let ?bs = "take (min n (h_recv H w cfd)) (w_in w cfd)"
    let ?w = "w\<lparr>w_in := (w_in w)(cfd := drop (length ?bs) (w_in w cfd))\<rparr>"
    have "sock_recv H w cfd n = (int (length ?bs), ?bs, ?w)" by (simp add: sock_recv_def)
    moreover have "?bs = [] \<longrightarrow> w_in w cfd = []" using h(2) [of w cfd] n by auto
    moreover have "w_in w cfd = ?bs @ drop (length ?bs) (w_in w cfd)"
      by (metis append_take_drop_id append_eq_conv_conj)
    moreover have "device_ok K room ?w" using w by (simp add: device_ok_def)
    ultimately show "\<exists>bs w'. sock_recv H w cfd n = (int (length bs), bs, w') \<and> length bs \<le> n \<and>
        device_ok K room w' \<and> w_in w cfd = bs @ w_in w' cfd \<and> (bs = [] \<longrightarrow> w_in w cfd = []) \<and>
        w_out w' cfd = w_out w cfd \<and> (w_lines w', dev_others cfd w') = (w_lines w, dev_others cfd w)"
      by (intro exI [of _ ?bs] exI [of _ ?w]) simp
  qed
  moreover have "serves_memory ?os ?V"
    using H m kmax_less [OF K]
    by (auto simp: serves_memory_def realloc_ok_def s host_ok_def)
  moreover have "serves_mutex ?os ?V"
    by (simp add: serves_mutex_def s)
  ultimately show ?thesis by (simp add: os_serves_def)
qed

section \<open>A connection on the device\<close>

text \<open>
  The session on the driver's log of at most ten lines: what the lines are afterwards and
  what the client was sent.
\<close>

fun log_session :: "byte list list \<Rightarrow> byte list list \<Rightarrow> byte list list \<times> byte list" where
  "log_session ls [] = (ls, [])"
| "log_session ls (p # ps) =
     (case seek_args p of
        None \<Rightarrow>
          let ls' = take_last 10 (ls @ [p]); (ls2, out) = log_session ls' ps
          in (ls2, concat ls' @ out)
      | Some (x, y) \<Rightarrow>
          (case spec_seek ls x y of
             None \<Rightarrow> (ls, [])
           | Some k \<Rightarrow> let (ls2, out) = log_session ls ps in (ls2, drop k (concat ls) @ out)))"

lemma session_device:
  "fst (session (device_view K room m cfd) True device_sk (ls, o') ps) = (fst (log_session ls ps), o') \<and>
   fst (snd (session (device_view K room m cfd) True device_sk (ls, o') ps)) = snd (log_session ls ps)"
proof (induction ps arbitrary: ls)
  case (Cons p ps)
  then show ?case
    by (cases "seek_args p")
      (auto simp: session.simps view_simps device_sk_def Let_def split_beta split: option.split)
qed simp

lemma device_seek_serves:
  assumes K: "kernel_ok K" and S: "kernel_serves K room"
  shows "serves_seek (device_os K H) (device_view K room m cfd) device_sk"
  unfolding serves_seek_def os_simps view_simps unchanged_def
proof (intro allI impI)
  fix w fd and to :: aesd_seekto
  assume w: "device_ok K room w" "w_fds w fd \<noteq> None"
  let ?V = "device_view K room m cfd" and ?x = "unat (write_cmd to)" and ?y = "unat (write_cmd_offset to)"
  obtain filp where filp: "w_fds w fd = Some filp" using w by blast
  have inv: "dev_inv K (w_dev w) (w_mem w)" "room (w_mem w)" using w by (simp_all add: device_ok_def)
  then have core: "dev_core K (w_dev w) (w_mem w)" by (simp add: dev_inv_def)
  obtain r filp' s where r: "aesd_ioctl K (w_dev w) (w_mem w) filp AESDCHAR_IOCSEEKTO to =
      Some (r, filp', w_dev w, s)" "cells s = cells (w_mem w)" "room s"
    and at: "case ioctl_target (w_lines w) to of None \<Rightarrow> r < 0 \<and> filp' = filp
      | Some p \<Rightarrow> r = 0 \<and> filp' = filp\<lparr>f_pos := p\<rparr>"
    using ioctl_serves [OF K S inv, of filp to] by blast
  let ?w = "w\<lparr>w_mem := s, w_fds := (w_fds w)(fd \<mapsto> filp')\<rparr>"
  note sc = same_cells_ok [OF w(1) r(2,3)]
  have io: "dev_ioctl K w fd AESDCHAR_IOCSEEKTO to = (sys_ret r, ?w)"
    using filp r(1) by (simp add: dev_ioctl_def)
  have same: "device_ok K room ?w" "w_lines ?w = w_lines w" using sc by simp_all
  have "case spec_seek (w_lines w) ?x ?y of None \<Rightarrow> sys_ret r = - 1
     | Some p \<Rightarrow> sys_ret r \<noteq> - 1 \<and> w_fds ?w fd \<noteq> None \<and> v_rest ?V ?w fd = drop p (concat (w_lines w))"
  proof (cases "spec_seek (w_lines w) ?x ?y")
    case None
    then have "ioctl_target (w_lines w) to = None" by (simp add: ioctl_target_def)
    then show ?thesis using at None by (simp add: sys_ret_def)
  next
    case (Some k)
    then have t: "ioctl_target (w_lines w) to = Some (of_nat k)" by (simp add: ioctl_target_def)
    have "k < length (dev_log (w_dev w) (w_mem w))"
      using Some spec_seek_inside(2) unfolding dev_log_def by blast
    then have "unat (of_nat k :: loff_t) = k"
      using dev_log_bound [OF K core] by (intro unat_of_nat_64) simp
    moreover have "v_rest ?V ?w fd = drop (unat (f_pos filp')) (concat (w_lines ?w))"
      by (rule rest_simps) simp
    ultimately show ?thesis using at t Some same(2) by (simp add: sys_ret_def)
  qed
  then show "\<exists>r w'. dev_ioctl K w fd AESDCHAR_IOCSEEKTO to = (r, w') \<and>
      (device_ok K room w' \<and> w_in w' cfd = w_in w cfd \<and> w_out w' cfd = w_out w cfd \<and>
       (w_lines w', dev_others cfd w') = (w_lines w, dev_others cfd w)) \<and>
      (case device_sk (w_lines w, dev_others cfd w) ?x ?y of None \<Rightarrow> r = - 1
       | Some p \<Rightarrow> r \<noteq> - 1 \<and> w_fds w' fd \<noteq> None \<and>
           v_rest ?V w' fd = drop p (concat (fst (w_lines w, dev_others cfd w))))"
    using io same by (intro exI [of _ "sys_ret r"] exI [of _ ?w]) (simp add: device_sk_def split: option.splits)
qed

lemma dev_others_eq:
  "dev_others cfd w' = dev_others cfd w \<Longrightarrow> fd \<noteq> cfd \<Longrightarrow> w_in w' fd = w_in w fd \<and> w_out w' fd = w_out w fd"
  unfolding dev_others_def by (drule fun_cong [of _ _ fd]) simp

text \<open>
  C9: a client of the server that runs on the driver: its data packets become lines of the
  driver's log, which keeps the last ten, and each is answered with the whole log; a command
  \<^verbatim>\<open>AESDCHAR_IOCSEEKTO:X,Y\<close> is answered with the log from byte Y of line X on, and the first
  one that names no byte of the log ends the service. The driver is never in undefined
  behaviour, and ends with its invariant; no other client's stream is touched.
\<close>

theorem device_connection:
  assumes "kernel_ok K" "kernel_serves K room" "host_ok H m" "m \<le> kmax K" "m \<le> MAX_RW_COUNT"
    and "device_ok K room w" "fits (device_view K room m cfd) True (w_in w cfd)"
  shows "\<exists>c w'. handle_connection True (device_os K H) cfd w = Some (Client_done, c, w') \<and>
     device_ok K room w' \<and> w_in w' cfd = [] \<and>
     w_lines w' = fst (log_session (w_lines w) (fst (split_lines (w_in w cfd)))) \<and>
     w_out w' cfd = w_out w cfd @ snd (log_session (w_lines w) (fst (split_lines (w_in w cfd)))) \<and>
     (\<forall>fd. fd \<noteq> cfd \<longrightarrow> w_in w' fd = w_in w fd \<and> w_out w' fd = w_out w fd)"
proof -
  let ?V = "device_view K room m cfd" and ?ps = "fst (split_lines (w_in w cfd))"
  note sess = session_device [of K room m cfd "w_lines w" "dev_others cfd w" ?ps]
  have os: "os_serves (device_os K H) ?V cfd" using device_serves assms(1-5) by blast
  have "v_ok ?V w" "fits ?V True (v_input ?V w)" using assms(6,7) by (simp_all add: view_simps)
  from handle_connection_serves [OF os this device_seek_serves [OF assms(1,2)]]
  obtain c w' where h: "handle_connection True (device_os K H) cfd w = Some (Client_done, c, w')"
    "v_input ?V w' = []" "did ?V (session ?V True device_sk (v_store ?V w) (fst (split_lines (v_input ?V w)))) w w'"
    by blast
  then have "device_ok K room w'" "w_in w' cfd = []" "w_lines w' = fst (log_session (w_lines w) ?ps)"
    "w_out w' cfd = w_out w cfd @ snd (log_session (w_lines w) ?ps)"
    "dev_others cfd w' = dev_others cfd w"
    using sess by (simp_all add: did_def view_simps)
  then show ?thesis using h(1) dev_others_eq by blast
qed

text \<open>
  A driver that has just been loaded, and at socket 5 a client that sends a line, seeks to its
  second byte, seeks to a line that is not there, and goes on. Socket 6 has another client.
\<close>

definition small_host :: host where
  "small_host =
     \<lparr>h_fd = (\<lambda>w. 3), h_recv = (\<lambda>w fd. 7), h_send = (\<lambda>w fd. 5),
      h_alloc = (\<lambda>w n. if unat n \<le> 65536 then Some (replicate (unat n) 0) else None)\<rparr>"

definition device_client :: "byte list" where
  "device_client = [97, 98, newline] @ seek_cmd 0 1 @ [99, newline] @ seek_cmd 7 0"

definition booted_world :: world where
  "booted_world =
     \<lparr>w_dev = fst booted, w_mem = snd booted, w_fds = (\<lambda>fd. None),
      w_in = (\<lambda>fd. if fd = 5 then device_client else if fd = 6 then [120] else []),
      w_out = (\<lambda>fd. []), w_crashed = False\<rparr>"

lemma small_host_ok: "host_ok small_host 512"
  by (simp add: host_ok_def small_host_def)

lemma booted_room: "simple_room (snd booted)"
proof -
  have "snd booted = \<lparr>cells = [32 \<mapsto> replicate 1024 0], tick = 1\<rparr>"
    by (simp add: booted_def aesd_init_module_def aesd_setup_cdev_def simple_kernel_def boot_state_def
        simple_alloc_def next_addr_def AESD_BUFFER_SIZE_def ZERO_SIZE_PTR_def Let_def)
  then show ?thesis by (auto simp: simple_room_def next_addr_def)
qed

lemma booted_world_start:
  "w_lines booted_world = []" "w_in booted_world 5 = device_client" "w_in booted_world 6 = [120]"
  "w_out booted_world fd = []"
  using booted_ok by (simp_all add: booted_world_def)

lemma booted_world_ok: "device_ok simple_kernel simple_room booted_world"
  using booted_ok booted_room by (simp add: device_ok_def booted_world_def)

lemma device_client_lines:
  "split_lines device_client = ([[97, 98, newline], seek_cmd 0 1, [99, newline], seek_cmd 7 0], [])"
  by code_simp

lemma device_client_log:
  "log_session [] [[97, 98, newline], seek_cmd 0 1, [99, newline], seek_cmd 7 0] =
     ([[97, 98, newline], [99, newline]],
      [97, 98, newline] @ [98, newline] @ [97, 98, newline, 99, newline])"
proof -
  have "seek_args [97, 98, newline] = None" "seek_args [99, newline] = None" by code_simp+
  then show ?thesis
    by (simp add: seek_args_cmd spec_seek_def take_last_def Let_def)
qed

theorem device_connection_witness:
  "\<exists>c w'. handle_connection True (device_os simple_kernel small_host) 5 booted_world = Some (Client_done, c, w') \<and>
     device_ok simple_kernel simple_room w' \<and> w_in w' 5 = [] \<and>
     w_lines w' = [[97, 98, newline], [99, newline]] \<and>
     w_out w' 5 = [97, 98, newline] @ [98, newline] @ [97, 98, newline, 99, newline] \<and>
     w_in w' 6 = [120] \<and> w_out w' 6 = []"
proof -
  have "command (seek_cmd 0 1)" "command (seek_cmd 7 0)"
    unfolding command_def by (rule exI [of _ 0] exI [of _ 7] exI [of _ 1], simp)+
  moreover have "length (seek_cmd 0 1) = 23" "length (seek_cmd 7 0) = 23"
    by (simp_all add: seek_cmd_def seek_prefix_def decimal.simps)
  moreover have "\<not> seek_packet [97, 98, newline]" "\<not> seek_packet [99, newline]"
    by (simp_all add: seek_packet_def seek_prefix_def)
  moreover have "length device_client = 51" by code_simp
  ultimately have "fits (device_view simple_kernel simple_room 512 5) True device_client"
    by (simp add: fits_def view_simps device_client_lines)
  then have fits: "fits (device_view simple_kernel simple_room 512 5) True (w_in booted_world 5)"
    by (simp only: booted_world_start)
  have m: "512 \<le> kmax simple_kernel" "512 \<le> MAX_RW_COUNT"
    by (simp_all add: simple_kernel_def MAX_RW_COUNT_def)
  from device_connection [OF simple_kernel_ok simple_kernel_serves small_host_ok m booted_world_ok fits]
  obtain c w' where r:
    "handle_connection True (device_os simple_kernel small_host) 5 booted_world = Some (Client_done, c, w')"
    "device_ok simple_kernel simple_room w'" "w_in w' 5 = []"
    "w_lines w' = fst (log_session [] (fst (split_lines device_client)))"
    "w_out w' 5 = snd (log_session [] (fst (split_lines device_client)))"
    "\<forall>fd. fd \<noteq> 5 \<longrightarrow> w_in w' fd = w_in booted_world fd \<and> w_out w' fd = w_out booted_world fd"
    unfolding booted_world_start append_Nil by blast
  have "w_in w' 6 = w_in booted_world 6 \<and> w_out w' 6 = w_out booted_world 6"
    using r(6) by (metis numeral_eq_iff semiring_norm(89))
  then show ?thesis
    using r unfolding device_client_lines fst_conv snd_conv device_client_log booted_world_start by blast
qed

section \<open>All clients of the device\<close>

lemma device_serves_clients:
  assumes "kernel_ok K" "kernel_serves K room" "host_ok H m" "m \<le> kmax K" "m \<le> MAX_RW_COUNT"
  shows "serves_clients (device_os K H) (device_clients K room m)"
  using device_serves [OF assms] by (simp add: serves_clients_def device_view_def)

lemma device_serves_seeks:
  assumes "kernel_ok K" "kernel_serves K room"
  shows "serves_seeks (device_os K H) (device_clients K room m)"
proof -
  have "client_sk (device_clients K room m) = device_sk"
    by (simp add: fun_eq_iff client_sk_def device_sk_def device_clients_simps)
  then show ?thesis using device_seek_serves [OF assms] by (simp add: serves_seeks_def device_view_def)
qed

text \<open>The packets that a history stored, and the log they leave: the last ten lines.\<close>

fun stored :: "history \<Rightarrow> byte list list" where
  "stored [] = []"
| "stored ((who, Stored p) # h) = p # stored h"
| "stored ((who, Answered p k) # h) = stored h"

lemma device_file_after:
  "length ls \<le> 10 \<Longrightarrow> file_after (device_clients K room m) ls h = take_last 10 (ls @ stored h)"
proof (induction h arbitrary: ls rule: stored.induct)
  case (2 who p h)
  have "file_after (device_clients K room m) (take_last 10 (ls @ [p])) h = take_last 10 (take_last 10 (ls @ [p]) @ stored h)"
    by (rule "2.IH") (simp add: length_take_last)
  then show ?case by (simp add: device_clients_simps take_last_append)
qed simp_all

text \<open>Two clients at the loaded driver, 5 with two lines and 6 with one.\<close>

definition two_streams :: world where
  "two_streams = booted_world\<lparr>w_in := (\<lambda>fd. if fd = 5 then [97, newline, 98, newline]
     else if fd = 6 then [99, newline, 100] else [])\<rparr>"

lemma two_streams_served:
  "served_world True (device_os simple_kernel small_host) (device_clients simple_kernel simple_room 512) two_streams"
proof -
  have lines: "split_lines [97, newline, 98, newline] = ([[97, newline], [98, newline]], [])"
    "split_lines [99, newline, 100] = ([[99, newline]], [100])" "split_lines [] = ([], [])" by code_simp+
  have data: "fits V True [97, newline, 98, newline]" "fits V True [99, newline, 100]"
    "fits V True []" if "v_max V = 512" for V :: "(world, byte list list \<times> streams) view"
    using that by (simp_all add: fits_def seeks_def lines seek_packet_def seek_prefix_def)
  have "device_ok simple_kernel simple_room two_streams"
    using booted_world_ok by (simp add: two_streams_def)
  moreover have "serves_clients (device_os simple_kernel small_host) (device_clients simple_kernel simple_room 512)"
    by (rule device_serves_clients [OF simple_kernel_ok simple_kernel_serves small_host_ok])
      (simp_all add: simple_kernel_def MAX_RW_COUNT_def)
  moreover note device_serves_seeks [OF simple_kernel_ok simple_kernel_serves, of small_host 512]
  ultimately show ?thesis
    using data [of "client_view (device_clients simple_kernel simple_room 512) _"]
    by (simp add: served_world_def device_clients_simps two_streams_def)
qed

text \<open>A thread that has received the two lines of client 5 and stored one byte of them.\<close>

theorem connection_stays_well_formed_witness:
  "\<exists>t w b. runs True (device_os simple_kernel small_host) 5 (new_thread, two_streams) (t, w) \<and>
     packet_buf (th_conn t) = Some b \<and> length b = 1024 \<and> unat (packet_len (th_conn t)) \<le> length b"
proof -
  let ?os = "device_os simple_kernel small_host" and ?bs = "[newline, 98, newline]"
  define w1 where "w1 = two_streams\<lparr>w_in := (w_in two_streams)(5 := [])\<rparr>"
  let ?t1 = "\<lparr>th_phase = Bytes (97 # ?bs), th_conn = new_conn\<rparr>"
  have "thread_step True ?os 5 new_thread two_streams = Some (?t1, w1)"
    by (simp add: thread_step_def new_thread_def os_simps sock_recv_def small_host_def two_streams_def w1_def Let_def)
  moreover obtain c where c: "grow_packet ?os new_conn w1 = (True, c, w1)" "packet_size c = 1024"
    by (simp add: grow_packet_def new_conn_def os_simps small_host_def)
  have re: "realloc_ok ?os"
    using small_host_ok by (auto simp: realloc_ok_def os_simps host_ok_def)
  note put = process_byte_put [OF new_conn_ok(1) re c(1)]
  let ?t2 = "\<lparr>th_phase = Bytes ?bs, th_conn = put_byte c 97\<rparr>"
  have "thread_step True ?os 5 ?t1 w1 = Some (?t2, w1)" using put(5) by (simp add: thread_step_def)
  ultimately have r: "runs True ?os 5 (new_thread, two_streams) (?t2, w1)"
    by (intro runs_step [OF _ _ runs_step [OF _ _ runs_refl]]) (simp_all add: active_def new_thread_def)
  obtain b where b: "packet_buf (put_byte c 97) = Some b" using put(4) by blast
  have "packet_size (put_byte c 97) = 1024" using c(2) by (simp add: put_byte_def split: option.split)
  then show ?thesis
    using connection_stays_well_formed [OF re r] b r by (intro exI [of _ ?t2] exI [of _ w1] exI [of _ b]) (simp add: active_def)
qed

end
