(* ===== verification/Tail_Queue.thy ===== *)
theory Tail_Queue
  imports Interfaces
begin

text \<open>
  The tail queue of \<^verbatim>\<open>server/queue.h\<close>, the macros the server keeps its threads with, over a
  memory of pointers. A location is the address of a pointer cell: the \<open>tqh_first\<close> of a
  head or the \<open>tqe_next\<close> of an element; \<open>tqh_last\<close> and \<open>tqe_prev\<close> hold locations.
  Reading or writing a field of an element that is not allocated is undefined behaviour
  (\<open>None\<close>). The abstract view of a head is the list of its elements, \<open>tailq\<close>. The
  macros are built without \<open>INVARIANTS\<close> and \<open>QUEUE_MACRO_DEBUG\<close>, so the checking and
  tracing hooks are empty.
\<close>

section \<open>Memory\<close>

datatype loc = HeadFirst ptr | NextOf ptr

record tq_mem =
  tqh_first :: "ptr \<Rightarrow> ptr"
  tqh_last :: "ptr \<Rightarrow> loc"
  tqe_next :: "ptr \<Rightarrow> ptr"
  tqe_prev :: "ptr \<Rightarrow> loc"
  elem_live :: "ptr \<Rightarrow> bool"

definition get_next :: "tq_mem \<Rightarrow> ptr \<Rightarrow> ptr option" where
  "get_next m e = (if elem_live m e then Some (tqe_next m e) else None)"

definition get_prev :: "tq_mem \<Rightarrow> ptr \<Rightarrow> loc option" where
  "get_prev m e = (if elem_live m e then Some (tqe_prev m e) else None)"

definition set_next :: "tq_mem \<Rightarrow> ptr \<Rightarrow> ptr \<Rightarrow> tq_mem option" where
  "set_next m e v = (if elem_live m e then Some (m\<lparr>tqe_next := (tqe_next m)(e := v)\<rparr>) else None)"

definition set_prev :: "tq_mem \<Rightarrow> ptr \<Rightarrow> loc \<Rightarrow> tq_mem option" where
  "set_prev m e l = (if elem_live m e then Some (m\<lparr>tqe_prev := (tqe_prev m)(e := l)\<rparr>) else None)"

definition set_last :: "tq_mem \<Rightarrow> ptr \<Rightarrow> loc \<Rightarrow> tq_mem" where
  "set_last m h l = m\<lparr>tqh_last := (tqh_last m)(h := l)\<rparr>"

text \<open>\<open>*l\<close> and \<open>*l = v\<close>.\<close>

definition get_loc :: "tq_mem \<Rightarrow> loc \<Rightarrow> ptr option" where
  "get_loc m l = (case l of HeadFirst h \<Rightarrow> Some (tqh_first m h) | NextOf e \<Rightarrow> get_next m e)"

definition set_loc :: "tq_mem \<Rightarrow> loc \<Rightarrow> ptr \<Rightarrow> tq_mem option" where
  "set_loc m l v =
     (case l of HeadFirst h \<Rightarrow> Some (m\<lparr>tqh_first := (tqh_first m)(h := v)\<rparr>)
      | NextOf e \<Rightarrow> set_next m e v)"

section \<open>The macros\<close>

definition TAILQ_EMPTY :: "tq_mem \<Rightarrow> ptr \<Rightarrow> bool" where
  "TAILQ_EMPTY m head \<longleftrightarrow> tqh_first m head = NULL"

definition TAILQ_FIRST :: "tq_mem \<Rightarrow> ptr \<Rightarrow> ptr" where
  "TAILQ_FIRST m head = tqh_first m head"

definition TAILQ_NEXT :: "tq_mem \<Rightarrow> ptr \<Rightarrow> ptr option" where
  "TAILQ_NEXT m elm = get_next m elm"

definition TAILQ_INIT :: "tq_mem \<Rightarrow> ptr \<Rightarrow> tq_mem" where
  "TAILQ_INIT m head =
     set_last (m\<lparr>tqh_first := (tqh_first m)(head := NULL)\<rparr>) head (HeadFirst head)"

text \<open>The static initialiser: the two fields of a head.\<close>

definition TAILQ_HEAD_INITIALIZER :: "ptr \<Rightarrow> ptr \<times> loc" where
  "TAILQ_HEAD_INITIALIZER head = (NULL, HeadFirst head)"

lemma TAILQ_INIT_initializer:
  "(tqh_first (TAILQ_INIT m head) head, tqh_last (TAILQ_INIT m head) head) = TAILQ_HEAD_INITIALIZER head"
  by (simp add: TAILQ_INIT_def set_last_def TAILQ_HEAD_INITIALIZER_def)

definition TAILQ_INSERT_TAIL :: "tq_mem \<Rightarrow> ptr \<Rightarrow> ptr \<Rightarrow> tq_mem option" where
  "TAILQ_INSERT_TAIL m head elm = do {
     m1 \<leftarrow> set_next m elm NULL;
     m2 \<leftarrow> set_prev m1 elm (tqh_last m1 head);
     m3 \<leftarrow> set_loc m2 (tqh_last m2 head) elm;
     Some (set_last m3 head (NextOf elm))
   }"

definition TAILQ_INSERT_HEAD :: "tq_mem \<Rightarrow> ptr \<Rightarrow> ptr \<Rightarrow> tq_mem option" where
  "TAILQ_INSERT_HEAD m head elm = do {
     m1 \<leftarrow> set_next m elm (TAILQ_FIRST m head);
     m2 \<leftarrow> (if TAILQ_FIRST m head \<noteq> NULL then set_prev m1 (TAILQ_FIRST m1 head) (NextOf elm)
             else Some (set_last m1 head (NextOf elm)));
     m3 \<leftarrow> set_loc m2 (HeadFirst head) elm;
     set_prev m3 elm (HeadFirst head)
   }"

definition TAILQ_INSERT_AFTER :: "tq_mem \<Rightarrow> ptr \<Rightarrow> ptr \<Rightarrow> ptr \<Rightarrow> tq_mem option" where
  "TAILQ_INSERT_AFTER m head listelm elm = do {
     n \<leftarrow> TAILQ_NEXT m listelm;
     m1 \<leftarrow> set_next m elm n;
     m2 \<leftarrow> (if n \<noteq> NULL then do { n' \<leftarrow> TAILQ_NEXT m1 elm; set_prev m1 n' (NextOf elm) }
             else Some (set_last m1 head (NextOf elm)));
     m3 \<leftarrow> set_next m2 listelm elm;
     set_prev m3 elm (NextOf listelm)
   }"

definition TAILQ_INSERT_BEFORE :: "tq_mem \<Rightarrow> ptr \<Rightarrow> ptr \<Rightarrow> tq_mem option" where
  "TAILQ_INSERT_BEFORE m listelm elm = do {
     p \<leftarrow> get_prev m listelm;
     m1 \<leftarrow> set_prev m elm p;
     m2 \<leftarrow> set_next m1 elm listelm;
     p' \<leftarrow> get_prev m2 listelm;
     m3 \<leftarrow> set_loc m2 p' elm;
     set_prev m3 listelm (NextOf elm)
   }"

definition TAILQ_REMOVE :: "tq_mem \<Rightarrow> ptr \<Rightarrow> ptr \<Rightarrow> tq_mem option" where
  "TAILQ_REMOVE m head elm = do {
     n \<leftarrow> TAILQ_NEXT m elm;
     p \<leftarrow> get_prev m elm;
     m1 \<leftarrow> (if n \<noteq> NULL then set_prev m n p else Some (set_last m head p));
     p' \<leftarrow> get_prev m1 elm;
     n' \<leftarrow> TAILQ_NEXT m1 elm;
     set_loc m1 p' n'
   }"

definition TAILQ_CONCAT :: "tq_mem \<Rightarrow> ptr \<Rightarrow> ptr \<Rightarrow> tq_mem option" where
  "TAILQ_CONCAT m head1 head2 =
     (if TAILQ_EMPTY m head2 then Some m
      else do {
        m1 \<leftarrow> set_loc m (tqh_last m head1) (tqh_first m head2);
        m2 \<leftarrow> set_prev m1 (tqh_first m1 head2) (tqh_last m1 head1);
        Some (TAILQ_INIT (set_last m2 head1 (tqh_last m2 head2)) head2)
      })"

definition TAILQ_SWAP :: "tq_mem \<Rightarrow> ptr \<Rightarrow> ptr \<Rightarrow> tq_mem option" where
  "TAILQ_SWAP m head1 head2 = do {
     let swap_first = tqh_first m head1;
     let swap_last = tqh_last m head1;
     m1 \<leftarrow> set_loc m (HeadFirst head1) (tqh_first m head2);
     let m2 = set_last m1 head1 (tqh_last m1 head2);
     m3 \<leftarrow> set_loc m2 (HeadFirst head2) swap_first;
     let m4 = set_last m3 head2 swap_last;
     m5 \<leftarrow> (if tqh_first m4 head1 \<noteq> NULL then set_prev m4 (tqh_first m4 head1) (HeadFirst head1)
             else Some (set_last m4 head1 (HeadFirst head1)));
     (if tqh_first m5 head2 \<noteq> NULL then set_prev m5 (tqh_first m5 head2) (HeadFirst head2)
      else Some (set_last m5 head2 (HeadFirst head2)))
   }"

text \<open>
  \<open>TAILQ_LAST\<close> and \<open>TAILQ_PREV\<close> read the structure that starts at a location as a head:
  at the address of a head it is that head, and at the address of a \<open>tqe_next\<close> the
  \<open>tqh_last\<close> of the cast is the \<open>tqe_prev\<close> that lies after it.
\<close>

definition last_at :: "tq_mem \<Rightarrow> loc \<Rightarrow> loc option" where
  "last_at m l = (case l of HeadFirst h \<Rightarrow> Some (tqh_last m h) | NextOf e \<Rightarrow> get_prev m e)"

definition TAILQ_LAST :: "tq_mem \<Rightarrow> ptr \<Rightarrow> ptr option" where
  "TAILQ_LAST m head = do { l \<leftarrow> last_at m (tqh_last m head); get_loc m l }"

definition TAILQ_PREV :: "tq_mem \<Rightarrow> ptr \<Rightarrow> ptr option" where
  "TAILQ_PREV m elm = do { p \<leftarrow> get_prev m elm; l \<leftarrow> last_at m p; get_loc m l }"

text \<open>
  The loops, as the list of elements they visit (a body that changes nothing) and, for the
  safe variants, with a body. A loop that never ends has no value. \<open>var\<close> is the value of
  the loop variable before a \<open>FROM\<close> loop.
\<close>

definition TAILQ_FOREACH :: "tq_mem \<Rightarrow> ptr \<Rightarrow> ptr list option" where
  "TAILQ_FOREACH m head = foreach_visits (TAILQ_NEXT m) (TAILQ_FIRST m head)"

definition TAILQ_FOREACH_FROM :: "tq_mem \<Rightarrow> ptr \<Rightarrow> ptr \<Rightarrow> ptr list option" where
  "TAILQ_FOREACH_FROM m var head =
     foreach_visits (TAILQ_NEXT m) (if var \<noteq> NULL then var else TAILQ_FIRST m head)"

definition TAILQ_FOREACH_SAFE :: "ptr \<Rightarrow> (ptr \<Rightarrow> tq_mem \<Rightarrow> tq_mem option) \<Rightarrow> tq_mem \<Rightarrow> tq_mem option" where
  "TAILQ_FOREACH_SAFE head body m = foreach_safe TAILQ_NEXT body (TAILQ_FIRST m head) m"

definition TAILQ_FOREACH_FROM_SAFE ::
  "ptr \<Rightarrow> ptr \<Rightarrow> (ptr \<Rightarrow> tq_mem \<Rightarrow> tq_mem option) \<Rightarrow> tq_mem \<Rightarrow> tq_mem option" where
  "TAILQ_FOREACH_FROM_SAFE var head body m =
     foreach_safe TAILQ_NEXT body (if var \<noteq> NULL then var else TAILQ_FIRST m head) m"

definition TAILQ_FOREACH_REVERSE :: "tq_mem \<Rightarrow> ptr \<Rightarrow> ptr list option" where
  "TAILQ_FOREACH_REVERSE m head = do {
     var \<leftarrow> TAILQ_LAST m head;
     foreach_visits (TAILQ_PREV m) var
   }"

definition TAILQ_FOREACH_REVERSE_FROM :: "tq_mem \<Rightarrow> ptr \<Rightarrow> ptr \<Rightarrow> ptr list option" where
  "TAILQ_FOREACH_REVERSE_FROM m var head = do {
     var \<leftarrow> (if var \<noteq> NULL then Some var else TAILQ_LAST m head);
     foreach_visits (TAILQ_PREV m) var
   }"

definition TAILQ_FOREACH_REVERSE_SAFE ::
  "ptr \<Rightarrow> (ptr \<Rightarrow> tq_mem \<Rightarrow> tq_mem option) \<Rightarrow> tq_mem \<Rightarrow> tq_mem option" where
  "TAILQ_FOREACH_REVERSE_SAFE head body m = do {
     var \<leftarrow> TAILQ_LAST m head;
     foreach_safe TAILQ_PREV body var m
   }"

definition TAILQ_FOREACH_REVERSE_FROM_SAFE ::
  "ptr \<Rightarrow> ptr \<Rightarrow> (ptr \<Rightarrow> tq_mem \<Rightarrow> tq_mem option) \<Rightarrow> tq_mem \<Rightarrow> tq_mem option" where
  "TAILQ_FOREACH_REVERSE_FROM_SAFE var head body m = do {
     var \<leftarrow> (if var \<noteq> NULL then Some var else TAILQ_LAST m head);
     foreach_safe TAILQ_PREV body var m
   }"

text \<open>
  The checks of a build with \<open>INVARIANTS\<close>: true where they do not panic.
\<close>

definition QMD_TAILQ_CHECK_HEAD :: "tq_mem \<Rightarrow> ptr \<Rightarrow> bool option" where
  "QMD_TAILQ_CHECK_HEAD m head =
     (if \<not> TAILQ_EMPTY m head then do { p \<leftarrow> get_prev m (TAILQ_FIRST m head); Some (p = HeadFirst head) }
      else Some True)"

definition QMD_TAILQ_CHECK_TAIL :: "tq_mem \<Rightarrow> ptr \<Rightarrow> bool option" where
  "QMD_TAILQ_CHECK_TAIL m head = do { v \<leftarrow> get_loc m (tqh_last m head); Some (v = NULL) }"

definition QMD_TAILQ_CHECK_NEXT :: "tq_mem \<Rightarrow> ptr \<Rightarrow> bool option" where
  "QMD_TAILQ_CHECK_NEXT m elm = do {
     n \<leftarrow> TAILQ_NEXT m elm;
     (if n \<noteq> NULL then do { p \<leftarrow> get_prev m n; Some (p = NextOf elm) } else Some True)
   }"

definition QMD_TAILQ_CHECK_PREV :: "tq_mem \<Rightarrow> ptr \<Rightarrow> bool option" where
  "QMD_TAILQ_CHECK_PREV m elm = do {
     p \<leftarrow> get_prev m elm;
     v \<leftarrow> get_loc m p;
     Some (v = elm)
   }"

section \<open>The abstract view\<close>

text \<open>The pointer in a cell, and a chain of elements from a cell on up to a pointer.\<close>

definition peek :: "tq_mem \<Rightarrow> loc \<Rightarrow> ptr" where
  "peek m l = (case l of HeadFirst h \<Rightarrow> tqh_first m h | NextOf e \<Rightarrow> tqe_next m e)"

fun chain :: "tq_mem \<Rightarrow> loc \<Rightarrow> ptr list \<Rightarrow> ptr \<Rightarrow> bool" where
  "chain m l [] q \<longleftrightarrow> peek m l = q"
| "chain m l (x # xs) q \<longleftrightarrow>
     peek m l = x \<and> x \<noteq> NULL \<and> elem_live m x \<and> tqe_prev m x = l \<and> chain m (NextOf x) xs q"

definition end_loc :: "loc \<Rightarrow> ptr list \<Rightarrow> loc" where
  "end_loc l xs = (if xs = [] then l else NextOf (last xs))"

definition tailq :: "tq_mem \<Rightarrow> ptr \<Rightarrow> ptr list \<Rightarrow> bool" where
  "tailq m h xs \<longleftrightarrow>
     distinct xs \<and> chain m (HeadFirst h) xs NULL \<and> tqh_last m h = end_loc (HeadFirst h) xs"

lemma end_loc_simps [simp]:
  "end_loc l [] = l" "end_loc l (xs @ [x]) = NextOf x" "end_loc l (x # xs) = end_loc (NextOf x) xs"
  by (simp_all add: end_loc_def)

lemma end_loc_append [simp]: "end_loc l (xs @ ys) = end_loc (end_loc l xs) ys"
  by (induction xs arbitrary: l) simp_all

lemma end_loc_cases: "end_loc l xs = l \<and> xs = [] \<or> (\<exists>x \<in> set xs. end_loc l xs = NextOf x)"
  by (cases xs rule: rev_cases) auto

lemma chain_append [simp]:
  "chain m l (xs @ y # ys) q \<longleftrightarrow>
     chain m l xs y \<and> y \<noteq> NULL \<and> elem_live m y \<and> tqe_prev m y = end_loc l xs \<and> chain m (NextOf y) ys q"
  by (induction xs arbitrary: l) auto

lemma chain_elem: "chain m l xs q \<Longrightarrow> x \<in> set xs \<Longrightarrow> x \<noteq> NULL \<and> elem_live m x"
  by (induction xs arbitrary: l) auto

lemma chain_end: "chain m l xs q \<Longrightarrow> peek m (end_loc l xs) = q"
  by (induction xs arbitrary: l) auto

text \<open>A chain does not see changes outside its cells.\<close>

lemma chain_cong:
  assumes "peek m' l = peek m l"
    and "\<And>x. x \<in> set xs \<Longrightarrow> tqe_next m' x = tqe_next m x \<and> tqe_prev m' x = tqe_prev m x \<and>
      elem_live m' x = elem_live m x"
  shows "chain m' l xs q = chain m l xs q"
  using assms by (induction xs arbitrary: l) (auto simp: peek_def)

text \<open>Writing the cell at the end of a chain changes where it leads, and nothing else.\<close>

lemma chain_redirect:
  assumes "chain m l xs q" "distinct xs" "\<forall>x \<in> set xs. l \<noteq> NextOf x"
    and "peek m' (end_loc l xs) = v"
    and "\<And>c. c \<noteq> end_loc l xs \<Longrightarrow> c = l \<or> (\<exists>x \<in> set xs. c = NextOf x) \<Longrightarrow> peek m' c = peek m c"
    and "\<And>x. x \<in> set xs \<Longrightarrow> tqe_prev m' x = tqe_prev m x \<and> elem_live m' x = elem_live m x"
  shows "chain m' l xs v"
  using assms
proof (induction xs arbitrary: l)
  case (Cons x xs)
  have "chain m' (NextOf x) xs v"
    by (rule Cons.IH) (use Cons.prems in auto)
  moreover have "l \<noteq> end_loc (NextOf x) xs"
    using Cons.prems(3) end_loc_cases [of "NextOf x" xs] by auto
  ultimately show ?case using Cons.prems by auto
qed simp

section \<open>Cells\<close>

definition poke :: "tq_mem \<Rightarrow> loc \<Rightarrow> ptr \<Rightarrow> tq_mem" where
  "poke m l v =
     (case l of HeadFirst h \<Rightarrow> m\<lparr>tqh_first := (tqh_first m)(h := v)\<rparr>
      | NextOf e \<Rightarrow> m\<lparr>tqe_next := (tqe_next m)(e := v)\<rparr>)"

definition loc_live :: "tq_mem \<Rightarrow> loc \<Rightarrow> bool" where
  "loc_live m l = (case l of HeadFirst h \<Rightarrow> True | NextOf e \<Rightarrow> elem_live m e)"

named_theorems tq \<open>reading and writing the cells of a queue\<close>

lemma peek_poke [simp]: "peek (poke m l v) c = (if c = l then v else peek m c)"
  by (cases l; cases c) (simp_all add: peek_def poke_def)

lemma poke_fields [simp]:
  "tqe_prev (poke m l v) = tqe_prev m" "elem_live (poke m l v) = elem_live m"
  "tqh_last (poke m l v) = tqh_last m"
  "tqh_first (poke m l v) h = (if l = HeadFirst h then v else tqh_first m h)"
  "tqe_next (poke m l v) e = (if l = NextOf e then v else tqe_next m e)"
  by (cases l; simp add: poke_def)+

lemma set_last_fields [simp]:
  "tqe_prev (set_last m h l) = tqe_prev m" "elem_live (set_last m h l) = elem_live m"
  "tqh_first (set_last m h l) = tqh_first m" "tqe_next (set_last m h l) = tqe_next m"
  "tqh_last (set_last m h l) = (tqh_last m)(h := l)" "peek (set_last m h l) c = peek m c"
  by (cases c; simp add: set_last_def peek_def)+

lemma prev_update_fields [simp]: "peek (m\<lparr>tqe_prev := pr\<rparr>) c = peek m c"
  by (cases c) (simp_all add: peek_def)

lemma cell_ops [tq]:
  "elem_live m e \<Longrightarrow> set_next m e v = Some (poke m (NextOf e) v)"
  "elem_live m e \<Longrightarrow> set_prev m e l = Some (m\<lparr>tqe_prev := (tqe_prev m)(e := l)\<rparr>)"
  "elem_live m e \<Longrightarrow> get_prev m e = Some (tqe_prev m e)"
  "elem_live m e \<Longrightarrow> TAILQ_NEXT m e = Some (peek m (NextOf e))"
  "set_loc m (HeadFirst h) v = Some (poke m (HeadFirst h) v)"
  "loc_live m l \<Longrightarrow> set_loc m l v = Some (poke m l v)"
  "loc_live m l \<Longrightarrow> get_loc m l = Some (peek m l)"
  "TAILQ_FIRST m h = peek m (HeadFirst h)"
  "TAILQ_EMPTY m h \<longleftrightarrow> peek m (HeadFirst h) = NULL"
  by (cases l; simp add: set_next_def set_prev_def get_prev_def get_next_def set_loc_def get_loc_def
      poke_def peek_def loc_live_def TAILQ_NEXT_def TAILQ_FIRST_def TAILQ_EMPTY_def)+

lemma loc_live_end: "chain m l xs q \<Longrightarrow> loc_live m l \<Longrightarrow> loc_live m (end_loc l xs)"
  using end_loc_cases [of l xs] chain_elem [of m l xs q] by (auto simp: loc_live_def)

lemma loc_live_simps [simp]: "loc_live m (HeadFirst h)" "loc_live m (NextOf e) = elem_live m e"
  by (simp_all add: loc_live_def)

lemma loc_live_cong [simp]:
  "loc_live (poke m c v) l = loc_live m l" "loc_live (set_last m h k) l = loc_live m l"
  "loc_live (m\<lparr>tqe_prev := pr\<rparr>) l = loc_live m l"
  by (cases l; simp)+

section \<open>What a macro leaves alone\<close>

definition only_changes :: "ptr set \<Rightarrow> ptr set \<Rightarrow> tq_mem \<Rightarrow> tq_mem \<Rightarrow> bool" where
  "only_changes hs es m m' \<longleftrightarrow>
     (\<forall>g. g \<notin> hs \<longrightarrow> tqh_first m' g = tqh_first m g \<and> tqh_last m' g = tqh_last m g) \<and>
     (\<forall>x. x \<notin> es \<longrightarrow> tqe_next m' x = tqe_next m x \<and> tqe_prev m' x = tqe_prev m x) \<and>
     elem_live m' = elem_live m"

lemma tailq_other:
  assumes "only_changes hs es m m'" "tailq m g ys" "g \<notin> hs" "set ys \<inter> es = {}"
  shows "tailq m' g ys"
proof -
  have "chain m' (HeadFirst g) ys NULL = chain m (HeadFirst g) ys NULL"
    by (rule chain_cong) (use assms in \<open>auto simp: only_changes_def peek_def\<close>)
  then show ?thesis using assms by (simp add: tailq_def only_changes_def)
qed

lemma tailq_distinct: "tailq m h xs \<Longrightarrow> distinct xs"
  by (simp add: tailq_def)

lemma tailq_elem: "tailq m h xs \<Longrightarrow> x \<in> set xs \<Longrightarrow> x \<noteq> NULL \<and> elem_live m x"
  by (auto simp: tailq_def dest: chain_elem)

section \<open>The macros on lists\<close>

lemma TAILQ_INIT_tailq:
  "tailq (TAILQ_INIT m h) h [] \<and> only_changes {h} {} m (TAILQ_INIT m h)"
  by (simp add: TAILQ_INIT_def tailq_def only_changes_def peek_def)

lemma TAILQ_EMPTY_tailq: "tailq m h xs \<Longrightarrow> TAILQ_EMPTY m h \<longleftrightarrow> xs = []"
  by (cases xs) (auto simp: tailq_def tq)

lemma TAILQ_FIRST_tailq: "tailq m h xs \<Longrightarrow> TAILQ_FIRST m h = (if xs = [] then NULL else hd xs)"
  by (cases xs) (auto simp: tailq_def tq)

lemma TAILQ_NEXT_tailq:
  "tailq m h (xs @ x # ys) \<Longrightarrow> TAILQ_NEXT m x = Some (if ys = [] then NULL else hd ys)"
  by (cases ys) (auto simp: tailq_def tq)

lemma TAILQ_INSERT_TAIL_tailq:
  assumes q: "tailq m h xs" and e: "elem_live m e" "e \<noteq> NULL" "e \<notin> set xs"
  obtains m' where "TAILQ_INSERT_TAIL m h e = Some m'" "tailq m' h (xs @ [e])"
    "only_changes {h} (insert e (set xs)) m m'"
proof -
  let ?l = "end_loc (HeadFirst h) xs"
  have ch: "chain m (HeadFirst h) xs NULL" and last: "tqh_last m h = ?l" and d: "distinct xs"
    using q by (simp_all add: tailq_def)
  have live: "loc_live m ?l" using loc_live_end [OF ch] by simp
  have le: "?l \<noteq> NextOf e" using end_loc_cases [of "HeadFirst h" xs] e by auto
  define m1 where "m1 = (poke m (NextOf e) NULL)\<lparr>tqe_prev := (tqe_prev m)(e := ?l)\<rparr>"
  define m' where "m' = set_last (poke m1 ?l e) h (NextOf e)"
  have "TAILQ_INSERT_TAIL m h e = Some m'"
    using e live by (simp add: TAILQ_INSERT_TAIL_def tq last m'_def m1_def)
  moreover have "chain m' (HeadFirst h) xs e"
    by (rule chain_redirect [OF ch d]) (use e in \<open>auto simp: m'_def m1_def\<close>)
  then have "tailq m' h (xs @ [e])"
    using e d le by (simp add: tailq_def) (simp add: m'_def m1_def)
  moreover have "only_changes {h} (insert e (set xs)) m m'"
    using end_loc_cases [of "HeadFirst h" xs] by (auto simp: only_changes_def m'_def m1_def)
  ultimately show ?thesis by (rule that)
qed

lemma TAILQ_REMOVE_tailq:
  assumes q: "tailq m h (xs @ e # ys)"
  obtains m' where "TAILQ_REMOVE m h e = Some m'" "tailq m' h (xs @ ys)"
    "only_changes {h} (set (xs @ e # ys) - {e}) m m'" "tqe_next m' e = tqe_next m e"
proof -
  let ?l = "end_loc (HeadFirst h) xs"
  have d: "distinct (xs @ e # ys)" and e: "e \<noteq> NULL" "elem_live m e"
    and c1: "chain m (HeadFirst h) xs e" and prev: "tqe_prev m e = ?l"
    and c2: "chain m (NextOf e) ys NULL" and last: "tqh_last m h = end_loc (NextOf e) ys"
    using q by (simp_all add: tailq_def)
  have live: "loc_live m ?l" using loc_live_end [OF c1] by simp
  have le: "?l \<noteq> NextOf e" using end_loc_cases [of "HeadFirst h" xs] d by auto
  show ?thesis
  proof (cases ys)
    case Nil
    let ?m' = "poke (set_last m h ?l) ?l NULL"
    have "TAILQ_REMOVE m h e = Some ?m'"
      using e live prev c2 Nil by (simp add: TAILQ_REMOVE_def tq)
    moreover have "chain ?m' (HeadFirst h) xs NULL"
      by (rule chain_redirect [OF c1]) (use d in auto)
    then have "tailq ?m' h (xs @ ys)" using d Nil by (simp add: tailq_def)
    moreover have "only_changes {h} (set (xs @ e # ys) - {e}) m ?m'"
      using end_loc_cases [of "HeadFirst h" xs] d by (auto simp: only_changes_def)
    ultimately show ?thesis using that le by simp
  next
    case (Cons y zs)
    let ?m1 = "m\<lparr>tqe_prev := (tqe_prev m)(y := ?l)\<rparr>"
    let ?m' = "poke ?m1 ?l y"
    have y: "y \<noteq> NULL" "elem_live m y" "peek m (NextOf e) = y" "y \<noteq> e"
      using c2 Cons d by auto
    have "TAILQ_REMOVE m h e = Some ?m'"
      using e live prev y by (simp add: TAILQ_REMOVE_def tq)
    moreover have "chain ?m' (HeadFirst h) xs y"
      by (rule chain_redirect [OF c1]) (use d Cons in auto)
    moreover have "chain ?m' (NextOf y) zs NULL = chain m (NextOf y) zs NULL"
    proof (rule chain_cong)
      show "peek ?m' (NextOf y) = peek m (NextOf y)"
        using end_loc_cases [of "HeadFirst h" xs] d Cons by auto
    qed (use end_loc_cases [of "HeadFirst h" xs] d Cons in auto)
    ultimately have "tailq ?m' h (xs @ ys)"
      using d c2 last Cons y by (simp add: tailq_def)
    moreover have "only_changes {h} (set (xs @ e # ys) - {e}) m ?m'"
      using end_loc_cases [of "HeadFirst h" xs] d Cons by (auto simp: only_changes_def)
    ultimately show ?thesis using that \<open>TAILQ_REMOVE m h e = Some ?m'\<close> le by simp
  qed
qed

text \<open>A new element between two parts of a chain: the four writes, in any order.\<close>

lemma tailq_splice:
  assumes q: "tailq m h (xs @ ys)" and e: "elem_live m e" "e \<noteq> NULL" "e \<notin> set (xs @ ys)"
    and cells: "peek m' (end_loc (HeadFirst h) xs) = e" "peek m' (NextOf e) = peek m (end_loc (HeadFirst h) xs)"
      "\<And>c. c \<noteq> end_loc (HeadFirst h) xs \<Longrightarrow> c \<noteq> NextOf e \<Longrightarrow> peek m' c = peek m c"
    and prev: "tqe_prev m' e = end_loc (HeadFirst h) xs" "ys \<noteq> [] \<Longrightarrow> tqe_prev m' (hd ys) = NextOf e"
      "\<And>x. x \<noteq> e \<Longrightarrow> ys = [] \<or> x \<noteq> hd ys \<Longrightarrow> tqe_prev m' x = tqe_prev m x"
    and last: "tqh_last m' h = (if ys = [] then NextOf e else tqh_last m h)"
    and live: "elem_live m' = elem_live m"
  shows "tailq m' h (xs @ e # ys)"
proof -
  let ?l = "end_loc (HeadFirst h) xs"
  have d: "distinct (xs @ ys)" using q by (simp add: tailq_def)
  have l: "?l \<noteq> NextOf e" "\<forall>y \<in> set ys. ?l \<noteq> NextOf y" "\<forall>y \<in> set ys. NextOf y \<noteq> ?l"
    using end_loc_cases [of "HeadFirst h" xs] e d by auto
  have xs: "chain m (HeadFirst h) xs (peek m ?l)"
  proof (cases ys)
    case Nil
    then show ?thesis using q chain_end [of m "HeadFirst h" xs NULL] by (simp add: tailq_def)
  next
    case (Cons y zs)
    then show ?thesis using q chain_end [of m "HeadFirst h" xs y] by (simp add: tailq_def)
  qed
  have px: "tqe_prev m' x = tqe_prev m x" if "x \<in> set xs" for x
    using that prev(3) [of x] d e by (cases ys) auto
  have "chain m' (HeadFirst h) xs e"
    by (rule chain_redirect [OF xs]) (use d e cells l px live in auto)
  moreover have "chain m' (NextOf e) ys NULL"
  proof (cases ys)
    case Nil
    then show ?thesis using q cells(2) chain_end [of m "HeadFirst h" xs NULL] by (simp add: tailq_def)
  next
    case (Cons y zs)
    have c: "chain m (NextOf y) zs NULL" and y: "y \<noteq> NULL" "elem_live m y" "peek m ?l = y"
      using q Cons chain_end [of m "HeadFirst h" xs y] by (simp_all add: tailq_def)
    have "chain m' (NextOf y) zs NULL = chain m (NextOf y) zs NULL"
    proof (rule chain_cong)
      show "peek m' (NextOf y) = peek m (NextOf y)" using cells(3) l e Cons by auto
      fix x assume "x \<in> set zs"
      then show "tqe_next m' x = tqe_next m x \<and> tqe_prev m' x = tqe_prev m x \<and>
          elem_live m' x = elem_live m x"
        using cells(3) [of "NextOf x"] prev(3) [of x] l e d Cons live by (auto simp: peek_def)
    qed
    then show ?thesis using c y Cons cells(2) prev(2) live by simp
  qed
  ultimately show ?thesis using q d e last prev(1) live by (cases ys) (auto simp: tailq_def)
qed

lemma TAILQ_INSERT_HEAD_tailq:
  assumes q: "tailq m h xs" and e: "elem_live m e" "e \<noteq> NULL" "e \<notin> set xs"
  obtains m' where "TAILQ_INSERT_HEAD m h e = Some m'" "tailq m' h (e # xs)"
    "only_changes {h} (insert e (set xs)) m m'"
proof -
  let ?f = "peek m (HeadFirst h)"
  define m1 where "m1 = poke m (NextOf e) ?f"
  define m2 where "m2 = (if xs = [] then set_last m1 h (NextOf e)
      else m1\<lparr>tqe_prev := (tqe_prev m)(hd xs := NextOf e)\<rparr>)"
  define m' where "m' = (poke m2 (HeadFirst h) e)\<lparr>tqe_prev := (tqe_prev m2)(e := HeadFirst h)\<rparr>"
  have f: "?f = (if xs = [] then NULL else hd xs)" "xs \<noteq> [] \<Longrightarrow> hd xs \<noteq> NULL \<and> elem_live m (hd xs)"
    using q by (cases xs; simp add: tailq_def)+
  have hd: "xs \<noteq> [] \<Longrightarrow> hd xs \<in> set xs" by simp
  have "TAILQ_INSERT_HEAD m h e = Some m'"
    using e f by (cases "xs = []") (simp_all add: TAILQ_INSERT_HEAD_def tq m1_def m2_def m'_def)
  moreover have "tailq m' h ([] @ e # xs)"
    by (rule tailq_splice [of m]) (use q e hd in \<open>auto simp: m1_def m2_def m'_def\<close>)
  moreover have "only_changes {h} (insert e (set xs)) m m'"
    using hd by (auto simp: only_changes_def m1_def m2_def m'_def)
  ultimately show ?thesis using that by simp
qed

lemma TAILQ_INSERT_AFTER_tailq:
  assumes q: "tailq m h (xs @ a # ys)" and e: "elem_live m e" "e \<noteq> NULL" "e \<notin> set (xs @ a # ys)"
  obtains m' where "TAILQ_INSERT_AFTER m h a e = Some m'" "tailq m' h (xs @ a # e # ys)"
    "only_changes {h} (insert e (set (xs @ a # ys))) m m'"
proof -
  let ?n = "peek m (NextOf a)"
  have a: "elem_live m a" "a \<noteq> NULL" "a \<noteq> e" using q e by (auto simp: tailq_def)
  have n: "?n = (if ys = [] then NULL else hd ys)" "ys \<noteq> [] \<Longrightarrow> hd ys \<noteq> NULL \<and> elem_live m (hd ys)"
    using q by (cases ys; simp add: tailq_def)+
  have hd: "ys \<noteq> [] \<Longrightarrow> hd ys \<in> set ys" by simp
  define m1 where "m1 = poke m (NextOf e) ?n"
  define m2 where "m2 = (if ys = [] then set_last m1 h (NextOf e)
      else m1\<lparr>tqe_prev := (tqe_prev m)(hd ys := NextOf e)\<rparr>)"
  define m' where "m' = (poke m2 (NextOf a) e)\<lparr>tqe_prev := (tqe_prev m2)(e := NextOf a)\<rparr>"
  have "TAILQ_INSERT_AFTER m h a e = Some m'"
    using e a n by (cases "ys = []") (simp_all add: TAILQ_INSERT_AFTER_def tq m1_def m2_def m'_def)
  moreover have "tailq m' h ((xs @ [a]) @ e # ys)"
    by (rule tailq_splice [of m]) (use q e a hd in \<open>auto simp: m1_def m2_def m'_def\<close>)
  moreover have "only_changes {h} (insert e (set (xs @ a # ys))) m m'"
    using hd by (auto simp: only_changes_def m1_def m2_def m'_def)
  ultimately show ?thesis using that by simp
qed

lemma TAILQ_INSERT_BEFORE_tailq:
  assumes q: "tailq m h (xs @ b # ys)" and e: "elem_live m e" "e \<noteq> NULL" "e \<notin> set (xs @ b # ys)"
  obtains m' where "TAILQ_INSERT_BEFORE m b e = Some m'" "tailq m' h (xs @ e # b # ys)"
    "only_changes {h} (insert e (set (xs @ b # ys))) m m'"
proof -
  let ?l = "end_loc (HeadFirst h) xs"
  have b: "elem_live m b" "b \<noteq> NULL" "b \<noteq> e" "tqe_prev m b = ?l" "peek m ?l = b"
    and ch: "chain m (HeadFirst h) xs b"
    using q e chain_end [of m "HeadFirst h" xs b] by (auto simp: tailq_def)
  have live: "loc_live m ?l" using loc_live_end [OF ch] by simp
  have le: "?l \<noteq> NextOf e" using end_loc_cases [of "HeadFirst h" xs] e by auto
  define m1 where "m1 = poke (m\<lparr>tqe_prev := (tqe_prev m)(e := ?l)\<rparr>) (NextOf e) b"
  define m' where "m' = (poke m1 ?l e)\<lparr>tqe_prev := (tqe_prev m1)(b := NextOf e)\<rparr>"
  have "TAILQ_INSERT_BEFORE m b e = Some m'"
    using e b live by (simp add: TAILQ_INSERT_BEFORE_def tq m1_def m'_def)
  moreover have "tailq m' h (xs @ e # b # ys)"
    by (rule tailq_splice [of m]) (use q e b le in \<open>auto simp: m1_def m'_def\<close>)
  moreover have "only_changes {h} (insert e (set (xs @ b # ys))) m m'"
    using end_loc_cases [of "HeadFirst h" xs] b by (auto simp: only_changes_def m1_def m'_def)
  ultimately show ?thesis by (rule that)
qed

lemma TAILQ_LAST_tailq:
  assumes "tailq m h xs"
  shows "TAILQ_LAST m h = Some (if xs = [] then NULL else last xs)"
proof (cases xs rule: rev_cases)
  case Nil
  then show ?thesis using assms by (simp add: TAILQ_LAST_def last_at_def tailq_def tq)
next
  case (snoc ys y)
  then have y: "elem_live m y" "tqe_prev m y = end_loc (HeadFirst h) ys" "tqh_last m h = NextOf y"
    and ch: "chain m (HeadFirst h) ys y"
    using assms by (simp_all add: tailq_def)
  have "loc_live m (end_loc (HeadFirst h) ys)" using loc_live_end [OF ch] by simp
  then show ?thesis using y chain_end [OF ch] snoc
    by (simp add: TAILQ_LAST_def last_at_def tq)
qed

lemma TAILQ_PREV_tailq:
  assumes "tailq m h (xs @ e # ys)"
  shows "TAILQ_PREV m e = Some (if xs = [] then NULL else last xs)"
proof (cases xs rule: rev_cases)
  case Nil
  then show ?thesis using assms
    by (cases ys rule: rev_cases) (simp_all add: TAILQ_PREV_def last_at_def tailq_def tq)
next
  case (snoc zs z)
  then have e: "elem_live m e" "tqe_prev m e = NextOf z"
    and z: "elem_live m z" "tqe_prev m z = end_loc (HeadFirst h) zs"
    and ch: "chain m (HeadFirst h) zs z"
    using assms by (simp_all add: tailq_def)
  have "loc_live m (end_loc (HeadFirst h) zs)" using loc_live_end [OF ch] by simp
  then show ?thesis using e z chain_end [OF ch] snoc
    by (simp add: TAILQ_PREV_def last_at_def tq)
qed

lemma TAILQ_CONCAT_tailq:
  assumes q1: "tailq m h1 xs" and q2: "tailq m h2 ys" and ne: "h1 \<noteq> h2" "set xs \<inter> set ys = {}"
  obtains m' where "TAILQ_CONCAT m h1 h2 = Some m'" "tailq m' h1 (xs @ ys)" "tailq m' h2 []"
    "only_changes {h1, h2} (set xs \<union> set ys) m m'"
proof (cases ys)
  case Nil
  then have "TAILQ_CONCAT m h1 h2 = Some m"
    using TAILQ_EMPTY_tailq [OF q2] by (simp add: TAILQ_CONCAT_def)
  then show ?thesis using that q1 q2 Nil by (simp add: only_changes_def)
next
  case (Cons y zs)
  let ?l = "end_loc (HeadFirst h1) xs"
  have ch: "chain m (HeadFirst h1) xs NULL" and last: "tqh_last m h1 = ?l" "distinct xs"
    using q1 by (simp_all add: tailq_def)
  have y: "peek m (HeadFirst h2) = y" "y \<noteq> NULL" "elem_live m y" "chain m (NextOf y) zs NULL"
    "tqh_last m h2 = end_loc (NextOf y) zs" "distinct ys"
    using q2 Cons by (simp_all add: tailq_def)
  then have f2: "tqh_first m h2 = y" by (simp add: peek_def)
  have live: "loc_live m ?l" using loc_live_end [OF ch] by simp
  have l: "?l \<noteq> HeadFirst h2" "\<forall>z \<in> set ys. ?l \<noteq> NextOf z \<and> NextOf z \<noteq> ?l"
    using end_loc_cases [of "HeadFirst h1" xs] ne by auto
  define m2 where "m2 = (poke m ?l y)\<lparr>tqe_prev := (tqe_prev m)(y := ?l)\<rparr>"
  define m' where "m' = TAILQ_INIT (set_last m2 h1 (tqh_last m h2)) h2"
  have "TAILQ_CONCAT m h1 h2 = Some m'"
    using y f2 last live l by (simp add: TAILQ_CONCAT_def tq m'_def m2_def)
  moreover have pk: "peek m' c = (if c = HeadFirst h2 then NULL else if c = ?l then y else peek m c)" for c
    by (cases c) (auto simp: m'_def m2_def TAILQ_INIT_def peek_def)
  have px: "tqe_prev m' x = (if x = y then ?l else tqe_prev m x)" "elem_live m' = elem_live m" for x
    by (simp_all add: m'_def m2_def TAILQ_INIT_def)
  have "chain m' (HeadFirst h1) xs y"
    by (rule chain_redirect [OF ch]) (use last ne l Cons in \<open>auto simp: pk px\<close>)
  moreover have "chain m' (NextOf y) zs NULL = chain m (NextOf y) zs NULL"
  proof (rule chain_cong)
    show "peek m' (NextOf y) = peek m (NextOf y)" using l Cons by (auto simp: pk)
    fix x assume x: "x \<in> set zs"
    then have "peek m' (NextOf x) = peek m (NextOf x)" using l Cons by (auto simp: pk)
    then show "tqe_next m' x = tqe_next m x \<and> tqe_prev m' x = tqe_prev m x \<and>
        elem_live m' x = elem_live m x"
      using x y(6) Cons by (auto simp: px peek_def)
  qed
  moreover have "tqh_last m' h1 = tqh_last m h2" "tqh_last m' h2 = HeadFirst h2"
    using ne by (simp_all add: m'_def m2_def TAILQ_INIT_def)
  ultimately have "tailq m' h1 (xs @ ys)" "tailq m' h2 []"
    using last(2) y ne Cons by (auto simp: tailq_def px pk)
  moreover have "only_changes {h1, h2} (set xs \<union> set ys) m m'"
    using end_loc_cases [of "HeadFirst h1" xs] Cons
    by (auto simp: only_changes_def m'_def m2_def TAILQ_INIT_def)
  ultimately show ?thesis using that \<open>TAILQ_CONCAT m h1 h2 = Some m'\<close> by blast
qed

text \<open>A chain hung on another head: its first element's \<open>tqe_prev\<close> is the new cell.\<close>

lemma tailq_rehang:
  assumes q: "tailq m h xs" and pk: "peek m' (HeadFirst g) = first_or_null xs"
    and nx: "\<And>x. x \<in> set xs \<Longrightarrow> tqe_next m' x = tqe_next m x"
    and pr: "\<And>x. x \<in> set xs \<Longrightarrow> tqe_prev m' x = (if x = hd xs then HeadFirst g else tqe_prev m x)"
    and live: "elem_live m' = elem_live m"
    and last: "tqh_last m' g = (if xs = [] then HeadFirst g else tqh_last m h)"
  shows "tailq m' g xs"
proof (cases xs)
  case Nil
  then show ?thesis using pk last by (simp add: tailq_def)
next
  case (Cons y zs)
  have "chain m' (NextOf y) zs NULL = chain m (NextOf y) zs NULL"
    by (rule chain_cong) (use q nx pr live Cons in \<open>auto simp: tailq_def peek_def\<close>)
  then show ?thesis using q pk pr last live Cons by (simp add: tailq_def)
qed

lemma TAILQ_SWAP_tailq:
  assumes q1: "tailq m h1 xs" and q2: "tailq m h2 ys" and ne: "h1 \<noteq> h2" "set xs \<inter> set ys = {}"
  obtains m' where "TAILQ_SWAP m h1 h2 = Some m'" "tailq m' h1 ys" "tailq m' h2 xs"
proof -
  have f: "tqh_first m h1 = first_or_null xs" "tqh_first m h2 = first_or_null ys"
    using TAILQ_FIRST_tailq [OF q1] TAILQ_FIRST_tailq [OF q2] by (simp_all add: TAILQ_FIRST_def)
  have x: "xs \<noteq> [] \<Longrightarrow> hd xs \<noteq> NULL \<and> elem_live m (hd xs)" and y: "ys \<noteq> [] \<Longrightarrow> hd ys \<noteq> NULL \<and> elem_live m (hd ys)"
    using tailq_elem [OF q1] tailq_elem [OF q2] by simp_all
  have hx: "xs \<noteq> [] \<Longrightarrow> hd xs \<notin> set ys" and hy: "ys \<noteq> [] \<Longrightarrow> hd ys \<notin> set xs"
    and hxy: "xs \<noteq> [] \<Longrightarrow> ys \<noteq> [] \<Longrightarrow> hd xs \<noteq> hd ys"
    using ne(2) by (metis disjoint_iff hd_in_set)+
  define m4 where "m4 = set_last (poke (set_last (poke m (HeadFirst h1) (first_or_null ys)) h1 (tqh_last m h2))
      (HeadFirst h2) (first_or_null xs)) h2 (tqh_last m h1)"
  define m5 where "m5 = (if ys \<noteq> [] then m4\<lparr>tqe_prev := (tqe_prev m4)(hd ys := HeadFirst h1)\<rparr>
      else set_last m4 h1 (HeadFirst h1))"
  define m6 where "m6 = (if xs \<noteq> [] then m5\<lparr>tqe_prev := (tqe_prev m5)(hd xs := HeadFirst h2)\<rparr>
      else set_last m5 h2 (HeadFirst h2))"
  have "TAILQ_SWAP m h1 h2 = Some m6"
    using f x y ne by (cases "xs = []"; cases "ys = []")
      (simp_all add: TAILQ_SWAP_def tq Let_def m4_def m5_def m6_def)
  moreover have "tailq m6 h1 ys"
    by (rule tailq_rehang [OF q2]) (use ne hx hy hxy in \<open>auto simp: m4_def m5_def m6_def peek_def\<close>)
  moreover have "tailq m6 h2 xs"
    by (rule tailq_rehang [OF q1]) (use ne hx hy hxy in \<open>auto simp: m4_def m5_def m6_def peek_def\<close>)
  ultimately show ?thesis by (rule that)
qed

section \<open>The queue as the server uses it\<close>

interpretation tq: linked_queue TAILQ_NEXT "\<lambda>m. tailq m head" "\<lambda>m. TAILQ_REMOVE m head"
  "\<lambda>m. TAILQ_FIRST m head" "\<lambda>m. TAILQ_INSERT_TAIL m head" "\<lambda>m e. elem_live m e \<and> e \<noteq> NULL" for head
proof
  fix m xs e ys x
  show "tailq m head xs \<Longrightarrow> x \<in> set xs \<Longrightarrow> x \<noteq> NULL" by (simp add: tailq_elem)
  show "tailq m head (xs @ x # ys) \<Longrightarrow> TAILQ_NEXT m x = Some (first_or_null ys)"
    by (rule TAILQ_NEXT_tailq)
  show "tailq m head xs \<Longrightarrow> TAILQ_FIRST m head = first_or_null xs" by (rule TAILQ_FIRST_tailq)
  show "tailq m head xs \<Longrightarrow> distinct xs" by (rule tailq_distinct)
  show "\<exists>m'. TAILQ_INSERT_TAIL m head e = Some m' \<and> tailq m' head (xs @ [e]) \<and>
      (\<forall>x. (elem_live m' x \<and> x \<noteq> NULL) = (elem_live m x \<and> x \<noteq> NULL))"
    if "tailq m head xs" "elem_live m e \<and> e \<noteq> NULL" "e \<notin> set xs"
    using TAILQ_INSERT_TAIL_tailq [OF that(1) _ _ that(3)] that(2) by (metis only_changes_def)
  show "\<exists>m'. TAILQ_REMOVE m head e = Some m' \<and> tailq m' head (xs @ ys)" if "tailq m head (xs @ e # ys)"
    using TAILQ_REMOVE_tailq [OF that] by blast
qed

text \<open>Read backwards, with \<open>TAILQ_PREV\<close> for the successor, it is a list too.\<close>

interpretation tqr: removable_list TAILQ_PREV "\<lambda>m xs. tailq m head (rev xs)" "\<lambda>m. TAILQ_REMOVE m head" for head
proof
  fix m xs e ys x
  show "tailq m head (rev xs) \<Longrightarrow> x \<in> set xs \<Longrightarrow> x \<noteq> NULL" by (simp add: tailq_elem)
  show "tailq m head (rev (xs @ x # ys)) \<Longrightarrow> TAILQ_PREV m x = Some (first_or_null ys)"
    using TAILQ_PREV_tailq [of m head "rev ys" x "rev xs"] by (simp add: last_rev)
  show "\<exists>m'. TAILQ_REMOVE m head e = Some m' \<and> tailq m' head (rev (xs @ ys))"
    if "tailq m head (rev (xs @ e # ys))"
    using TAILQ_REMOVE_tailq [of m head "rev ys" e "rev xs"] that by auto
qed

section \<open>Properties\<close>

text \<open>
  C28: the four insertions put the new element where they say, for every queue and every
  place in it, without undefined behaviour, and leave every other queue alone.
\<close>

theorem tailq_insertions:
  assumes "tailq m h (xs @ a # ys)" "elem_live m e" "e \<noteq> NULL" "e \<notin> set (xs @ a # ys)"
    and "tailq m g zs" "g \<noteq> h" "set zs \<inter> insert e (set (xs @ a # ys)) = {}"
  shows "(\<exists>m'. TAILQ_INSERT_HEAD m h e = Some m' \<and> tailq m' h (e # xs @ a # ys) \<and> tailq m' g zs) \<and>
    (\<exists>m'. TAILQ_INSERT_TAIL m h e = Some m' \<and> tailq m' h (xs @ a # ys @ [e]) \<and> tailq m' g zs) \<and>
    (\<exists>m'. TAILQ_INSERT_AFTER m h a e = Some m' \<and> tailq m' h (xs @ a # e # ys) \<and> tailq m' g zs) \<and>
    (\<exists>m'. TAILQ_INSERT_BEFORE m a e = Some m' \<and> tailq m' h (xs @ e # a # ys) \<and> tailq m' g zs)"
proof -
  have other: "tailq m' g zs" if "only_changes {h} (insert e (set (xs @ a # ys))) m m'" for m'
    by (rule tailq_other [OF that assms(5)]) (use assms in auto)
  show ?thesis
    using TAILQ_INSERT_HEAD_tailq [OF assms(1-4)] TAILQ_INSERT_TAIL_tailq [OF assms(1-4)]
      TAILQ_INSERT_AFTER_tailq [OF assms(1-4)] TAILQ_INSERT_BEFORE_tailq [OF assms(1-4)] other
    by (metis append_Cons append_assoc)
qed

text \<open>
  C27: removing an element takes exactly it out of its queue, wherever it stands, leaves
  every other queue alone and does not touch the element itself.
\<close>

theorem tailq_removal:
  assumes "tailq m h (xs @ e # ys)" "tailq m g zs" "g \<noteq> h" "set zs \<inter> set (xs @ e # ys) = {}"
  shows "\<exists>m'. TAILQ_REMOVE m h e = Some m' \<and> tailq m' h (xs @ ys) \<and> tailq m' g zs \<and>
    tqe_next m' e = tqe_next m e \<and> tqe_prev m' e = tqe_prev m e"
proof -
  obtain m' where m': "TAILQ_REMOVE m h e = Some m'" "tailq m' h (xs @ ys)"
      "tqe_next m' e = tqe_next m e"
    and only: "only_changes {h} (set (xs @ e # ys) - {e}) m m'"
    using TAILQ_REMOVE_tailq [OF assms(1)] .
  have "tailq m' g zs" by (rule tailq_other [OF only assms(2)]) (use assms in auto)
  moreover have "tqe_prev m' e = tqe_prev m e" using only by (simp add: only_changes_def)
  ultimately show ?thesis using m' by blast
qed

text \<open>
  \<open>TAILQ_LAST\<close> and \<open>TAILQ_PREV\<close>, which read an element as if it were a head, give
  the last element and the predecessor, and the loops, from an end or from an element on,
  visit the queue in order and in reverse order.
\<close>

theorem tailq_ends_and_order:
  assumes "tailq m h (xs @ e # ys)"
  shows "TAILQ_LAST m h = Some (last (e # ys)) \<and>
    TAILQ_PREV m e = Some (if xs = [] then NULL else last xs) \<and>
    TAILQ_FOREACH m h = Some (xs @ e # ys) \<and> TAILQ_FOREACH_REVERSE m h = Some (rev (xs @ e # ys)) \<and>
    TAILQ_FOREACH_FROM m e h = Some (e # ys) \<and> TAILQ_FOREACH_REVERSE_FROM m e h = Some (e # rev xs)"
proof -
  have "e \<noteq> NULL" using tailq_elem [OF assms, of e] by simp
  moreover have "TAILQ_FOREACH_FROM m e h = Some (e # ys)"
    using tq.visits [OF assms] calculation by (simp add: TAILQ_FOREACH_FROM_def)
  moreover have "TAILQ_FOREACH_REVERSE_FROM m e h = Some (e # rev xs)"
    using tqr.visits [of m h "rev ys" "e # rev xs"] assms calculation by (simp add: TAILQ_FOREACH_REVERSE_FROM_def)
  ultimately show ?thesis
    using TAILQ_LAST_tailq [OF assms] TAILQ_PREV_tailq [OF assms] tq.visits [of m h "[]" "xs @ e # ys"]
      tqr.visits [of m h "[]" "rev (xs @ e # ys)"] TAILQ_FIRST_tailq [OF assms] assms
    by (cases ys rule: rev_cases) (simp_all add: TAILQ_FOREACH_def TAILQ_FOREACH_REVERSE_def)
qed

text \<open>
  C29: the four loops that may remove the element they are at, from either end or from an
  element on, in either direction, end and take out exactly the elements a flag is set for
  among those they pass.
\<close>

theorem tailq_safe_loops:
  assumes "tailq m h (xs @ e # ys)"
    and body: "body = (\<lambda>x m. if gone x then TAILQ_REMOVE m h x else Some m)"
    and kept: "kept = filter (\<lambda>x. \<not> gone x)"
  shows "(\<exists>m'. TAILQ_FOREACH_SAFE h body m = Some m' \<and> tailq m' h (kept (xs @ e # ys))) \<and>
    (\<exists>m'. TAILQ_FOREACH_FROM_SAFE e h body m = Some m' \<and> tailq m' h (xs @ kept (e # ys))) \<and>
    (\<exists>m'. TAILQ_FOREACH_REVERSE_SAFE h body m = Some m' \<and> tailq m' h (kept (xs @ e # ys))) \<and>
    (\<exists>m'. TAILQ_FOREACH_REVERSE_FROM_SAFE e h body m = Some m' \<and> tailq m' h (kept (xs @ [e]) @ ys))"
proof -
  have r: "tailq m h (rev (rev (xs @ e # ys)))" "tailq m h (rev (rev ys @ e # rev xs))" using assms(1) by simp_all
  have e: "e \<noteq> NULL" using tailq_elem [OF assms(1), of e] by simp
  have l: "TAILQ_LAST m h = Some (first_or_null (rev (xs @ e # ys)))"
    using TAILQ_LAST_tailq [OF assms(1)] by (cases ys rule: rev_cases) simp_all
  have "\<exists>m'. TAILQ_FOREACH_SAFE h body m = Some m' \<and> tailq m' h (kept (xs @ e # ys))"
    using tq.foreach_safe_remove [of m h "[]" "xs @ e # ys" gone] assms(1) TAILQ_FIRST_tailq [OF assms(1)]
    by (simp add: TAILQ_FOREACH_SAFE_def body kept)
  moreover have "\<exists>m'. TAILQ_FOREACH_FROM_SAFE e h body m = Some m' \<and> tailq m' h (xs @ kept (e # ys))"
    using tq.foreach_safe_remove [OF assms(1), of gone] e by (simp add: TAILQ_FOREACH_FROM_SAFE_def body kept)
  moreover have "\<exists>m'. TAILQ_FOREACH_REVERSE_SAFE h body m = Some m' \<and> tailq m' h (kept (xs @ e # ys))"
    using tqr.foreach_safe_remove [of m h "[]" "rev (xs @ e # ys)" gone] r(1) l
    by (simp add: TAILQ_FOREACH_REVERSE_SAFE_def body kept rev_filter del: rev_append rev.simps(2) cong: if_cong)
  moreover have "\<exists>m'. TAILQ_FOREACH_REVERSE_FROM_SAFE e h body m = Some m' \<and> tailq m' h (kept (xs @ [e]) @ ys)"
    using tqr.foreach_safe_remove [OF r(2), of gone] e
    by (cases "gone e") (simp_all add: TAILQ_FOREACH_REVERSE_FROM_SAFE_def body kept rev_filter cong: if_cong)
  ultimately show ?thesis by blast
qed

text \<open>Walking and checking as it goes characterises the chain of a queue.\<close>

lemma chain_foreach:
  assumes "\<And>x. elem_live m x \<Longrightarrow> nxt x = Some (peek m (NextOf x))"
    and "\<And>x. \<not> elem_live m x \<Longrightarrow> nxt x = None"
  shows "chain m l xs NULL \<longleftrightarrow> foreach_visits nxt (peek m l) = Some xs \<and>
    (peek m l \<noteq> NULL \<longrightarrow> tqe_prev m (peek m l) = l) \<and>
    (\<forall>x \<in> set xs. peek m (NextOf x) \<noteq> NULL \<longrightarrow> tqe_prev m (peek m (NextOf x)) = NextOf x)"
proof (induction xs arbitrary: l)
  case Nil
  then show ?case by (subst foreach_visits.simps) (auto split: bind_splits)
next
  case (Cons x xs)
  have "foreach_visits nxt (peek m l) = Some (x # xs) \<longleftrightarrow>
      peek m l = x \<and> x \<noteq> NULL \<and> elem_live m x \<and> foreach_visits nxt (peek m (NextOf x)) = Some xs"
    by (subst foreach_visits.simps, cases "elem_live m (peek m l)") (auto simp: assms split: bind_splits)
  then show ?case using Cons.IH [of "NextOf x"] by auto
qed

lemma foreach_visits_suffix:
  "foreach_visits nxt v = Some (us @ y # ws) \<Longrightarrow> foreach_visits nxt y = Some (y # ws)"
proof (induction us arbitrary: v)
  case Nil
  then have "v = y" by (subst (asm) foreach_visits.simps) (auto split: if_splits bind_splits)
  then show ?case using Nil by simp
next
  case (Cons u us)
  then obtain n where "foreach_visits nxt n = Some (us @ y # ws)"
    by (subst (asm) foreach_visits.simps) (auto split: if_splits bind_splits)
  then show ?case by (rule Cons.IH)
qed

lemma foreach_visits_distinct: "foreach_visits nxt v = Some xs \<Longrightarrow> distinct xs"
proof (rule ccontr)
  assume f: "foreach_visits nxt v = Some xs" and "\<not> distinct xs"
  then obtain us vs ws y where xs: "xs = us @ [y] @ vs @ [y] @ ws" using not_distinct_decomp by blast
  have "foreach_visits nxt y = Some (y # vs @ y # ws)" "foreach_visits nxt y = Some (y # ws)"
    using foreach_visits_suffix [of nxt v us y "vs @ y # ws"] foreach_visits_suffix [of nxt v "us @ y # vs" y ws] f xs
    by simp_all
  then show False by simp
qed

lemma TAILQ_NEXT_peek: "TAILQ_NEXT m x = (if elem_live m x then Some (peek m (NextOf x)) else None)"
  by (simp add: TAILQ_NEXT_def get_next_def peek_def)

lemma chain_checks:
  "chain m (HeadFirst h) xs NULL \<longleftrightarrow> TAILQ_FOREACH m h = Some xs \<and> QMD_TAILQ_CHECK_HEAD m h = Some True \<and>
     list_all (\<lambda>x. QMD_TAILQ_CHECK_NEXT m x = Some True \<and> QMD_TAILQ_CHECK_PREV m x = Some True) xs"
  (is "?ch \<longleftrightarrow> ?f \<and> ?h \<and> ?c")
proof
  assume ch: ?ch
  then have ?f
    using chain_foreach [of m "TAILQ_NEXT m"] by (simp add: TAILQ_NEXT_peek TAILQ_FOREACH_def TAILQ_FIRST_def peek_def)
  moreover have ?h using ch by (cases xs) (auto simp: QMD_TAILQ_CHECK_HEAD_def tq)
  moreover have "QMD_TAILQ_CHECK_NEXT m x = Some True \<and> QMD_TAILQ_CHECK_PREV m x = Some True" if x: "x \<in> set xs" for x
  proof -
    obtain us ws where xs: "xs = us @ x # ws" using x by (meson split_list)
    have c: "chain m (HeadFirst h) (us @ x # ws) NULL" using ch xs by simp
    have "loc_live m (end_loc (HeadFirst h) us)" using loc_live_end c by auto
    moreover have "peek m (end_loc (HeadFirst h) us) = x" using chain_end c by auto
    ultimately show ?thesis using c
      by (cases ws) (auto simp: QMD_TAILQ_CHECK_NEXT_def QMD_TAILQ_CHECK_PREV_def tq)
  qed
  ultimately show "?f \<and> ?h \<and> ?c" by (simp add: list_all_iff)
next
  assume r: "?f \<and> ?h \<and> ?c"
  show ?ch
    using r by (subst chain_foreach [of m "TAILQ_NEXT m"])
      (auto simp: TAILQ_NEXT_peek TAILQ_FOREACH_def TAILQ_FIRST_def TAILQ_EMPTY_def peek_def get_prev_def list_all_iff
        QMD_TAILQ_CHECK_HEAD_def QMD_TAILQ_CHECK_NEXT_def split: if_splits)
qed

lemma TAILQ_FOREACH_distinct: "TAILQ_FOREACH m h = Some xs \<Longrightarrow> distinct xs"
  using foreach_visits_distinct [of "TAILQ_NEXT m"] by (simp add: TAILQ_FOREACH_def)

text \<open>
  C30: the checks a build with \<open>INVARIANTS\<close> makes find exactly the broken links: a head
  whose last pointer is where the loop ends holds a queue if and only if the loop ends and no
  check panics.
\<close>

theorem tailq_checks:
  "tailq m h xs \<longleftrightarrow> TAILQ_FOREACH m h = Some xs \<and> tqh_last m h = end_loc (HeadFirst h) xs \<and>
     QMD_TAILQ_CHECK_HEAD m h = Some True \<and> QMD_TAILQ_CHECK_TAIL m h = Some True \<and>
     list_all (\<lambda>x. QMD_TAILQ_CHECK_NEXT m x = Some True \<and> QMD_TAILQ_CHECK_PREV m x = Some True) xs"
proof -
  have "QMD_TAILQ_CHECK_TAIL m h = Some True"
    if "chain m (HeadFirst h) xs NULL" "tqh_last m h = end_loc (HeadFirst h) xs"
    using chain_end [OF that(1)] loc_live_end [OF that(1)] that(2) by (simp add: QMD_TAILQ_CHECK_TAIL_def tq)
  then show ?thesis using TAILQ_FOREACH_distinct by (auto simp: tailq_def chain_checks)
qed

text \<open>
  Concatenating moves the second queue behind the first and leaves the second empty;
  swapping exchanges the two queues.
\<close>

theorem tailq_concat_and_swap:
  assumes "tailq m h1 xs" "tailq m h2 ys" "h1 \<noteq> h2" "set xs \<inter> set ys = {}"
  shows "(\<exists>m'. TAILQ_CONCAT m h1 h2 = Some m' \<and> tailq m' h1 (xs @ ys) \<and> tailq m' h2 []) \<and>
    (\<exists>m'. TAILQ_SWAP m h1 h2 = Some m' \<and> tailq m' h1 ys \<and> tailq m' h2 xs)"
  using TAILQ_CONCAT_tailq [OF assms] TAILQ_SWAP_tailq [OF assms] by metis

text \<open>
  From an initialised head, inserting elements at the tail and then walking with the
  safe loop, removing those a flag is set for, ends with the others in the order they were
  inserted.
\<close>

theorem tailq_insert_then_sweep:
  assumes "distinct es" "\<forall>e \<in> set es. elem_live m e \<and> e \<noteq> NULL"
  shows "\<exists>m1 m2. add_all (\<lambda>m. TAILQ_INSERT_TAIL m h) (TAILQ_INIT m h) es = Some m1 \<and> tailq m1 h es \<and>
    TAILQ_FOREACH_SAFE h (\<lambda>e m. if gone e then TAILQ_REMOVE m h e else Some m) m1 = Some m2 \<and>
    tailq m2 h (filter (\<lambda>e. \<not> gone e) es)"
proof -
  have "tailq (TAILQ_INIT m h) h []" "elem_live (TAILQ_INIT m h) = elem_live m"
    using TAILQ_INIT_tailq [of m h] by (simp_all add: only_changes_def)
  then show ?thesis
    using tq.insert_then_sweep [of "TAILQ_INIT m h" h es gone] assms by (simp add: TAILQ_FOREACH_SAFE_def)
qed

section \<open>Witnesses\<close>

text \<open>A queue at head 1 with three elements, one at head 2 with one, and a fresh element.\<close>

definition some_queues :: tq_mem where
  "some_queues =
     \<lparr>tqh_first = (\<lambda>h. if h = 1 then 5 else if h = 2 then 8 else NULL),
      tqh_last = (\<lambda>h. if h = 1 then NextOf 7 else NextOf 8),
      tqe_next = (\<lambda>e. if e = 5 then 6 else if e = 6 then 7 else NULL),
      tqe_prev = (\<lambda>e. if e = 5 then HeadFirst 1 else if e = 8 then HeadFirst 2 else NextOf (e - 1)),
      elem_live = (\<lambda>e. 5 \<le> e \<and> e < 10)\<rparr>"

lemma some_queues_tailq: "tailq some_queues 1 [5, 6, 7]" "tailq some_queues 2 [8]"
  by code_simp+

theorem tailq_insertions_witness:
  "(\<exists>m'. TAILQ_INSERT_HEAD some_queues 1 9 = Some m' \<and> tailq m' 1 [9, 5, 6, 7] \<and> tailq m' 2 [8]) \<and>
   (\<exists>m'. TAILQ_INSERT_BEFORE some_queues 6 9 = Some m' \<and> tailq m' 1 [5, 9, 6, 7] \<and> tailq m' 2 [8])"
  using tailq_insertions [of some_queues 1 "[5]" 6 "[7]" 9 2 "[8]"] some_queues_tailq
  by (simp add: some_queues_def)

theorem tailq_removal_witness:
  "\<exists>m'. TAILQ_REMOVE some_queues 1 7 = Some m' \<and> tailq m' 1 [5, 6] \<and> tailq m' 2 [8]"
  using tailq_removal [of some_queues 1 "[5, 6]" 7 "[]" 2 "[8]"] some_queues_tailq by auto

theorem tailq_ends_and_order_witness:
  "TAILQ_LAST some_queues 1 = Some 7 \<and> TAILQ_PREV some_queues 6 = Some 5 \<and>
   TAILQ_FOREACH_REVERSE some_queues 1 = Some [7, 6, 5]"
  using tailq_ends_and_order [of some_queues 1 "[5]" 6 "[7]"] some_queues_tailq by simp

theorem tailq_safe_loops_witness:
  "\<exists>m'. TAILQ_FOREACH_REVERSE_FROM_SAFE 6 1 (\<lambda>x m. if x \<noteq> 6 then TAILQ_REMOVE m 1 x else Some m) some_queues
     = Some m' \<and> tailq m' 1 [6, 7]"
  using tailq_safe_loops [of some_queues 1 "[5]" 6 "[7]" _ "\<lambda>x. x \<noteq> 6", OF _ refl refl] some_queues_tailq by simp

theorem tailq_concat_and_swap_witness:
  "(\<exists>m'. TAILQ_CONCAT some_queues 1 2 = Some m' \<and> tailq m' 1 [5, 6, 7, 8] \<and> tailq m' 2 []) \<and>
   (\<exists>m'. TAILQ_SWAP some_queues 1 2 = Some m' \<and> tailq m' 1 [8] \<and> tailq m' 2 [5, 6, 7])"
  using tailq_concat_and_swap [OF some_queues_tailq] by simp

theorem tailq_insert_then_sweep_witness:
  "\<exists>m1 m2. add_all (\<lambda>m. TAILQ_INSERT_TAIL m 3) (TAILQ_INIT some_queues 3) [7, 5, 9] = Some m1 \<and>
     TAILQ_FOREACH_SAFE 3 (\<lambda>e m. if even e then TAILQ_REMOVE m 3 e else if e = 5 then TAILQ_REMOVE m 3 e
       else Some m) m1 = Some m2 \<and> tailq m2 3 [7, 9]"
proof -
  have "(\<lambda>e m. if even e then TAILQ_REMOVE m 3 e else if e = 5 then TAILQ_REMOVE m 3 e else Some m) =
      (\<lambda>e m. if even e \<or> e = 5 then TAILQ_REMOVE m 3 e else Some m)" by (auto simp: fun_eq_iff)
  then show ?thesis
    using tailq_insert_then_sweep [of "[7, 5, 9]" some_queues 3 "\<lambda>e. even e \<or> e = 5"]
    by (auto simp: some_queues_def)
qed

end
