(* ===== verification/Aesd_Server.thy ===== *)
theory Aesd_Server
  imports Tail_Queue
begin

text \<open>
  The accept loop of the server, \<open>main\<close> of \<^verbatim>\<open>server/aesdsocket.c\<close> with the
  \<open>struct thread_data\<close> of \<^verbatim>\<open>server/aesdsocket.h\<close>: every connection gets an allocated
  record and a thread, the records are kept in a tail queue, and after each new connection
  the loop joins and frees those whose thread has set its flag. What the system calls
  answer (\<open>accept\<close>, the two \<open>malloc\<close>s, \<open>pthread_create\<close>) is an argument of an iteration.
  A null or freed pointer that is used is undefined behaviour (\<open>None\<close>).
\<close>

section \<open>State\<close>

record thread_data =
  td_thread :: ptr
  td_complete :: bool
  td_client_fd :: int

text \<open>
  \<open>active_threads\<close> is the head at \<open>active_head\<close>; \<open>thread_block p\<close> says that the block for
  a \<open>pthread_t\<close> at \<open>p\<close> is allocated; \<open>running\<close> are the records whose thread has not been
  joined, and \<open>closed\<close> the descriptors that \<open>main\<close> closed.
\<close>

record server =
  tq :: tq_mem
  td :: "ptr \<Rightarrow> thread_data"
  thread_block :: "ptr \<Rightarrow> bool"
  running :: "ptr list"
  closed :: "int list"

definition active_head :: ptr where "active_head = 1"

definition server_init :: "server \<Rightarrow> server" where
  "server_init s = s\<lparr>tq := TAILQ_INIT (tq s) active_head\<rparr>"

record accept_answers =
  a_fd :: int
  a_tdata :: ptr
  a_thread :: ptr
  a_rc :: int

section \<open>One iteration\<close>

definition malloc_tdata :: "accept_answers \<Rightarrow> server \<Rightarrow> server" where
  "malloc_tdata a s =
     s\<lparr>tq := (tq s)\<lparr>elem_live := (elem_live (tq s))(a_tdata a := a_tdata a \<noteq> NULL)\<rparr>\<rparr>"

text \<open>The fields of \<open>*tdata\<close>; \<open>mutex\<close>, \<open>client_addr\<close> and \<open>addr_len\<close> are not read by the loop.\<close>

definition init_tdata :: "accept_answers \<Rightarrow> server \<Rightarrow> server option" where
  "init_tdata a s =
     (if elem_live (tq s) (a_tdata a)
      then Some (s\<lparr>thread_block := (thread_block s)(a_thread a := a_thread a \<noteq> NULL),
                   td := (td s)(a_tdata a := \<lparr>td_thread = a_thread a, td_complete = False,
                                              td_client_fd = a_fd a\<rparr>)\<rparr>)
      else None)"

definition free_tdata :: "ptr \<Rightarrow> server \<Rightarrow> server option" where
  "free_tdata p s =
     (if elem_live (tq s) p
      then Some (s\<lparr>tq := (tq s)\<lparr>elem_live := (elem_live (tq s))(p := False)\<rparr>\<rparr>) else None)"

definition free_thread :: "ptr \<Rightarrow> server \<Rightarrow> server option" where
  "free_thread q s =
     (if thread_block s q then Some (s\<lparr>thread_block := (thread_block s)(q := False)\<rparr>) else None)"

text \<open>
  \<open>pthread_join(*item->thread, NULL)\<close>: the block is read, and a thread is joined once.
\<close>

definition join_thread :: "ptr \<Rightarrow> server \<Rightarrow> server option" where
  "join_thread p s =
     (if thread_block s (td_thread (td s p)) \<and> p \<in> set (running s)
      then Some (s\<lparr>running := remove1 p (running s)\<rparr>) else None)"

text \<open>The body of \<open>TAILQ_FOREACH_SAFE\<close>.\<close>

definition reap_item :: "ptr \<Rightarrow> server \<Rightarrow> server option" where
  "reap_item item s =
     (if \<not> elem_live (tq s) item then None
      else if td_complete (td s item) then do {
        s1 \<leftarrow> join_thread item s;
        m \<leftarrow> TAILQ_REMOVE (tq s1) active_head item;
        s2 \<leftarrow> free_thread (td_thread (td s1 item)) (s1\<lparr>tq := m\<rparr>);
        free_tdata item s2
      }
      else Some s)"

definition reap_threads :: "server \<Rightarrow> server option" where
  "reap_threads s =
     foreach_safe (\<lambda>s. TAILQ_NEXT (tq s)) reap_item (TAILQ_FIRST (tq s) active_head) s"

text \<open>The boolean is false where \<open>main\<close> returns.\<close>

definition accept_iteration :: "accept_answers \<Rightarrow> server \<Rightarrow> (bool \<times> server) option" where
  "accept_iteration a s =
     (if a_fd a = - 1 then Some (True, s)
      else do {
        s1 \<leftarrow> init_tdata a (malloc_tdata a s);
        if \<not> thread_block s1 (a_thread a) then None
        else if a_rc a \<noteq> 0 then do {
          s2 \<leftarrow> free_tdata (a_tdata a) (s1\<lparr>closed := a_fd a # closed s1\<rparr>);
          Some (False, s2)
        }
        else do {
          m \<leftarrow> TAILQ_INSERT_TAIL (tq s1) active_head (a_tdata a);
          s2 \<leftarrow> reap_threads (s1\<lparr>tq := m, running := a_tdata a # running s1\<rparr>);
          Some (True, s2)
        }
      })"

section \<open>The server as a transition system\<close>

text \<open>
  Between two iterations the threads run: one that handled data sets its flag at the end,
  one whose client sent nothing ends without it. The allocator gives new addresses.
\<close>

definition fresh_answers :: "accept_answers \<Rightarrow> server \<Rightarrow> bool" where
  "fresh_answers a s \<longleftrightarrow>
     a_tdata a \<noteq> NULL \<and> \<not> elem_live (tq s) (a_tdata a) \<and>
     a_thread a \<noteq> NULL \<and> \<not> thread_block s (a_thread a)"

definition set_flag :: "ptr \<Rightarrow> server \<Rightarrow> server" where
  "set_flag p s = s\<lparr>td := (td s)(p := (td s p)\<lparr>td_complete := True\<rparr>)\<rparr>"

inductive server_step :: "server \<Rightarrow> server \<Rightarrow> bool" where
  accepted: "fresh_answers a s \<Longrightarrow> accept_iteration a s = Some (True, s') \<Longrightarrow> server_step s s'"
| finished: "p \<in> set (running s) \<Longrightarrow> server_step s (set_flag p s)"
| finished_silent: "p \<in> set (running s) \<Longrightarrow> server_step s s"

inductive_cases server_stepE: "server_step s s'"

inductive reachable :: "server \<Rightarrow> server \<Rightarrow> bool" for s0 where
  start: "reachable s0 (server_init s0)"
| move: "reachable s0 s \<Longrightarrow> server_step s s' \<Longrightarrow> reachable s0 s'"

section \<open>The invariant\<close>

text \<open>
  The queue, in the order of acceptance, holds exactly the allocated records; the blocks
  for the thread ids are theirs, one each; and exactly they are not yet joined.
\<close>

definition holds_threads :: "server \<Rightarrow> ptr list \<Rightarrow> bool" where
  "holds_threads s xs \<longleftrightarrow>
     tailq (tq s) active_head xs \<and> (\<forall>p. elem_live (tq s) p \<longleftrightarrow> p \<in> set xs) \<and>
     inj_on (\<lambda>p. td_thread (td s p)) (set xs) \<and>
     (\<forall>q. thread_block s q \<longleftrightarrow> (\<exists>p \<in> set xs. q = td_thread (td s p))) \<and>
     distinct (running s) \<and> set (running s) = set xs"

lemma holds_threads_distinct: "holds_threads s xs \<Longrightarrow> distinct xs"
  by (simp add: holds_threads_def tailq_def)

lemma holds_threads_init:
  assumes "\<forall>p. \<not> elem_live (tq s) p" "\<forall>q. \<not> thread_block s q" "running s = []"
  shows "holds_threads (server_init s) []"
  using TAILQ_INIT_tailq [of "tq s" active_head] assms
  by (simp add: holds_threads_def server_init_def only_changes_def)

lemma tailq_live_cong:
  assumes "tailq m h xs" "\<forall>x \<in> set xs. l x"
  shows "tailq (m\<lparr>elem_live := l\<rparr>) h xs"
proof -
  have "chain m c xs q \<Longrightarrow> \<forall>x \<in> set xs. l x \<Longrightarrow> chain (m\<lparr>elem_live := l\<rparr>) c xs q" for c q
    by (induction xs arbitrary: c) (auto simp: peek_def split: loc.splits)
  with assms show ?thesis by (simp add: tailq_def)
qed

lemma reap_item_done:
  assumes h: "holds_threads s (xs @ p # ys)" and f: "td_complete (td s p)"
  shows "\<exists>s'. reap_item p s = Some s' \<and> holds_threads s' (xs @ ys) \<and> td s' = td s \<and> closed s' = closed s"
proof -
  let ?q = "td_thread (td s p)"
  have q: "tailq (tq s) active_head (xs @ p # ys)" and d: "distinct (xs @ p # ys)"
    and live: "\<forall>x. elem_live (tq s) x \<longleftrightarrow> x \<in> set (xs @ p # ys)"
    and inj: "inj_on (\<lambda>p. td_thread (td s p)) (set (xs @ p # ys))"
    and blocks: "\<forall>q. thread_block s q \<longleftrightarrow> (\<exists>p \<in> set (xs @ p # ys). q = td_thread (td s p))"
    and run: "distinct (running s)" "set (running s) = set (xs @ p # ys)"
    using h holds_threads_distinct [OF h] by (simp_all add: holds_threads_def)
  obtain m where m: "TAILQ_REMOVE (tq s) active_head p = Some m" "tailq m active_head (xs @ ys)"
    and "only_changes {active_head} (set (xs @ p # ys) - {p}) (tq s) m"
    using TAILQ_REMOVE_tailq [OF q] by metis
  then have lm: "elem_live m = elem_live (tq s)" by (simp add: only_changes_def)
  let ?s' = "s\<lparr>running := remove1 p (running s), tq := m\<lparr>elem_live := (elem_live m)(p := False)\<rparr>,
      thread_block := (thread_block s)(?q := False)\<rparr>"
  have "reap_item p s = Some ?s'"
    using f live blocks run m lm
    by (simp add: reap_item_def join_thread_def free_thread_def free_tdata_def)
  moreover have "holds_threads ?s' (xs @ ys)"
  proof -
    have "tailq (m\<lparr>elem_live := (elem_live m)(p := False)\<rparr>) active_head (xs @ ys)"
      by (rule tailq_live_cong [OF m(2)]) (use d live lm in auto)
    moreover have "inj_on (\<lambda>p. td_thread (td s p)) (set (xs @ ys))"
      by (rule inj_on_subset [OF inj]) auto
    moreover have "\<forall>x \<in> set (xs @ ys). td_thread (td s x) \<noteq> ?q"
      using inj d by (auto simp: inj_on_def)
    then have "\<forall>q. ((thread_block s)(?q := False)) q \<longleftrightarrow>
        (\<exists>x \<in> set (xs @ ys). q = td_thread (td s x))"
      using blocks by auto
    moreover have "\<forall>x. ((elem_live m)(p := False)) x \<longleftrightarrow> x \<in> set (xs @ ys)"
      using live lm d by auto
    moreover have "distinct (remove1 p (running s))" "set (remove1 p (running s)) = set (xs @ ys)"
      using run d by (auto simp: set_remove1_eq distinct_remove1)
    ultimately show ?thesis by (simp add: holds_threads_def)
  qed
  ultimately show ?thesis by auto
qed

interpretation srv: linked_list "\<lambda>s. TAILQ_NEXT (tq s)" "\<lambda>s. tailq (tq s) active_head"
  by unfold_locales (auto simp: tailq_elem TAILQ_NEXT_tailq)

lemma reap_threads_keeps:
  assumes h: "holds_threads s xs"
  shows "\<exists>s'. reap_threads s = Some s' \<and> holds_threads s' (filter (\<lambda>p. \<not> td_complete (td s p)) xs) \<and>
     td s' = td s \<and> closed s' = closed s"
proof -
  let ?I = "\<lambda>ks ys s1. holds_threads s1 (ks @ ys) \<and> td s1 = td s \<and> closed s1 = closed s"
  have "\<exists>s'. foreach_safe (\<lambda>s. TAILQ_NEXT (tq s)) reap_item (first_or_null xs) s = Some s' \<and>
      ?I ([] @ filter (\<lambda>p. \<not> td_complete (td s p)) xs) [] s'"
  proof (rule srv.foreach_safe_keeps [where I = ?I])
    show "?I [] xs s" using h by simp
    show "tailq (tq s1) active_head (ks @ ys)" if "?I ks ys s1" for ks ys s1
      using that by (simp add: holds_threads_def)
    fix ks x ys s1 assume I: "?I ks (x # ys) s1"
    show "\<exists>s'. reap_item x s1 = Some s' \<and>
        ?I (if \<not> td_complete (td s x) then ks @ [x] else ks) ys s'"
    proof (cases "td_complete (td s x)")
      case True
      then show ?thesis using reap_item_done [of s1 ks x ys] I by auto
    next
      case False
      have "elem_live (tq s1) x" using I by (simp add: holds_threads_def)
      then show ?thesis using I False by (simp add: reap_item_def)
    qed
  qed
  moreover have "TAILQ_FIRST (tq s) active_head = first_or_null xs"
    using h TAILQ_FIRST_tailq by (simp add: holds_threads_def)
  ultimately show ?thesis by (simp add: reap_threads_def)
qed

text \<open>A new record at the end of the queue.\<close>

lemma insert_thread:
  assumes h: "holds_threads s xs" and a: "fresh_answers a s"
  obtains s1 m where "init_tdata a (malloc_tdata a s) = Some s1" "thread_block s1 (a_thread a)"
    "TAILQ_INSERT_TAIL (tq s1) active_head (a_tdata a) = Some m"
    "holds_threads (s1\<lparr>tq := m, running := a_tdata a # running s1\<rparr>) (xs @ [a_tdata a])"
    "td s1 = (td s)(a_tdata a := \<lparr>td_thread = a_thread a, td_complete = False, td_client_fd = a_fd a\<rparr>)"
    "closed s1 = closed s"
proof -
  let ?p = "a_tdata a" and ?q = "a_thread a"
  have new: "?p \<noteq> NULL" "?p \<notin> set xs" "?q \<noteq> NULL" "\<not> thread_block s ?q"
    using a h by (simp_all add: fresh_answers_def holds_threads_def)
  let ?l = "(elem_live (tq s))(?p := True)"
  let ?td = "(td s)(?p := \<lparr>td_thread = ?q, td_complete = False, td_client_fd = a_fd a\<rparr>)"
  let ?s1 = "s\<lparr>tq := (tq s)\<lparr>elem_live := ?l\<rparr>, thread_block := (thread_block s)(?q := True), td := ?td\<rparr>"
  have i: "init_tdata a (malloc_tdata a s) = Some ?s1"
    using new by (simp add: init_tdata_def malloc_tdata_def)
  have "tailq ((tq s)\<lparr>elem_live := ?l\<rparr>) active_head xs"
    by (rule tailq_live_cong) (use h in \<open>auto simp: holds_threads_def\<close>)
  then obtain m where m: "TAILQ_INSERT_TAIL ((tq s)\<lparr>elem_live := ?l\<rparr>) active_head ?p = Some m"
    "tailq m active_head (xs @ [?p])"
    and "only_changes {active_head} (insert ?p (set xs)) ((tq s)\<lparr>elem_live := ?l\<rparr>) m"
    using TAILQ_INSERT_TAIL_tailq [of "(tq s)\<lparr>elem_live := ?l\<rparr>" active_head xs ?p] new(1,2)
    by (metis fun_upd_same tq_mem.select_convs(5) tq_mem.surjective tq_mem.update_convs(5))
  then have lm: "elem_live m = ?l" by (simp add: only_changes_def)
  have "inj_on (\<lambda>x. td_thread (?td x)) (set (xs @ [?p]))"
    using h new by (auto simp: holds_threads_def inj_on_def)
  moreover have "\<forall>q. ((thread_block s)(?q := True)) q \<longleftrightarrow> (\<exists>x \<in> set (xs @ [?p]). q = td_thread (?td x))"
  proof
    fix q
    have "\<forall>x \<in> set xs. ?td x = td s x" using new(2) by auto
    then have "(\<exists>x \<in> set (xs @ [?p]). q = td_thread (?td x)) \<longleftrightarrow>
        q = ?q \<or> (\<exists>x \<in> set xs. q = td_thread (td s x))" by simp
    then show "((thread_block s)(?q := True)) q \<longleftrightarrow> (\<exists>x \<in> set (xs @ [?p]). q = td_thread (?td x))"
      using h by (auto simp: holds_threads_def)
  qed
  ultimately have "holds_threads (?s1\<lparr>tq := m, running := ?p # running ?s1\<rparr>) (xs @ [?p])"
    using h m(2) lm new by (auto simp: holds_threads_def)
  then show ?thesis using that [OF i _ _ _ _] m(1) by simp
qed

lemma accept_iteration_keeps:
  assumes h: "holds_threads s xs" and a: "fresh_answers a s" and ok: "a_fd a \<noteq> - 1" "a_rc a = 0"
  shows "\<exists>s'. accept_iteration a s = Some (True, s') \<and>
     holds_threads s' (filter (\<lambda>p. \<not> td_complete (td s p)) xs @ [a_tdata a]) \<and> \<not> td_complete (td s' (a_tdata a)) \<and>
     td s' = (td s)(a_tdata a := \<lparr>td_thread = a_thread a, td_complete = False, td_client_fd = a_fd a\<rparr>)"
proof -
  obtain s1 m where i: "init_tdata a (malloc_tdata a s) = Some s1" "thread_block s1 (a_thread a)"
    "TAILQ_INSERT_TAIL (tq s1) active_head (a_tdata a) = Some m"
    and h1: "holds_threads (s1\<lparr>tq := m, running := a_tdata a # running s1\<rparr>) (xs @ [a_tdata a])"
    and td1: "td s1 = (td s)(a_tdata a := \<lparr>td_thread = a_thread a, td_complete = False, td_client_fd = a_fd a\<rparr>)"
    using insert_thread [OF h a] by metis
  obtain s' where r: "reap_threads (s1\<lparr>tq := m, running := a_tdata a # running s1\<rparr>) = Some s'"
    and h': "holds_threads s' (filter (\<lambda>p. \<not> td_complete (td s1 p)) (xs @ [a_tdata a]))" and "td s' = td s1"
    using reap_threads_keeps [OF h1] by auto
  have "a_tdata a \<notin> set xs" using a h by (simp add: fresh_answers_def holds_threads_def)
  then have "filter (\<lambda>p. \<not> td_complete (td s1 p)) (xs @ [a_tdata a]) =
      filter (\<lambda>p. \<not> td_complete (td s p)) xs @ [a_tdata a]"
    using td1 by (auto intro: filter_cong)
  then show ?thesis using ok i r h' td1 \<open>td s' = td s1\<close> by (simp add: accept_iteration_def)
qed

lemma set_flag_fields:
  "tq (set_flag p s) = tq s" "thread_block (set_flag p s) = thread_block s"
  "running (set_flag p s) = running s" "td_thread (td (set_flag p s) x) = td_thread (td s x)"
  by (simp_all add: set_flag_def)

lemma set_flag_holds: "holds_threads s xs \<Longrightarrow> holds_threads (set_flag p s) xs"
  unfolding holds_threads_def set_flag_fields .

lemma accept_nothing: "a_fd a = - 1 \<Longrightarrow> accept_iteration a s = Some (True, s)"
  by (simp add: accept_iteration_def)

lemma accept_continues_iff:
  assumes h: "holds_threads s xs" and a: "fresh_answers a s" and r: "accept_iteration a s = Some (True, s')"
  shows "a_fd a = - 1 \<and> s' = s \<or> a_fd a \<noteq> - 1 \<and> a_rc a = 0"
  using r insert_thread [OF h a] by (auto simp: accept_iteration_def bind_Some_iff split: if_splits)

section \<open>Properties\<close>

text \<open>
  C16: from the start, however accepted connections and finishing threads interleave, the
  queue holds exactly the allocated records, every one with its own block for the thread id,
  and exactly those are not joined.
\<close>

theorem server_invariant:
  assumes "\<forall>p. \<not> elem_live (tq s0) p" "\<forall>q. \<not> thread_block s0 q" "running s0 = []"
    and "reachable s0 s"
  shows "\<exists>xs. holds_threads s xs"
  using assms(4)
proof (induction rule: reachable.induct)
  case start
  show ?case using holds_threads_init [OF assms(1-3)] by blast
next
  case (move s s')
  then obtain xs where h: "holds_threads s xs" by blast
  from move.hyps(2) show ?case
  proof cases
    case (accepted a)
    then show ?thesis
      using accept_continues_iff [OF h accepted(1,2)] accept_iteration_keeps [OF h accepted(1)] h by auto
  next
    case (finished p)
    then show ?thesis using set_flag_holds [OF h] by blast
  next
    case finished_silent
    then show ?thesis using h by blast
  qed
qed

text \<open>
  An iteration that gets a connection, its two allocations and a thread never uses a
  freed record, frees nothing twice and joins no thread twice; it leaves in the queue, in
  order, the threads whose flag is not set, and the new one at the end. The records, id
  blocks and threads of the others are gone.
\<close>

theorem accept_reaps_finished:
  assumes "holds_threads s xs" "fresh_answers a s" "a_fd a \<noteq> - 1" "a_rc a = 0"
  shows "\<exists>s'. accept_iteration a s = Some (True, s') \<and>
     holds_threads s' (filter (\<lambda>p. \<not> td_complete (td s p)) xs @ [a_tdata a]) \<and>
     (\<forall>p \<in> set xs. td_complete (td s p) \<longrightarrow> \<not> elem_live (tq s') p \<and> p \<notin> set (running s'))"
proof -
  obtain s' where s': "accept_iteration a s = Some (True, s')"
    "holds_threads s' (filter (\<lambda>p. \<not> td_complete (td s p)) xs @ [a_tdata a])"
    using accept_iteration_keeps [OF assms] by blast
  have "a_tdata a \<notin> set xs" using assms(1,2) by (simp add: fresh_answers_def holds_threads_def)
  then have "\<forall>p \<in> set xs. td_complete (td s p) \<longrightarrow> \<not> elem_live (tq s') p \<and> p \<notin> set (running s')"
    using s'(2) by (auto simp: holds_threads_def)
  with s' show ?thesis by blast
qed

text \<open>
  A thread whose flag is never set is never joined and its record never freed: a step
  of the server that does not set it keeps it in the queue, even when the thread has ended.
\<close>

theorem silent_thread_never_reaped:
  assumes "holds_threads s xs" "p \<in> set xs" "\<not> td_complete (td s p)" "server_step s s'"
    and "td_complete (td s' p) = td_complete (td s p)"
  shows "\<exists>ys. holds_threads s' ys \<and> p \<in> set ys \<and> elem_live (tq s') p \<and> p \<in> set (running s')"
  using assms(4)
proof cases
  case (accepted a)
  note it = accept_continues_iff [OF assms(1) accepted]
  show ?thesis
  proof (cases "a_fd a = - 1")
    case True
    then have "s' = s" using it by simp
    then show ?thesis using assms(1,2) by (auto simp: holds_threads_def)
  next
    case False
    then obtain s1 where "accept_iteration a s = Some (True, s1)"
      and h: "holds_threads s1 (filter (\<lambda>p. \<not> td_complete (td s p)) xs @ [a_tdata a])"
      using accept_iteration_keeps [OF assms(1) accepted(1)] it by blast
    then have "s1 = s'" using accepted(2) by simp
    then show ?thesis using h assms(2,3)
      by (intro exI [of _ "filter (\<lambda>p. \<not> td_complete (td s p)) xs @ [a_tdata a]"]) (simp add: holds_threads_def)
  qed
next
  case (finished q)
  then show ?thesis using set_flag_holds [OF assms(1), of q] assms(2) by (auto simp: holds_threads_def)
next
  case finished_silent
  then show ?thesis using assms(1,2) by (auto simp: holds_threads_def)
qed

text \<open>
  The results of \<open>malloc\<close> are not checked: without memory for the record, or for the
  thread id, the iteration has undefined behaviour.
\<close>

lemma failed_malloc_is_undefined:
  assumes "a_fd a \<noteq> - 1" "a_tdata a = NULL \<or> a_thread a = NULL"
  shows "accept_iteration a s = None"
  using assms by (auto simp: accept_iteration_def init_tdata_def malloc_tdata_def)

text \<open>
  When the thread cannot be created the descriptor is closed and the record freed, but
  not the block for the thread id, and \<open>main\<close> returns while the other threads are running.
\<close>

theorem failed_create_leaks_thread_block:
  assumes "holds_threads s xs" "fresh_answers a s" "a_fd a \<noteq> - 1" "a_rc a \<noteq> 0"
  shows "\<exists>s'. accept_iteration a s = Some (False, s') \<and> thread_block s' (a_thread a) \<and>
     \<not> elem_live (tq s') (a_tdata a) \<and> a_fd a \<in> set (closed s') \<and> running s' = running s"
  using assms(2-4)
  by (simp add: accept_iteration_def init_tdata_def malloc_tdata_def free_tdata_def fresh_answers_def)

section \<open>Witnesses\<close>

definition empty_server :: server where
  "empty_server =
     \<lparr>tq = \<lparr>tqh_first = (\<lambda>_. NULL), tqh_last = HeadFirst, tqe_next = (\<lambda>_. NULL),
             tqe_prev = (\<lambda>_. HeadFirst 0), elem_live = (\<lambda>_. False)\<rparr>,
      td = (\<lambda>_. \<lparr>td_thread = NULL, td_complete = False, td_client_fd = 0\<rparr>),
      thread_block = (\<lambda>_. False), running = [], closed = []\<rparr>"

definition answer :: "ptr \<Rightarrow> ptr \<Rightarrow> accept_answers" where
  "answer p q = \<lparr>a_fd = 4, a_tdata = p, a_thread = q, a_rc = 0\<rparr>"

text \<open>The server after two connections, the first of them finished.\<close>

definition two_clients :: "server option" where
  "two_clients = do {
     (b1, s1) \<leftarrow> accept_iteration (answer 50 60) (server_init empty_server);
     (b2, s2) \<leftarrow> accept_iteration (answer 51 61) s1;
     Some (set_flag 50 s2)
   }"

lemma empty_server_holds: "holds_threads (server_init empty_server) []"
  by (rule holds_threads_init) (simp_all add: empty_server_def)

lemma two_clients_holds:
  obtains s where "two_clients = Some s" "holds_threads s [50, 51]" "td_complete (td s 50)"
    "\<not> td_complete (td s 51)" "reachable empty_server s"
proof -
  let ?s0 = "server_init empty_server"
  have a1: "fresh_answers (answer 50 60) ?s0"
    by (simp add: fresh_answers_def answer_def empty_server_def server_init_def TAILQ_INIT_def)
  obtain s1 where s1: "accept_iteration (answer 50 60) ?s0 = Some (True, s1)" "holds_threads s1 [50]"
    "\<not> td_complete (td s1 50)"
    using accept_iteration_keeps [OF empty_server_holds a1] by (auto simp: answer_def)
  have tb: "map_option (\<lambda>(b, s). td_thread (td s 50)) (accept_iteration (answer 50 60) ?s0) = Some 60"
    by code_simp
  then have "td_thread (td s1 50) = 60" using s1(1) by simp
  then have a2: "fresh_answers (answer 51 61) s1"
    using s1(2) by (simp add: fresh_answers_def answer_def holds_threads_def)
  obtain s2 where s2: "accept_iteration (answer 51 61) s1 = Some (True, s2)" "holds_threads s2 [50, 51]"
    "\<not> td_complete (td s2 51)"
    using accept_iteration_keeps [OF s1(2) a2] s1(3) by (auto simp: answer_def)
  have "reachable empty_server s2"
    using reachable.intros accepted [OF a1 s1(1)] accepted [OF a2 s2(1)] by metis
  moreover have "server_step s2 (set_flag 50 s2)"
    by (rule finished) (use s2(2) in \<open>simp add: holds_threads_def\<close>)
  ultimately have "reachable empty_server (set_flag 50 s2)" by (rule reachable.move)
  then show ?thesis
    using that [of "set_flag 50 s2"] s1(1) s2 set_flag_holds [OF s2(2), of 50]
    by (simp add: two_clients_def) (simp add: set_flag_def)
qed

theorem server_invariant_witness:
  "\<exists>s xs. two_clients = Some s \<and> holds_threads s xs"
proof -
  obtain s where "two_clients = Some s" "reachable empty_server s" using two_clients_holds by metis
  moreover from this have "\<exists>xs. holds_threads s xs"
    by (intro server_invariant [of empty_server]) (simp_all add: empty_server_def)
  ultimately show ?thesis by blast
qed

lemma third_client_fresh:
  assumes "two_clients = Some s" "holds_threads s [50, 51]"
  shows "fresh_answers (answer 52 62) s"
proof -
  have "map_option (\<lambda>s. (td_thread (td s 50), td_thread (td s 51))) two_clients = Some (60, 61)" by code_simp
  then have "td_thread (td s 50) = 60" "td_thread (td s 51) = 61"
    unfolding assms(1) by simp_all
  then show ?thesis using assms(2) by (simp add: fresh_answers_def answer_def holds_threads_def)
qed

theorem accept_reaps_finished_witness:
  "\<exists>s s'. two_clients = Some s \<and> accept_iteration (answer 52 62) s = Some (True, s') \<and>
     holds_threads s' [51, 52] \<and> \<not> elem_live (tq s') 50"
proof -
  obtain s where s: "two_clients = Some s" "holds_threads s [50, 51]" "td_complete (td s 50)"
    "\<not> td_complete (td s 51)" using two_clients_holds by metis
  show ?thesis
    using accept_reaps_finished [OF s(2) third_client_fresh [OF s(1,2)]] s by (auto simp: answer_def)
qed

theorem silent_thread_never_reaped_witness:
  "\<exists>s s' ys. two_clients = Some s \<and> accept_iteration (answer 52 62) s = Some (True, s') \<and>
     holds_threads s' ys \<and> 51 \<in> set ys \<and> elem_live (tq s') 51"
proof -
  obtain s where s: "two_clients = Some s" "holds_threads s [50, 51]" "td_complete (td s 50)"
    "\<not> td_complete (td s 51)" using two_clients_holds by metis
  note a = third_client_fresh [OF s(1,2)]
  have ev: "Option.bind two_clients (\<lambda>s. map_option (\<lambda>(b, s'). (b, td_complete (td s' 51)))
      (accept_iteration (answer 52 62) s)) = Some (True, False)" by code_simp
  then obtain s' where s': "accept_iteration (answer 52 62) s = Some (True, s')" "\<not> td_complete (td s' 51)"
    unfolding s(1) by (cases "accept_iteration (answer 52 62) s") auto
  have "51 \<in> set [50, 51 :: ptr]" by simp
  from silent_thread_never_reaped [OF s(2) this s(4) accepted [OF a s'(1)]] s(1,4) s'
  show ?thesis by auto
qed

lemma failed_malloc_is_undefined_witness: "accept_iteration (answer 50 NULL) empty_server = None"
  by (rule failed_malloc_is_undefined) (simp_all add: answer_def)

theorem failed_create_leaks_thread_block_witness:
  "\<exists>s'. accept_iteration (answer 50 60\<lparr>a_rc := 11\<rparr>) (server_init empty_server) = Some (False, s') \<and>
     thread_block s' 60 \<and> 4 \<in> set (closed s')"
proof -
  have "fresh_answers (answer 50 60\<lparr>a_rc := 11\<rparr>) (server_init empty_server)"
    by (simp add: fresh_answers_def answer_def empty_server_def server_init_def TAILQ_INIT_def)
  from failed_create_leaks_thread_block [OF empty_server_holds this] show ?thesis
    by (auto simp: answer_def)
qed

end
