(* ===== verification/Whole_Server.thy ===== *)
theory Whole_Server
  imports Device_Server Aesd_Server
begin

text \<open>
  The accept loop and the connection threads together. The loop keeps a record for every
  connection, whose thread runs the code of \<open>handle_connection\<close> and sets the flag of its record
  at the end; the loop joins the threads whose flag is set and frees their records. The
  descriptor in a record says which client its thread serves.
\<close>

section \<open>The system\<close>

record 'w whole =
  w_server :: server
  w_pool :: "'w pool"

definition start_whole :: "server \<Rightarrow> 'w \<Rightarrow> 'w whole" where
  "start_whole s w = \<lparr>w_server = server_init s, w_pool = start_pool w\<rparr>"

definition record_fd :: "server \<Rightarrow> ptr \<Rightarrow> int" where
  "record_fd s p = td_client_fd (td s p)"

text \<open>
  A thread writes its flag through the pointer to its record.
\<close>

definition thread_moved :: "ptr \<Rightarrow> thread_state \<times> 'w \<Rightarrow> 'w whole \<Rightarrow> 'w whole" where
  "thread_moved item r x =
     (let s = w_server x
      in \<lparr>w_server = (if thread_complete_success (th_conn (fst r)) then set_flag item s else s),
          w_pool = put_thread (record_fd s item) r (w_pool x)\<rparr>)"

text \<open>
  An iteration of the accept loop without a connection, with one, or one that makes \<open>main\<close>
  return, which ends the process; a step of the thread of a record; a time stamp. A connection
  keeps its descriptor to itself.
\<close>

inductive whole_step :: "bool \<Rightarrow> 'w os \<Rightarrow> 'w whole \<Rightarrow> 'w whole \<Rightarrow> bool" for use_char os where
  no_client: "p_exit (w_pool x) = None \<Longrightarrow> a_fd a = - 1 \<Longrightarrow>
     accept_iteration a (w_server x) = Some (True, s) \<Longrightarrow> whole_step use_char os x (x\<lparr>w_server := s\<rparr>)"
| client: "p_exit (w_pool x) = None \<Longrightarrow> a_fd a \<noteq> - 1 \<Longrightarrow> fresh_answers a (w_server x) \<Longrightarrow>
     p_threads (w_pool x) (a_fd a) = None \<Longrightarrow> accept_iteration a (w_server x) = Some (True, s) \<Longrightarrow>
     whole_step use_char os x (x\<lparr>w_server := s,
       w_pool := (w_pool x)\<lparr>p_threads := (p_threads (w_pool x))(a_fd a \<mapsto> new_thread)\<rparr>\<rparr>)"
| main_returns: "p_exit (w_pool x) = None \<Longrightarrow> fresh_answers a (w_server x) \<Longrightarrow>
     accept_iteration a (w_server x) = Some (False, s) \<Longrightarrow>
     whole_step use_char os x (x\<lparr>w_server := s, w_pool := (w_pool x)\<lparr>p_exit := Some 0\<rparr>\<rparr>)"
| thread: "p_exit (w_pool x) = None \<Longrightarrow> item \<in> set (running (w_server x)) \<Longrightarrow>
     p_threads (w_pool x) (record_fd (w_server x) item) = Some t \<Longrightarrow> active t \<Longrightarrow>
     thread_step use_char os (record_fd (w_server x) item) t (p_world (w_pool x)) = Some r \<Longrightarrow>
     whole_step use_char os x (thread_moved item r x)"
| stamp: "p_exit (w_pool x) = None \<Longrightarrow> \<not> use_char \<Longrightarrow> time_string str \<Longrightarrow>
     timestamp_round os str (p_stamp (w_pool x)) (p_world (w_pool x)) = Some (c, w) \<Longrightarrow>
     whole_step use_char os x (x\<lparr>w_pool := (w_pool x)\<lparr>p_world := w, p_stamp := c\<rparr>\<rparr>)"

inductive_cases whole_stepE: "whole_step use_char os x y"

section \<open>When a thread sets its flag\<close>

text \<open>A byte that was put into the buffer leaves it allocated.\<close>

lemma process_byte_buffer:
  assumes "conn_ok c" "realloc_ok os" "process_byte u os cfd ch c w = Some (Next_byte, c', w')"
  shows "packet_buf c' \<noteq> None" "thread_complete_success c' = thread_complete_success c"
proof -
  obtain ok c1 w1 where g: "grow_packet os c w = (ok, c1, w1)" by (metis prod_cases3)
  have ok using process_byte_full [of os c w c1 w1 u cfd ch] g assms(3) by (cases ok) auto
  then have g': "grow_packet os c w = (True, c1, w1)" using g by simp
  note put = process_byte_put [OF assms(1,2) g', where ch = ch]
  have "thread_complete_success (put_byte c1 ch) = thread_complete_success c"
    using grow_packet_ok(7) [OF assms(1,2) g'] by (simp add: put_byte_def split: option.split)
  then show "packet_buf c' \<noteq> None" "thread_complete_success c' = thread_complete_success c"
    using assms(3) put(4,5) by (auto simp: keeps_buffer_def split: if_splits dest!: handle_packet_keeps)
qed

text \<open>
  While a thread runs, its flag is not set, and its buffer is null only as long as all of its
  client's stream is still to come; at the end the flag is set unless that stream was empty.
\<close>

definition incoming :: "thread_state \<Rightarrow> byte list" where
  "incoming t = (case th_phase t of Bytes bs \<Rightarrow> bs | _ \<Rightarrow> [])"

definition flag_inv :: "('w, 'f) server_view \<Rightarrow> 'w \<Rightarrow> int \<Rightarrow> thread_state \<Rightarrow> 'w \<Rightarrow> bool" where
  "flag_inv S w0 cfd t w \<longleftrightarrow>
     (if active t
      then \<not> thread_complete_success (th_conn t) \<and>
        (packet_buf (th_conn t) = None \<longleftrightarrow> incoming t @ s_in S w cfd = s_in S w0 cfd)
      else thread_complete_success (th_conn t) \<longleftrightarrow> s_in S w0 cfd \<noteq> [])"

lemma flag_inv_new: "s_in S w cfd = s_in S w0 cfd \<Longrightarrow> flag_inv S w0 cfd new_thread w"
  by (simp add: flag_inv_def new_thread_def new_conn_def active_def incoming_def)

lemma thread_step_flag:
  assumes os: "os_serves os (client_view S cfd) cfd" and sk: "u \<Longrightarrow> serves_seek os (client_view S cfd) (client_sk S)"
    and w: "s_ok S w" and packets: "right_history u S (s_file S w0) h"
    and inv: "client_inv u S w0 h cfd (Some t) w" and data: "fits (client_view S cfd) u (s_in S w0 cfd)"
    and t: "active t" and f: "flag_inv S w0 cfd t w" and step: "thread_step u os cfd t w = Some (t', w')"
  shows "flag_inv S w0 cfd t' w'"
proof (cases "th_phase t")
  case Receiving
  have "serves_recv os (client_view S cfd) cfd" using os by (simp add: os_serves_def)
  from this [unfolded serves_recv_def client_view_simps, rule_format, OF w, of 1024]
  obtain bs w1 where r: "sys_recv os w cfd 1024 = (int (length bs), bs, w1)"
    and i: "s_in S w cfd = bs @ s_in S w1 cfd" "bs = [] \<longrightarrow> s_in S w cfd = []"
    by auto
  show ?thesis
  proof (cases "bs = []")
    case True
    then have "packet_buf (th_conn t) = None \<longleftrightarrow> s_in S w0 cfd = []"
      using f t i Receiving by (auto simp: flag_inv_def incoming_def)
    then show ?thesis using step f t r True Receiving
      by (auto simp: thread_step_def hang_up_def client_done_def Let_def flag_inv_def active_def)
  next
    case False
    then show ?thesis using step f t r i(1) Receiving
      by (auto simp: thread_step_def flag_inv_def active_def incoming_def)
  qed
next
  case (Bytes bs)
  show ?thesis
  proof (cases bs)
    case Nil
    then show ?thesis using step f Bytes by (auto simp: thread_step_def flag_inv_def active_def incoming_def)
  next
    case (Cons ch bs')
    then have b: "th_phase t = Bytes (ch # bs')" using Bytes by simp
    note ready = byte_ready [OF b packets inv data]
    have "v_ok (client_view S cfd) w" using w by simp
    from process_byte_serves [OF os sk ready(1-3) this ready(5)]
    obtain c1 w1 where p: "process_byte u os cfd ch (th_conn t) w = Some (Next_byte, c1, w1)"
      and i: "s_in S w1 cfd = s_in S w cfd"
      by auto
    have "realloc_ok os" using os by (simp add: os_serves_def serves_memory_def)
    note buf = process_byte_buffer [OF ready(1) this p]
    have "t' = \<lparr>th_phase = Bytes bs', th_conn = c1\<rparr>" "w' = w1" using step b p by (simp_all add: thread_step_def)
    moreover have "bs' @ s_in S w cfd \<noteq> s_in S w0 cfd"
      using ready(4) arg_cong [of "bs' @ s_in S w cfd" "s_in S w0 cfd" length] by auto
    ultimately show ?thesis using buf i f t by (simp add: flag_inv_def active_def incoming_def)
  qed
qed (use t in \<open>simp_all add: active_def\<close>)

section \<open>The invariant\<close>

definition coupled :: "bool \<Rightarrow> ('w, 'f) server_view \<Rightarrow> 'w \<Rightarrow> history \<Rightarrow> ptr list \<Rightarrow> 'w whole \<Rightarrow> bool" where
  "coupled u S w0 h xs x \<longleftrightarrow>
     holds_threads (w_server x) xs \<and> pool_inv u S w0 h (w_pool x) \<and> inj_on (record_fd (w_server x)) (set xs) \<and>
     (\<forall>i \<in> set xs. \<exists>t. p_threads (w_pool x) (record_fd (w_server x) i) = Some t \<and>
        td_complete (td (w_server x) i) = thread_complete_success (th_conn t)) \<and>
     (\<forall>cfd t. p_threads (w_pool x) cfd = Some t \<longrightarrow> flag_inv S w0 cfd t (p_world (w_pool x)) \<and>
        (thread_complete_success (th_conn t) \<or> cfd \<in> record_fd (w_server x) ` set xs))"

text \<open>Steps of others leave a thread's flag right: they leave its stream.\<close>

lemma flag_inv_others:
  assumes "client_inv u S w0 h cfd (Some t) w" "client_inv u S w0 (h @ k) cfd (Some t) w'"
    and "packets_of cfd k = []" "flag_inv S w0 cfd t w"
  shows "flag_inv S w0 cfd t w'"
proof (cases "active t")
  case True
  then have "s_in S w' cfd = s_in S w cfd" using assms(1-3) by (simp add: client_inv_def thread_inv_def)
  then show ?thesis using assms(4) by (simp add: flag_inv_def)
qed (use assms(4) in \<open>simp add: flag_inv_def\<close>)

lemma pool_client: "pool_inv u S w0 h p \<Longrightarrow> p_threads p cfd = Some t \<Longrightarrow> client_inv u S w0 h cfd (Some t) (p_world p)"
  unfolding pool_inv_def by metis

lemma coupled_client:
  assumes c: "coupled u S w0 h xs x" and a: "a_fd a \<noteq> - 1" "fresh_answers a (w_server x)"
    and new: "p_threads (w_pool x) (a_fd a) = None"
    and it: "accept_iteration a (w_server x) = Some (True, s')" and w: "served_world u os S w0"
  shows "\<exists>k ys. coupled u S w0 (h @ k) ys (x\<lparr>w_server := s',
    w_pool := (w_pool x)\<lparr>p_threads := (p_threads (w_pool x))(a_fd a \<mapsto> new_thread)\<rparr>\<rparr>)"
proof -
  let ?s = "w_server x" and ?p = "w_pool x" and ?i = "a_tdata a"
  let ?p' = "?p\<lparr>p_threads := (p_threads ?p)(a_fd a \<mapsto> new_thread)\<rparr>"
  let ?ys = "filter (\<lambda>i. \<not> td_complete (td ?s i)) xs @ [?i]"
  have h: "holds_threads ?s xs" and inv: "pool_inv u S w0 h ?p" and inj: "inj_on (record_fd ?s) (set xs)"
    using c by (simp_all add: coupled_def)
  have rc: "a_rc a = 0" using accept_continues_iff [OF h a(2) it] a(1) by simp
  have s': "holds_threads s' ?ys"
    "td s' = (td ?s)(?i := \<lparr>td_thread = a_thread a, td_complete = False, td_client_fd = a_fd a\<rparr>)"
    using accept_iteration_keeps [OF h a(2,1) rc] it by auto
  have fresh: "?i \<notin> set xs" using a(2) h by (simp add: fresh_answers_def holds_threads_def)
  have fd: "record_fd s' ?i = a_fd a" "\<And>i. i \<in> set xs \<Longrightarrow> record_fd s' i = record_fd ?s i"
    using s'(2) fresh by (auto simp: record_fd_def)
  have threads: "\<And>i. i \<in> set xs \<Longrightarrow> \<exists>t. p_threads ?p (record_fd ?s i) = Some t \<and>
      td_complete (td ?s i) = thread_complete_success (th_conn t)"
    and flags: "\<And>cfd t. p_threads ?p cfd = Some t \<Longrightarrow> flag_inv S w0 cfd t (p_world ?p) \<and>
      (thread_complete_success (th_conn t) \<or> cfd \<in> record_fd ?s ` set xs)"
    using c by (simp_all add: coupled_def)
  have other: "record_fd ?s i \<noteq> a_fd a" if "i \<in> set xs" for i using threads [OF that] new by auto
  have step: "pool_step u os ?p ?p'" by (rule pool_step.accept) (use inv new in \<open>simp_all add: pool_inv_def\<close>)
  obtain k where k: "pool_inv u S w0 (h @ k) ?p'" using pool_step_inv [OF w inv step] by blast
  have "inj_on (record_fd s') (set ?ys)"
  proof (rule inj_onI)
    fix i j assume ij: "i \<in> set ?ys" "j \<in> set ?ys" "record_fd s' i = record_fd s' j"
    then show "i = j" using inj fd other [of i] other [of j] by (cases "i = ?i"; cases "j = ?i") (auto dest: inj_onD)
  qed
  moreover have "\<exists>t. p_threads ?p' (record_fd s' i) = Some t \<and> td_complete (td s' i) = thread_complete_success (th_conn t)"
    if i: "i \<in> set ?ys" for i
  proof (cases "i = ?i")
    case True
    then show ?thesis using fd(1) s'(2) by (simp add: new_thread_def new_conn_def)
  next
    case False
    then have "i \<in> set xs" using i by auto
    then show ?thesis using threads fd(2) other s'(2) False by simp
  qed
  moreover have "flag_inv S w0 cfd t (p_world ?p') \<and>
      (thread_complete_success (th_conn t) \<or> cfd \<in> record_fd s' ` set ?ys)"
    if t: "p_threads ?p' cfd = Some t" for cfd t
  proof (cases "cfd = a_fd a")
    case True
    have "client_inv u S w0 h cfd None (p_world ?p)" using inv new True unfolding pool_inv_def by metis
    then have "s_in S (p_world ?p) cfd = s_in S w0 cfd" by (simp add: client_inv_def)
    then show ?thesis using t True fd(1) flag_inv_new [of S _ cfd w0] by simp
  next
    case False
    then have t0: "p_threads ?p cfd = Some t" using t by simp
    have "cfd \<in> record_fd s' ` set ?ys" if nf: "\<not> thread_complete_success (th_conn t)"
    proof -
      obtain i where i: "i \<in> set xs" "cfd = record_fd ?s i" using flags [OF t0] nf by auto
      then have "\<not> td_complete (td ?s i)" using threads [OF i(1)] t0 nf by auto
      then show ?thesis using i fd(2) by force
    qed
    then show ?thesis using flags [OF t0] by auto
  qed
  ultimately have "coupled u S w0 (h @ k) ?ys (x\<lparr>w_server := s', w_pool := ?p'\<rparr>)"
    using s'(1) k by (simp add: coupled_def)
  then show ?thesis by blast
qed

lemma coupled_thread:
  assumes c: "coupled u S w0 h xs x" and w: "served_world u os S w0"
    and i: "item \<in> set (running (w_server x))" and t: "p_threads (w_pool x) (record_fd (w_server x) item) = Some t"
    and act: "active t" and step: "thread_step u os (record_fd (w_server x) item) t (p_world (w_pool x)) = Some r"
  shows "\<exists>k. coupled u S w0 (h @ k) xs (thread_moved item r x)"
proof -
  let ?s = "w_server x" and ?p = "w_pool x" and ?fd = "record_fd (w_server x) item"
  have h: "holds_threads ?s xs" and inv: "pool_inv u S w0 h ?p" and inj: "inj_on (record_fd ?s) (set xs)"
    using c by (simp_all add: coupled_def)
  have item: "item \<in> set xs" using i h by (simp add: holds_threads_def)
  obtain t' w' k where a: "advances u os S w0 h ?fd t (p_world ?p) t' w' k"
    and k: "pool_inv u S w0 (h @ k) (put_thread ?fd (t', w') ?p)"
    using thread_pool_inv [OF w inv t act] by blast
  have r: "r = (t', w')" using a step by (simp add: advances_def)
  let ?p' = "put_thread ?fd (t', w') ?p" and ?s' = "w_server (thread_moved item r x)"
  have x': "thread_moved item r x = \<lparr>w_server = ?s', w_pool = ?p'\<rparr>"
    and s': "?s' = (if thread_complete_success (th_conn t') then set_flag item ?s else ?s)"
    by (simp_all add: thread_moved_def r Let_def)
  have p': "p_threads ?p' = (p_threads ?p)(?fd \<mapsto> t')" "p_world ?p' = w'" by (simp_all add: put_thread_def)
  have fd: "record_fd ?s' i = record_fd ?s i" for i by (simp add: s' record_fd_def set_flag_def)
  have done_eq: "td_complete (td ?s' i) = (if i = item then td_complete (td ?s item) \<or> thread_complete_success (th_conn t')
      else td_complete (td ?s i))" for i by (simp add: s' set_flag_def)
  have f: "flag_inv S w0 ?fd t (p_world ?p)" "td_complete (td ?s item) = thread_complete_success (th_conn t)"
    using c t item by (auto simp: coupled_def)
  have not_set: "\<not> td_complete (td ?s item)" using f act by (simp add: flag_inv_def)
  have os: "os_serves os (client_view S ?fd) ?fd" and data: "fits (client_view S ?fd) u (s_in S w0 ?fd)"
    and sk: "u \<Longrightarrow> serves_seek os (client_view S ?fd) (client_sk S)"
    using w by (simp_all add: served_world_def serves_clients_def serves_seeks_def)
  have ok: "s_ok S (p_world ?p)" and ps: "right_history u S (s_file S w0) h" using inv by (simp_all add: pool_inv_def)
  have moved: "thread_step u os ?fd t (p_world ?p) = Some (t', w')" using step r by simp
  have flag': "flag_inv S w0 ?fd t' w'"
    by (rule thread_step_flag [OF os sk ok ps pool_client [OF inv t] data act f(1) moved])
  have "holds_threads ?s' xs" using h set_flag_holds by (simp add: s')
  moreover have "inj_on (record_fd ?s') (set xs)" using inj by (simp add: inj_on_def fd)
  moreover have "\<exists>t. p_threads ?p' (record_fd ?s' i) = Some t \<and> td_complete (td ?s' i) = thread_complete_success (th_conn t)"
    if "i \<in> set xs" for i
  proof (cases "i = item")
    case True
    then show ?thesis using not_set by (simp add: p' fd done_eq)
  next
    case False
    then have "record_fd ?s i \<noteq> ?fd" using inj item that by (auto simp: inj_on_def)
    then show ?thesis using c that False by (simp add: coupled_def p' fd done_eq)
  qed
  moreover have "flag_inv S w0 cfd t2 w' \<and> (thread_complete_success (th_conn t2) \<or> cfd \<in> record_fd ?s' ` set xs)"
    if t2: "p_threads ?p' cfd = Some t2" for cfd t2
  proof (cases "cfd = ?fd")
    case True
    then show ?thesis using t2 flag' item by (auto simp: p' fd)
  next
    case False
    then have t0: "p_threads ?p cfd = Some t2" using t2 by (simp add: p')
    have "packets_of cfd k = []" using a False by (auto simp: advances_def packets_of_def filter_empty_conv)
    moreover have "client_inv u S w0 (h @ k) cfd (Some t2) w'" using pool_client [OF k t2] by (simp add: p')
    ultimately have "flag_inv S w0 cfd t2 w'"
      using flag_inv_others [OF pool_client [OF inv t0]] c t0 by (simp add: coupled_def)
    moreover have "thread_complete_success (th_conn t2) \<or> cfd \<in> record_fd ?s' ` set xs"
      using c t0 by (simp add: coupled_def fd image_def)
    ultimately show ?thesis by blast
  qed
  ultimately have "coupled u S w0 (h @ k) xs \<lparr>w_server = ?s', w_pool = ?p'\<rparr>"
    using k by (simp add: coupled_def p')
  then show ?thesis using x' by metis
qed

lemma coupled_stamp:
  assumes c: "coupled u S w0 h xs x" and w: "served_world u os S w0"
    and r: "\<not> u" "time_string str" "timestamp_round os str (p_stamp (w_pool x)) (p_world (w_pool x)) = Some (c', w')"
  shows "coupled u S w0 (h @ [(None, Stored str)]) xs (x\<lparr>w_pool := (w_pool x)\<lparr>p_world := w', p_stamp := c'\<rparr>\<rparr>)"
proof -
  let ?p = "w_pool x"
  have inv: "pool_inv u S w0 h ?p" using c by (simp add: coupled_def)
  note k = stamp_pool_inv [OF w inv r]
  have "flag_inv S w0 cfd t w'" if t: "p_threads ?p cfd = Some t" for cfd t
  proof (rule flag_inv_others [OF pool_client [OF inv t], where k = "[(None, Stored str)]"])
    show "client_inv u S w0 (h @ [(None, Stored str)]) cfd (Some t) w'"
      using pool_client [OF k, of cfd t] t by simp
  qed (use c t in \<open>simp_all add: coupled_def\<close>)
  then show ?thesis using c k by (simp add: coupled_def)
qed

lemma coupled_step:
  assumes c: "p_exit (w_pool x) = None \<longrightarrow> (\<exists>h xs. coupled u S w0 h xs x)" and w: "served_world u os S w0"
    and step: "whole_step u os x y"
  shows "p_exit (w_pool y) = None \<longrightarrow> (\<exists>h xs. coupled u S w0 h xs y)"
  using step
proof cases
  case (no_client a s)
  then have "s = w_server x" using accept_nothing [of a "w_server x"] by simp
  then have "y = x" using no_client(1) by simp
  then show ?thesis using c by blast
next
  case (client a s)
  then obtain h xs where "coupled u S w0 h xs x" using c by blast
  from coupled_client [OF this client(3-6) w] show ?thesis using client(1) by blast
next
  case (thread item t r)
  then obtain h xs where "coupled u S w0 h xs x" using c by blast
  from coupled_thread [OF this w thread(3-6)] show ?thesis using thread(1) by blast
next
  case (stamp str c w')
  then obtain h xs where "coupled u S w0 h xs x" using assms(1) by blast
  from coupled_stamp [OF this w stamp(3-5)] show ?thesis using stamp(1) by blast
qed simp

text \<open>A server that was just started owns nothing.\<close>

definition clean_server :: "server \<Rightarrow> bool" where
  "clean_server s \<longleftrightarrow> (\<forall>p. \<not> elem_live (tq s) p) \<and> (\<forall>q. \<not> thread_block s q) \<and> running s = []"

lemma whole_coupled:
  assumes w: "served_world u os S w0" and s: "clean_server s0"
    and "(whole_step u os)\<^sup>*\<^sup>* (start_whole s0 w0) x"
  shows "p_exit (w_pool x) = None \<longrightarrow> (\<exists>h xs. coupled u S w0 h xs x)"
  using assms(3)
proof (induction rule: rtranclp_induct)
  case base
  have "coupled u S w0 [] [] (start_whole s0 w0)"
    using holds_threads_init [of s0] s start_pool_inv [of S w0 u] w
    by (simp add: coupled_def start_whole_def clean_server_def served_world_def) (simp add: start_pool_def)
  then show ?case by blast
next
  case (step x y)
  from coupled_step [OF step.IH w step.hyps(2)] show ?case .
qed

text \<open>While the process lives, its threads take the steps of a pool of threads.\<close>

lemma whole_step_pool:
  assumes "whole_step u os x y" "p_exit (w_pool y) = None"
  shows "p_exit (w_pool x) = None \<and> (w_pool y = w_pool x \<or> pool_step u os (w_pool x) (w_pool y))"
  using assms(1)
proof cases
  case (client a s)
  then show ?thesis by (auto intro: pool_step.accept)
next
  case (thread item t r)
  then show ?thesis by (auto simp: thread_moved_def Let_def intro: pool_step.thread)
next
  case (stamp str c w)
  then show ?thesis by (auto intro: pool_step.stamp)
qed (use assms(2) in auto)

lemma whole_pool:
  "(whole_step u os)\<^sup>*\<^sup>* (start_whole s0 w0) x \<Longrightarrow> p_exit (w_pool x) = None \<Longrightarrow>
     (pool_step u os)\<^sup>*\<^sup>* (start_pool w0) (w_pool x)"
proof (induction rule: rtranclp_induct)
  case base
  then show ?case by (simp add: start_whole_def)
next
  case (step x y)
  then show ?case using whole_step_pool [OF step.hyps(2) step.prems] by (auto intro: rtranclp.rtrancl_into_rtrancl)
qed

lemma coupled_flag:
  assumes c: "coupled u S w0 h xs x" and i: "i \<in> set xs"
  shows "\<exists>t. p_threads (w_pool x) (record_fd (w_server x) i) = Some t \<and>
    td_complete (td (w_server x) i) = (\<not> active t \<and> s_in S w0 (record_fd (w_server x) i) \<noteq> [])"
proof -
  obtain t where t: "p_threads (w_pool x) (record_fd (w_server x) i) = Some t"
    "td_complete (td (w_server x) i) = thread_complete_success (th_conn t)"
    using c i unfolding coupled_def by blast
  then have "flag_inv S w0 (record_fd (w_server x) i) t (p_world (w_pool x))" using c by (simp add: coupled_def)
  then show ?thesis using t by (cases "active t") (simp_all add: flag_inv_def)
qed

text \<open>The threads of a state can run until all of them have ended; the records stay.\<close>

definition same_records :: "server \<Rightarrow> server \<Rightarrow> bool" where
  "same_records s s' \<longleftrightarrow> (\<forall>i. record_fd s' i = record_fd s i \<and> td_thread (td s' i) = td_thread (td s i))"

lemma threads_run_out:
  assumes w: "served_world u os S w0"
  shows "coupled u S w0 h xs x \<Longrightarrow> \<exists>y k. (whole_step u os)\<^sup>*\<^sup>* x y \<and> coupled u S w0 k xs y \<and>
     (\<forall>cfd t. p_threads (w_pool y) cfd = Some t \<longrightarrow> \<not> active t) \<and> same_records (w_server x) (w_server y)"
proof (induction "total_work S (w_pool x)" arbitrary: x h rule: less_induct)
  case less
  note c = less.prems
  have inv: "pool_inv u S w0 h (w_pool x)" using c by (simp add: coupled_def)
  show ?case
  proof (cases "\<exists>cfd t. p_threads (w_pool x) cfd = Some t \<and> active t")
    case True
    then obtain cfd t where t: "p_threads (w_pool x) cfd = Some t" "active t" by blast
    obtain r where r: "thread_step u os cfd t (p_world (w_pool x)) = Some r"
      using thread_pool_inv [OF w inv t] by (auto simp: advances_def)
    obtain item where i: "item \<in> set xs" "record_fd (w_server x) item = cfd"
    proof -
      have "flag_inv S w0 cfd t (p_world (w_pool x))"
        "thread_complete_success (th_conn t) \<or> cfd \<in> record_fd (w_server x) ` set xs"
        using c t(1) unfolding coupled_def by blast+
      then show thesis using t(2) that by (auto simp: flag_inv_def)
    qed
    have run: "item \<in> set (running (w_server x))" using c i(1) by (simp add: coupled_def holds_threads_def)
    have live: "p_exit (w_pool x) = None" using inv by (simp add: pool_inv_def)
    let ?y = "thread_moved item r x"
    have step: "whole_step u os x ?y"
      using whole_step.thread [OF live run] t r i(2) by simp
    obtain k where k: "coupled u S w0 (h @ k) xs ?y"
      using coupled_thread [OF c w run] t r i(2) by blast
    have "w_pool ?y = put_thread cfd r (w_pool x)" by (simp add: thread_moved_def i(2) Let_def)
    then have "client_step u os (w_pool x) (w_pool ?y)" using t r live unfolding client_step_def by metis
    then have less': "total_work S (w_pool ?y) < total_work S (w_pool x)" by (rule client_step_inv(2) [OF w inv])
    have same: "same_records (w_server x) (w_server ?y)"
      by (simp add: same_records_def thread_moved_def Let_def set_flag_def record_fd_def)
    from less.hyps [OF less' k] step same show ?thesis
      by (metis (no_types, lifting) converse_rtranclp_into_rtranclp same_records_def)
  next
    case False
    then show ?thesis using c by (intro exI [of _ x] exI [of _ h]) (auto simp: same_records_def)
  qed
qed

lemma holds_threads_unique: "holds_threads s xs \<Longrightarrow> holds_threads s ys \<Longrightarrow> xs = ys"
proof -
  assume "holds_threads s xs" "holds_threads s ys"
  then have q: "tailq (tq s) active_head xs" "tailq (tq s) active_head ys" by (simp_all add: holds_threads_def)
  have "first_or_null xs = first_or_null ys" using TAILQ_FIRST_tailq [OF q(1)] TAILQ_FIRST_tailq [OF q(2)] by simp
  then show ?thesis
    using tq.visits [of "tq s" active_head "[]" xs] tq.visits [of "tq s" active_head "[]" ys] q by simp
qed

section \<open>Properties\<close>

text \<open>
  The accept loop and the threads fit together: as long as the process lives, the queue
  holds one record for each connection whose thread runs, and for others whose thread has
  ended; a record's flag is set exactly if its thread has ended and its client had sent
  something. The threads take the steps of the pool of threads, so what is shown of a pool
  holds of the server.
\<close>

theorem records_follow_threads:
  assumes "served_world u os S w0" "clean_server s0" "(whole_step u os)\<^sup>*\<^sup>* (start_whole s0 w0) x"
    and "p_exit (w_pool x) = None"
  shows "(pool_step u os)\<^sup>*\<^sup>* (start_pool w0) (w_pool x) \<and>
    (\<exists>xs. holds_threads (w_server x) xs \<and> distinct (map (record_fd (w_server x)) xs) \<and>
       (\<forall>i \<in> set xs. \<exists>t. p_threads (w_pool x) (record_fd (w_server x) i) = Some t \<and>
          td_complete (td (w_server x) i) = (\<not> active t \<and> s_in S w0 (record_fd (w_server x) i) \<noteq> [])) \<and>
       (\<forall>cfd t. p_threads (w_pool x) cfd = Some t \<longrightarrow> active t \<longrightarrow> cfd \<in> record_fd (w_server x) ` set xs))"
proof -
  obtain h xs where c: "coupled u S w0 h xs x" using whole_coupled [OF assms(1-3)] assms(4) by blast
  have flag: "flag_inv S w0 cfd t (p_world (w_pool x))" "thread_complete_success (th_conn t) \<or>
      cfd \<in> record_fd (w_server x) ` set xs" if "p_threads (w_pool x) cfd = Some t" for cfd t
    using c that by (simp_all add: coupled_def)
  note coupled_flag [OF c]
  moreover have "cfd \<in> record_fd (w_server x) ` set xs" if "p_threads (w_pool x) cfd = Some t" "active t" for cfd t
    using flag [OF that(1)] that(2) by (simp add: flag_inv_def)
  moreover have "holds_threads (w_server x) xs" "distinct (map (record_fd (w_server x)) xs)"
    using c holds_threads_distinct by (auto simp: coupled_def distinct_map)
  ultimately show ?thesis using whole_pool [OF assms(3,4)] by blast
qed

text \<open>
  At every point of the server's life, taking the next connection is free of undefined
  behaviour and joins only threads that have ended, so it never waits and takes no record
  from a running thread. In the queue stay, in order, the connections whose thread runs and
  those whose thread has ended without a byte from its client: these are never joined.
\<close>

theorem accept_joins_ended_threads:
  assumes "served_world u os S w0" "clean_server s0" "(whole_step u os)\<^sup>*\<^sup>* (start_whole s0 w0) x"
    and "p_exit (w_pool x) = None"
    and "fresh_answers a (w_server x)" "a_fd a \<noteq> - 1" "a_rc a = 0"
  shows "\<exists>xs s'. holds_threads (w_server x) xs \<and> accept_iteration a (w_server x) = Some (True, s') \<and>
    holds_threads s' (filter (\<lambda>i. (\<exists>t. p_threads (w_pool x) (record_fd (w_server x) i) = Some t \<and> active t) \<or>
      s_in S w0 (record_fd (w_server x) i) = []) xs @ [a_tdata a])"
proof -
  obtain h xs where c: "coupled u S w0 h xs x" using whole_coupled [OF assms(1-3)] assms(4) by blast
  then have h: "holds_threads (w_server x) xs" by (simp add: coupled_def)
  have "(\<not> td_complete (td (w_server x) i)) = ((\<exists>t. p_threads (w_pool x) (record_fd (w_server x) i) = Some t \<and> active t) \<or>
      s_in S w0 (record_fd (w_server x) i) = [])" if "i \<in> set xs" for i
    using coupled_flag [OF c that] by auto
  then have "filter (\<lambda>i. \<not> td_complete (td (w_server x) i)) xs =
      filter (\<lambda>i. (\<exists>t. p_threads (w_pool x) (record_fd (w_server x) i) = Some t \<and> active t) \<or>
        s_in S w0 (record_fd (w_server x) i) = []) xs"
    by (rule filter_cong [OF refl])
  then show ?thesis using accept_iteration_keeps [OF h assms(5-7)] h by (intro exI [of _ xs]) auto
qed

section \<open>Witnesses\<close>

text \<open>
  On the driver, a client that sends two lines and one that sends nothing connect; their
  threads run to the end.
\<close>

definition first_answer :: accept_answers where "first_answer = \<lparr>a_fd = 5, a_tdata = 50, a_thread = 60, a_rc = 0\<rparr>"
definition silent_answer :: accept_answers where "silent_answer = \<lparr>a_fd = 4, a_tdata = 51, a_thread = 61, a_rc = 0\<rparr>"
definition third_answer :: accept_answers where "third_answer = \<lparr>a_fd = 6, a_tdata = 52, a_thread = 62, a_rc = 0\<rparr>"

lemma drained:
  obtains x where
    "(whole_step True (device_os simple_kernel small_host))\<^sup>*\<^sup>* (start_whole empty_server two_streams) x"
    "p_exit (w_pool x) = None" "holds_threads (w_server x) [50, 51]"
    "record_fd (w_server x) 50 = 5" "record_fd (w_server x) 51 = 4" "fresh_answers third_answer (w_server x)"
    "\<forall>cfd t. p_threads (w_pool x) cfd = Some t \<longrightarrow> \<not> active t"
proof -
  let ?step = "whole_step True (device_os simple_kernel small_host)"
    and ?S = "device_clients simple_kernel simple_room 512" and ?x0 = "start_whole empty_server two_streams"
  note w = two_streams_served
  have s0: "w_server ?x0 = server_init empty_server" "w_pool ?x0 = start_pool two_streams"
    by (simp_all add: start_whole_def)
  have f1: "fresh_answers first_answer (w_server ?x0)" "a_fd first_answer \<noteq> - 1" "a_rc first_answer = 0"
    unfolding s0 by (simp_all add: fresh_answers_def first_answer_def empty_server_def server_init_def TAILQ_INIT_def)
  obtain s1 where s1: "accept_iteration first_answer (w_server ?x0) = Some (True, s1)" "holds_threads s1 [50]"
    "td s1 50 = \<lparr>td_thread = 60, td_complete = False, td_client_fd = 5\<rparr>"
    using accept_iteration_keeps [OF empty_server_holds, of first_answer] f1
    unfolding s0 by (auto simp: first_answer_def)
  define x1 where "x1 = ?x0\<lparr>w_server := s1,
    w_pool := (w_pool ?x0)\<lparr>p_threads := (p_threads (w_pool ?x0))(a_fd first_answer \<mapsto> new_thread)\<rparr>\<rparr>"
  have 1: "?step ?x0 x1" unfolding x1_def
    by (rule whole_step.client [OF _ f1(2,1) _ s1(1)]) (simp_all add: s0 start_pool_def)
  have f2: "fresh_answers silent_answer s1" "a_fd silent_answer \<noteq> - 1" "a_rc silent_answer = 0"
    using s1(2,3) by (auto simp: fresh_answers_def silent_answer_def holds_threads_def)
  obtain s2 where s2: "accept_iteration silent_answer s1 = Some (True, s2)" "holds_threads s2 [50, 51]"
    "td s2 50 = td s1 50" "td s2 51 = \<lparr>td_thread = 61, td_complete = False, td_client_fd = 4\<rparr>"
    using accept_iteration_keeps [OF s1(2) f2] s1(3) by (auto simp: silent_answer_def)
  define x2 where "x2 = x1\<lparr>w_server := s2,
    w_pool := (w_pool x1)\<lparr>p_threads := (p_threads (w_pool x1))(a_fd silent_answer \<mapsto> new_thread)\<rparr>\<rparr>"
  have "w_server x1 = s1" by (simp add: x1_def)
  note it2 = s2(1) [folded this] and fr2 = f2(1) [folded this]
  have 2: "?step x1 x2" unfolding x2_def
    by (rule whole_step.client [OF _ f2(2) fr2 _ it2])
      (simp_all add: x1_def s0 start_pool_def first_answer_def silent_answer_def)
  have reach: "?step\<^sup>*\<^sup>* ?x0 x2" using 1 2 by auto
  have clean: "clean_server empty_server" by (simp add: clean_server_def empty_server_def)
  have "p_exit (w_pool x2) = None" by (simp add: x2_def x1_def s0 start_pool_def)
  then obtain h xs where c: "coupled True ?S two_streams h xs x2"
    using whole_coupled [OF w clean reach] by blast
  have "w_server x2 = s2" by (simp add: x2_def)
  then have "holds_threads s2 xs" using c by (simp add: coupled_def)
  then have xs: "xs = [50, 51]" using s2(2) by (rule holds_threads_unique)
  obtain y k where y: "?step\<^sup>*\<^sup>* x2 y" "coupled True ?S two_streams k xs y"
    "\<forall>cfd t. p_threads (w_pool y) cfd = Some t \<longrightarrow> \<not> active t" "same_records (w_server x2) (w_server y)"
    using threads_run_out [OF w c] by blast
  have h: "holds_threads (w_server y) [50, 51]" and live: "p_exit (w_pool y) = None"
    using y(2) xs by (simp_all add: coupled_def pool_inv_def)
  have fd: "record_fd (w_server y) 50 = 5" "record_fd (w_server y) 51 = 4"
    "td_thread (td (w_server y) 50) = 60" "td_thread (td (w_server y) 51) = 61"
    using y(4) s1(3) s2(3,4) \<open>w_server x2 = s2\<close> by (simp_all add: same_records_def record_fd_def)
  have "fresh_answers third_answer (w_server y)"
    using h fd(3,4) by (simp add: fresh_answers_def third_answer_def holds_threads_def)
  moreover have "?step\<^sup>*\<^sup>* ?x0 y" using reach y(1) by (rule rtranclp_trans)
  ultimately show thesis using that [OF _ live h fd(1,2) _ y(3)] by blast
qed

lemma two_streams_sent:
  "s_in (device_clients simple_kernel simple_room 512) two_streams 5 \<noteq> []"
  "s_in (device_clients simple_kernel simple_room 512) two_streams 4 = []"
  by (simp_all add: device_clients_simps two_streams_def)

lemma empty_server_clean: "clean_server empty_server"
  by (simp add: clean_server_def empty_server_def)

theorem records_follow_threads_witness:
  "\<exists>x. (whole_step True (device_os simple_kernel small_host))\<^sup>*\<^sup>* (start_whole empty_server two_streams) x \<and>
     holds_threads (w_server x) [50, 51] \<and> td_complete (td (w_server x) 50) \<and> \<not> td_complete (td (w_server x) 51)"
proof -
  obtain x where x: "(whole_step True (device_os simple_kernel small_host))\<^sup>*\<^sup>* (start_whole empty_server two_streams) x"
    "p_exit (w_pool x) = None" "holds_threads (w_server x) [50, 51]"
    "record_fd (w_server x) 50 = 5" "record_fd (w_server x) 51 = 4"
    "\<forall>cfd t. p_threads (w_pool x) cfd = Some t \<longrightarrow> \<not> active t" by (rule drained)
  obtain xs where xs: "holds_threads (w_server x) xs" and flag: "\<forall>i \<in> set xs. \<exists>t.
      p_threads (w_pool x) (record_fd (w_server x) i) = Some t \<and> td_complete (td (w_server x) i) =
        (\<not> active t \<and> s_in (device_clients simple_kernel simple_room 512) two_streams (record_fd (w_server x) i) \<noteq> [])"
    using records_follow_threads [OF two_streams_served empty_server_clean x(1,2)] by blast
  have "xs = [50, 51]" using holds_threads_unique [OF xs x(3)] .
  then show ?thesis using flag x two_streams_sent by (intro exI [of _ x]) auto
qed

theorem accept_joins_ended_threads_witness:
  "\<exists>x s'. (whole_step True (device_os simple_kernel small_host))\<^sup>*\<^sup>* (start_whole empty_server two_streams) x \<and>
     holds_threads (w_server x) [50, 51] \<and> accept_iteration third_answer (w_server x) = Some (True, s') \<and>
     holds_threads s' [51, 52]"
proof -
  obtain x where x: "(whole_step True (device_os simple_kernel small_host))\<^sup>*\<^sup>* (start_whole empty_server two_streams) x"
    "p_exit (w_pool x) = None" "holds_threads (w_server x) [50, 51]"
    "record_fd (w_server x) 50 = 5" "record_fd (w_server x) 51 = 4" "fresh_answers third_answer (w_server x)"
    "\<forall>cfd t. p_threads (w_pool x) cfd = Some t \<longrightarrow> \<not> active t" by (rule drained)
  have a: "a_fd third_answer \<noteq> - 1" "a_rc third_answer = 0" "a_tdata third_answer = 52"
    by (simp_all add: third_answer_def)
  let ?P = "\<lambda>i. (\<exists>t. p_threads (w_pool x) (record_fd (w_server x) i) = Some t \<and> active t) \<or>
      s_in (device_clients simple_kernel simple_room 512) two_streams (record_fd (w_server x) i) = []"
  obtain xs s' where xs: "holds_threads (w_server x) xs" "accept_iteration third_answer (w_server x) = Some (True, s')"
    and s': "holds_threads s' (filter ?P xs @ [a_tdata third_answer])"
    using accept_joins_ended_threads [OF two_streams_served empty_server_clean x(1,2,6) a(1,2)] by blast
  have "xs = [50, 51]" using holds_threads_unique [OF xs(1) x(3)] .
  moreover have "\<not> ?P 50" using x(4,7) two_streams_sent(1) by auto
  moreover have "?P 51" using x(5) two_streams_sent(2) by simp
  ultimately have "filter ?P xs = [51]" by (simp only: filter.simps if_True if_False)
  then have "holds_threads s' [51, 52]" using s' by (simp add: a(3))
  then show ?thesis using x(1,3) xs(2) by blast
qed

end
