(* ===== verification/Call_Steps.thy ===== *)
theory Call_Steps
  imports Server_Threads
begin

text \<open>
  The threads of the server one system call at a time. \<open>Server_Threads\<close> takes the section under
  the mutex as one step; here each call the section makes is a step of its own, on every branch,
  failures included. A point says which call a thread makes next. That the calls, made one
  after the other by a thread on its own, are the code is shown in \<open>Call_Equivalence\<close>; \<open>Call_Pool\<close>
  interleaves them.
\<close>

section \<open>The calls of \<open>write_to_file\<close>\<close>

datatype write_point = W_open "byte list" | W_write int "byte list" | W_fsync int | W_close int | W_close_failed int

text \<open>\<open>Inr\<close> is the value that \<open>write_to_file\<close> returns.\<close>

fun write_step :: "'w os \<Rightarrow> write_point \<Rightarrow> 'w \<Rightarrow> (write_point + int) \<times> 'w" where
  "write_step os (W_open p) w =
     (let (fd, w1) = sys_open os w [O_RDWR, O_CREAT, O_APPEND]
      in (if fd = - 1 then Inr (- 1) else Inl (W_write fd p), w1))"
| "write_step os (W_write fd p) w =
     (let (nr, w1) = sys_write os w fd p
      in (Inl (if nr = - 1 then W_close_failed fd else W_fsync fd), w1))"
| "write_step os (W_fsync fd) w =
     (let (fs, w1) = sys_fsync os w fd
      in (Inl (if fs = - 1 then W_close_failed fd else W_close fd), w1))"
| "write_step os (W_close fd) w =
     (let (cl, w1) = sys_close os w fd in (Inr (if cl = - 1 then - 1 else 0), w1))"
| "write_step os (W_close_failed fd) w = (Inr (- 1), snd (sys_close os w fd))"

text \<open>How many calls are left at most.\<close>

fun write_calls :: "write_point \<Rightarrow> nat" where
  "write_calls (W_open p) = 4"
| "write_calls (W_write fd p) = 3"
| "write_calls (W_fsync fd) = 2"
| "write_calls (W_close fd) = 1"
| "write_calls (W_close_failed fd) = 1"

lemma write_calls_pos [simp]: "0 < write_calls wp"
  by (cases wp) simp_all

lemma write_step_less: "write_step os wp w = (Inl wp', w1) \<Longrightarrow> write_calls wp' < write_calls wp"
  by (cases wp) (auto simp: Let_def split: prod.splits if_splits)

section \<open>The calls of the loop that sends the file\<close>

datatype echo_point = E_read | E_send "byte list" | E_close_failed

text \<open>
  \<open>E_send bs\<close> is the head of the inner loop, with the bytes still to send. \<open>Inr\<close> is the end of
  the outer loop, false after a send that failed.
\<close>

fun echo_step :: "'w os \<Rightarrow> int \<Rightarrow> int \<Rightarrow> echo_point \<Rightarrow> 'w \<Rightarrow> (echo_point + bool) \<times> 'w" where
  "echo_step os cfd fd E_read w =
     (let (bytes_read, bs, w1) = sys_read os w fd FILE_BUF_SIZE
      in (if bytes_read \<le> 0 then Inr True else Inl (E_send (take (nat bytes_read) bs)), w1))"
| "echo_step os cfd fd (E_send bs) w =
     (if bs = [] then (Inl E_read, w)
      else let (n, w1) = sys_send os w cfd bs
      in (Inl (if n = - 1 then E_close_failed else E_send (drop (nat n) bs)), w1))"
| "echo_step os cfd fd E_close_failed w = (Inr False, snd (sys_close os w fd))"

section \<open>The section under the mutex\<close>

datatype job = Data "byte list" | Seek int int

datatype point =
    Lock job
  | Writing write_point
  | Unlock_failed
  | Open_send
  | Unlock_break
  | Sending int echo_point
  | Close_sent int
  | Unlock_done
  | Open_seek aesd_seekto
  | Ioctl int aesd_seekto
  | Unlock_refused
  | Answering int echo_point
  | Unlock_exit

text \<open>
  The next point, or where the code goes on after the section. A failed write unlocks, goes on
  to send the file, and unlocks once more at the end. That second unlock is undefined here, \<open>None\<close>;
  \<open>raw_calls\<close> of \<open>Call_Pool\<close> has what it does to the other threads.
\<close>

fun section_step :: "'w os \<Rightarrow> int \<Rightarrow> point \<Rightarrow> conn \<Rightarrow> 'w \<Rightarrow> ((point + flow) \<times> conn \<times> 'w) option" where
  "section_step os cfd (Lock job) c w = do {
     (c1, w1) \<leftarrow> mutex_lock' os c w;
     Some (Inl (case job of
                  Data p \<Rightarrow> Writing (W_open p)
                | Seek x y \<Rightarrow> Open_seek \<lparr>write_cmd = of_int x, write_cmd_offset = of_int y\<rparr>), c1, w1)
   }"
| "section_step os cfd (Writing wp) c w =
     (let (r, w1) = write_step os wp w
      in Some (Inl (case r of
                      Inl wp' \<Rightarrow> Writing wp'
                    | Inr fr \<Rightarrow> if fr = - 1 then Unlock_failed else Open_send), c, w1))"
| "section_step os cfd Unlock_failed c w = do {
     (c1, w1) \<leftarrow> mutex_unlock' os c w;
     Some (Inl Open_send, c1, w1)
   }"
| "section_step os cfd Open_send c w =
     (let (fd, w1) = sys_open os w [O_RDONLY]
      in Some (Inl (if fd = - 1 then Unlock_break else Sending fd E_read), c, w1))"
| "section_step os cfd Unlock_break c w = do {
     (c1, w1) \<leftarrow> mutex_unlock' os c w;
     Some (Inr Break_loop, c1, w1)
   }"
| "section_step os cfd (Sending fd ep) c w =
     (let (r, w1) = echo_step os cfd fd ep w
      in Some (case r of
                 Inl ep' \<Rightarrow> Inl (Sending fd ep')
               | Inr ok \<Rightarrow> if ok then Inl (Close_sent fd) else Inr (Exit 1), c, w1))"
| "section_step os cfd (Close_sent fd) c w = Some (Inl Unlock_done, c, snd (sys_close os w fd))"
| "section_step os cfd Unlock_done c w = do {
     (c1, w1) \<leftarrow> mutex_unlock' os c w;
     Some (Inr Next_byte, c1\<lparr>packet_len := 0\<rparr>, w1)
   }"
| "section_step os cfd (Open_seek seekto) c w =
     (let (fd, w1) = sys_open os w [O_RDWR]
      in Some (Inl (if fd = - 1 then Unlock_refused else Ioctl fd seekto), c, w1))"
| "section_step os cfd (Ioctl fd seekto) c w =
     (let (r, w1) = sys_ioctl os w fd AESDCHAR_IOCSEEKTO seekto
      in Some (Inl (if r = - 1 then Unlock_refused else Answering fd E_read), c, w1))"
| "section_step os cfd Unlock_refused c w = do {
     (c1, w1) \<leftarrow> mutex_unlock' os c w;
     Some (Inr Next_byte, c1, w1)
   }"
| "section_step os cfd (Answering fd ep) c w =
     (let (r, w1) = echo_step os cfd fd ep w
      in Some (case r of
                 Inl ep' \<Rightarrow> Inl (Answering fd ep')
               | Inr ok \<Rightarrow> if ok then Inl (Close_sent fd) else Inl Unlock_exit, c, w1))"
| "section_step os cfd Unlock_exit c w = do {
     (c1, w1) \<leftarrow> mutex_unlock' os c w;
     Some (Inr (Exit 1), c1, w1)
   }"

section \<open>A connection thread\<close>

datatype call_phase =
    Waiting
  | Have "byte list"
  | In_section point "byte list"
  | Hanging_up
  | Closing
  | Ended
  | Process_exit int

record call_thread =
  ct_phase :: call_phase
  ct_conn :: conn

definition new_call_thread :: call_thread where
  "new_call_thread = \<lparr>ct_phase = Waiting, ct_conn = new_conn\<rparr>"

text \<open>What a complete packet asks for.\<close>

definition packet_job :: "bool \<Rightarrow> conn \<Rightarrow> job option" where
  "packet_job use_char c = do {
     b \<leftarrow> packet_buf c;
     cmd \<leftarrow> (if use_char
             then do {
               eq \<leftarrow> strncmp_eq b seek_prefix;
               if eq then scan_pair (drop (length seek_prefix) b) else Some None
             }
             else Some None);
     Some (case cmd of Some (x, y) \<Rightarrow> Seek x y | None \<Rightarrow> Data (take (unat (packet_len c)) b))
   }"

text \<open>A received byte goes into the packet; the only call is the \<open>realloc\<close> of a full buffer.\<close>

definition take_byte :: "bool \<Rightarrow> 'w os \<Rightarrow> byte \<Rightarrow> byte list \<Rightarrow> conn \<Rightarrow> 'w \<Rightarrow> (call_thread \<times> 'w) option" where
  "take_byte use_char os ch bs c w =
     (let (ok, c1, w1) = grow_packet os c w
      in if \<not> ok then Some (\<lparr>ct_phase = Hanging_up, ct_conn = c1\<rparr>, w1)
      else do {
        b \<leftarrow> packet_buf c1;
        b' \<leftarrow> arr_set b (unat (packet_len c1)) ch;
        let c2 = c1\<lparr>packet_buf := Some b', packet_len := packet_len c1 + 1\<rparr>;
        if ch = newline then do {
          job \<leftarrow> packet_job use_char c2;
          Some (\<lparr>ct_phase = In_section (Lock job) bs, ct_conn = c2\<rparr>, w1)
        }
        else Some (\<lparr>ct_phase = Have bs, ct_conn = c2\<rparr>, w1)
      })"

text \<open>At \<open>client_done\<close> the buffer is freed and the flag set, before the descriptor is closed.\<close>

definition free_packet :: "conn \<Rightarrow> conn" where
  "free_packet c =
     (if packet_buf c \<noteq> None
      then c\<lparr>packet_buf := None, packet_len := 0, packet_size := 0, thread_complete_success := True\<rparr>
      else c)"

lemma client_done_calls: "client_done os cfd c w = (free_packet c, snd (sys_close os w cfd))"
  by (simp add: client_done_def free_packet_def)

definition after_section :: "flow \<Rightarrow> byte list \<Rightarrow> call_phase" where
  "after_section fl bs =
     (case fl of Next_byte \<Rightarrow> Have bs | Break_loop \<Rightarrow> Waiting | Client_done \<Rightarrow> Hanging_up | Exit n \<Rightarrow> Process_exit n)"

definition call_step :: "bool \<Rightarrow> 'w os \<Rightarrow> int \<Rightarrow> call_thread \<Rightarrow> 'w \<Rightarrow> (call_thread \<times> 'w) option" where
  "call_step use_char os cfd t w =
     (let c = ct_conn t in
      case ct_phase t of
        Waiting \<Rightarrow>
          (let (n, bs, w1) = sys_recv os w cfd 1024
           in Some (\<lparr>ct_phase = (if n \<le> 0 then Hanging_up else Have (take (nat n) bs)), ct_conn = c\<rparr>, w1))
      | Have [] \<Rightarrow> Some (\<lparr>ct_phase = Waiting, ct_conn = c\<rparr>, w)
      | Have (ch # bs) \<Rightarrow> take_byte use_char os ch bs c w
      | In_section pt bs \<Rightarrow> do {
          (x, c1, w1) \<leftarrow> section_step os cfd pt c w;
          Some (\<lparr>ct_phase = (case x of Inl pt' \<Rightarrow> In_section pt' bs | Inr fl \<Rightarrow> after_section fl bs),
                 ct_conn = c1\<rparr>, w1)
        }
      | Hanging_up \<Rightarrow> Some (\<lparr>ct_phase = Closing, ct_conn = free_packet c\<rparr>, w)
      | Closing \<Rightarrow> Some (\<lparr>ct_phase = Ended, ct_conn = c\<rparr>, snd (sys_close os w cfd))
      | _ \<Rightarrow> Some (t, w))"

definition call_active :: "call_thread \<Rightarrow> bool" where
  "call_active t \<longleftrightarrow> (case ct_phase t of Ended \<Rightarrow> False | Process_exit n \<Rightarrow> False | _ \<Rightarrow> True)"

text \<open>One thread on its own.\<close>

definition call_runs :: "bool \<Rightarrow> 'w os \<Rightarrow> int \<Rightarrow> call_thread \<times> 'w \<Rightarrow> call_thread \<times> 'w \<Rightarrow> bool" where
  "call_runs use_char os cfd = (\<lambda>(t, w) r. call_active t \<and> call_step use_char os cfd t w = Some r)\<^sup>*\<^sup>*"

section \<open>The thread that logs the time\<close>

text \<open>\<open>S_sleep\<close> is the call of \<open>sleep\<close>; \<open>time_str\<close> is what \<open>strftime\<close> then gives.\<close>

datatype stamp_point = S_sleep | S_lock "byte list" | S_writing write_point | S_unlock

definition stamp_step :: "'w os \<Rightarrow> byte list \<Rightarrow> stamp_point \<Rightarrow> conn \<Rightarrow> 'w \<Rightarrow> (stamp_point \<times> conn \<times> 'w) option" where
  "stamp_step os time_str pt c w =
     (case pt of
        S_sleep \<Rightarrow> Some (S_lock time_str, c, w)
      | S_lock str \<Rightarrow> do { (c1, w1) \<leftarrow> mutex_lock' os c w; Some (S_writing (W_open str), c1, w1) }
      | S_writing wp \<Rightarrow>
          (let (r, w1) = write_step os wp w
           in Some (case r of Inl wp' \<Rightarrow> S_writing wp' | Inr fr \<Rightarrow> S_unlock, c, w1))
      | S_unlock \<Rightarrow> do { (c1, w1) \<leftarrow> mutex_unlock' os c w; Some (S_sleep, c1, w1) })"

text \<open>A round has at most six calls.\<close>

fun stamp_rank :: "stamp_point \<Rightarrow> nat" where
  "stamp_rank (S_lock str) = 6"
| "stamp_rank (S_writing wp) = write_calls wp + 1"
| "stamp_rank S_unlock = 1"
| "stamp_rank S_sleep = 0"

lemma stamp_step_rank:
  "pt \<noteq> S_sleep \<Longrightarrow> stamp_step os str pt c w = Some (pt', c', w') \<Longrightarrow> stamp_rank pt' < stamp_rank pt"
  by (cases pt) (auto simp: stamp_step_def Let_def dest!: write_step_less split: bind_splits prod.splits sum.splits)

end
