(* ===== verification/Call_Pool.thy ===== *)
theory Call_Pool
  imports Call_Steps
begin

text \<open>
  All threads of the server interleaved one system call at a time: the accept loop takes new
  connections, a connection thread or the timestamp thread makes its next call, and the call
  that locks the mutex waits until nobody holds it. A descriptor that was closed can be given
  to a later connection. As long as no write of a connection fails the mutex excludes, whatever
  else the system answers; \<open>Call_Unlock\<close> shows what a failed write leads to.
\<close>

section \<open>State\<close>

text \<open>
  A connection has a number, its place in the list. Two fields record what the view \<open>S\<close> of the
  system shows: the stream its client sends, and at the end what the client was sent, for
  its descriptor may be used again.
\<close>

record connection =
  c_fd :: int
  c_thread :: call_thread
  c_stream :: "byte list"
  c_sent :: "byte list"

datatype owner = Nobody | Connection nat | Timestamp

record 'w call_pool =
  cp_world :: 'w
  cp_conns :: "connection list"
  cp_stamp :: stamp_point
  cp_stamp_conn :: conn
  cp_mutex :: owner
  cp_exit :: "int option"

definition start_calls :: "'w \<Rightarrow> 'w call_pool" where
  "start_calls w =
     \<lparr>cp_world = w, cp_conns = [], cp_stamp = S_sleep, cp_stamp_conn = new_conn, cp_mutex = Nobody, cp_exit = None\<rparr>"

section \<open>Steps\<close>

definition mutex_after :: "owner \<Rightarrow> conn \<Rightarrow> conn \<Rightarrow> owner \<Rightarrow> owner" where
  "mutex_after who c c' m = (if holds c' = holds c then m else if holds c' then who else Nobody)"

text \<open>\<open>pthread_mutex_lock\<close> returns only when the mutex is free.\<close>

definition may_call :: "owner \<Rightarrow> call_thread \<Rightarrow> bool" where
  "may_call m t \<longleftrightarrow> (case ct_phase t of In_section (Lock job) bs \<Rightarrow> m = Nobody | _ \<Rightarrow> True)"

definition may_stamp :: "owner \<Rightarrow> stamp_point \<Rightarrow> bool" where
  "may_stamp m pt \<longleftrightarrow> (case pt of S_lock str \<Rightarrow> m = Nobody | _ \<Rightarrow> True)"

definition new_connection :: "('w, 'f) server_view \<Rightarrow> int \<Rightarrow> 'w \<Rightarrow> connection" where
  "new_connection S fd w = \<lparr>c_fd = fd, c_thread = new_call_thread, c_stream = s_in S w fd, c_sent = []\<rparr>"

definition connection_after :: "('w, 'f) server_view \<Rightarrow> call_thread \<Rightarrow> 'w \<Rightarrow> connection \<Rightarrow> connection" where
  "connection_after S t w k =
     k\<lparr>c_thread := t, c_sent := (if ct_phase t = Ended then s_out S w (c_fd k) else c_sent k)\<rparr>"

definition after_call :: "('w, 'f) server_view \<Rightarrow> nat \<Rightarrow> call_thread \<times> 'w \<Rightarrow> 'w call_pool \<Rightarrow> 'w call_pool" where
  "after_call S n = (\<lambda>(t, w) p.
     let k = cp_conns p ! n in
     p\<lparr>cp_world := w, cp_conns := (cp_conns p)[n := connection_after S t w k],
       cp_mutex := mutex_after (Connection n) (ct_conn (c_thread k)) (ct_conn t) (cp_mutex p),
       cp_exit := (case ct_phase t of Process_exit st \<Rightarrow> Some st | _ \<Rightarrow> cp_exit p)\<rparr>)"

text \<open>
  \<open>acc\<close> is what \<open>accept\<close> answers: a new descriptor, or -1. Only the build without the driver has
  the timestamp thread.
\<close>

inductive calls_step ::
  "bool \<Rightarrow> 'w os \<Rightarrow> ('w \<Rightarrow> int \<times> 'w) \<Rightarrow> ('w, 'f) server_view \<Rightarrow> 'w call_pool \<Rightarrow> 'w call_pool \<Rightarrow> bool"
  for use_char os acc S where
  no_client: "cp_exit p = None \<Longrightarrow> acc (cp_world p) = (- 1, w) \<Longrightarrow>
     calls_step use_char os acc S p (p\<lparr>cp_world := w\<rparr>)"
| client: "cp_exit p = None \<Longrightarrow> acc (cp_world p) = (fd, w) \<Longrightarrow> fd \<noteq> - 1 \<Longrightarrow>
     calls_step use_char os acc S p (p\<lparr>cp_world := w, cp_conns := cp_conns p @ [new_connection S fd w]\<rparr>)"
| thread: "cp_exit p = None \<Longrightarrow> n < length (cp_conns p) \<Longrightarrow> k = cp_conns p ! n \<Longrightarrow> call_active (c_thread k) \<Longrightarrow>
     may_call (cp_mutex p) (c_thread k) \<Longrightarrow>
     call_step use_char os (c_fd k) (c_thread k) (cp_world p) = Some r \<Longrightarrow>
     calls_step use_char os acc S p (after_call S n r p)"
| stamp: "cp_exit p = None \<Longrightarrow> \<not> use_char \<Longrightarrow> time_string str \<Longrightarrow> may_stamp (cp_mutex p) (cp_stamp p) \<Longrightarrow>
     stamp_step os str (cp_stamp p) (cp_stamp_conn p) (cp_world p) = Some (pt, c, w) \<Longrightarrow>
     calls_step use_char os acc S p (p\<lparr>cp_world := w, cp_stamp := pt, cp_stamp_conn := c,
       cp_mutex := mutex_after Timestamp (cp_stamp_conn p) c (cp_mutex p)\<rparr>)"

inductive_cases calls_stepE: "calls_step use_char os acc S p p'"

section \<open>The mutex excludes\<close>

text \<open>
  Where a thread has the mutex. After a write that failed it goes on without it, so at the
  points that send the file it may have it or not.
\<close>

fun locked_point :: "point \<Rightarrow> bool" where
  "locked_point (Writing wp) = True"
| "locked_point Unlock_failed = True"
| "locked_point (Open_seek seekto) = True"
| "locked_point (Ioctl fd seekto) = True"
| "locked_point Unlock_refused = True"
| "locked_point (Answering fd ep) = True"
| "locked_point Unlock_exit = True"
| "locked_point _ = False"

definition stamp_locked :: "stamp_point \<Rightarrow> bool" where
  "stamp_locked pt \<longleftrightarrow> (case pt of S_writing wp \<Rightarrow> True | S_unlock \<Rightarrow> True | _ \<Rightarrow> False)"

definition lock_inv :: "call_thread \<Rightarrow> bool" where
  "lock_inv t \<longleftrightarrow>
     (case ct_phase t of
        In_section pt bs \<Rightarrow> (if locked_point pt then holds (ct_conn t) else (\<exists>job. pt = Lock job) \<longrightarrow> \<not> holds (ct_conn t))
      | Process_exit st \<Rightarrow> True
      | _ \<Rightarrow> \<not> holds (ct_conn t))"

lemma section_step_lock:
  assumes "section_step os cfd pt c w = Some (x, c', w')"
    and "if locked_point pt then holds c else (\<exists>job. pt = Lock job) \<longrightarrow> \<not> holds c"
  shows "case x of
      Inl pt' \<Rightarrow> if locked_point pt' then holds c' else \<not> (\<exists>job. pt' = Lock job)
    | Inr (Exit n) \<Rightarrow> True
    | Inr fl \<Rightarrow> \<not> holds c'"
  using assms by (cases pt) (auto simp: Let_def dest!: mutex_keeps split: bind_splits prod.splits sum.splits job.splits if_splits)

lemma grow_packet_holds: "grow_packet os c w = (ok, c', w') \<Longrightarrow> holds c' = holds c"
  by (auto simp: grow_packet_def Let_def split: if_splits prod.splits option.splits)

lemma call_step_lock:
  assumes "call_step use_char os cfd t w = Some (t', w')" "lock_inv t"
  shows "lock_inv t'"
proof (cases "ct_phase t")
  case (In_section pt bs)
  then obtain x c1 where s: "section_step os cfd pt (ct_conn t) w = Some (x, c1, w')"
    and t': "t' = \<lparr>ct_phase = (case x of Inl pt' \<Rightarrow> In_section pt' bs | Inr fl \<Rightarrow> after_section fl bs), ct_conn = c1\<rparr>"
    using assms(1) by (auto simp: call_step_def split: bind_splits)
  show ?thesis using section_step_lock [OF s] assms(2) In_section
    by (auto simp: t' lock_inv_def after_section_def split: sum.splits flow.splits if_splits)
next
  case (Have bs)
  then show ?thesis using assms
    by (cases bs) (auto simp: call_step_def take_byte_def lock_inv_def Let_def dest!: grow_packet_holds
        split: prod.splits bind_splits if_splits)
qed (use assms in \<open>auto simp: call_step_def lock_inv_def free_packet_def Let_def split: prod.splits if_splits\<close>)

text \<open>Only the call that locks takes the mutex.\<close>

lemma section_step_takes:
  "section_step os cfd pt c w = Some (x, c', w') \<Longrightarrow> holds c' \<Longrightarrow> \<not> holds c \<Longrightarrow> \<exists>job. pt = Lock job"
  by (cases pt) (auto simp: Let_def dest!: mutex_keeps split: bind_splits prod.splits)

lemma call_step_takes:
  assumes "call_step use_char os cfd t w = Some (t', w')" "holds (ct_conn t')" "\<not> holds (ct_conn t)"
    and "may_call m t"
  shows "m = Nobody"
proof (cases "ct_phase t")
  case (In_section pt bs)
  then obtain x c1 where "section_step os cfd pt (ct_conn t) w = Some (x, c1, w')" "ct_conn t' = c1"
    using assms(1) by (auto simp: call_step_def split: bind_splits)
  then show ?thesis using section_step_takes [of os cfd pt "ct_conn t" w x c1 w'] assms(2-4) In_section
    by (auto simp: may_call_def)
next
  case (Have bs)
  then show ?thesis using assms(1-3)
    by (cases bs) (auto simp: call_step_def take_byte_def Let_def dest!: grow_packet_holds
        split: prod.splits bind_splits if_splits)
qed (use assms(1-3) in \<open>auto simp: call_step_def free_packet_def Let_def split: prod.splits if_splits\<close>)

lemma stamp_step_lock:
  assumes "stamp_step os str pt c w = Some (pt', c', w')" "stamp_locked pt \<longleftrightarrow> holds c"
  shows "stamp_locked pt' \<longleftrightarrow> holds c'" "holds c' \<Longrightarrow> \<not> holds c \<Longrightarrow> may_stamp m pt \<Longrightarrow> m = Nobody"
  using assms by (cases pt; auto simp: stamp_step_def stamp_locked_def may_stamp_def Let_def dest!: mutex_keeps
      split: bind_splits prod.splits sum.splits)+

definition mutex_inv :: "'w call_pool \<Rightarrow> bool" where
  "mutex_inv p \<longleftrightarrow>
     (\<forall>n < length (cp_conns p). let t = c_thread (cp_conns p ! n) in
        lock_inv t \<and> (holds (ct_conn t) \<longleftrightarrow> cp_mutex p = Connection n)) \<and>
     (\<forall>n. cp_mutex p = Connection n \<longrightarrow> n < length (cp_conns p)) \<and>
     (stamp_locked (cp_stamp p) \<longleftrightarrow> holds (cp_stamp_conn p)) \<and>
     (holds (cp_stamp_conn p) \<longleftrightarrow> cp_mutex p = Timestamp)"

lemma mutex_inv_conn:
  "mutex_inv p \<Longrightarrow> n < length (cp_conns p) \<Longrightarrow> lock_inv (c_thread (cp_conns p ! n)) \<and>
     (holds (ct_conn (c_thread (cp_conns p ! n))) \<longleftrightarrow> cp_mutex p = Connection n)"
  by (simp add: mutex_inv_def Let_def)

lemma start_mutex_inv: "mutex_inv (start_calls w)"
  by (simp add: mutex_inv_def start_calls_def new_conn_def stamp_locked_def)

lemma thread_mutex_inv:
  assumes inv: "mutex_inv p" and n: "n < length (cp_conns p)" and k: "k = cp_conns p ! n"
    and may: "may_call (cp_mutex p) (c_thread k)"
    and step: "call_step use_char os (c_fd k) (c_thread k) (cp_world p) = Some (t', w')"
  shows "mutex_inv (after_call S n (t', w') p)"
proof -
  let ?c = "ct_conn (c_thread k)" and ?m = "mutex_after (Connection n) (ct_conn (c_thread k)) (ct_conn t') (cp_mutex p)"
  note old = mutex_inv_conn [OF inv n, folded k]
  have lock: "lock_inv t'" using call_step_lock [OF step] old by simp
  have free: "cp_mutex p = Nobody" if "holds (ct_conn t')" "\<not> holds ?c"
    by (rule call_step_takes [OF step that may])
  have own: "holds (ct_conn t') \<longleftrightarrow> ?m = Connection n" using old by (auto simp: mutex_after_def)
  have rest: "?m = who \<longleftrightarrow> cp_mutex p = who" if "who \<noteq> Connection n" "who \<noteq> Nobody" for who
    using that old free by (auto simp: mutex_after_def)
  have "lock_inv (c_thread (cp_conns (after_call S n (t', w') p) ! i)) \<and>
      (holds (ct_conn (c_thread (cp_conns (after_call S n (t', w') p) ! i))) \<longleftrightarrow> ?m = Connection i)"
    if i: "i < length (cp_conns p)" for i
  proof (cases "i = n")
    case True
    then show ?thesis using lock own n by (simp add: after_call_def connection_after_def Let_def)
  next
    case False
    then show ?thesis using mutex_inv_conn [OF inv i] rest [of "Connection i"] by (simp add: after_call_def Let_def)
  qed
  moreover have "i < length (cp_conns p)" if "?m = Connection i" for i
    using that rest [of "Connection i"] inv n by (cases "i = n") (auto simp: mutex_inv_def)
  moreover have "?m = Timestamp \<longleftrightarrow> cp_mutex p = Timestamp" by (rule rest) simp_all
  ultimately show ?thesis using inv k by (simp add: mutex_inv_def after_call_def Let_def)
qed

lemma stamp_mutex_inv:
  assumes inv: "mutex_inv p" and may: "may_stamp (cp_mutex p) (cp_stamp p)"
    and step: "stamp_step os str (cp_stamp p) (cp_stamp_conn p) (cp_world p) = Some (pt, c, w)"
  shows "mutex_inv (p\<lparr>cp_world := w, cp_stamp := pt, cp_stamp_conn := c,
    cp_mutex := mutex_after Timestamp (cp_stamp_conn p) c (cp_mutex p)\<rparr>)"
proof -
  have old: "stamp_locked (cp_stamp p) \<longleftrightarrow> holds (cp_stamp_conn p)"
    "holds (cp_stamp_conn p) \<longleftrightarrow> cp_mutex p = Timestamp" using inv by (simp_all add: mutex_inv_def)
  note lock = stamp_step_lock [OF step old(1)]
  let ?m = "mutex_after Timestamp (cp_stamp_conn p) c (cp_mutex p)"
  have "?m = who \<longleftrightarrow> cp_mutex p = who" if "who \<noteq> Timestamp" "who \<noteq> Nobody" for who
    using that old lock(2) may by (auto simp: mutex_after_def)
  moreover have "holds c \<longleftrightarrow> ?m = Timestamp" using old by (auto simp: mutex_after_def)
  ultimately show ?thesis using inv lock(1) by (simp add: mutex_inv_def Let_def)
qed

lemma new_call_lock: "lock_inv new_call_thread" "\<not> holds (ct_conn new_call_thread)"
  by (simp_all add: lock_inv_def new_call_thread_def new_conn_def)

lemma calls_mutex_inv:
  assumes "mutex_inv p" "calls_step use_char os acc S p p'"
  shows "mutex_inv p'"
  using assms(2)
proof cases
  case (client fd w)
  have "\<not> cp_mutex p = Connection (length (cp_conns p))" using assms(1) by (auto simp: mutex_inv_def)
  then show ?thesis using assms(1) client(1) new_call_lock
    by (auto simp: mutex_inv_def Let_def nth_append new_connection_def less_Suc_eq)
next
  case (thread n k r)
  then show ?thesis using thread_mutex_inv [OF assms(1) thread(3,4,6)] by (cases r) simp
next
  case (stamp str pt c w)
  then show ?thesis using stamp_mutex_inv [OF assms(1) stamp(5,6)] by simp
qed (use assms(1) in \<open>simp add: mutex_inv_def\<close>)

lemma calls_reach_mutex_inv:
  "(calls_step use_char os acc S)\<^sup>*\<^sup>* (start_calls w0) p \<Longrightarrow> mutex_inv p"
  by (induction rule: rtranclp_induct) (simp_all add: start_mutex_inv calls_mutex_inv)

section \<open>Unlocking a mutex that one does not have\<close>

text \<open>
  After a write that failed a thread unlocks, goes on to send the file without the mutex, and then
  unlocks once more. \<open>call_step\<close> leaves that undefined, as POSIX does for a mutex of the default type.
  What such a call does in practice is to release the mutex, whoever has it, or nothing; the code goes
  on in either case. \<open>raw_calls\<close> has both: the pool with this step is the server as it runs.
\<close>

fun unlocks :: "point \<Rightarrow> bool" where
  "unlocks Unlock_failed = True"
| "unlocks Unlock_break = True"
| "unlocks Unlock_done = True"
| "unlocks Unlock_refused = True"
| "unlocks Unlock_exit = True"
| "unlocks _ = False"

definition unlocks_again :: "call_thread \<Rightarrow> bool" where
  "unlocks_again t \<longleftrightarrow> (case ct_phase t of In_section pt bs \<Rightarrow> unlocks pt \<and> \<not> holds (ct_conn t) | _ \<Rightarrow> False)"

definition as_holder :: "call_thread \<Rightarrow> call_thread" where
  "as_holder t = t\<lparr>ct_conn := (ct_conn t)\<lparr>holds := True\<rparr>\<rparr>"

inductive raw_calls ::
  "bool \<Rightarrow> 'w os \<Rightarrow> ('w \<Rightarrow> int \<times> 'w) \<Rightarrow> ('w, 'f) server_view \<Rightarrow> 'w call_pool \<Rightarrow> 'w call_pool \<Rightarrow> bool"
  for use_char os acc S where
  call: "calls_step use_char os acc S p p' \<Longrightarrow> raw_calls use_char os acc S p p'"
| second_unlock: "cp_exit p = None \<Longrightarrow> n < length (cp_conns p) \<Longrightarrow> k = cp_conns p ! n \<Longrightarrow> unlocks_again (c_thread k) \<Longrightarrow>
     call_step use_char os (c_fd k) (as_holder (c_thread k)) (cp_world p) = Some r \<Longrightarrow> m = Nobody \<or> m = cp_mutex p \<Longrightarrow>
     raw_calls use_char os acc S p ((after_call S n r p)\<lparr>cp_mutex := m\<rparr>)"

inductive_cases raw_callsE: "raw_calls use_char os acc S p p'"

text \<open>It is defined exactly where a thread is about to unlock a mutex that it does not have.\<close>

lemma second_unlock_undefined:
  "unlocks_again t \<Longrightarrow> call_step u os cfd t w = None \<and> call_step u os cfd (as_holder t) w \<noteq> None"
  by (auto simp: unlocks_again_def as_holder_def call_step_def mutex_unlock'_def
      split: call_phase.splits point.splits elim!: unlocks.elims)

text \<open>A state in which no connection has just seen its write fail.\<close>

definition write_failed :: "call_thread \<Rightarrow> bool" where
  "write_failed t \<longleftrightarrow> (\<exists>bs. ct_phase t = In_section Unlock_failed bs)"

definition writes_ok :: "'w call_pool \<Rightarrow> bool" where
  "writes_ok p \<longleftrightarrow> (\<forall>k \<in> set (cp_conns p). \<not> write_failed (c_thread k))"

text \<open>Past the lock, in the section.\<close>

definition in_section :: "call_thread \<Rightarrow> bool" where
  "in_section t \<longleftrightarrow> (\<exists>pt bs. ct_phase t = In_section pt bs \<and> (\<forall>job. pt \<noteq> Lock job))"

lemma section_step_holds:
  assumes "section_step os cfd pt c w = Some (Inl pt', c', w')" "pt \<noteq> Unlock_failed" "(\<forall>job. pt \<noteq> Lock job) \<longrightarrow> holds c"
  shows "(\<forall>job. pt' \<noteq> Lock job) \<and> holds c'"
  using assms by (cases pt) (auto simp: Let_def mutex_lock'_def dest!: mutex_keeps
      split: bind_splits prod.splits sum.splits job.splits if_splits)

lemma call_step_holds:
  assumes "call_step u os cfd t w = Some (t', w')" "\<not> write_failed t" "in_section t \<longrightarrow> holds (ct_conn t)"
  shows "in_section t' \<longrightarrow> holds (ct_conn t')"
proof (cases "ct_phase t")
  case (In_section pt bs)
  then obtain x c1 where s: "section_step os cfd pt (ct_conn t) w = Some (x, c1, w')"
    and t': "t' = \<lparr>ct_phase = (case x of Inl pt' \<Rightarrow> In_section pt' bs | Inr fl \<Rightarrow> after_section fl bs), ct_conn = c1\<rparr>"
    using assms(1) by (auto simp: call_step_def split: bind_splits)
  show ?thesis
  proof (cases x)
    case (Inl pt')
    then show ?thesis using section_step_holds [of os cfd pt "ct_conn t" w pt' c1 w'] s assms(2,3) In_section
      by (auto simp: t' in_section_def write_failed_def)
  next
    case (Inr fl)
    then show ?thesis by (cases fl) (simp_all add: t' in_section_def after_section_def)
  qed
next
  case (Have bs)
  then show ?thesis using assms(1)
    by (cases bs) (auto simp: call_step_def take_byte_def in_section_def Let_def split: prod.splits bind_splits if_splits)
qed (use assms(1,3) in \<open>auto simp: call_step_def in_section_def Let_def split: prod.splits if_splits\<close>)

definition exclusion_inv :: "'w call_pool \<Rightarrow> bool" where
  "exclusion_inv p \<longleftrightarrow> mutex_inv p \<and> writes_ok p \<and>
     (\<forall>k \<in> set (cp_conns p). in_section (c_thread k) \<longrightarrow> holds (ct_conn (c_thread k)))"

lemma set_after_call:
  "k \<in> set (cp_conns (after_call S n (t, w) p)) \<Longrightarrow> n < length (cp_conns p) \<Longrightarrow> k \<in> set (cp_conns p) \<or> c_thread k = t"
  by (auto simp: after_call_def Let_def connection_after_def in_set_conv_nth nth_list_update split: if_splits)

lemma writes_ok_after_call:
  "writes_ok p \<Longrightarrow> n < length (cp_conns p) \<Longrightarrow> \<not> write_failed t \<Longrightarrow> writes_ok (after_call S n (t, w) p)"
  using set_after_call by (fastforce simp: writes_ok_def)

lemma new_call_outside: "\<not> in_section new_call_thread" "\<not> write_failed new_call_thread"
  by (simp_all add: new_call_thread_def in_section_def write_failed_def)

lemma calls_exclusion_inv:
  assumes inv: "exclusion_inv p" and step: "calls_step u os acc S p p'" and ok: "writes_ok p'"
  shows "exclusion_inv p'"
proof -
  have "in_section (c_thread k) \<longrightarrow> holds (ct_conn (c_thread k))" if k: "k \<in> set (cp_conns p')" for k
    using step
  proof cases
    case (client fd w)
    then show ?thesis using inv k by (auto simp: exclusion_inv_def new_connection_def new_call_outside)
  next
    case (thread n k0 r)
    obtain t w where r: "r = (t, w)" by fastforce
    have "in_section t \<longrightarrow> holds (ct_conn t)"
      using call_step_holds [OF thread(7) [unfolded r]] inv thread(3,4) by (auto simp: exclusion_inv_def writes_ok_def)
    then show ?thesis using set_after_call [of k S n t w p] k inv thread(1,3) r by (auto simp: exclusion_inv_def)
  qed (use inv k in \<open>simp_all add: exclusion_inv_def\<close>)
  moreover have "mutex_inv p'" using calls_mutex_inv [OF _ step] inv by (simp add: exclusion_inv_def)
  ultimately show ?thesis using ok by (simp add: exclusion_inv_def)
qed

lemma no_second_unlock:
  assumes "exclusion_inv p" "k \<in> set (cp_conns p)"
  shows "\<not> unlocks_again (c_thread k)"
  using assms by (fastforce simp: exclusion_inv_def unlocks_again_def in_section_def split: call_phase.splits)

lemma raw_exclusion_inv:
  assumes "exclusion_inv p" "raw_calls u os acc S p p'" "writes_ok p'"
  shows "exclusion_inv p'"
  using assms(2)
proof cases
  case call
  then show ?thesis using calls_exclusion_inv [OF assms(1)] assms(3) by blast
next
  case (second_unlock n k r m)
  then show ?thesis using no_second_unlock [OF assms(1), of k] by simp
qed

text \<open>A run of the pool in which no write of a connection has failed yet.\<close>

abbreviation writing_calls ::
  "bool \<Rightarrow> 'w os \<Rightarrow> ('w \<Rightarrow> int \<times> 'w) \<Rightarrow> ('w, 'f) server_view \<Rightarrow> 'w call_pool \<Rightarrow> 'w call_pool \<Rightarrow> bool" where
  "writing_calls u os acc S \<equiv> \<lambda>p p'. raw_calls u os acc S p p' \<and> writes_ok p'"

lemma writing_exclusion_inv:
  "(writing_calls u os acc S)\<^sup>*\<^sup>* (start_calls w0) p \<Longrightarrow> exclusion_inv p"
proof (induction rule: rtranclp_induct)
  case base
  show ?case using start_mutex_inv [of w0] by (simp add: exclusion_inv_def writes_ok_def start_calls_def)
next
  case (step p p')
  then show ?case using raw_exclusion_inv by blast
qed

lemma section_holder:
  assumes "exclusion_inv p" "n < length (cp_conns p)"
  shows "in_section (c_thread (cp_conns p ! n)) \<Longrightarrow> cp_mutex p = Connection n"
    "holds (ct_conn (c_thread (cp_conns p ! n))) \<longleftrightarrow> cp_mutex p = Connection n"
  using assms mutex_inv_conn [of p n] by (auto simp: exclusion_inv_def)


end
