(* ===== verification/Call_Equivalence.thy ===== *)
theory Call_Equivalence
  imports Call_Steps
begin

text \<open>
  The calls of \<open>Call_Steps\<close>, made one after the other by a thread on its own, are the code: those
  of a connection thread \<open>handle_connection\<close>, those of a round of the timestamp thread
  \<open>timestamp_round\<close>. At each point the rest of the code is given in terms of the functions of
  \<open>Aesd_Socket\<close>; a step keeps it, and the steps reach its result wherever it has one.
\<close>

section \<open>What a thread still has to do\<close>

fun write_rest :: "'w os \<Rightarrow> write_point \<Rightarrow> 'w \<Rightarrow> int \<times> 'w" where
  "write_rest os (W_close fd) w = (let (cl, w1) = sys_close os w fd in (if cl = - 1 then - 1 else 0, w1))"
| "write_rest os (W_close_failed fd) w = (- 1, snd (sys_close os w fd))"
| "write_rest os (W_fsync fd) w =
     (let (fs, w1) = sys_fsync os w fd
      in if fs = - 1 then (- 1, snd (sys_close os w1 fd))
         else let (cl, w2) = sys_close os w1 fd in (if cl = - 1 then - 1 else 0, w2))"
| "write_rest os (W_write fd p) w =
     (let (nr, w1) = sys_write os w fd p
      in if nr = - 1 then (- 1, snd (sys_close os w1 fd))
         else let (fs, w2) = sys_fsync os w1 fd
         in if fs = - 1 then (- 1, snd (sys_close os w2 fd))
            else let (cl, w3) = sys_close os w2 fd in (if cl = - 1 then - 1 else 0, w3))"
| "write_rest os (W_open p) w = write_to_file os w p"

definition echo_rest :: "'w os \<Rightarrow> int \<Rightarrow> int \<Rightarrow> echo_point \<Rightarrow> 'w \<Rightarrow> (bool \<times> 'w) option" where
  "echo_rest os cfd fd ep w =
     (case ep of
        E_read \<Rightarrow> echo_file os cfd fd w
      | E_send bs \<Rightarrow> do {
          (ok, w1) \<leftarrow> send_all os cfd bs w;
          if ok then echo_file os cfd fd w1 else Some (False, snd (sys_close os w1 fd))
        }
      | E_close_failed \<Rightarrow> Some (False, snd (sys_close os w fd)))"

definition close_rest :: "'w os \<Rightarrow> int \<Rightarrow> conn \<Rightarrow> 'w \<Rightarrow> (flow \<times> conn \<times> 'w) option" where
  "close_rest os fd c w = do {
     (c1, w1) \<leftarrow> mutex_unlock' os c (snd (sys_close os w fd));
     Some (Next_byte, c1\<lparr>packet_len := 0\<rparr>, w1)
   }"

definition send_rest :: "'w os \<Rightarrow> int \<Rightarrow> conn \<Rightarrow> 'w \<Rightarrow> (flow \<times> conn \<times> 'w) option" where
  "send_rest os cfd c w =
     (let (fd, w1) = sys_open os w [O_RDONLY]
      in if fd = - 1 then do { (c1, w2) \<leftarrow> mutex_unlock' os c w1; Some (Break_loop, c1, w2) }
      else do {
        (ok, w2) \<leftarrow> echo_file os cfd fd w1;
        if \<not> ok then Some (Exit 1, c, w2) else close_rest os fd c w2
      })"

definition answer_rest :: "'w os \<Rightarrow> int \<Rightarrow> conn \<Rightarrow> (bool \<times> 'w) option \<Rightarrow> (flow \<times> conn \<times> 'w) option" where
  "answer_rest os fd c r = do {
     (ok, w1) \<leftarrow> r;
     if \<not> ok then do { (c1, w2) \<leftarrow> mutex_unlock' os c w1; Some (Exit 1, c1, w2) }
     else close_rest os fd c w1
   }"

definition refuse_rest :: "'w os \<Rightarrow> conn \<Rightarrow> 'w \<Rightarrow> (flow \<times> conn \<times> 'w) option" where
  "refuse_rest os c w = do { (c1, w1) \<leftarrow> mutex_unlock' os c w; Some (Next_byte, c1, w1) }"

definition ioctl_rest :: "'w os \<Rightarrow> int \<Rightarrow> int \<Rightarrow> aesd_seekto \<Rightarrow> conn \<Rightarrow> 'w \<Rightarrow> (flow \<times> conn \<times> 'w) option" where
  "ioctl_rest os cfd fd seekto c w =
     (let (r, w1) = sys_ioctl os w fd AESDCHAR_IOCSEEKTO seekto
      in if r = - 1 then refuse_rest os c w1 else answer_rest os fd c (echo_file os cfd fd w1))"

fun point_rest :: "'w os \<Rightarrow> int \<Rightarrow> point \<Rightarrow> conn \<Rightarrow> 'w \<Rightarrow> (flow \<times> conn \<times> 'w) option" where
  "point_rest os cfd (Lock (Data p)) c w = handle_data os cfd p c w"
| "point_rest os cfd (Lock (Seek x y)) c w = handle_seek os cfd x y c w"
| "point_rest os cfd (Writing wp) c w =
     (let (fr, w1) = write_rest os wp w
      in do {
        (c1, w2) \<leftarrow> (if fr = - 1 then mutex_unlock' os c w1 else Some (c, w1));
        send_rest os cfd c1 w2
      })"
| "point_rest os cfd Unlock_failed c w = do { (c1, w1) \<leftarrow> mutex_unlock' os c w; send_rest os cfd c1 w1 }"
| "point_rest os cfd Open_send c w = send_rest os cfd c w"
| "point_rest os cfd Unlock_break c w = do { (c1, w1) \<leftarrow> mutex_unlock' os c w; Some (Break_loop, c1, w1) }"
| "point_rest os cfd (Sending fd ep) c w = do {
     (ok, w1) \<leftarrow> echo_rest os cfd fd ep w;
     if ok then close_rest os fd c w1 else Some (Exit 1, c, w1)
   }"
| "point_rest os cfd (Close_sent fd) c w = close_rest os fd c w"
| "point_rest os cfd Unlock_done c w = do {
     (c1, w1) \<leftarrow> mutex_unlock' os c w;
     Some (Next_byte, c1\<lparr>packet_len := 0\<rparr>, w1)
   }"
| "point_rest os cfd (Open_seek seekto) c w =
     (let (fd, w1) = sys_open os w [O_RDWR]
      in if fd = - 1 then refuse_rest os c w1 else ioctl_rest os cfd fd seekto c w1)"
| "point_rest os cfd (Ioctl fd seekto) c w = ioctl_rest os cfd fd seekto c w"
| "point_rest os cfd Unlock_refused c w = refuse_rest os c w"
| "point_rest os cfd (Answering fd ep) c w = answer_rest os fd c (echo_rest os cfd fd ep w)"
| "point_rest os cfd Unlock_exit c w = do { (c1, w1) \<leftarrow> mutex_unlock' os c w; Some (Exit 1, c1, w1) }"

definition section_rest :: "'w os \<Rightarrow> int \<Rightarrow> (point + flow) \<times> conn \<times> 'w \<Rightarrow> (flow \<times> conn \<times> 'w) option" where
  "section_rest os cfd = (\<lambda>(x, c, w). case x of Inl pt \<Rightarrow> point_rest os cfd pt c w | Inr fl \<Rightarrow> Some (fl, c, w))"

lemma write_rest_step:
  "write_step os wp w = (Inl wp', w1) \<Longrightarrow> write_rest os wp w = write_rest os wp' w1"
  "write_step os wp w = (Inr fr, w1) \<Longrightarrow> write_rest os wp w = (fr, w1)"
  by (cases wp; auto simp: write_to_file_def Let_def split: prod.splits if_splits)+

lemma echo_rest_step:
  "echo_step os cfd fd ep w = (Inl ep', w1) \<Longrightarrow> echo_rest os cfd fd ep w = echo_rest os cfd fd ep' w1"
  "echo_step os cfd fd ep w = (Inr ok, w1) \<Longrightarrow> echo_rest os cfd fd ep w = Some (ok, w1)"
proof -
  have read: "echo_rest os cfd fd E_read w = (case echo_step os cfd fd E_read w of
      (Inl ep', w1) \<Rightarrow> echo_rest os cfd fd ep' w1 | (Inr ok, w1) \<Rightarrow> Some (ok, w1))"
    by (simp add: echo_rest_def Let_def echo_file.simps [of os cfd fd w] split_beta cong: if_cong)
  have send: "echo_rest os cfd fd (E_send bs) w = (case echo_step os cfd fd (E_send bs) w of
      (Inl ep', w1) \<Rightarrow> echo_rest os cfd fd ep' w1 | (Inr ok, w1) \<Rightarrow> Some (ok, w1))" for bs
    by (simp add: echo_rest_def Let_def send_all.simps [of os cfd bs w] split_beta cong: if_cong)
  show "echo_step os cfd fd ep w = (Inl ep', w1) \<Longrightarrow> echo_rest os cfd fd ep w = echo_rest os cfd fd ep' w1"
    using read send by (cases ep) auto
  show "echo_step os cfd fd ep w = (Inr ok, w1) \<Longrightarrow> echo_rest os cfd fd ep w = Some (ok, w1)"
    using read send by (cases ep) (auto simp: echo_rest_def)
qed

lemma handle_data_rest:
  "handle_data os cfd p c w = do {
     (c1, w1) \<leftarrow> mutex_lock' os c w;
     point_rest os cfd (Writing (W_open p)) c1 w1
   }"
  by (simp add: handle_data_def send_rest_def [abs_def] close_rest_def [abs_def] Let_def split_beta cong: if_cong)

lemma handle_seek_rest:
  "handle_seek os cfd x y c w = do {
     (c1, w1) \<leftarrow> mutex_lock' os c w;
     point_rest os cfd (Open_seek \<lparr>write_cmd = of_int x, write_cmd_offset = of_int y\<rparr>) c1 w1
   }"
  by (simp add: handle_seek_def ioctl_rest_def answer_rest_def refuse_rest_def close_rest_def Let_def split_beta
      cong: if_cong)

lemma section_rest_step:
  assumes "section_step os cfd pt c w = Some r"
  shows "section_rest os cfd r = point_rest os cfd pt c w"
proof (cases pt)
  case (Lock job)
  then show ?thesis using assms
    by (cases job) (auto simp: section_rest_def handle_data_rest handle_seek_rest simp del: point_rest.simps(3,10)
        split: bind_splits)
next
  case (Writing wp)
  then show ?thesis using assms write_rest_step [of os wp w]
    by (auto simp: section_rest_def Let_def split: prod.splits sum.splits)
next
  case (Sending fd ep)
  then show ?thesis using assms echo_rest_step [of os cfd fd ep w]
    by (auto simp: section_rest_def Let_def split: prod.splits sum.splits)
next
  case (Answering fd ep)
  then show ?thesis using assms echo_rest_step [of os cfd fd ep w]
    by (auto simp: section_rest_def answer_rest_def Let_def split: prod.splits sum.splits)
qed (use assms in \<open>auto simp: section_rest_def Let_def send_rest_def close_rest_def refuse_rest_def ioctl_rest_def
       answer_rest_def echo_rest_def split: bind_splits prod.splits if_splits\<close>)

section \<open>The calls reach the result of the code\<close>

definition section_runs ::
  "'w os \<Rightarrow> int \<Rightarrow> (point + flow) \<times> conn \<times> 'w \<Rightarrow> (point + flow) \<times> conn \<times> 'w \<Rightarrow> bool" where
  "section_runs os cfd = (\<lambda>(x, c, w) r. \<exists>pt. x = Inl pt \<and> section_step os cfd pt c w = Some r)\<^sup>*\<^sup>*"

lemma section_runs_step:
  "section_step os cfd pt c w = Some r \<Longrightarrow> section_runs os cfd r r' \<Longrightarrow> section_runs os cfd (Inl pt, c, w) r'"
  unfolding section_runs_def by (rule converse_rtranclp_into_rtranclp) auto

lemma section_runs_refl: "section_runs os cfd r r"
  by (simp add: section_runs_def)

lemma section_runs_trans:
  "section_runs os cfd r r1 \<Longrightarrow> section_runs os cfd r1 r2 \<Longrightarrow> section_runs os cfd r r2"
  unfolding section_runs_def by (rule rtranclp_trans)

lemma writing_runs:
  "write_rest os wp w = (fr, w') \<Longrightarrow>
     section_runs os cfd (Inl (Writing wp), c, w) (Inl (if fr = - 1 then Unlock_failed else Open_send), c, w')"
proof (induction "write_calls wp" arbitrary: wp w rule: less_induct)
  case less
  obtain r w1 where s: "write_step os wp w = (r, w1)" by fastforce
  show ?case
  proof (cases r)
    case (Inl wp')
    then have "write_step os wp w = (Inl wp', w1)" using s by simp
    from less.hyps [OF write_step_less [OF this]] write_rest_step(1) [OF this] less.prems s Inl
    show ?thesis by (intro section_runs_step) auto
  next
    case (Inr a)
    then show ?thesis using s less.prems write_rest_step(2) [of os wp w a w1]
      by (intro section_runs_step [OF _ section_runs_refl]) auto
  qed
qed

text \<open>The loops, also while they run for the seek command.\<close>

definition echo_runs ::
  "'w os \<Rightarrow> int \<Rightarrow> int \<Rightarrow> (echo_point + bool) \<times> 'w \<Rightarrow> (echo_point + bool) \<times> 'w \<Rightarrow> bool" where
  "echo_runs os cfd fd = (\<lambda>(x, w) r. \<exists>ep. x = Inl ep \<and> r = echo_step os cfd fd ep w)\<^sup>*\<^sup>*"

lemma echo_runs_step:
  "echo_runs os cfd fd (echo_step os cfd fd ep w) r \<Longrightarrow> echo_runs os cfd fd (Inl ep, w) r"
  unfolding echo_runs_def by (rule converse_rtranclp_into_rtranclp) auto

lemma echo_runs_refl: "echo_runs os cfd fd r r"
  by (simp add: echo_runs_def)

lemma echo_runs_trans: "echo_runs os cfd fd r r1 \<Longrightarrow> echo_runs os cfd fd r1 r2 \<Longrightarrow> echo_runs os cfd fd r r2"
  unfolding echo_runs_def by (rule rtranclp_trans)

lemma send_all_runs:
  assumes "send_all os cfd bs w = Some r"
  shows "echo_runs os cfd fd (Inl (E_send bs), w) (Inl (if fst r then E_read else E_close_failed), snd r)"
  using assms
proof (induction os cfd bs w r rule: send_all.raw_induct [rotated, consumes 1, case_names step])
  case (step loop os cfd bs w r)
  note IH = step.IH and hyps = step.hyps
  show ?case
  proof (cases "bs = []")
    case True
    then have "r = (True, w)" using hyps by simp
    then show ?thesis using True by (intro echo_runs_step) (simp add: echo_runs_refl)
  next
    case False
    obtain n w1 where s: "sys_send os w cfd bs = (n, w1)" by fastforce
    show ?thesis
    proof (cases "n = - 1")
      case True
      then have "r = (False, w1)" using hyps False s by simp
      then show ?thesis using False s True by (intro echo_runs_step) (simp add: echo_runs_refl)
    next
      case n: False
      then have "loop os cfd (drop (nat n) bs) w1 = Some r" using hyps False s by simp
      from IH [OF this] show ?thesis using False s n by (intro echo_runs_step) simp
    qed
  qed
qed

lemma echo_file_runs:
  assumes "echo_file os cfd fd w = Some r"
  shows "echo_runs os cfd fd (Inl E_read, w) (Inr (fst r), snd r)"
  using assms
proof (induction os cfd fd w r rule: echo_file.raw_induct [rotated, consumes 1, case_names step])
  case (step loop os cfd fd w r)
  note IH = step.IH and hyps = step.hyps
  obtain n bs w1 where s: "sys_read os w fd FILE_BUF_SIZE = (n, bs, w1)" by (metis prod_cases3)
  show ?case
  proof (cases "n \<le> 0")
    case True
    then have "r = (True, w1)" using hyps s by simp
    then show ?thesis using s True by (intro echo_runs_step) (simp add: echo_runs_refl)
  next
    case False
    obtain ok w2 where a: "send_all os cfd (take (nat n) bs) w1 = Some (ok, w2)"
      using hyps s False by (auto split: bind_splits)
    have "echo_runs os cfd fd (Inl (if ok then E_read else E_close_failed), w2) (Inr (fst r), snd r)"
    proof (cases ok)
      case True
      then have "loop os cfd fd w2 = Some r" using hyps s False a by simp
      then show ?thesis using IH True by simp
    next
      case no: False
      then have "r = (False, snd (sys_close os w2 fd))" using hyps s False a by simp
      then show ?thesis using no by simp (rule echo_runs_step, simp add: echo_runs_refl)
    qed
    with send_all_runs [OF a] show ?thesis using s False
      by (intro echo_runs_step) (auto intro: echo_runs_trans)
  qed
qed

lemma echo_rest_runs:
  assumes "echo_rest os cfd fd ep w = Some (ok, w')"
  shows "echo_runs os cfd fd (Inl ep, w) (Inr ok, w')"
proof (cases ep)
  case E_read
  then show ?thesis using assms echo_file_runs [of os cfd fd w "(ok, w')"] by (simp add: echo_rest_def)
next
  case (E_send bs)
  obtain ok1 w1 where s: "send_all os cfd bs w = Some (ok1, w1)"
    using assms E_send by (auto simp: echo_rest_def split: bind_splits)
  have "echo_runs os cfd fd (Inl (if ok1 then E_read else E_close_failed), w1) (Inr ok, w')"
  proof (cases ok1)
    case True
    then show ?thesis using assms E_send s echo_file_runs [of os cfd fd w1 "(ok, w')"] by (simp add: echo_rest_def)
  next
    case False
    then show ?thesis using assms E_send s
      by simp (rule echo_runs_step, simp add: echo_runs_refl echo_rest_def)
  qed
  with send_all_runs [OF s, of fd] show ?thesis unfolding E_send fst_conv snd_conv by (rule echo_runs_trans)
next
  case E_close_failed
  then show ?thesis using assms by simp (rule echo_runs_step, simp add: echo_runs_refl echo_rest_def)
qed

lemma echo_section_runs:
  assumes "echo_runs os cfd fd r r'"
    and "\<And>ep w. section_step os cfd (K ep) c w = (let (x, w1) = echo_step os cfd fd ep w
      in Some (case x of Inl ep' \<Rightarrow> Inl (K ep') | Inr ok \<Rightarrow> K' ok, c, w1))"
  shows "section_runs os cfd (case fst r of Inl ep \<Rightarrow> Inl (K ep) | Inr ok \<Rightarrow> K' ok, c, snd r)
    (case fst r' of Inl ep \<Rightarrow> Inl (K ep) | Inr ok \<Rightarrow> K' ok, c, snd r')"
  using assms(1) unfolding echo_runs_def
proof (induction rule: converse_rtranclp_induct)
  case base
  show ?case by (rule section_runs_refl)
next
  case (step q q')
  then obtain ep w where q: "q = (Inl ep, w)" "q' = echo_step os cfd fd ep w" by auto
  then have "section_step os cfd (K ep) c w = Some (case fst q' of Inl ep \<Rightarrow> Inl (K ep) | Inr ok \<Rightarrow> K' ok, c, snd q')"
    by (simp add: assms(2) split_beta)
  from section_runs_step [OF this step.IH] q show ?case by simp
qed

text \<open>A bound on what follows a point, with the loops as one.\<close>

fun point_rank :: "point \<Rightarrow> nat" where
  "point_rank (Lock job) = 9"
| "point_rank (Writing wp) = 8"
| "point_rank (Open_seek seekto) = 8"
| "point_rank Unlock_failed = 7"
| "point_rank (Ioctl fd seekto) = 7"
| "point_rank Open_send = 6"
| "point_rank (Sending fd ep) = 5"
| "point_rank (Answering fd ep) = 5"
| "point_rank (Close_sent fd) = 2"
| "point_rank _ = 1"

lemma section_step_defined:
  assumes "point_rest os cfd pt c w \<noteq> None"
  shows "section_step os cfd pt c w \<noteq> None"
proof (cases pt)
  case (Lock job)
  then show ?thesis using assms
    by (cases job) (auto simp: handle_data_rest handle_seek_rest simp del: point_rest.simps(3,10) split: bind_splits)
qed (use assms in \<open>auto simp: refuse_rest_def Let_def split_beta split: bind_splits\<close>)

lemma section_step_rank:
  "section_step os cfd pt c w = Some (Inl pt', c', w') \<Longrightarrow>
     point_rank pt' < point_rank pt \<or> (\<exists>wp. pt = Writing wp) \<or> (\<exists>fd ep. pt = Sending fd ep \<or> pt = Answering fd ep)"
  by (cases pt) (auto simp: Let_def split_beta split: bind_splits job.splits)

lemma point_runs:
  "point_rest os cfd pt c w = Some (fl, c', w') \<Longrightarrow> section_runs os cfd (Inl pt, c, w) (Inr fl, c', w')"
proof (induction "point_rank pt" arbitrary: pt c w rule: less_induct)
  case less
  have on: "section_runs os cfd (x, c1, w1) (Inr fl, c', w')"
    if "section_rest os cfd (x, c1, w1) = Some (fl, c', w')" "\<And>pt'. x = Inl pt' \<Longrightarrow> point_rank pt' < point_rank pt"
    for x c1 w1
    using that less.hyps by (cases x) (auto simp: section_rest_def section_runs_refl)
  show ?case
  proof (cases "(\<exists>wp. pt = Writing wp) \<or> (\<exists>fd ep. pt = Sending fd ep \<or> pt = Answering fd ep)")
    case False
    obtain x c1 w1 where s: "section_step os cfd pt c w = Some (x, c1, w1)"
      using section_step_defined [of os cfd pt c w] less.prems by (metis not_None_eq option.distinct(1) prod_cases3)
    have "section_runs os cfd (x, c1, w1) (Inr fl, c', w')"
      by (rule on) (use section_rest_step [OF s] section_step_rank [of os cfd pt c w] less.prems s False in auto)
    with s show ?thesis by (rule section_runs_step)
  next
    case True
    then consider (writing) wp where "pt = Writing wp" | (sending) fd ep where "pt = Sending fd ep"
      | (answering) fd ep where "pt = Answering fd ep" by blast
    then show ?thesis
    proof cases
      case writing
      obtain fr w1 where r: "write_rest os wp w = (fr, w1)" by fastforce
      have "section_runs os cfd (Inl (if fr = - 1 then Unlock_failed else Open_send), c, w1) (Inr fl, c', w')"
        by (rule on) (use less.prems writing r in \<open>auto simp: section_rest_def split: if_splits\<close>)
      with writing_runs [OF r] writing show ?thesis by (blast intro: section_runs_trans)
    next
      case sending
      obtain ok w1 where r: "echo_rest os cfd fd ep w = Some (ok, w1)"
        using less.prems sending by (auto split: bind_splits)
      let ?K' = "\<lambda>ok. if ok then Inl (Close_sent fd) else Inr (Exit 1)"
      have "section_runs os cfd (?K' ok, c, w1) (Inr fl, c', w')"
        by (rule on) (use less.prems sending r in \<open>auto simp: section_rest_def split: if_splits\<close>)
      with echo_section_runs [OF echo_rest_runs [OF r], where K = "Sending fd" and K' = ?K' and c = c]
      show ?thesis using sending by (auto intro: section_runs_trans)
    next
      case answering
      obtain ok w1 where r: "echo_rest os cfd fd ep w = Some (ok, w1)"
        using less.prems answering by (auto simp: answer_rest_def split: bind_splits)
      let ?K' = "\<lambda>ok. if ok then Inl (Close_sent fd) else Inl Unlock_exit"
      have "section_runs os cfd (?K' ok, c, w1) (Inr fl, c', w')"
        by (rule on) (use less.prems answering r in \<open>auto simp: section_rest_def answer_rest_def split: if_splits\<close>)
      with echo_section_runs [OF echo_rest_runs [OF r], where K = "Answering fd" and K' = ?K' and c = c]
      show ?thesis using answering by (auto intro: section_runs_trans)
    qed
  qed
qed

section \<open>The calls of a thread are \<open>handle_connection\<close>\<close>

definition do_job :: "'w os \<Rightarrow> int \<Rightarrow> job \<Rightarrow> conn \<Rightarrow> 'w \<Rightarrow> (flow \<times> conn \<times> 'w) option" where
  "do_job os cfd job c w = point_rest os cfd (Lock job) c w"

lemma handle_packet_job:
  "handle_packet use_char os cfd c w = Option.bind (packet_job use_char c) (\<lambda>job. do_job os cfd job c w)"
  by (auto simp: handle_packet_def packet_job_def do_job_def split: bind_splits option.split)

text \<open>The rest of a thread; outside of a section in terms of the steps of \<open>Server_Threads\<close>.\<close>

definition flow_rest ::
  "bool \<Rightarrow> 'w os \<Rightarrow> int \<Rightarrow> byte list \<Rightarrow> flow \<times> conn \<times> 'w \<Rightarrow> (flow \<times> conn \<times> 'w) option" where
  "flow_rest use_char os cfd bs = (\<lambda>(fl, c, w). case fl of
      Next_byte \<Rightarrow> rest_of use_char os cfd (\<lparr>th_phase = Bytes bs, th_conn = c\<rparr>, w)
    | Break_loop \<Rightarrow> rest_of use_char os cfd (\<lparr>th_phase = Receiving, th_conn = c\<rparr>, w)
    | _ \<Rightarrow> Some (finish os cfd (fl, c, w)))"

definition call_rest :: "bool \<Rightarrow> 'w os \<Rightarrow> int \<Rightarrow> call_thread \<times> 'w \<Rightarrow> (flow \<times> conn \<times> 'w) option" where
  "call_rest use_char os cfd = (\<lambda>(t, w). let c = ct_conn t in
     case ct_phase t of
       Waiting \<Rightarrow> flow_rest use_char os cfd [] (Break_loop, c, w)
     | Have bs \<Rightarrow> flow_rest use_char os cfd bs (Next_byte, c, w)
     | In_section pt bs \<Rightarrow> Option.bind (point_rest os cfd pt c w) (flow_rest use_char os cfd bs)
     | Hanging_up \<Rightarrow> flow_rest use_char os cfd [] (Client_done, c, w)
     | Closing \<Rightarrow> Some (Client_done, c, snd (sys_close os w cfd))
     | Ended \<Rightarrow> Some (Client_done, c, w)
     | Process_exit n \<Rightarrow> Some (Exit n, c, w))"

lemma flow_rest_byte:
  "flow_rest use_char os cfd (ch # bs) (Next_byte, c, w) =
     Option.bind (process_byte use_char os cfd ch c w) (flow_rest use_char os cfd bs)"
  by (cases "process_byte use_char os cfd ch c w")
    (auto simp: flow_rest_def rest_of_def go_on_def finish_def split: flow.splits prod.splits)

lemma flow_rest_recv:
  "flow_rest use_char os cfd bs (Break_loop, c, w) =
     (let (n, bs, w1) = sys_recv os w cfd 1024
      in if n \<le> 0 then flow_rest use_char os cfd [] (Client_done, c, w1)
         else flow_rest use_char os cfd (take (nat n) bs) (Next_byte, c, w1))"
  by (simp add: flow_rest_def rest_of_def recv_loop_go_on [of use_char os cfd c w] split: prod.split)

lemma flow_rest_done: "flow_rest use_char os cfd bs (Client_done, c, w) = Some (finish os cfd (Client_done, c, w))"
  by (simp add: flow_rest_def)

lemma take_byte_rest:
  assumes "take_byte use_char os ch bs c w = Some r"
  shows "call_rest use_char os cfd r = Option.bind (process_byte use_char os cfd ch c w) (flow_rest use_char os cfd bs)"
proof -
  obtain ok c1 w1 where g: "grow_packet os c w = (ok, c1, w1)" by (metis prod_cases3)
  show ?thesis
  proof (cases ok)
    case False
    then show ?thesis using assms g by (auto simp: take_byte_def process_byte_def call_rest_def flow_rest_done)
  next
    case True
    then show ?thesis using assms g
      by (auto simp: take_byte_def process_byte_def handle_packet_job do_job_def call_rest_def Let_def
          split: bind_splits if_splits)
  qed
qed

lemma section_call_rest:
  "section_rest os cfd (x, c, w) = R \<Longrightarrow>
     call_rest use_char os cfd (\<lparr>ct_phase = (case x of Inl pt \<Rightarrow> In_section pt bs | Inr fl \<Rightarrow> after_section fl bs),
       ct_conn = c\<rparr>, w) = Option.bind R (flow_rest use_char os cfd bs)"
  by (cases x) (auto simp: section_rest_def call_rest_def after_section_def flow_rest_def finish_def split: flow.split)

lemma call_step_rest:
  assumes "call_active t" "call_step use_char os cfd t w = Some r"
  shows "call_rest use_char os cfd r = call_rest use_char os cfd (t, w)"
proof (cases "ct_phase t")
  case Waiting
  then show ?thesis using assms(2)
    by (auto simp: call_step_def call_rest_def flow_rest_recv [of _ _ _ _ "ct_conn t" w] split: prod.splits)
next
  case (Have bs)
  show ?thesis
  proof (cases bs)
    case Nil
    then show ?thesis using assms(2) Have by (auto simp: call_step_def call_rest_def flow_rest_def rest_of_def go_on_def)
  next
    case (Cons ch bs')
    then show ?thesis using assms(2) Have take_byte_rest [of use_char os ch bs' "ct_conn t" w r cfd]
      by (simp add: call_step_def call_rest_def flow_rest_byte)
  qed
next
  case (In_section pt bs)
  then obtain x c1 w1 where s: "section_step os cfd pt (ct_conn t) w = Some (x, c1, w1)"
    and r: "r = (\<lparr>ct_phase = (case x of Inl pt' \<Rightarrow> In_section pt' bs | Inr fl \<Rightarrow> after_section fl bs), ct_conn = c1\<rparr>, w1)"
    using assms(2) by (auto simp: call_step_def split: bind_splits)
  show ?thesis unfolding r section_call_rest [OF section_rest_step [OF s]] using In_section by (simp add: call_rest_def)
next
  case Hanging_up
  then show ?thesis using assms(2)
    by (auto simp: call_step_def call_rest_def flow_rest_def finish_def client_done_calls)
next
  case Closing
  then show ?thesis using assms(2) by (auto simp: call_step_def call_rest_def)
qed (use assms in \<open>simp_all add: call_active_def\<close>)

text \<open>A step of \<open>Server_Threads\<close> is a sequence of calls.\<close>

definition as_calls :: "thread_state \<Rightarrow> call_thread" where
  "as_calls t =
     \<lparr>ct_phase = (case th_phase t of Receiving \<Rightarrow> Waiting | Bytes bs \<Rightarrow> Have bs | Finished \<Rightarrow> Ended
        | Exiting n \<Rightarrow> Process_exit n), ct_conn = th_conn t\<rparr>"

lemma call_runs_refl: "call_runs use_char os cfd r r"
  by (simp add: call_runs_def)

lemma call_runs_step:
  "call_active t \<Longrightarrow> call_step use_char os cfd t w = Some r \<Longrightarrow> call_runs use_char os cfd r r' \<Longrightarrow>
     call_runs use_char os cfd (t, w) r'"
  unfolding call_runs_def by (rule converse_rtranclp_into_rtranclp) auto

lemma call_runs_trans:
  "call_runs use_char os cfd r r1 \<Longrightarrow> call_runs use_char os cfd r1 r2 \<Longrightarrow> call_runs use_char os cfd r r2"
  unfolding call_runs_def by (rule rtranclp_trans)

definition in_thread :: "byte list \<Rightarrow> (point + flow) \<times> conn \<times> 'w \<Rightarrow> call_thread \<times> 'w" where
  "in_thread bs = (\<lambda>(x, c, w).
     (\<lparr>ct_phase = (case x of Inl pt \<Rightarrow> In_section pt bs | Inr fl \<Rightarrow> after_section fl bs), ct_conn = c\<rparr>, w))"

lemma section_call_runs:
  "section_runs os cfd r r' \<Longrightarrow> call_runs use_char os cfd (in_thread bs r) (in_thread bs r')"
  unfolding section_runs_def
proof (induction rule: converse_rtranclp_induct)
  case base
  show ?case by (rule call_runs_refl)
next
  case (step q q')
  then obtain pt c w where q: "q = (Inl pt, c, w)" "section_step os cfd pt c w = Some q'" by auto
  then have "call_step use_char os cfd (fst (in_thread bs q)) w = Some (in_thread bs q')"
    "call_active (fst (in_thread bs q))"
    by (auto simp: call_step_def in_thread_def call_active_def split: prod.splits)
  from call_runs_step [OF this(2,1) step.IH] q(1) show ?case by (simp add: in_thread_def)
qed

lemma hang_up_calls:
  "call_runs use_char os cfd (\<lparr>ct_phase = Hanging_up, ct_conn = c\<rparr>, w) (apfst as_calls (hang_up os cfd c w))"
proof -
  let ?t = "\<lparr>ct_phase = Closing, ct_conn = free_packet c\<rparr>"
  have "call_runs use_char os cfd (?t, w) (apfst as_calls (hang_up os cfd c w))"
    by (rule call_runs_step [OF _ _ call_runs_refl])
      (simp_all add: call_active_def call_step_def hang_up_def as_calls_def client_done_calls)
  then show ?thesis
    by (rule call_runs_step [rotated 2]) (simp_all add: call_active_def call_step_def)
qed

lemma take_byte_calls:
  assumes "process_byte use_char os cfd ch c w = Some (fl, c1, w1)"
  shows "\<exists>r. take_byte use_char os ch bs c w = Some r \<and>
     call_runs use_char os cfd r (\<lparr>ct_phase = after_section fl bs, ct_conn = c1\<rparr>, w1)"
proof -
  obtain ok c2 w2 where g: "grow_packet os c w = (ok, c2, w2)" by (metis prod_cases3)
  show ?thesis
  proof (cases "ok \<and> ch = newline")
    case True
    then obtain b b' where b: "packet_buf c2 = Some b" "arr_set b (unat (packet_len c2)) ch = Some b'"
      using assms g by (auto simp: process_byte_def split: bind_splits)
    let ?c = "c2\<lparr>packet_buf := Some b', packet_len := packet_len c2 + 1\<rparr>"
    obtain job where job: "packet_job use_char ?c = Some job" "do_job os cfd job ?c w2 = Some (fl, c1, w1)"
      using assms g b True by (auto simp: process_byte_def handle_packet_job Let_def split: bind_splits)
    have "section_runs os cfd (Inl (Lock job), ?c, w2) (Inr fl, c1, w1)"
      by (rule point_runs) (use job(2) in \<open>simp only: do_job_def\<close>)
    from section_call_runs [OF this, of use_char bs] show ?thesis
      using g b job(1) True by (simp add: take_byte_def in_thread_def)
  next
    case False
    then show ?thesis using assms g
      by (auto simp: take_byte_def process_byte_def after_section_def call_runs_refl split: bind_splits if_splits)
  qed
qed

lemma thread_step_calls:
  assumes "active t" "thread_step use_char os cfd t w = Some (t', w')"
  shows "call_runs use_char os cfd (as_calls t, w) (as_calls t', w')"
proof -
  have act: "call_active (as_calls t)"
    using assms(1) by (auto simp: call_active_def as_calls_def active_def split: phase.splits)
  have hang: "call_runs use_char os cfd (\<lparr>ct_phase = Hanging_up, ct_conn = c\<rparr>, v) (as_calls t', w')"
    if "hang_up os cfd c v = (t', w')" for c v
    using hang_up_calls [of use_char os cfd c v] that by simp
  show ?thesis
  proof (cases "th_phase t")
    case Receiving
    obtain n bs w1 where r: "sys_recv os w cfd 1024 = (n, bs, w1)" by (metis prod_cases3)
    have "call_step use_char os cfd (as_calls t) w =
        Some (\<lparr>ct_phase = (if n \<le> 0 then Hanging_up else Have (take (nat n) bs)), ct_conn = th_conn t\<rparr>, w1)"
      using Receiving r by (simp add: call_step_def as_calls_def)
    from call_runs_step [OF act this] show ?thesis
      using assms(2) Receiving r hang
      by (cases "n \<le> 0") (auto simp: thread_step_def as_calls_def call_runs_refl Let_def)
  next
    case (Bytes bs)
    show ?thesis
    proof (cases bs)
      case Nil
      then have "call_step use_char os cfd (as_calls t) w = Some (as_calls t', w')"
        using assms(2) Bytes by (auto simp: thread_step_def call_step_def as_calls_def)
      then show ?thesis by (rule call_runs_step [OF act _ call_runs_refl])
    next
      case (Cons ch bs')
      obtain fl c1 w1 where p: "process_byte use_char os cfd ch (th_conn t) w = Some (fl, c1, w1)"
        using assms(2) Bytes Cons by (auto simp: thread_step_def split: bind_splits)
      obtain r where r: "take_byte use_char os ch bs' (th_conn t) w = Some r"
        "call_runs use_char os cfd r (\<lparr>ct_phase = after_section fl bs', ct_conn = c1\<rparr>, w1)"
        using take_byte_calls [OF p] by blast
      have "call_runs use_char os cfd (\<lparr>ct_phase = after_section fl bs', ct_conn = c1\<rparr>, w1) (as_calls t', w')"
        using assms(2) Bytes Cons p hang
        by (cases fl) (auto simp: thread_step_def after_section_def as_calls_def call_runs_refl)
      with r(2) have "call_runs use_char os cfd r (as_calls t', w')" by (rule call_runs_trans)
      moreover have "call_step use_char os cfd (as_calls t) w = Some r"
        using Bytes Cons r(1) by (simp add: call_step_def as_calls_def)
      ultimately show ?thesis by (intro call_runs_step [OF act])
    qed
  qed (use assms(1) in \<open>simp_all add: active_def\<close>)
qed

lemma runs_calls:
  "runs use_char os cfd r r' \<Longrightarrow> call_runs use_char os cfd (apfst as_calls r) (apfst as_calls r')"
  unfolding runs_def
proof (induction rule: rtranclp_induct)
  case base
  show ?case by (rule call_runs_refl)
next
  case (step q q')
  obtain t w t' w' where q: "q = (t, w)" "q' = (t', w')" by fastforce
  then have "call_runs use_char os cfd (as_calls t, w) (as_calls t', w')"
    using step.hyps(2) thread_step_calls by auto
  with step.IH q show ?case by (auto intro: call_runs_trans)
qed

text \<open>The outcome of a thread that has ended.\<close>

definition call_outcome :: "call_thread \<Rightarrow> flow option" where
  "call_outcome t = (case ct_phase t of Ended \<Rightarrow> Some Client_done | Process_exit n \<Rightarrow> Some (Exit n) | _ \<Rightarrow> None)"

text \<open>
  Made one call after the other, the calls of a connection thread are the code of
  \<open>handle_connection\<close>, on every branch and whatever the system answers: a thread on its own
  reaches its end with this outcome, this record and this state of the system exactly if
  \<open>handle_connection\<close> returns them.
\<close>

theorem calls_are_handle_connection:
  "handle_connection use_char os cfd w = Some (fl, c, w') \<longleftrightarrow>
     (\<exists>t. call_runs use_char os cfd (new_call_thread, w) (t, w') \<and> ct_conn t = c \<and> call_outcome t = Some fl)"
proof
  assume "handle_connection use_char os cfd w = Some (fl, c, w')"
  then obtain r where r: "recv_loop use_char os cfd new_conn w = Some r" "finish os cfd r = (fl, c, w')"
    by (auto simp: handle_connection_finish)
  have "fl = Client_done \<or> (\<exists>n. fl = Exit n)"
    using r(2) by (auto simp: finish_def split: prod.splits flow.splits)
  then show "\<exists>t. call_runs use_char os cfd (new_call_thread, w) (t, w') \<and> ct_conn t = c \<and> call_outcome t = Some fl"
    using runs_calls [OF recv_loop_runs [OF r(1)]]
    by (auto simp: r(2) new_call_thread_def as_calls_def ended_def call_outcome_def)
next
  assume "\<exists>t. call_runs use_char os cfd (new_call_thread, w) (t, w') \<and> ct_conn t = c \<and> call_outcome t = Some fl"
  then obtain t where t: "call_runs use_char os cfd (new_call_thread, w) (t, w')" and
    "ct_conn t = c" "call_outcome t = Some fl" by blast
  then have rest: "call_rest use_char os cfd (t, w') = Some (fl, c, w')"
    by (cases "ct_phase t") (simp_all add: call_rest_def call_outcome_def)
  have "call_rest use_char os cfd r' = call_rest use_char os cfd r" if "call_runs use_char os cfd r r'" for r r'
    using that unfolding call_runs_def by (induction rule: rtranclp_induct) (auto dest: call_step_rest)
  from this [OF t] rest show "handle_connection use_char os cfd w = Some (fl, c, w')"
    by (simp add: call_rest_def flow_rest_def rest_of_def new_call_thread_def handle_connection_finish)
qed

text \<open>The same for a round of the thread that logs the time.\<close>

definition stamp_runs ::
  "'w os \<Rightarrow> byte list \<Rightarrow> stamp_point \<times> conn \<times> 'w \<Rightarrow> stamp_point \<times> conn \<times> 'w \<Rightarrow> bool" where
  "stamp_runs os str = (\<lambda>(pt, c, w) r. pt \<noteq> S_sleep \<and> stamp_step os str pt c w = Some r)\<^sup>*\<^sup>*"

definition stamp_rest :: "'w os \<Rightarrow> stamp_point \<times> conn \<times> 'w \<Rightarrow> (conn \<times> 'w) option" where
  "stamp_rest os = (\<lambda>(pt, c, w). case pt of
      S_sleep \<Rightarrow> Some (c, w)
    | S_lock str \<Rightarrow> timestamp_round os str c w
    | S_writing wp \<Rightarrow> mutex_unlock' os c (snd (write_rest os wp w))
    | S_unlock \<Rightarrow> mutex_unlock' os c w)"

lemma stamp_step_rest:
  assumes "pt \<noteq> S_sleep" "stamp_step os str pt c w = Some r"
  shows "stamp_rest os r = stamp_rest os (pt, c, w)"
proof (cases pt)
  case (S_writing wp)
  then show ?thesis using assms(2) write_rest_step [of os wp w]
    by (auto simp: stamp_rest_def stamp_step_def split: prod.splits sum.splits)
qed (use assms in \<open>auto simp: stamp_rest_def stamp_step_def timestamp_round_def split_beta split: bind_splits\<close>)

lemma stamp_runs_step:
  "pt \<noteq> S_sleep \<Longrightarrow> stamp_step os str pt c w = Some r \<Longrightarrow> stamp_runs os str r r' \<Longrightarrow> stamp_runs os str (pt, c, w) r'"
  unfolding stamp_runs_def by (rule converse_rtranclp_into_rtranclp) auto

lemma stamp_step_defined:
  "stamp_rest os (pt, c, w) \<noteq> None \<Longrightarrow> stamp_step os str pt c w \<noteq> None"
  by (cases pt) (auto simp: stamp_rest_def stamp_step_def timestamp_round_def split: bind_splits prod.split sum.split)

lemma stamp_rest_runs:
  "stamp_rest os (pt, c, w) = Some (c', w') \<Longrightarrow> stamp_runs os str (pt, c, w) (S_sleep, c', w')"
proof (induction "stamp_rank pt" arbitrary: pt c w rule: less_induct)
  case less
  show ?case
  proof (cases "pt = S_sleep")
    case True
    then show ?thesis using less.prems by (simp add: stamp_rest_def stamp_runs_def)
  next
    case False
    obtain pt1 c1 w1 where s: "stamp_step os str pt c w = Some (pt1, c1, w1)"
      using stamp_step_defined [of os pt c w str] less.prems by (metis not_None_eq prod_cases3)
    have "stamp_runs os str (pt1, c1, w1) (S_sleep, c', w')"
      using less.hyps [OF stamp_step_rank [OF False s]] stamp_step_rest [OF False s] less.prems by simp
    with False s show ?thesis by (rule stamp_runs_step)
  qed
qed

lemma stamp_calls_are_round:
  "timestamp_round os str c w = Some (c', w') \<longleftrightarrow> stamp_runs os str (S_lock str, c, w) (S_sleep, c', w')"
proof
  show "timestamp_round os str c w = Some (c', w') \<Longrightarrow> stamp_runs os str (S_lock str, c, w) (S_sleep, c', w')"
    by (rule stamp_rest_runs) (simp add: stamp_rest_def)
  assume "stamp_runs os str (S_lock str, c, w) (S_sleep, c', w')"
  moreover have "stamp_rest os r' = stamp_rest os r" if "stamp_runs os str r r'" for r r'
    using that unfolding stamp_runs_def by (induction rule: rtranclp_induct) (auto dest: stamp_step_rest)
  ultimately show "timestamp_round os str c w = Some (c', w')" by (fastforce simp: stamp_rest_def)
qed

end
