(* ===== verification/Call_Unlock.thy ===== *)
theory Call_Unlock
  imports Call_Pool Call_Equivalence
begin

text \<open>
  What a failed \<open>write_to_file\<close> leads to: the thread unlocks the mutex twice, and the second time
  it can release the mutex of another thread, so that two threads are in the section at once.
\<close>

section \<open>The second unlock\<close>

lemma in_thread_at: "(t\<lparr>ct_phase := In_section pt bs\<rparr>, w) = in_thread bs (Inl pt, ct_conn t, w)"
  by (cases t) (simp add: in_thread_def)

lemma failed_write_reaches_unlock:
  assumes "write_to_file os (sys_lock os w) p = (- 1, w1)" "\<not> holds c"
  shows "section_runs os cfd (Inl (Lock (Data p)), c, w) (Inl Unlock_failed, c\<lparr>holds := True\<rparr>, w1)"
proof (rule section_runs_step)
  show "section_step os cfd (Lock (Data p)) c w = Some (Inl (Writing (W_open p)), c\<lparr>holds := True\<rparr>, sys_lock os w)"
    using assms(2) by (simp add: mutex_lock'_def)
  have "write_rest os (W_open p) (sys_lock os w) = (- 1, w1)" using assms(1) by simp
  from writing_runs [OF this, of cfd "c\<lparr>holds := True\<rparr>"]
  show "section_runs os cfd (Inl (Writing (W_open p)), c\<lparr>holds := True\<rparr>, sys_lock os w) (Inl Unlock_failed, c\<lparr>holds := True\<rparr>, w1)"
    by simp
qed

lemma reply_reaches_unlock:
  assumes "sys_open os w [O_RDONLY] = (fd, w1)" "fd \<noteq> - 1 \<Longrightarrow> echo_file os cfd fd w1 = Some (True, w2)"
  shows "section_runs os cfd (Inl Open_send, c, w)
    (if fd = - 1 then (Inl Unlock_break, c, w1) else (Inl Unlock_done, c, snd (sys_close os w2 fd)))"
proof (cases "fd = - 1")
  case True
  then show ?thesis using assms(1) by (intro section_runs_step) (auto intro: section_runs_refl)
next
  case False
  let ?K' = "\<lambda>ok. if ok then Inl (Close_sent fd) else Inr (Exit 1)"
  have "echo_runs os cfd fd (Inl E_read, w1) (Inr True, w2)" using echo_file_runs [OF assms(2) [OF False]] by simp
  from echo_section_runs [OF this, where K = "Sending fd" and K' = ?K' and c = c]
  have "section_runs os cfd (Inl (Sending fd E_read), c, w1) (Inl (Close_sent fd), c, w2)" by simp
  moreover have "section_runs os cfd (Inl (Close_sent fd), c, w2) (Inl Unlock_done, c, snd (sys_close os w2 fd))"
    by (rule section_runs_step [OF _ section_runs_refl]) simp
  ultimately have "section_runs os cfd (Inl (Sending fd E_read), c, w1) (Inl Unlock_done, c, snd (sys_close os w2 fd))"
    by (rule section_runs_trans)
  then show ?thesis using False assms(1) by (intro section_runs_step) simp_all
qed

text \<open>
  C37: when the packet could not be written, the thread unlocks the mutex, and after it has sent
  the file, or could not open it, it comes to \<open>pthread_mutex_unlock\<close> once more, without having the
  mutex: the two unlocks of :257 and :289 (or :264). In between it sends the file without the
  mutex. That call is undefined behaviour.
\<close>

theorem failed_write_unlocks_twice:
  assumes "ct_phase t = In_section (Lock (Data p)) bs" "\<not> holds (ct_conn t)"
    and "write_to_file os (sys_lock os w) p = (- 1, w1)"
    and "sys_open os (sys_unlock os w1) [O_RDONLY] = (fd, w2)"
    and "fd \<noteq> - 1 \<Longrightarrow> echo_file os cfd fd w2 = Some (True, w3)"
  shows "let first = \<lparr>ct_phase = In_section Unlock_failed bs, ct_conn = (ct_conn t)\<lparr>holds := True\<rparr>\<rparr>;
      sending = t\<lparr>ct_phase := In_section Open_send bs\<rparr>;
      second = t\<lparr>ct_phase := In_section (if fd = - 1 then Unlock_break else Unlock_done) bs\<rparr>;
      w' = (if fd = - 1 then w2 else snd (sys_close os w3 fd))
    in call_runs u os cfd (t, w) (first, w1) \<and> call_step u os cfd first w1 = Some (sending, sys_unlock os w1) \<and>
       call_runs u os cfd (sending, sys_unlock os w1) (second, w') \<and>
       unlocks_again second \<and> call_step u os cfd second w' = None"
proof -
  have c: "(ct_conn t)\<lparr>holds := False\<rparr> = ct_conn t" using assms(2) by (cases "ct_conn t") simp
  have t: "t = t\<lparr>ct_phase := In_section (Lock (Data p)) bs\<rparr>" using assms(1) by (cases t) simp
  let ?first = "\<lparr>ct_phase = In_section Unlock_failed bs, ct_conn = (ct_conn t)\<lparr>holds := True\<rparr>\<rparr>"
  let ?sending = "t\<lparr>ct_phase := In_section Open_send bs\<rparr>"
  let ?second = "t\<lparr>ct_phase := In_section (if fd = - 1 then Unlock_break else Unlock_done) bs\<rparr>"
  let ?w = "if fd = - 1 then w2 else snd (sys_close os w3 fd)"
  have "in_thread bs (Inl (Lock (Data p)), ct_conn t, w) = (t, w)" using t by (metis in_thread_at)
  then have 1: "call_runs u os cfd (t, w) (?first, w1)"
    using section_call_runs [OF failed_write_reaches_unlock [OF assms(3,2), of cfd], of u bs] by (simp add: in_thread_def)
  have 2: "call_step u os cfd ?first w1 = Some (?sending, sys_unlock os w1)"
    using c by (cases t) (simp add: call_step_def mutex_unlock'_def)
  have 3: "call_runs u os cfd (?sending, sys_unlock os w1) (?second, ?w)"
    using section_call_runs [OF reply_reaches_unlock [OF assms(4,5), of "ct_conn t"], of u bs]
    unfolding in_thread_at by (cases "fd = - 1") simp_all
  have 4: "unlocks_again ?second" using assms(2) by (simp add: unlocks_again_def)
  from 1 2 3 4 second_unlock_undefined [OF 4, of u os cfd ?w] show ?thesis by (simp only: Let_def)
qed


section \<open>A run in which it happens\<close>

text \<open>Schedules: \<open>None\<close> is an \<open>accept\<close>, \<open>Some n\<close> the next call of thread \<open>n\<close>.\<close>

definition pool_move ::
  "bool \<Rightarrow> 'w os \<Rightarrow> ('w \<Rightarrow> int \<times> 'w) \<Rightarrow> ('w, 'f) server_view \<Rightarrow> nat option \<Rightarrow> 'w call_pool \<Rightarrow> 'w call_pool option" where
  "pool_move u os acc S o' p =
     (if cp_exit p \<noteq> None then None
      else case o' of
        None \<Rightarrow> (let (fd, w) = acc (cp_world p)
          in if fd = - 1 then None
             else Some (p\<lparr>cp_world := w, cp_conns := cp_conns p @ [new_connection S fd w]\<rparr>))
      | Some n \<Rightarrow>
          (if length (cp_conns p) \<le> n then None
           else let k = cp_conns p ! n
           in if call_active (c_thread k) \<and> may_call (cp_mutex p) (c_thread k)
              then map_option (\<lambda>r. after_call S n r p) (call_step u os (c_fd k) (c_thread k) (cp_world p))
              else None))"

fun pool_moves ::
  "bool \<Rightarrow> 'w os \<Rightarrow> ('w \<Rightarrow> int \<times> 'w) \<Rightarrow> ('w, 'f) server_view \<Rightarrow> nat option list \<Rightarrow> 'w call_pool \<Rightarrow> 'w call_pool option" where
  "pool_moves u os acc S [] p = Some p"
| "pool_moves u os acc S (o' # os') p = do { p1 \<leftarrow> pool_move u os acc S o' p; pool_moves u os acc S os' p1 }"

lemma pool_move_step: "pool_move u os acc S o' p = Some p' \<Longrightarrow> calls_step u os acc S p p'"
  by (auto simp: pool_move_def Let_def split: if_splits option.splits prod.splits
      intro: calls_step.client calls_step.thread)

lemma pool_moves_run: "pool_moves u os acc S ms p = Some p' \<Longrightarrow> (raw_calls u os acc S)\<^sup>*\<^sup>* p p'"
  by (induction ms arbitrary: p)
    (auto split: bind_splits dest!: pool_move_step intro: raw_calls.call converse_rtranclp_into_rtranclp)

text \<open>A system whose first write fails; its state is the number of writes and the next descriptor.\<close>

definition bad_os :: "(nat \<times> int) os" where
  "bad_os = \<lparr>sys_open = (\<lambda>w flags. (3, w)), sys_close = (\<lambda>w fd. (0, w)),
     sys_write = (\<lambda>w fd bs. (if fst w = 0 then - 1 else int (length bs), apfst Suc w)), sys_fsync = (\<lambda>w fd. (0, w)),
     sys_read = (\<lambda>w fd n. (0, [], w)), sys_ioctl = (\<lambda>w fd cmd to. (0, w)), sys_recv = (\<lambda>w fd n. (1, [newline], w)),
     sys_send = (\<lambda>w fd bs. (int (length bs), w)), sys_realloc = (\<lambda>w n. (Some (replicate (unat n) 0), w)),
     sys_lock = (\<lambda>w. w), sys_unlock = (\<lambda>w. w)\<rparr>"

definition bad_accept :: "nat \<times> int \<Rightarrow> int \<times> (nat \<times> int)" where
  "bad_accept w = (snd w, fst w, snd w + 1)"

definition blind_view :: "(nat \<times> int, unit) server_view" where
  "blind_view = \<lparr>s_ok = (\<lambda>w. True), s_in = (\<lambda>w fd. []), s_out = (\<lambda>w fd. []), s_file = (\<lambda>w. ()), s_open = (\<lambda>w fd. True),
     s_rest = (\<lambda>w fd. []), s_append = (\<lambda>f bs. f), s_bytes = (\<lambda>f. []), s_max = 0, s_seek = (\<lambda>f x y. None)\<rparr>"

definition bad_schedule :: "nat option list" where
  "bad_schedule = replicate 3 None @ replicate 7 (Some 0) @ replicate 3 (Some 1) @ replicate 2 (Some 2) @ replicate 3 (Some 0)"

lemma bad_run:
  "map_option (\<lambda>p. (cp_exit p, map (\<lambda>k. (ct_phase (c_thread k), holds (ct_conn (c_thread k)))) (cp_conns p), cp_mutex p))
     (pool_moves False bad_os bad_accept blind_view bad_schedule (start_calls (0, 5))) =
   Some (None, [(In_section Unlock_done [], False), (In_section (Writing (W_open [newline])) [], True),
     (In_section (Lock (Data [newline])) [], False)], Connection 1)"
  by code_simp

theorem failed_write_unlocks_twice_witness:
  "let t = \<lparr>ct_phase = In_section (Lock (Data [newline])) [], ct_conn = new_conn\<rparr>;
     first = t\<lparr>ct_phase := In_section Unlock_failed [], ct_conn := new_conn\<lparr>holds := True\<rparr>\<rparr>;
     second = t\<lparr>ct_phase := In_section Unlock_done []\<rparr>
   in call_runs False bad_os 5 (t, (0, 6)) (first, (1, 6)) \<and>
     call_runs False bad_os 5 (t\<lparr>ct_phase := In_section Open_send []\<rparr>, (1, 6)) (second, (1, 6)) \<and>
     unlocks_again second \<and> call_step False bad_os 5 second (1, 6) = None"
proof -
  let ?t = "\<lparr>ct_phase = In_section (Lock (Data [newline])) [], ct_conn = new_conn\<rparr>"
  have "write_to_file bad_os (sys_lock bad_os (0, 6)) [newline] = (- 1, (1, 6))"
    "sys_open bad_os (sys_unlock bad_os (1, 6)) [O_RDONLY] = (3, (1, 6))"
    "echo_file bad_os 5 3 (1, 6) = Some (True, (1, 6))"
    "snd (sys_close bad_os (1, 6) 3) = (1, 6)" "sys_unlock bad_os (1, 6) = (1, 6)"
    by (simp_all add: write_to_file_def bad_os_def echo_file.simps)
  with failed_write_unlocks_twice [of ?t "[newline]" "[]" bad_os "(0, 6)" "(1, 6)" 3 "(1, 6)" 5 "(1, 6)" False]
  show ?thesis by (simp add: new_conn_def Let_def)
qed


end
