(* ===== verification/Main_Calls.thy ===== *)
theory Main_Calls
  imports Aesd_Server
begin

text \<open>
  The accept loop of \<open>main\<close> one call at a time: a point says which call comes next, with the
  values of the local variables that are still needed. The points of the loop over the queue
  hold \<open>item\<close> and the successor \<open>tmp\<close> that \<open>TAILQ_FOREACH_SAFE\<close> read before the body.
  Made one after the other the calls are \<open>accept_iteration\<close>.
\<close>

section \<open>The calls\<close>

datatype main_point =
    M_accept
  | M_malloc int
  | M_fill int ptr
  | M_create int ptr
  | M_close int ptr
  | M_free_new ptr
  | M_insert ptr
  | M_loop ptr
  | M_join ptr ptr
  | M_remove ptr ptr
  | M_free_thread ptr ptr
  | M_free ptr ptr
  | M_returned

text \<open>
  \<open>a\<close> has the answer of the call. \<open>M_fill\<close> is the second \<open>malloc\<close> with the assignments to the
  new record; at \<open>M_create\<close> the thread starts to run.
\<close>

definition main_step :: "accept_answers \<Rightarrow> main_point \<Rightarrow> server \<Rightarrow> (main_point \<times> server) option" where
  "main_step a pt s =
     (case pt of
        M_accept \<Rightarrow> Some (if a_fd a = - 1 then M_accept else M_malloc (a_fd a), s)
      | M_malloc fd \<Rightarrow> Some (M_fill fd (a_tdata a), malloc_tdata a s)
      | M_fill fd p \<Rightarrow> do {
          s1 \<leftarrow> init_tdata (a\<lparr>a_fd := fd, a_tdata := p\<rparr>) s;
          Some (M_create fd p, s1)
        }
      | M_create fd p \<Rightarrow>
          if \<not> elem_live (tq s) p \<or> \<not> thread_block s (td_thread (td s p)) then None
          else Some (if a_rc a \<noteq> 0 then (M_close fd p, s) else (M_insert p, s\<lparr>running := p # running s\<rparr>))
      | M_close fd p \<Rightarrow> Some (M_free_new p, s\<lparr>closed := fd # closed s\<rparr>)
      | M_free_new p \<Rightarrow> do { s1 \<leftarrow> free_tdata p s; Some (M_returned, s1) }
      | M_insert p \<Rightarrow> do {
          m \<leftarrow> TAILQ_INSERT_TAIL (tq s) active_head p;
          Some (M_loop (TAILQ_FIRST m active_head), s\<lparr>tq := m\<rparr>)
        }
      | M_loop item \<Rightarrow>
          if item = NULL then Some (M_accept, s)
          else do {
            tmp \<leftarrow> TAILQ_NEXT (tq s) item;
            if \<not> elem_live (tq s) item then None
            else Some (if td_complete (td s item) then M_join item tmp else M_loop tmp, s)
          }
      | M_join item tmp \<Rightarrow> do { s1 \<leftarrow> join_thread item s; Some (M_remove item tmp, s1) }
      | M_remove item tmp \<Rightarrow> do {
          m \<leftarrow> TAILQ_REMOVE (tq s) active_head item;
          Some (M_free_thread item tmp, s\<lparr>tq := m\<rparr>)
        }
      | M_free_thread item tmp \<Rightarrow> do {
          s1 \<leftarrow> free_thread (td_thread (td s item)) s;
          Some (M_free item tmp, s1)
        }
      | M_free item tmp \<Rightarrow> do { s1 \<leftarrow> free_tdata item s; Some (M_loop tmp, s1) }
      | M_returned \<Rightarrow> Some (M_returned, s))"

definition in_iteration :: "main_point \<Rightarrow> bool" where
  "in_iteration pt \<longleftrightarrow> pt \<noteq> M_accept \<and> pt \<noteq> M_returned"

text \<open>An iteration: from one \<open>accept\<close> to the next, or to the end of \<open>main\<close>.\<close>

definition main_runs :: "accept_answers \<Rightarrow> main_point \<times> server \<Rightarrow> main_point \<times> server \<Rightarrow> bool" where
  "main_runs a = (\<lambda>(pt, s) r. in_iteration pt \<and> main_step a pt s = Some r)\<^sup>*\<^sup>*"

section \<open>They are the iteration\<close>

text \<open>The rest of an iteration from a point on.\<close>

definition loop_rest :: "ptr \<Rightarrow> server \<Rightarrow> (main_point \<times> server) option" where
  "loop_rest item s = do {
     s' \<leftarrow> foreach_safe (\<lambda>s. TAILQ_NEXT (tq s)) reap_item item s;
     Some (M_accept, s')
   }"

definition main_rest :: "accept_answers \<Rightarrow> main_point \<Rightarrow> server \<Rightarrow> (main_point \<times> server) option" where
  "main_rest a pt s =
     (let insert_rest = (\<lambda>p s. do {
            m \<leftarrow> TAILQ_INSERT_TAIL (tq s) active_head p;
            loop_rest (TAILQ_FIRST m active_head) (s\<lparr>tq := m\<rparr>) });
          close_rest = (\<lambda>fd p s. do { s1 \<leftarrow> free_tdata p (s\<lparr>closed := fd # closed s\<rparr>); Some (M_returned, s1) });
          create_rest = (\<lambda>fd p s.
            if \<not> elem_live (tq s) p \<or> \<not> thread_block s (td_thread (td s p)) then None
            else if a_rc a \<noteq> 0 then close_rest fd p s
            else insert_rest p (s\<lparr>running := p # running s\<rparr>));
          fill_rest = (\<lambda>fd p s. do { s1 \<leftarrow> init_tdata (a\<lparr>a_fd := fd, a_tdata := p\<rparr>) s; create_rest fd p s1 });
          free_rest = (\<lambda>item tmp s. do { s1 \<leftarrow> free_tdata item s; loop_rest tmp s1 });
          free_thread_rest = (\<lambda>item tmp s. do { s1 \<leftarrow> free_thread (td_thread (td s item)) s; free_rest item tmp s1 });
          remove_rest = (\<lambda>item tmp s. do {
            m \<leftarrow> TAILQ_REMOVE (tq s) active_head item; free_thread_rest item tmp (s\<lparr>tq := m\<rparr>) })
      in case pt of
        M_accept \<Rightarrow> Some (M_accept, s)
      | M_malloc fd \<Rightarrow> fill_rest fd (a_tdata a) (malloc_tdata a s)
      | M_fill fd p \<Rightarrow> fill_rest fd p s
      | M_create fd p \<Rightarrow> create_rest fd p s
      | M_close fd p \<Rightarrow> close_rest fd p s
      | M_free_new p \<Rightarrow> do { s1 \<leftarrow> free_tdata p s; Some (M_returned, s1) }
      | M_insert p \<Rightarrow> insert_rest p s
      | M_loop item \<Rightarrow> loop_rest item s
      | M_join item tmp \<Rightarrow> do { s1 \<leftarrow> join_thread item s; remove_rest item tmp s1 }
      | M_remove item tmp \<Rightarrow> remove_rest item tmp s
      | M_free_thread item tmp \<Rightarrow> free_thread_rest item tmp s
      | M_free item tmp \<Rightarrow> free_rest item tmp s
      | M_returned \<Rightarrow> Some (M_returned, s))"

lemma loop_rest_step:
  "loop_rest item s =
     (if item = NULL then Some (M_accept, s)
      else do {
        tmp \<leftarrow> TAILQ_NEXT (tq s) item;
        s1 \<leftarrow> reap_item item s;
        loop_rest tmp s1
      })"
  by (simp add: loop_rest_def foreach_safe.simps [of _ _ item s] bind_assoc)

lemma main_step_rest:
  assumes "in_iteration pt" "main_step a pt s = Some (pt', s')"
  shows "main_rest a pt' s' = main_rest a pt s"
proof (cases pt)
  case (M_loop item)
  then show ?thesis using assms(2)
    by (auto simp: main_step_def main_rest_def loop_rest_step [of item s] loop_rest_step [of NULL] reap_item_def Let_def
        join_thread_def bind_assoc split: bind_splits if_splits)
qed (use assms in \<open>auto simp: in_iteration_def main_step_def main_rest_def Let_def bind_assoc split: bind_splits if_splits\<close>)

lemma main_runs_rest:
  assumes "main_runs a r r'"
  shows "main_rest a (fst r') (snd r') = main_rest a (fst r) (snd r)"
  using assms unfolding main_runs_def
  by (induction rule: rtranclp_induct) (auto simp: main_step_rest)

lemma iteration_rest:
  assumes "a_fd a \<noteq> - 1"
  shows "main_rest a (M_malloc (a_fd a)) s =
    map_option (\<lambda>(b, s'). (if b then M_accept else M_returned, s')) (accept_iteration a s)"
proof -
  have order: "s1\<lparr>running := r, tq := m\<rparr> = s1\<lparr>tq := m, running := r\<rparr>" for s1 :: server and r m by simp
  show ?thesis using assms
    by (auto simp: main_rest_def accept_iteration_def reap_threads_def loop_rest_def init_tdata_def malloc_tdata_def
        bind_assoc order split: bind_splits)
qed

lemma main_runs_refl: "main_runs a r r"
  by (simp add: main_runs_def)

lemma main_runs_step:
  "in_iteration pt \<Longrightarrow> main_step a pt s = Some r \<Longrightarrow> main_runs a r r' \<Longrightarrow> main_runs a (pt, s) r'"
  unfolding main_runs_def by (rule converse_rtranclp_into_rtranclp) auto

lemma main_runs_trans: "main_runs a r r1 \<Longrightarrow> main_runs a r1 r2 \<Longrightarrow> main_runs a r r2"
  unfolding main_runs_def by (rule rtranclp_trans)

lemma reap_runs:
  assumes "reap_item item s = Some s1" "item \<noteq> NULL" "TAILQ_NEXT (tq s) item = Some tmp"
  shows "main_runs a (M_loop item, s) (M_loop tmp, s1)"
proof (cases "td_complete (td s item)")
  case True
  obtain s2 m s3 where r: "elem_live (tq s) item" "join_thread item s = Some s2"
    "TAILQ_REMOVE (tq s2) active_head item = Some m" "td s2 = td s"
    "free_thread (td_thread (td s2 item)) (s2\<lparr>tq := m\<rparr>) = Some s3" "free_tdata item s3 = Some s1"
    using assms(1) True by (auto simp: reap_item_def join_thread_def split: bind_splits if_splits)
  have "main_runs a (M_free item tmp, s3) (M_loop tmp, s1)"
    by (rule main_runs_step [OF _ _ main_runs_refl]) (simp_all add: main_step_def in_iteration_def r)
  then have "main_runs a (M_free_thread item tmp, s2\<lparr>tq := m\<rparr>) (M_loop tmp, s1)"
    by (rule main_runs_step [rotated 2]) (use r in \<open>simp_all add: main_step_def in_iteration_def\<close>)
  then have "main_runs a (M_remove item tmp, s2) (M_loop tmp, s1)"
    by (rule main_runs_step [rotated 2]) (simp_all add: main_step_def in_iteration_def r)
  then have "main_runs a (M_join item tmp, s) (M_loop tmp, s1)"
    by (rule main_runs_step [rotated 2]) (simp_all add: main_step_def in_iteration_def r)
  then show ?thesis
    by (rule main_runs_step [rotated 2]) (simp_all add: main_step_def in_iteration_def r assms(2,3) True)
next
  case False
  then have "s1 = s" "elem_live (tq s) item" using assms(1) by (auto simp: reap_item_def split: if_splits)
  then show ?thesis
    by (intro main_runs_step [OF _ _ main_runs_refl]) (simp_all add: main_step_def in_iteration_def assms(2,3) False)
qed

lemma loop_runs:
  assumes "foreach_safe (\<lambda>s. TAILQ_NEXT (tq s)) reap_item item s = Some s'"
  shows "main_runs a (M_loop item, s) (M_accept, s')"
proof -
  have "nxt = (\<lambda>s. TAILQ_NEXT (tq s)) \<longrightarrow> body = reap_item \<longrightarrow> main_runs a (M_loop item, s) (M_accept, s')"
    if "foreach_safe nxt body item s = Some s'" for nxt body
    using that
  proof (induction nxt body item s s' rule: foreach_safe.raw_induct [rotated, consumes 1, case_names step])
    case (step loop nxt body v s r)
    note IH = step.IH and hyps = step.hyps
    show ?case
    proof (cases "v = NULL")
      case True
      then have "r = s" using hyps by simp
      then show ?thesis using True
        by (intro impI main_runs_step [OF _ _ main_runs_refl]) (simp_all add: main_step_def in_iteration_def)
    next
      case False
      then obtain t s1 where t: "nxt s v = Some t" "body v s = Some s1" "loop nxt body t s1 = Some r"
        using hyps by (auto split: bind_splits)
      show ?thesis
      proof (intro impI)
        assume n: "nxt = (\<lambda>s. TAILQ_NEXT (tq s))" "body = reap_item"
        have "main_runs a (M_loop v, s) (M_loop t, s1)" by (rule reap_runs) (use t False n in simp_all)
        then show "main_runs a (M_loop v, s) (M_accept, r)" using IH [OF t(3)] n main_runs_trans by blast
      qed
    qed
  qed
  then show ?thesis using assms by blast
qed

text \<open>
  A call at a time, the accept loop is \<open>accept_iteration\<close>: the calls from one \<open>accept\<close> on
  reach the next \<open>accept\<close>, or the end of \<open>main\<close>, exactly if the iteration has that outcome.
\<close>

theorem main_calls_are_accept_iteration:
  "accept_iteration a s = Some (b, s') \<longleftrightarrow>
     (\<exists>r. main_step a M_accept s = Some r \<and> main_runs a r (if b then M_accept else M_returned, s'))"
proof (cases "a_fd a = - 1")
  case True
  have "main_runs a (M_accept, s) r \<longleftrightarrow> r = (M_accept, s)" for r
    by (auto simp: main_runs_def in_iteration_def elim: converse_rtranclpE)
  then show ?thesis using True by (auto simp: accept_iteration_def main_step_def)
next
  case False
  then have first: "main_step a M_accept s = Some (M_malloc (a_fd a), s)" by (simp add: main_step_def)
  show ?thesis
  proof
    assume it: "accept_iteration a s = Some (b, s')"
    obtain s1 where s1: "init_tdata a (malloc_tdata a s) = Some s1" "thread_block s1 (a_thread a)"
      using it False by (auto simp: accept_iteration_def split: bind_splits if_splits)
    let ?p = "a_tdata a"
    have td: "td_thread (td s1 ?p) = a_thread a" and live: "elem_live (tq s1) ?p"
      using s1(1) by (auto simp: init_tdata_def malloc_tdata_def split: if_splits)
    have "main_runs a (M_create (a_fd a) ?p, s1) (if b then M_accept else M_returned, s')"
    proof (cases "a_rc a = 0")
      case True
      then obtain m s2 where m: "b" "TAILQ_INSERT_TAIL (tq s1) active_head ?p = Some m"
        "foreach_safe (\<lambda>s. TAILQ_NEXT (tq s)) reap_item (TAILQ_FIRST m active_head)
           (s1\<lparr>tq := m, running := ?p # running s1\<rparr>) = Some s'"
        using it False s1 by (auto simp: accept_iteration_def reap_threads_def split: bind_splits if_splits)
      have "main_runs a (M_insert ?p, s1\<lparr>running := ?p # running s1\<rparr>) (M_accept, s')"
        by (rule main_runs_step [OF _ _ loop_runs [OF m(3)]]) (simp_all add: main_step_def in_iteration_def m(2))
      then have "main_runs a (M_create (a_fd a) ?p, s1) (M_accept, s')"
        by (rule main_runs_step [rotated 2]) (simp_all add: main_step_def in_iteration_def s1(2) td live True)
      then show ?thesis using m(1) by simp
    next
      case rc: False
      then have b: "\<not> b" "free_tdata ?p (s1\<lparr>closed := a_fd a # closed s1\<rparr>) = Some s'"
        using it False s1 by (auto simp: accept_iteration_def split: bind_splits if_splits)
      have "main_runs a (M_free_new ?p, s1\<lparr>closed := a_fd a # closed s1\<rparr>) (M_returned, s')"
        by (rule main_runs_step [OF _ _ main_runs_refl]) (simp_all add: main_step_def in_iteration_def b)
      then have "main_runs a (M_close (a_fd a) ?p, s1) (M_returned, s')"
        by (rule main_runs_step [rotated 2]) (simp_all add: main_step_def in_iteration_def)
      then have "main_runs a (M_create (a_fd a) ?p, s1) (M_returned, s')"
        by (rule main_runs_step [rotated 2]) (simp_all add: main_step_def in_iteration_def s1(2) td live rc)
      then show ?thesis using b(1) by simp
    qed
    then have "main_runs a (M_fill (a_fd a) ?p, malloc_tdata a s) (if b then M_accept else M_returned, s')"
      by (rule main_runs_step [rotated 2]) (use s1(1) in \<open>simp_all add: main_step_def in_iteration_def\<close>)
    then have "main_runs a (M_malloc (a_fd a), s) (if b then M_accept else M_returned, s')"
      by (rule main_runs_step [rotated 2]) (simp_all add: main_step_def in_iteration_def)
    then show "\<exists>r. main_step a M_accept s = Some r \<and> main_runs a r (if b then M_accept else M_returned, s')"
      using first by blast
  next
    assume "\<exists>r. main_step a M_accept s = Some r \<and> main_runs a r (if b then M_accept else M_returned, s')"
    then have "main_runs a (M_malloc (a_fd a), s) (if b then M_accept else M_returned, s')" using first by simp
    moreover have "main_rest a (if b then M_accept else M_returned) s' = Some (if b then M_accept else M_returned, s')"
      by (simp add: main_rest_def)
    ultimately have "main_rest a (M_malloc (a_fd a)) s = Some (if b then M_accept else M_returned, s')"
      using main_runs_rest by fastforce
    with iteration_rest [OF False, of s]
    have "map_option (\<lambda>(b, s'). (if b then M_accept else M_returned, s')) (accept_iteration a s) =
        Some (if b then M_accept else M_returned, s')" by simp
    then show "accept_iteration a s = Some (b, s')" by (auto split: if_splits)
  qed
qed

section \<open>The records between two calls\<close>

text \<open>
  The queue is \<open>xs\<close>; the records in \<open>recs\<close> are allocated, those in \<open>bs\<close> have their block for the
  thread id, and the threads of those in \<open>ts\<close> are not joined.
\<close>

definition records :: "server \<Rightarrow> ptr list \<Rightarrow> ptr set \<Rightarrow> ptr set \<Rightarrow> ptr set \<Rightarrow> bool" where
  "records s xs recs bs ts \<longleftrightarrow>
     tailq (tq s) active_head xs \<and> (\<forall>p. elem_live (tq s) p \<longleftrightarrow> p \<in> recs) \<and>
     inj_on (\<lambda>p. td_thread (td s p)) bs \<and>
     (\<forall>q. thread_block s q \<longleftrightarrow> (\<exists>p \<in> bs. q = td_thread (td s p))) \<and>
     distinct (running s) \<and> set (running s) = ts"

lemma holds_records: "holds_threads s xs \<longleftrightarrow> records s xs (set xs) (set xs) (set xs)"
  by (simp add: holds_threads_def records_def)

text \<open>In the loop, \<open>ks\<close> are the records it has passed and kept, \<open>ys\<close> those it has still to visit.\<close>

fun main_ok :: "main_point \<Rightarrow> ptr list \<Rightarrow> ptr list \<Rightarrow> server \<Rightarrow> bool" where
  "main_ok M_accept ks ys s \<longleftrightarrow> ys = [] \<and> holds_threads s ks"
| "main_ok (M_malloc fd) ks ys s \<longleftrightarrow> ys = [] \<and> holds_threads s ks"
| "main_ok (M_fill fd p) ks ys s \<longleftrightarrow>
     ys = [] \<and> p \<noteq> NULL \<and> p \<notin> set ks \<and> records s ks (insert p (set ks)) (set ks) (set ks)"
| "main_ok (M_create fd p) ks ys s \<longleftrightarrow>
     ys = [] \<and> p \<noteq> NULL \<and> p \<notin> set ks \<and> records s ks (insert p (set ks)) (insert p (set ks)) (set ks) \<and>
     td_client_fd (td s p) = fd \<and> \<not> td_complete (td s p)"
| "main_ok (M_close fd p) ks ys s \<longleftrightarrow>
     ys = [] \<and> p \<notin> set ks \<and> records s ks (insert p (set ks)) (insert p (set ks)) (set ks)"
| "main_ok (M_free_new p) ks ys s \<longleftrightarrow>
     ys = [] \<and> p \<notin> set ks \<and> records s ks (insert p (set ks)) (insert p (set ks)) (set ks)"
| "main_ok (M_insert p) ks ys s \<longleftrightarrow>
     ys = [] \<and> p \<noteq> NULL \<and> p \<notin> set ks \<and> records s ks (insert p (set ks)) (insert p (set ks)) (insert p (set ks))"
| "main_ok (M_loop item) ks ys s \<longleftrightarrow> item = first_or_null ys \<and> holds_threads s (ks @ ys)"
| "main_ok (M_join item tmp) ks ys s \<longleftrightarrow>
     tmp = first_or_null ys \<and> td_complete (td s item) \<and> holds_threads s (ks @ item # ys)"
| "main_ok (M_remove item tmp) ks ys s \<longleftrightarrow> tmp = first_or_null ys \<and>
     records s (ks @ item # ys) (set (ks @ item # ys)) (set (ks @ item # ys)) (set (ks @ ys))"
| "main_ok (M_free_thread item tmp) ks ys s \<longleftrightarrow> tmp = first_or_null ys \<and> item \<notin> set (ks @ ys) \<and>
     records s (ks @ ys) (set (ks @ item # ys)) (set (ks @ item # ys)) (set (ks @ ys))"
| "main_ok (M_free item tmp) ks ys s \<longleftrightarrow> tmp = first_or_null ys \<and> item \<notin> set (ks @ ys) \<and>
     records s (ks @ ys) (set (ks @ item # ys)) (set (ks @ ys)) (set (ks @ ys))"
| "main_ok M_returned ks ys s \<longleftrightarrow> ys = [] \<and> (\<exists>p. records s ks (set ks) (insert p (set ks)) (set ks))"

text \<open>How many calls the iteration has left at most.\<close>

fun main_rank :: "main_point \<Rightarrow> ptr list \<Rightarrow> ptr list \<Rightarrow> nat" where
  "main_rank (M_malloc fd) ks ys = 5 * length ks + 10"
| "main_rank (M_fill fd p) ks ys = 5 * length ks + 9"
| "main_rank (M_create fd p) ks ys = 5 * length ks + 8"
| "main_rank (M_close fd p) ks ys = 2"
| "main_rank (M_free_new p) ks ys = 1"
| "main_rank (M_insert p) ks ys = 5 * length ks + 7"
| "main_rank (M_loop item) ks ys = 5 * length ys + 1"
| "main_rank (M_join item tmp) ks ys = 5 * length ys + 5"
| "main_rank (M_remove item tmp) ks ys = 5 * length ys + 4"
| "main_rank (M_free_thread item tmp) ks ys = 5 * length ys + 3"
| "main_rank (M_free item tmp) ks ys = 5 * length ys + 2"
| "main_rank _ ks ys = 0"

lemma records_live: "records s xs recs bs ts \<Longrightarrow> elem_live (tq s) p \<longleftrightarrow> p \<in> recs"
  by (simp add: records_def)

lemma records_block: "records s xs recs bs ts \<Longrightarrow> p \<in> bs \<Longrightarrow> thread_block s (td_thread (td s p))"
  by (auto simp: records_def)

lemma malloc_ok:
  assumes "records s xs (set xs) bs ts" "fresh_answers a s"
  shows "records (malloc_tdata a s) xs (insert (a_tdata a) (set xs)) bs ts" "a_tdata a \<noteq> NULL" "a_tdata a \<notin> set xs"
proof -
  show new: "a_tdata a \<noteq> NULL" "a_tdata a \<notin> set xs"
    using assms records_live [OF assms(1)] by (simp_all add: fresh_answers_def)
  have "tailq ((tq s)\<lparr>elem_live := (elem_live (tq s))(a_tdata a := True)\<rparr>) active_head xs"
    by (rule tailq_live_cong) (use assms(1) in \<open>auto simp: records_def\<close>)
  then show "records (malloc_tdata a s) xs (insert (a_tdata a) (set xs)) bs ts"
    using assms(1) new by (simp add: records_def malloc_tdata_def)
qed

lemma fill_ok:
  assumes r: "records s xs (insert p (set xs)) (set xs) ts" and p: "p \<notin> set xs" and a: "fresh_answers a s"
  shows "\<exists>s'. init_tdata (a\<lparr>a_fd := fd, a_tdata := p\<rparr>) s = Some s' \<and>
     records s' xs (insert p (set xs)) (insert p (set xs)) ts \<and>
     td s' = (td s)(p := \<lparr>td_thread = a_thread a, td_complete = False, td_client_fd = fd\<rparr>) \<and> running s' = running s"
proof -
  let ?q = "a_thread a"
  let ?td = "(td s)(p := \<lparr>td_thread = ?q, td_complete = False, td_client_fd = fd\<rparr>)"
  let ?s = "s\<lparr>thread_block := (thread_block s)(?q := True), td := ?td\<rparr>"
  have q: "?q \<noteq> NULL" "\<not> thread_block s ?q" using a by (simp_all add: fresh_answers_def)
  have "init_tdata (a\<lparr>a_fd := fd, a_tdata := p\<rparr>) s = Some ?s"
    using q records_live [OF r] by (simp add: init_tdata_def)
  moreover have "records ?s xs (insert p (set xs)) (insert p (set xs)) ts"
  proof -
    have old: "?td x = td s x" if "x \<in> set xs" for x using that p by auto
    have "inj_on (\<lambda>x. td_thread (?td x)) (insert p (set xs))"
    proof -
      have "inj_on (\<lambda>x. td_thread (?td x)) (set xs)"
        using r old by (simp add: records_def inj_on_def)
      moreover have "td_thread (?td p) \<notin> (\<lambda>x. td_thread (?td x)) ` (set xs)"
        using records_block [OF r] q old by auto
      ultimately show ?thesis using p by (auto simp: inj_on_insert)
    qed
    moreover have "((thread_block s)(?q := True)) b \<longleftrightarrow> (\<exists>x \<in> insert p (set xs). b = td_thread (?td x))" for b
    proof -
      have "(\<exists>x \<in> insert p (set xs). b = td_thread (?td x)) \<longleftrightarrow> b = ?q \<or> (\<exists>x \<in> set xs. b = td_thread (td s x))"
        using old by auto
      then show ?thesis using r by (auto simp: records_def)
    qed
    ultimately show ?thesis using r by (simp add: records_def)
  qed
  ultimately show ?thesis by (intro exI [of _ ?s]) simp
qed

lemma insert_ok:
  assumes r: "records s xs (insert p (set xs)) bs ts" and p: "p \<noteq> NULL" "p \<notin> set xs"
  shows "\<exists>m. TAILQ_INSERT_TAIL (tq s) active_head p = Some m \<and> records (s\<lparr>tq := m\<rparr>) (xs @ [p]) (insert p (set xs)) bs ts \<and>
     TAILQ_FIRST m active_head = first_or_null (xs @ [p])"
proof -
  have t: "tailq (tq s) active_head xs" and l: "elem_live (tq s) p" using r by (simp_all add: records_def)
  obtain m where m: "TAILQ_INSERT_TAIL (tq s) active_head p = Some m" "tailq m active_head (xs @ [p])"
    "only_changes {active_head} (insert p (set xs)) (tq s) m"
    by (rule TAILQ_INSERT_TAIL_tailq [OF t l p])
  then show ?thesis using r TAILQ_FIRST_tailq [OF m(2)] by (auto simp: records_def only_changes_def)
qed

lemma remove_ok:
  assumes r: "records s (xs @ p # ys) recs bs ts"
  shows "\<exists>m. TAILQ_REMOVE (tq s) active_head p = Some m \<and> records (s\<lparr>tq := m\<rparr>) (xs @ ys) recs bs ts"
proof -
  have t: "tailq (tq s) active_head (xs @ p # ys)" using r by (simp add: records_def)
  obtain m where m: "TAILQ_REMOVE (tq s) active_head p = Some m" "tailq m active_head (xs @ ys)"
    "only_changes {active_head} (set (xs @ p # ys) - {p}) (tq s) m"
    by (rule TAILQ_REMOVE_tailq [OF t])
  then show ?thesis using r by (auto simp: records_def only_changes_def)
qed

lemma join_ok:
  assumes "records s xs recs bs (insert p ts)" "p \<in> bs" "p \<notin> ts"
  shows "\<exists>s'. join_thread p s = Some s' \<and> records s' xs recs bs ts \<and> td s' = td s \<and> running s' = remove1 p (running s)"
  using assms records_block [OF assms(1,2)]
  by (auto simp: join_thread_def records_def set_remove1_eq)

lemma free_thread_ok:
  assumes r: "records s xs recs (insert p bs) ts" and p: "p \<notin> bs"
  shows "\<exists>s'. free_thread (td_thread (td s p)) s = Some s' \<and> records s' xs recs bs ts \<and> td s' = td s \<and> running s' = running s"
proof -
  have "td_thread (td s x) \<noteq> td_thread (td s p)" if "x \<in> bs" for x
    using r p that by (auto simp: records_def inj_on_def)
  then show ?thesis using r records_block [OF r, of p]
    by (auto simp: free_thread_def records_def)
qed

lemma free_ok:
  assumes r: "records s xs (insert p recs) bs ts" and p: "p \<notin> recs" "set xs \<subseteq> recs"
  shows "\<exists>s'. free_tdata p s = Some s' \<and> records s' xs recs bs ts \<and> td s' = td s \<and> running s' = running s"
proof -
  have "tailq ((tq s)\<lparr>elem_live := (elem_live (tq s))(p := False)\<rparr>) active_head xs"
    by (rule tailq_live_cong) (use r p in \<open>auto simp: records_def\<close>)
  then show ?thesis using r p by (auto simp: free_tdata_def records_def)
qed

text \<open>Every call is defined, and keeps the records in order.\<close>

definition main_moves :: "accept_answers \<Rightarrow> main_point \<Rightarrow> ptr list \<Rightarrow> ptr list \<Rightarrow> server \<Rightarrow> bool" where
  "main_moves a pt ks ys s \<longleftrightarrow> (\<exists>pt' s' ks' ys'. main_step a pt s = Some (pt', s') \<and> main_ok pt' ks' ys' s' \<and>
     (in_iteration pt \<longrightarrow> main_rank pt' ks' ys' < main_rank pt ks ys))"

lemma main_movesI:
  "main_step a pt s = Some (pt', s') \<Longrightarrow> main_ok pt' ks' ys' s' \<Longrightarrow> main_rank pt' ks' ys' < main_rank pt ks ys \<Longrightarrow>
     main_moves a pt ks ys s"
  unfolding main_moves_def by blast

lemma main_loop_moves:
  assumes h: "holds_threads s (ks @ ys)"
  shows "main_moves a (M_loop (first_or_null ys)) ks ys s"
proof (cases ys)
  case Nil
  show ?thesis
    by (rule main_movesI [of _ _ _ M_accept s ks "[]"]) (use h Nil in \<open>simp_all add: main_step_def\<close>)
next
  case (Cons x zs)
  then have q: "tailq (tq s) active_head (ks @ x # zs)" using h by (simp add: holds_threads_def)
  have x: "x \<noteq> NULL" "elem_live (tq s) x" using tailq_elem [OF q, of x] by simp_all
  note next_x = TAILQ_NEXT_tailq [OF q]
  show ?thesis
  proof (cases "td_complete (td s x)")
    case True
    show ?thesis
      by (rule main_movesI [of _ _ _ "M_join x (first_or_null zs)" s ks zs])
        (use h Cons x next_x True in \<open>simp_all add: main_step_def\<close>)
  next
    case False
    show ?thesis
      by (rule main_movesI [of _ _ _ "M_loop (first_or_null zs)" s "ks @ [x]" zs])
        (use h Cons x next_x False in \<open>simp_all add: main_step_def\<close>)
  qed
qed

lemma main_reap_moves:
  shows "main_ok (M_join item tmp) ks ys s \<Longrightarrow> main_moves a (M_join item tmp) ks ys s"
    "main_ok (M_remove item tmp) ks ys s \<Longrightarrow> main_moves a (M_remove item tmp) ks ys s"
    "main_ok (M_free_thread item tmp) ks ys s \<Longrightarrow> main_moves a (M_free_thread item tmp) ks ys s"
    "main_ok (M_free item tmp) ks ys s \<Longrightarrow> main_moves a (M_free item tmp) ks ys s"
proof -
  have ins: "set (ks @ item # ys) = insert item (set (ks @ ys))" by auto
  show "main_moves a (M_join item tmp) ks ys s" if ok: "main_ok (M_join item tmp) ks ys s"
  proof -
    have h: "holds_threads s (ks @ item # ys)" and "item \<notin> set (ks @ ys)"
      using ok holds_threads_distinct [of s "ks @ item # ys"] by simp_all
    then obtain s' where "join_thread item s = Some s'"
      "records s' (ks @ item # ys) (set (ks @ item # ys)) (set (ks @ item # ys)) (set (ks @ ys))"
      using join_ok [of s "ks @ item # ys" _ _ item "set (ks @ ys)"] by (auto simp: holds_records ins)
    then show ?thesis using ok
      by (intro main_movesI [of _ _ _ "M_remove item tmp" s' ks ys]) (simp_all add: main_step_def)
  qed
  show "main_moves a (M_remove item tmp) ks ys s" if ok: "main_ok (M_remove item tmp) ks ys s"
  proof -
    have r: "records s (ks @ item # ys) (set (ks @ item # ys)) (set (ks @ item # ys)) (set (ks @ ys))" using ok by simp
    then have "item \<notin> set (ks @ ys)" using tailq_distinct by (fastforce simp: records_def)
    moreover obtain m where "TAILQ_REMOVE (tq s) active_head item = Some m"
      "records (s\<lparr>tq := m\<rparr>) (ks @ ys) (set (ks @ item # ys)) (set (ks @ item # ys)) (set (ks @ ys))"
      using remove_ok [OF r] by blast
    ultimately show ?thesis using ok
      by (intro main_movesI [of _ _ _ "M_free_thread item tmp" "s\<lparr>tq := m\<rparr>" ks ys]) (simp_all add: main_step_def)
  qed
  show "main_moves a (M_free_thread item tmp) ks ys s" if ok: "main_ok (M_free_thread item tmp) ks ys s"
  proof -
    obtain s' where "free_thread (td_thread (td s item)) s = Some s'"
      "records s' (ks @ ys) (set (ks @ item # ys)) (set (ks @ ys)) (set (ks @ ys))"
      using free_thread_ok [of s "ks @ ys" "set (ks @ item # ys)" item "set (ks @ ys)" "set (ks @ ys)"] ok by auto
    then show ?thesis using ok
      by (intro main_movesI [of _ _ _ "M_free item tmp" s' ks ys]) (simp_all add: main_step_def)
  qed
  show "main_moves a (M_free item tmp) ks ys s" if ok: "main_ok (M_free item tmp) ks ys s"
  proof -
    obtain s' where "free_tdata item s = Some s'"
      "records s' (ks @ ys) (set (ks @ ys)) (set (ks @ ys)) (set (ks @ ys))"
      using free_ok [of s "ks @ ys" item "set (ks @ ys)" "set (ks @ ys)" "set (ks @ ys)"] ok by auto
    then show ?thesis using ok
      by (intro main_movesI [of _ _ _ "M_loop tmp" s' ks ys]) (simp_all add: main_step_def holds_records)
  qed
qed

lemma main_step_moves:
  assumes ok: "main_ok pt ks ys s" and a: "fresh_answers a s" and pt: "pt \<noteq> M_returned"
  shows "main_moves a pt ks ys s"
proof (cases pt)
  case M_accept
  have "main_ok (if a_fd a = - 1 then M_accept else M_malloc (a_fd a)) ks ys s" using ok M_accept by simp
  moreover have "main_step a pt s = Some (if a_fd a = - 1 then M_accept else M_malloc (a_fd a), s)"
    using M_accept by (simp add: main_step_def)
  moreover have "\<not> in_iteration pt" using M_accept by (simp add: in_iteration_def)
  ultimately show ?thesis unfolding main_moves_def by blast
next
  case (M_malloc fd)
  then show ?thesis using ok malloc_ok [of s ks "set ks" "set ks" a] a
    by (intro main_movesI [of _ _ _ "M_fill fd (a_tdata a)" "malloc_tdata a s" ks "[]"])
      (simp_all add: main_step_def holds_records)
next
  case (M_fill fd p)
  then obtain s' where "init_tdata (a\<lparr>a_fd := fd, a_tdata := p\<rparr>) s = Some s'"
    "records s' ks (insert p (set ks)) (insert p (set ks)) (set ks)"
    "td s' = (td s)(p := \<lparr>td_thread = a_thread a, td_complete = False, td_client_fd = fd\<rparr>)"
    using fill_ok [of s ks p "set ks" a fd] ok a by auto
  then show ?thesis using ok M_fill
    by (intro main_movesI [of _ _ _ "M_create fd p" s' ks "[]"]) (simp_all add: main_step_def)
next
  case (M_create fd p)
  then have r: "records s ks (insert p (set ks)) (insert p (set ks)) (set ks)" "p \<noteq> NULL" "p \<notin> set ks" "ys = []"
    using ok by simp_all
  have def: "elem_live (tq s) p" "thread_block s (td_thread (td s p))"
    using records_live [OF r(1)] records_block [OF r(1)] by simp_all
  show ?thesis
  proof (cases "a_rc a = 0")
    case True
    have "records (s\<lparr>running := p # running s\<rparr>) ks (insert p (set ks)) (insert p (set ks)) (insert p (set ks))"
      using r by (auto simp: records_def)
    then show ?thesis using M_create def True r
      by (intro main_movesI [of _ _ _ "M_insert p" "s\<lparr>running := p # running s\<rparr>" ks "[]"]) (simp_all add: main_step_def)
  next
    case False
    then show ?thesis using M_create def r
      by (intro main_movesI [of _ _ _ "M_close fd p" s ks "[]"]) (simp_all add: main_step_def)
  qed
next
  case (M_close fd p)
  have "records (s\<lparr>closed := fd # closed s\<rparr>) xs recs bs ts \<longleftrightarrow> records s xs recs bs ts" for xs recs bs ts
    by (simp add: records_def)
  then show ?thesis using ok M_close
    by (intro main_movesI [of _ _ _ "M_free_new p" "s\<lparr>closed := fd # closed s\<rparr>" ks "[]"]) (simp_all add: main_step_def)
next
  case (M_free_new p)
  then obtain s' where s': "free_tdata p s = Some s'" "records s' ks (set ks) (insert p (set ks)) (set ks)"
    using free_ok [of s ks p "set ks" "insert p (set ks)" "set ks"] ok by auto
  then have "\<exists>p. records s' ks (set ks) (insert p (set ks)) (set ks)" by blast
  then show ?thesis using M_free_new ok s'(1)
    by (intro main_movesI [of _ _ _ M_returned s' ks "[]"]) (simp_all add: main_step_def)
next
  case (M_insert p)
  then obtain m where m: "TAILQ_INSERT_TAIL (tq s) active_head p = Some m"
    "records (s\<lparr>tq := m\<rparr>) (ks @ [p]) (insert p (set ks)) (insert p (set ks)) (insert p (set ks))"
    "TAILQ_FIRST m active_head = first_or_null (ks @ [p])"
    using insert_ok [of s ks p] ok by auto
  have "holds_threads (s\<lparr>tq := m\<rparr>) ([] @ ks @ [p])" using m(2) by (simp add: holds_records)
  then show ?thesis using ok M_insert m
    by (intro main_movesI [of _ _ _ "M_loop (TAILQ_FIRST m active_head)" "s\<lparr>tq := m\<rparr>" "[]" "ks @ [p]"])
      (simp_all add: main_step_def)
qed (use ok main_loop_moves [of s ks ys a] main_reap_moves pt in auto)

text \<open>What the calls do to the fields of the records and to the threads.\<close>

lemma main_step_fields:
  assumes "main_step a pt s = Some (pt', s')"
  shows "td s' = (case pt of M_fill fd p \<Rightarrow> (td s)(p := \<lparr>td_thread = a_thread a, td_complete = False, td_client_fd = fd\<rparr>)
      | _ \<Rightarrow> td s)"
    "running s' = (case pt of M_create fd p \<Rightarrow> (if a_rc a = 0 then p # running s else running s)
      | M_join item tmp \<Rightarrow> remove1 item (running s) | _ \<Rightarrow> running s)"
  using assms
  by (cases pt; auto simp: main_step_def init_tdata_def malloc_tdata_def free_tdata_def free_thread_def join_thread_def
      split: bind_splits if_splits)+

text \<open>A thread that sets its flag leaves \<open>main\<close> alone.\<close>

lemma set_flag_td:
  "td_complete (td (set_flag q s) p) \<longleftrightarrow> p = q \<or> td_complete (td s p)"
  "td_client_fd (td (set_flag q s) p) = td_client_fd (td s p)"
  by (simp_all add: set_flag_def)

lemma set_flag_ok:
  assumes ok: "main_ok pt ks ys s" and q: "q \<in> set (running s)"
  shows "main_ok pt ks ys (set_flag q s)"
proof -
  have r: "records (set_flag q s) xs recs bs ts \<longleftrightarrow> records s xs recs bs ts" for xs recs bs ts
    by (simp add: records_def set_flag_fields)
  have "p \<noteq> q" if "pt = M_create fd p" for fd p using ok q that by (auto simp: records_def)
  then show ?thesis using ok
    by (cases pt) (auto simp: r holds_records set_flag_td)
qed

text \<open>At every point finitely many records and blocks are allocated, among them those of the running threads.\<close>

lemma main_ok_records:
  assumes "main_ok pt ks ys s"
  shows "\<exists>xs recs bs ts. records s xs recs bs ts \<and> ts \<subseteq> recs \<and> ts \<subseteq> bs \<and> finite recs \<and> finite bs"
proof -
  have recI: ?thesis if "records s xs recs bs ts" "ts \<subseteq> recs" "ts \<subseteq> bs" "finite recs" "finite bs" for xs recs bs ts
    using that by blast
  note fin = finite.intros finite_set finite_UnI
  show ?thesis using assms
    by (cases pt) (simp_all add: holds_records,
      (elim conjE exE, rule recI, assumption, (blast intro: fin)+ | rule recI, assumption, (blast intro: fin)+)+)
qed

text \<open>The record of a thread that is not joined is there, with its own block.\<close>

lemma main_ok_running:
  assumes "main_ok pt ks ys s"
  shows "p \<in> set (running s) \<Longrightarrow> elem_live (tq s) p \<and> thread_block s (td_thread (td s p))"
    "inj_on (\<lambda>p. td_thread (td s p)) (set (running s))"
proof -
  obtain xs recs bs ts where r: "records s xs recs bs ts" "ts \<subseteq> recs" "ts \<subseteq> bs"
    using main_ok_records [OF assms] by blast
  have run: "set (running s) = ts" using r(1) by (simp add: records_def)
  show "p \<in> set (running s) \<Longrightarrow> elem_live (tq s) p \<and> thread_block s (td_thread (td s p))"
    using r(2,3) records_live [OF r(1)] records_block [OF r(1)] run by blast
  show "inj_on (\<lambda>p. td_thread (td s p)) (set (running s))"
    using r(1,3) inj_on_subset run by (fastforce simp: records_def)
qed

text \<open>An allocator can always answer.\<close>

lemma main_ok_fresh:
  assumes "main_ok pt ks ys s"
  shows "\<exists>a. fresh_answers a s \<and> a_rc a = 0"
proof -
  obtain xs recs bs ts where r: "records s xs recs bs ts" "finite recs" "finite bs"
    using main_ok_records [OF assms] by blast
  obtain p where "p \<notin> insert NULL recs" using ex_new_if_finite [of "insert NULL recs"] r(2) by auto
  moreover obtain q where "q \<notin> insert NULL ((\<lambda>p. td_thread (td s p)) ` bs)"
    using ex_new_if_finite [of "insert NULL ((\<lambda>p. td_thread (td s p)) ` bs)"] r(3) by auto
  ultimately show ?thesis using r(1)
    by (intro exI [of _ "\<lparr>a_fd = 0, a_tdata = p, a_thread = q, a_rc = 0\<rparr>"]) (auto simp: fresh_answers_def records_def)
qed

end
