(* ===== verification/Call_Serving.thy ===== *)
theory Call_Serving
  imports Call_Pool
begin

text \<open>
  The calls of all threads interleaved, on a system that serves: what each point of a thread
  means for the file, for the stream of its client and for what the client was sent. A packet
  enters the history of the file at its \<open>write\<close>, a seek command at its \<open>ioctl\<close>.
\<close>

section \<open>A system that serves many connections\<close>

text \<open>
  What one call leaves of the open files, and of everything else that is seen.
\<close>

definition keeps_files :: "('w, 'f) server_view \<Rightarrow> 'w \<Rightarrow> 'w \<Rightarrow> bool" where
  "keeps_files S w w' \<longleftrightarrow> (\<forall>fd. s_open S w fd \<longrightarrow> s_open S w' fd \<and> s_rest S w' fd = s_rest S w fd)"

definition same_world :: "('w, 'f) server_view \<Rightarrow> 'w \<Rightarrow> 'w \<Rightarrow> bool" where
  "same_world S w w' \<longleftrightarrow> s_ok S w' \<and> s_in S w' = s_in S w \<and> s_out S w' = s_out S w \<and> s_file S w' = s_file S w"

text \<open>
  \<open>live\<close> says which descriptors are connections. No file is opened under such a descriptor, a
  connection ends only when it is closed, and \<open>recv\<close>, \<open>realloc\<close> and the closing of a connection
  leave the open files alone.
\<close>

definition keeps_live :: "'w os \<Rightarrow> ('w \<Rightarrow> int \<Rightarrow> bool) \<Rightarrow> 'w \<Rightarrow> bool" where
  "keeps_live os live w \<longleftrightarrow>
     (\<forall>flags. live (snd (sys_open os w flags)) = live w) \<and>
     (\<forall>fd p. live (snd (sys_write os w fd p)) = live w) \<and>
     (\<forall>fd. live (snd (sys_fsync os w fd)) = live w) \<and>
     (\<forall>fd n. live (snd (snd (sys_read os w fd n))) = live w) \<and>
     (\<forall>fd cmd to. live (snd (sys_ioctl os w fd cmd to)) = live w) \<and>
     (\<forall>fd n. live (snd (snd (sys_recv os w fd n))) = live w) \<and>
     (\<forall>fd bs. live (snd (sys_send os w fd bs)) = live w) \<and>
     (\<forall>n. live (snd (sys_realloc os w n)) = live w) \<and>
     live (sys_lock os w) = live w \<and> live (sys_unlock os w) = live w \<and>
     (\<forall>fd. live (snd (sys_close os w fd)) = (live w)(fd := False))"

definition serves_descriptors :: "'w os \<Rightarrow> ('w, 'f) server_view \<Rightarrow> ('w \<Rightarrow> int \<Rightarrow> bool) \<Rightarrow> bool" where
  "serves_descriptors os S live \<longleftrightarrow> (\<forall>w. s_ok S w \<longrightarrow>
     keeps_live os live w \<and> (\<forall>fd. live w fd \<longrightarrow> \<not> s_open S w fd) \<and>
     (\<forall>fd n. keeps_files S w (snd (snd (sys_recv os w fd n)))) \<and>
     (\<forall>n. keeps_files S w (snd (sys_realloc os w n))) \<and>
     (\<forall>fd. live w fd \<longrightarrow> keeps_files S w (snd (sys_close os w fd))))"

text \<open>
  \<open>accept\<close> gives a descriptor that is no connection yet, to which nothing was sent. The client's
  stream is all it will send; it fits, and the other connections are left alone.
\<close>

definition serves_accept ::
  "bool \<Rightarrow> ('w \<Rightarrow> int \<times> 'w) \<Rightarrow> ('w, 'f) server_view \<Rightarrow> ('w \<Rightarrow> int \<Rightarrow> bool) \<Rightarrow> bool" where
  "serves_accept u acc S live \<longleftrightarrow> (\<forall>w fd w'. s_ok S w \<longrightarrow> acc w = (fd, w') \<longrightarrow>
     s_ok S w' \<and> s_file S w' = s_file S w \<and> keeps_files S w w' \<and>
     (if fd = - 1 then live w' = live w \<and> s_in S w' = s_in S w \<and> s_out S w' = s_out S w
      else \<not> live w fd \<and> live w' = (live w)(fd := True) \<and> s_out S w' fd = [] \<and>
        fits (client_view S fd) u (s_in S w' fd) \<and> other_streams S fd w' = other_streams S fd w))"

definition served_calls ::
  "bool \<Rightarrow> 'w os \<Rightarrow> ('w \<Rightarrow> int \<times> 'w) \<Rightarrow> ('w, 'f) server_view \<Rightarrow> ('w \<Rightarrow> int \<Rightarrow> bool) \<Rightarrow> 'w \<Rightarrow> bool" where
  "served_calls u os acc S live w0 \<longleftrightarrow>
     serves_clients os S \<and> (u \<longrightarrow> serves_seeks os S) \<and> serves_descriptors os S live \<and>
     serves_accept u acc S live \<and> s_ok S w0 \<and> (\<forall>fd. \<not> live w0 fd) \<and> 64 \<le> s_max S"

lemma same_streams:
  assumes "other_streams S cfd w' = other_streams S cfd w"
  shows "s_in S w' cfd = s_in S w cfd \<Longrightarrow> s_in S w' = s_in S w"
    "s_out S w' cfd = s_out S w cfd \<Longrightarrow> s_out S w' = s_out S w"
proof -
  have "s_in S w' fd = s_in S w fd \<and> s_out S w' fd = s_out S w fd" if "fd \<noteq> cfd" for fd
    by (rule other_streams_eq [OF assms that])
  then show "s_in S w' cfd = s_in S w cfd \<Longrightarrow> s_in S w' = s_in S w"
    "s_out S w' cfd = s_out S w cfd \<Longrightarrow> s_out S w' = s_out S w"
    by (metis ext)+
qed

lemma same_streams_upd:
  assumes "other_streams S cfd w' = other_streams S cfd w"
  shows "s_in S w' = (s_in S w)(cfd := s_in S w' cfd)" "s_out S w' = (s_out S w)(cfd := s_out S w' cfd)"
proof -
  have "s_in S w' fd = s_in S w fd \<and> s_out S w' fd = s_out S w fd" if "fd \<noteq> cfd" for fd
    by (rule other_streams_eq [OF assms that])
  then show "s_in S w' = (s_in S w)(cfd := s_in S w' cfd)" "s_out S w' = (s_out S w)(cfd := s_out S w' cfd)"
    by (simp_all add: fun_eq_iff)
qed

lemma unchanged_same: "unchanged (client_view S cfd) w w' \<Longrightarrow> same_world S w w'"
  using same_streams [of S cfd w' w] by (auto simp: unchanged_def same_world_def)

section \<open>The calls\<close>

text \<open>What each call gives, in terms of the view of all clients.\<close>


lemma live_simps:
  assumes "keeps_live os live w"
  shows "sys_open os w flags = (fd, w') \<Longrightarrow> live w' = live w"
    "sys_write os w fd p = (n, w') \<Longrightarrow> live w' = live w"
    "sys_fsync os w fd = (n, w') \<Longrightarrow> live w' = live w"
    "sys_read os w fd k = (n, bs, w') \<Longrightarrow> live w' = live w"
    "sys_ioctl os w fd cmd to = (n, w') \<Longrightarrow> live w' = live w"
    "sys_recv os w fd k = (n, bs, w') \<Longrightarrow> live w' = live w"
    "sys_send os w fd p = (n, w') \<Longrightarrow> live w' = live w"
    "sys_realloc os w m = (r, w') \<Longrightarrow> live w' = live w"
    "live (sys_lock os w) = live w" "live (sys_unlock os w) = live w"
    "sys_close os w fd = (n, w') \<Longrightarrow> live w' = (live w)(fd := False)"
proof -
  have "live (snd (sys_open os w flags)) = live w" "live (snd (sys_write os w fd p)) = live w"
    "live (snd (sys_fsync os w fd)) = live w" "live (snd (snd (sys_read os w fd k))) = live w"
    "live (snd (sys_ioctl os w fd cmd to)) = live w" "live (snd (snd (sys_recv os w fd k))) = live w"
    "live (snd (sys_send os w fd p)) = live w" "live (snd (sys_realloc os w m)) = live w"
    "live (snd (sys_close os w fd)) = (live w)(fd := False)"
    using assms by (simp_all add: keeps_live_def)
  then show "sys_open os w flags = (fd, w') \<Longrightarrow> live w' = live w"
    "sys_write os w fd p = (n, w') \<Longrightarrow> live w' = live w"
    "sys_fsync os w fd = (n, w') \<Longrightarrow> live w' = live w"
    "sys_read os w fd k = (n, bs, w') \<Longrightarrow> live w' = live w"
    "sys_ioctl os w fd cmd to = (n, w') \<Longrightarrow> live w' = live w"
    "sys_recv os w fd k = (n, bs, w') \<Longrightarrow> live w' = live w"
    "sys_send os w fd p = (n, w') \<Longrightarrow> live w' = live w"
    "sys_realloc os w m = (r, w') \<Longrightarrow> live w' = live w"
    "sys_close os w fd = (n, w') \<Longrightarrow> live w' = (live w)(fd := False)" by simp_all
  show "live (sys_lock os w) = live w" "live (sys_unlock os w) = live w"
    using assms by (simp_all add: keeps_live_def)
qed

lemma open_call:
  assumes "serves_clients os S" "s_ok S w"
  obtains fd w' where "sys_open os w flags = (fd, w')" "fd \<noteq> - 1" "same_world S w w'" "s_open S w' fd"
    "s_rest S w' fd = s_bytes S (s_file S w)"
proof -
  have "serves_open os (client_view S 0)" using assms(1) by (simp add: serves_clients_def os_serves_def)
  from this [unfolded serves_open_def client_view_simps fst_conv, rule_format, OF assms(2), of flags]
  show thesis using that unchanged_same [of S 0 w] by blast
qed

lemma write_call:
  assumes "serves_clients os S" "s_ok S w" "s_open S w fd" "packet p" "length p \<le> s_max S"
  obtains w' where "sys_write os w fd p = (int (length p), w')" "s_ok S w'" "s_open S w' fd" "s_in S w' = s_in S w"
    "s_out S w' = s_out S w" "s_file S w' = s_append S (s_file S w) p"
proof -
  have "serves_write os (client_view S 0)" using assms(1) by (simp add: serves_clients_def os_serves_def)
  then obtain w' where w': "sys_write os w fd p = (int (length p), w')" "s_ok S w'" "s_open S w' fd"
    "s_in S w' 0 = s_in S w 0" "s_out S w' 0 = s_out S w 0" "s_file S w' = s_append S (s_file S w) p"
    "other_streams S 0 w' = other_streams S 0 w"
    using assms(2-) by (force simp: serves_write_def)
  then show thesis using that same_streams [OF w'(7)] by blast
qed

lemma fsync_call:
  assumes "serves_clients os S" "s_ok S w" "s_open S w fd"
  obtains w' where "sys_fsync os w fd = (0, w')" "same_world S w w'" "s_open S w' fd"
proof -
  have "serves_fsync os (client_view S 0)" using assms(1) by (simp add: serves_clients_def os_serves_def)
  then show thesis using assms(2-) that unchanged_same [of S 0 w] by (force simp: serves_fsync_def)
qed

lemma close_call:
  assumes "serves_clients os S" "s_ok S w" "s_open S w fd"
  obtains w' where "sys_close os w fd = (0, w')" "same_world S w w'"
proof -
  have "serves_close os (client_view S 0)" using assms(1) by (simp add: serves_clients_def os_serves_def)
  then show thesis using assms(2-) that unchanged_same [of S 0 w] by (force simp: serves_close_def)
qed

lemma read_call:
  assumes "serves_clients os S" "s_ok S w" "s_open S w fd"
  obtains bs w' where "sys_read os w fd FILE_BUF_SIZE = (int (length bs), bs, w')" "same_world S w w'" "s_open S w' fd"
    "s_rest S w fd = bs @ s_rest S w' fd" "bs = [] \<longrightarrow> s_rest S w fd = []"
proof -
  have "serves_read os (client_view S 0)" using assms(1) by (simp add: serves_clients_def os_serves_def)
  from this [unfolded serves_read_def client_view_simps, rule_format, OF assms(2,3), of FILE_BUF_SIZE]
  show thesis using that unchanged_same [of S 0 w] by (auto simp: FILE_BUF_SIZE_def)
qed

lemma send_call:
  assumes "serves_clients os S" "s_ok S w" "bs \<noteq> []"
  obtains k w' where "sys_send os w cfd bs = (int k, w')" "0 < k" "k \<le> length bs" "s_ok S w'" "s_in S w' = s_in S w"
    "s_out S w' = (s_out S w)(cfd := s_out S w cfd @ take k bs)" "s_file S w' = s_file S w" "keeps_files S w w'"
proof -
  have "serves_send os (client_view S cfd) cfd" using assms(1) by (simp add: serves_clients_def os_serves_def)
  from this [unfolded serves_send_def client_view_simps, rule_format, OF assms(2,3)]
  obtain k w' where s: "sys_send os w cfd bs = (int k, w')" "0 < k" "k \<le> length bs" "s_ok S w'"
    "s_out S w' cfd = s_out S w cfd @ take k bs" "s_in S w' cfd = s_in S w cfd" "s_file S w' = s_file S w"
    "other_streams S cfd w' = other_streams S cfd w"
    "\<forall>fd. s_open S w fd \<longrightarrow> s_open S w' fd \<and> s_rest S w' fd = s_rest S w fd" by auto
  from s(5) same_streams_upd(2) [OF s(8)] have "s_out S w' = (s_out S w)(cfd := s_out S w cfd @ take k bs)" by simp
  with s same_streams(1) [OF s(8,6)] show thesis by (intro that) (auto simp: keeps_files_def)
qed

lemma recv_call:
  assumes "serves_clients os S" "s_ok S w"
  obtains bs w' where "sys_recv os w cfd 1024 = (int (length bs), bs, w')" "s_ok S w'"
    "s_in S w' = (s_in S w)(cfd := s_in S w' cfd)" "s_in S w cfd = bs @ s_in S w' cfd" "bs = [] \<longrightarrow> s_in S w cfd = []"
    "s_out S w' = s_out S w" "s_file S w' = s_file S w"
proof -
  have "serves_recv os (client_view S cfd) cfd" using assms(1) by (simp add: serves_clients_def os_serves_def)
  from this [unfolded serves_recv_def client_view_simps, rule_format, OF assms(2), of 1024]
  obtain bs w' where s: "sys_recv os w cfd 1024 = (int (length bs), bs, w')" "s_ok S w'"
    "s_in S w cfd = bs @ s_in S w' cfd" "bs = [] \<longrightarrow> s_in S w cfd = []" "s_out S w' cfd = s_out S w cfd"
    "s_file S w' = s_file S w" "other_streams S cfd w' = other_streams S cfd w" by auto
  show thesis by (rule that [OF s(1,2) same_streams_upd(1) [OF s(7)] s(3) _ same_streams(2) [OF s(7,5)] s(6)])
      (use s(4) in simp)
qed

lemma mutex_call:
  assumes "serves_clients os S" "s_ok S w"
  shows "same_world S w (sys_lock os w)" "same_world S w (sys_unlock os w)"
proof -
  have "serves_mutex os (client_view S 0)" using assms(1) by (simp add: serves_clients_def os_serves_def)
  then show "same_world S w (sys_lock os w)" "same_world S w (sys_unlock os w)"
    using assms(2) unchanged_same [of S 0 w] by (simp_all add: serves_mutex_def)
qed

lemma hangup_call:
  assumes "serves_clients os S" "s_ok S w"
  shows "same_world S w (snd (sys_close os w cfd))"
proof -
  have "serves_hangup os (client_view S cfd) cfd" using assms(1) by (simp add: serves_clients_def os_serves_def)
  then show ?thesis using assms(2) unchanged_same [of S cfd w] by (simp add: serves_hangup_def)
qed

lemma ioctl_call:
  assumes "serves_seeks os S" "s_ok S w" "s_open S w fd"
  obtains r w' where "sys_ioctl os w fd AESDCHAR_IOCSEEKTO to = (r, w')" "same_world S w w'"
    "case s_seek S (s_file S w) (unat (write_cmd to)) (unat (write_cmd_offset to)) of
       None \<Rightarrow> r = - 1
     | Some k \<Rightarrow> r \<noteq> - 1 \<and> s_open S w' fd \<and> s_rest S w' fd = drop k (s_bytes S (s_file S w))"
proof -
  have "serves_seek os (client_view S 0) (client_sk S)" using assms(1) by (simp add: serves_seeks_def)
  from this [unfolded serves_seek_def client_view_simps client_sk_def fst_conv, rule_format, OF assms(2,3), of to]
  show thesis using that unchanged_same [of S 0 w] by blast
qed

section \<open>What the points mean\<close>

text \<open>A job that is right for the pending bytes.\<close>

definition seeks_to :: "bool \<Rightarrow> byte list \<Rightarrow> aesd_seekto \<Rightarrow> bool" where
  "seeks_to u p seekto \<longleftrightarrow> u \<and> last p = newline \<and>
     (\<exists>x y later. x < 2 ^ 31 \<and> y < 2 ^ 31 \<and> p = seek_cmd x y @ later \<and>
        seekto = \<lparr>write_cmd = of_int (int x), write_cmd_offset = of_int (int y)\<rparr>)"

fun job_ok :: "bool \<Rightarrow> nat \<Rightarrow> byte list \<Rightarrow> job \<Rightarrow> bool" where
  "job_ok u m p (Data q) = (q = p \<and> packet p \<and> (u \<longrightarrow> \<not> seek_packet p) \<and> length p \<le> m)"
| "job_ok u m p (Seek x y) = seeks_to u p \<lparr>write_cmd = of_int x, write_cmd_offset = of_int y\<rparr>"

fun echo_ok :: "('w, 'f) server_view \<Rightarrow> 'w \<Rightarrow> int \<Rightarrow> echo_point \<Rightarrow> bool" where
  "echo_ok S w fd E_close_failed = False"
| "echo_ok S w fd ep = s_open S w fd"

fun point_ok :: "bool \<Rightarrow> ('w, 'f) server_view \<Rightarrow> 'w \<Rightarrow> byte list \<Rightarrow> point \<Rightarrow> bool" where
  "point_ok u S w p (Lock job) = job_ok u (s_max S) p job"
| "point_ok u S w p (Writing (W_open q)) = job_ok u (s_max S) p (Data q)"
| "point_ok u S w p (Writing (W_write fd q)) = (job_ok u (s_max S) p (Data q) \<and> s_open S w fd)"
| "point_ok u S w p (Writing (W_fsync fd)) = s_open S w fd"
| "point_ok u S w p (Writing (W_close fd)) = s_open S w fd"
| "point_ok u S w p Open_send = True"
| "point_ok u S w p (Sending fd ep) = echo_ok S w fd ep"
| "point_ok u S w p (Close_sent fd) = s_open S w fd"
| "point_ok u S w p Unlock_done = True"
| "point_ok u S w p (Open_seek seekto) = seeks_to u p seekto"
| "point_ok u S w p (Ioctl fd seekto) = (seeks_to u p seekto \<and> s_open S w fd)"
| "point_ok u S w p Unlock_refused = (u \<and> blocked p)"
| "point_ok u S w p (Answering fd ep) = echo_ok S w fd ep"
| "point_ok u S w p _ = False"

text \<open>Whether the packet is in the history already, and what is still to be sent for it.\<close>

fun recorded :: "point \<Rightarrow> bool" where
  "recorded (Writing (W_fsync fd)) = True"
| "recorded (Writing (W_close fd)) = True"
| "recorded Open_send = True"
| "recorded (Sending fd ep) = True"
| "recorded (Close_sent fd) = True"
| "recorded Unlock_done = True"
| "recorded (Answering fd ep) = True"
| "recorded _ = False"

fun echo_owed :: "('w, 'f) server_view \<Rightarrow> 'w \<Rightarrow> int \<Rightarrow> echo_point \<Rightarrow> byte list" where
  "echo_owed S w fd E_read = s_rest S w fd"
| "echo_owed S w fd (E_send bs) = bs @ s_rest S w fd"
| "echo_owed S w fd E_close_failed = []"

fun owed :: "('w, 'f) server_view \<Rightarrow> 'w \<Rightarrow> point \<Rightarrow> byte list" where
  "owed S w (Writing (W_fsync fd)) = s_bytes S (s_file S w)"
| "owed S w (Writing (W_close fd)) = s_bytes S (s_file S w)"
| "owed S w Open_send = s_bytes S (s_file S w)"
| "owed S w (Sending fd ep) = echo_owed S w fd ep"
| "owed S w (Answering fd ep) = echo_owed S w fd ep"
| "owed S w _ = []"

text \<open>How far a section is: its stages, and within the loops the bytes still to send.\<close>

fun stage :: "point \<Rightarrow> nat" where
  "stage (Lock job) = 10"
| "stage (Writing wp) = 5 + write_calls wp"
| "stage (Open_seek seekto) = 8"
| "stage (Ioctl fd seekto) = 7"
| "stage Open_send = 5"
| "stage (Sending fd ep) = 3"
| "stage (Answering fd ep) = 3"
| "stage (Close_sent fd) = 2"
| "stage _ = 1"

lemma stage_pos [simp]: "0 < stage pt"
  by (cases pt) simp_all

fun echo_work :: "('w, 'f) server_view \<Rightarrow> 'w \<Rightarrow> int \<Rightarrow> echo_point \<Rightarrow> nat" where
  "echo_work S w fd E_read = 3 * length (s_rest S w fd) + 1"
| "echo_work S w fd (E_send bs) = 3 * length (s_rest S w fd) + length bs + 2"
| "echo_work S w fd E_close_failed = 0"

fun point_work :: "('w, 'f) server_view \<Rightarrow> 'w \<Rightarrow> point \<Rightarrow> nat" where
  "point_work S w (Sending fd ep) = echo_work S w fd ep"
| "point_work S w (Answering fd ep) = echo_work S w fd ep"
| "point_work S w _ = 0"

text \<open>
  Between two sections, with bytes received but not processed; and within one.
\<close>

definition reading_inv ::
  "bool \<Rightarrow> ('w, 'f) server_view \<Rightarrow> 'f \<Rightarrow> history \<Rightarrow> nat \<Rightarrow> byte list \<Rightarrow> int \<Rightarrow> byte list \<Rightarrow> conn \<Rightarrow> 'w \<Rightarrow> bool" where
  "reading_inv u S f0 h n stream cfd bs c w \<longleftrightarrow>
     conn_ok c \<and> \<not> holds c \<and> waiting u (pending c) \<and>
     stream = concat (packets_of (int n) h) @ pending c @ bs @ s_in S w cfd \<and>
     s_out S w cfd = replies S f0 (int n) h"

definition section_inv ::
  "bool \<Rightarrow> ('w, 'f) server_view \<Rightarrow> 'f \<Rightarrow> history \<Rightarrow> nat \<Rightarrow> byte list \<Rightarrow> int \<Rightarrow> point \<Rightarrow> byte list \<Rightarrow> conn \<Rightarrow> 'w \<Rightarrow> bool" where
  "section_inv u S f0 h n stream cfd pt bs c w \<longleftrightarrow>
     conn_ok c \<and> (holds c \<longleftrightarrow> (\<forall>job. pt \<noteq> Lock job)) \<and> point_ok u S w (pending c) pt \<and>
     stream = concat (packets_of (int n) h) @ (if recorded pt then [] else pending c) @ bs @ s_in S w cfd \<and>
     s_out S w cfd @ owed S w pt = replies S f0 (int n) h"

text \<open>What a call in the section does.\<close>

definition section_moves ::
  "bool \<Rightarrow> 'w os \<Rightarrow> ('w, 'f) server_view \<Rightarrow> ('w \<Rightarrow> int \<Rightarrow> bool) \<Rightarrow> 'f \<Rightarrow> history \<Rightarrow> nat \<Rightarrow> byte list \<Rightarrow> int \<Rightarrow> point \<Rightarrow>
     byte list \<Rightarrow> conn \<Rightarrow> 'w \<Rightarrow> point + flow \<Rightarrow> conn \<Rightarrow> 'w \<Rightarrow> history \<Rightarrow> bool" where
  "section_moves u os S live f0 h n stream cfd pt bs c w x c' w' k \<longleftrightarrow>
     section_step os cfd pt c w = Some (x, c', w') \<and> s_ok S w' \<and> live w' = live w \<and>
     (\<forall>e \<in> set k. fst e = Some (int n)) \<and> right_history u S (s_file S w) k \<and>
     s_file S w' = file_after S (s_file S w) k \<and>
     s_in S w' = s_in S w \<and> (\<forall>fd. fd \<noteq> cfd \<longrightarrow> s_out S w' fd = s_out S w fd) \<and>
     (case x of
        Inl pt' \<Rightarrow> section_inv u S f0 (h @ k) n stream cfd pt' bs c' w' \<and>
          (stage pt' < stage pt \<or> stage pt' = stage pt \<and> point_work S w' pt' < point_work S w pt)
      | Inr fl \<Rightarrow> fl = Next_byte \<and> reading_inv u S f0 (h @ k) n stream cfd bs c' w')"

lemma section_movesI:
  assumes "section_step os cfd pt c w = Some (x, c', w')" "same_world S w w'" "live w' = live w"
    and "case x of
        Inl pt' \<Rightarrow> section_inv u S f0 h n stream cfd pt' bs c' w' \<and>
          (stage pt' < stage pt \<or> stage pt' = stage pt \<and> point_work S w' pt' < point_work S w pt)
      | Inr fl \<Rightarrow> fl = Next_byte \<and> reading_inv u S f0 h n stream cfd bs c' w'"
  shows "\<exists>x c' w' k. section_moves u os S live f0 h n stream cfd pt bs c w x c' w' k"
  using assms by (intro exI [of _ x] exI [of _ c'] exI [of _ w'] exI [of _ "[]"])
    (cases x; simp add: section_moves_def same_world_def)

lemma set_holds_simps [simp]:
  "pending (c\<lparr>holds := b\<rparr>) = pending c" "conn_ok (c\<lparr>holds := b\<rparr>) = conn_ok c"
  by (simp_all add: pending_def conn_ok_def split: option.split)

lemma reset_packet:
  "pending (c\<lparr>holds := b, packet_len := 0\<rparr>) = []" "conn_ok c \<Longrightarrow> conn_ok (c\<lparr>holds := b, packet_len := 0\<rparr>)"
  by (auto simp: pending_def conn_ok_def split: option.splits)

text \<open>The loop that sends the file, for both branches.\<close>

lemma echo_step_serves:
  assumes S: "serves_clients os S" and live: "keeps_live os live w" and w: "s_ok S w" and ok: "echo_ok S w fd ep"
  obtains x w' out where "echo_step os cfd fd ep w = (x, w')" "s_ok S w'" "live w' = live w" "s_in S w' = s_in S w"
    "s_file S w' = s_file S w" "s_out S w' = (s_out S w)(cfd := s_out S w cfd @ out)"
    "out @ (case x of Inl ep' \<Rightarrow> echo_owed S w' fd ep' | Inr b \<Rightarrow> []) = echo_owed S w fd ep"
    "case x of Inl ep' \<Rightarrow> echo_ok S w' fd ep' \<and> echo_work S w' fd ep' < echo_work S w fd ep
      | Inr b \<Rightarrow> b \<and> s_open S w' fd"
proof (cases ep)
  case E_read
  then have o: "s_open S w fd" using ok by simp
  obtain bs w' where r: "sys_read os w fd FILE_BUF_SIZE = (int (length bs), bs, w')" "same_world S w w'" "s_open S w' fd"
    "s_rest S w fd = bs @ s_rest S w' fd" "bs = [] \<longrightarrow> s_rest S w fd = []"
    by (rule read_call [OF S w o])
  show thesis
  proof (cases "bs = []")
    case True
    then show ?thesis using r live_simps(4) [OF live r(1)] E_read
      by (intro that [of "Inr True" w' "[]"]) (auto simp: same_world_def)
  next
    case False
    then show ?thesis using r live_simps(4) [OF live r(1)] E_read
      by (intro that [of "Inl (E_send bs)" w' "[]"]) (cases bs; auto simp: same_world_def)+
  qed
next
  case (E_send bs)
  then have o: "s_open S w fd" using ok by simp
  show thesis
  proof (cases "bs = []")
    case True
    then show ?thesis using w o E_send by (intro that [of "Inl E_read" w "[]"]) auto
  next
    case False
    obtain k w' where s: "sys_send os w cfd bs = (int k, w')" "0 < k" "k \<le> length bs" "s_ok S w'" "s_in S w' = s_in S w"
      "s_out S w' = (s_out S w)(cfd := s_out S w cfd @ take k bs)" "s_file S w' = s_file S w" "keeps_files S w w'"
      by (rule send_call [OF S w False])
    then show ?thesis using live_simps(7) [OF live s(1)] o E_send False
      by (intro that [of "Inl (E_send (drop k bs))" w' "take k bs"]) (auto simp: keeps_files_def)
  qed
qed (use ok in simp)

text \<open>The two loops differ only in where they go on.\<close>

lemma sending_serves:
  assumes S: "serves_clients os S" and live: "keeps_live os live w" and w: "s_ok S w"
    and inv: "section_inv u S f0 h n stream cfd pt bs c w" and pt: "pt = Sending fd ep \<or> pt = Answering fd ep"
  shows "\<exists>x c' w' k. section_moves u os S live f0 h n stream cfd pt bs c w x c' w' k"
proof -
  have ok: "echo_ok S w fd ep" "owed S w pt = echo_owed S w fd ep" "recorded pt" "stage pt = 3"
    "point_work S w pt = echo_work S w fd ep" "holds c"
    using inv pt by (auto simp: section_inv_def)
  obtain x w' out where e: "echo_step os cfd fd ep w = (x, w')" "s_ok S w'" "live w' = live w" "s_in S w' = s_in S w"
    "s_file S w' = s_file S w" "s_out S w' = (s_out S w)(cfd := s_out S w cfd @ out)"
    "out @ (case x of Inl ep' \<Rightarrow> echo_owed S w' fd ep' | Inr b \<Rightarrow> []) = echo_owed S w fd ep"
    "case x of Inl ep' \<Rightarrow> echo_ok S w' fd ep' \<and> echo_work S w' fd ep' < echo_work S w fd ep
      | Inr b \<Rightarrow> b \<and> s_open S w' fd"
    by (rule echo_step_serves [OF S live w ok(1)])
  let ?pt' = "case x of Inl ep' \<Rightarrow> (if pt = Sending fd ep then Sending fd ep' else Answering fd ep') | Inr b \<Rightarrow> Close_sent fd"
  have step: "section_step os cfd pt c w = Some (Inl ?pt', c, w')"
    using pt e(1,8) by (auto split: sum.splits)
  have out: "s_out S w' cfd @ (case x of Inl ep' \<Rightarrow> echo_owed S w' fd ep' | Inr b \<Rightarrow> []) = s_out S w cfd @ owed S w pt"
    using e(6,7) ok(2) by simp
  have "section_inv u S f0 h n stream cfd ?pt' bs c w' \<and>
      (stage ?pt' < stage pt \<or> stage ?pt' = stage pt \<and> point_work S w' ?pt' < point_work S w pt)"
    using inv out e(4,8) ok(3-6) by (auto simp: section_inv_def split: sum.splits)
  then show ?thesis using step e(2-6)
    by (intro exI [of _ "Inl ?pt'"] exI [of _ c] exI [of _ w'] exI [of _ "[]"]) (simp add: section_moves_def)
qed

lemma lock_call_serves:
  assumes S: "serves_clients os S" and live: "keeps_live os live w" and w: "s_ok S w"
    and inv: "section_inv u S f0 h n stream cfd (Lock job) bs c w"
  shows "\<exists>x c' w' k. section_moves u os S live f0 h n stream cfd (Lock job) bs c w x c' w' k"
proof -
  let ?pt = "case job of Data p \<Rightarrow> Writing (W_open p)
    | Seek x y \<Rightarrow> Open_seek \<lparr>write_cmd = of_int x, write_cmd_offset = of_int y\<rparr>"
  have u: "same_world S w (sys_lock os w)" using mutex_call [OF S w] by simp
  have "section_step os cfd (Lock job) c w = Some (Inl ?pt, c\<lparr>holds := True\<rparr>, sys_lock os w)"
    using inv by (auto simp: section_inv_def mutex_lock'_def)
  then show ?thesis
    by (rule section_movesI [OF _ u])
      (use inv u live_simps(9) [OF live] in \<open>auto simp: section_inv_def same_world_def split: job.split\<close>)
qed

lemma unlock_call_serves:
  assumes S: "serves_clients os S" and live: "keeps_live os live w" and w: "s_ok S w"
    and inv: "section_inv u S f0 h n stream cfd pt bs c w" and pt: "pt = Unlock_done \<or> pt = Unlock_refused"
  shows "\<exists>x c' w' k. section_moves u os S live f0 h n stream cfd pt bs c w x c' w' k"
proof -
  let ?c = "if pt = Unlock_done then c\<lparr>holds := False, packet_len := 0\<rparr> else c\<lparr>holds := False\<rparr>"
  have u: "same_world S w (sys_unlock os w)" using mutex_call [OF S w] by simp
  have "section_step os cfd pt c w = Some (Inr Next_byte, ?c, sys_unlock os w)"
    using inv pt by (auto simp: section_inv_def mutex_unlock'_def)
  then show ?thesis
    by (rule section_movesI [OF _ u])
      (use inv pt u live_simps(10) [OF live] in
        \<open>auto simp: section_inv_def reading_inv_def same_world_def reset_packet waiting_def\<close>)
qed

lemma seeks_to_entry:
  assumes "seeks_to u p seekto" "s_seek S f (unat (write_cmd seekto)) (unat (write_cmd_offset seekto)) = Some k"
  shows "right_entry u (s_seek S) f (Answered p k)"
proof -
  obtain x y later where "u" "last p = newline" "x < 2 ^ 31" "y < 2 ^ 31" "p = seek_cmd x y @ later"
    "seekto = \<lparr>write_cmd = of_int (int x), write_cmd_offset = of_int (int y)\<rparr>"
    using assms(1) unfolding seeks_to_def by blast
  then show ?thesis using assms(2) unat_of_int_32 by auto
qed

lemma close_live:
  assumes "serves_descriptors os S live" "s_ok S w" "s_open S w fd" "sys_close os w fd = (n, w')"
  shows "live w' = live w"
proof -
  have "keeps_live os live w" "\<not> live w fd" using assms(1-3) by (auto simp: serves_descriptors_def)
  then show ?thesis using live_simps(11) [of os live w fd n w'] assms(4) by (auto simp: fun_upd_idem)
qed

text \<open>The calls of \<open>write_to_file\<close>, in a section and in the timestamp thread.\<close>

fun write_ok :: "('w, 'f) server_view \<Rightarrow> 'w \<Rightarrow> write_point \<Rightarrow> bool" where
  "write_ok S w (W_open q) = (packet q \<and> length q \<le> s_max S)"
| "write_ok S w (W_write fd q) = (packet q \<and> length q \<le> s_max S \<and> s_open S w fd)"
| "write_ok S w (W_fsync fd) = s_open S w fd"
| "write_ok S w (W_close fd) = s_open S w fd"
| "write_ok S w (W_close_failed fd) = False"

fun write_goes :: "('w, 'f) server_view \<Rightarrow> 'w \<Rightarrow> write_point \<Rightarrow> write_point + int \<Rightarrow> 'w \<Rightarrow> bool" where
  "write_goes S w (W_open q) x w' = (s_file S w' = s_file S w \<and> (\<exists>fd. x = Inl (W_write fd q) \<and> s_open S w' fd))"
| "write_goes S w (W_write fd q) x w' = (s_file S w' = s_append S (s_file S w) q \<and> x = Inl (W_fsync fd) \<and> s_open S w' fd)"
| "write_goes S w (W_fsync fd) x w' = (s_file S w' = s_file S w \<and> x = Inl (W_close fd) \<and> s_open S w' fd)"
| "write_goes S w (W_close fd) x w' = (s_file S w' = s_file S w \<and> x = Inr 0)"
| "write_goes S w (W_close_failed fd) x w' = False"

lemma write_step_serves:
  assumes S: "serves_clients os S" and D: "serves_descriptors os S live" and w: "s_ok S w" and ok: "write_ok S w wp"
  obtains x w' where "write_step os wp w = (x, w')" "s_ok S w'" "live w' = live w" "s_in S w' = s_in S w"
    "s_out S w' = s_out S w" "write_goes S w wp x w'"
proof -
  have live: "keeps_live os live w" using D w by (simp add: serves_descriptors_def)
  show thesis
  proof (cases wp)
    case (W_open q)
    obtain fd w' where o: "sys_open os w [O_RDWR, O_CREAT, O_APPEND] = (fd, w')" "fd \<noteq> - 1" "same_world S w w'"
      "s_open S w' fd" by (rule open_call [OF S w])
    then show ?thesis using W_open live_simps(1) [OF live o(1)]
      by (intro that [of "Inl (W_write fd q)" w']) (auto simp: same_world_def)
  next
    case (W_write fd q)
    then have q: "packet q" "length q \<le> s_max S" "s_open S w fd" using ok by simp_all
    obtain w' where r: "sys_write os w fd q = (int (length q), w')" "s_ok S w'" "s_open S w' fd" "s_in S w' = s_in S w"
      "s_out S w' = s_out S w" "s_file S w' = s_append S (s_file S w) q" by (rule write_call [OF S w q(3,1,2)])
    then show ?thesis using W_write live_simps(2) [OF live r(1)] by (intro that [of "Inl (W_fsync fd)" w']) auto
  next
    case (W_fsync fd)
    then have fd: "s_open S w fd" using ok by simp
    obtain w' where r: "sys_fsync os w fd = (0, w')" "same_world S w w'" "s_open S w' fd"
      by (rule fsync_call [OF S w fd])
    then show ?thesis using W_fsync live_simps(3) [OF live r(1)]
      by (intro that [of "Inl (W_close fd)" w']) (auto simp: same_world_def)
  next
    case (W_close fd)
    then have fd: "s_open S w fd" using ok by simp
    obtain w' where r: "sys_close os w fd = (0, w')" "same_world S w w'" by (rule close_call [OF S w fd])
    then show ?thesis using W_close close_live [OF D w fd r(1)]
      by (intro that [of "Inr 0" w']) (auto simp: same_world_def)
  qed (use ok in simp)
qed

lemma section_step_serves:
  assumes S: "serves_clients os S" and sk: "u \<Longrightarrow> serves_seeks os S" and D: "serves_descriptors os S live"
    and w: "s_ok S w" "s_file S w = file_after S f0 h"
    and inv: "section_inv u S f0 h n stream cfd pt bs c w"
  shows "\<exists>x c' w' k. section_moves u os S live f0 h n stream cfd pt bs c w x c' w' k"
proof -
  have live: "keeps_live os live w" using D w(1) by (simp add: serves_descriptors_def)
  show ?thesis
proof (cases pt)
  case (Lock job)
  then show ?thesis using lock_call_serves [OF S live w(1)] inv by blast
next
  case (Writing wp)
  have ok: "write_ok S w wp"
    using inv Writing by (cases wp) (auto simp: section_inv_def)
  obtain x w' where r: "write_step os wp w = (x, w')" "s_ok S w'" "live w' = live w" "s_in S w' = s_in S w"
    "s_out S w' = s_out S w" "write_goes S w wp x w'"
    by (rule write_step_serves [OF S D w(1) ok])
  let ?k = "case wp of W_write fd q \<Rightarrow> [(Some (int n), Stored q)] | _ \<Rightarrow> []"
  let ?pt' = "case x of Inl wp' \<Rightarrow> Writing wp' | Inr fr \<Rightarrow> Open_send"
  have step: "section_step os cfd pt c w = Some (Inl ?pt', c, w')"
    using Writing r(1,6) by (cases wp) auto
  have k: "right_history u S (s_file S w) ?k" "s_file S w' = file_after S (s_file S w) ?k" "\<forall>e \<in> set ?k. fst e = Some (int n)"
    using r(6) inv Writing by (cases wp; auto simp: section_inv_def)+
  have "section_inv u S f0 (h @ ?k) n stream cfd ?pt' bs c w'"
    using inv Writing r(4-6) w(2) by (cases wp) (auto simp: section_inv_def replies_append)
  moreover have "stage ?pt' < stage pt" using Writing r(6) by (cases wp) auto
  ultimately show ?thesis using step r(2-5) k
    by (intro exI [of _ "Inl ?pt'"] exI [of _ c] exI [of _ w'] exI [of _ ?k]) (simp add: section_moves_def)
next
  case Open_send
  obtain fd w' where o: "sys_open os w [O_RDONLY] = (fd, w')" "fd \<noteq> - 1" "same_world S w w'"
    "s_open S w' fd" "s_rest S w' fd = s_bytes S (s_file S w)" by (rule open_call [OF S w(1)])
  show ?thesis
    by (rule section_movesI [of _ _ _ _ _ "Inl (Sending fd E_read)" c w'])
      (use inv Open_send o live_simps(1) [OF live o(1)] in \<open>auto simp: section_inv_def same_world_def\<close>)
next
  case (Open_seek seekto)
  obtain fd w' where o: "sys_open os w [O_RDWR] = (fd, w')" "fd \<noteq> - 1" "same_world S w w'"
    "s_open S w' fd" by (rule open_call [OF S w(1)])
  show ?thesis
    by (rule section_movesI [of _ _ _ _ _ "Inl (Ioctl fd seekto)" c w'])
      (use inv Open_seek o live_simps(1) [OF live o(1)] in \<open>auto simp: section_inv_def same_world_def\<close>)
next
  case (Ioctl fd seekto)
  have p: "seeks_to u (pending c) seekto" "s_open S w fd" using inv Ioctl by (simp_all add: section_inv_def)
  then have "serves_seeks os S" using sk by (simp add: seeks_to_def)
  then obtain r w' where r: "sys_ioctl os w fd AESDCHAR_IOCSEEKTO seekto = (r, w')" "same_world S w w'"
    "case s_seek S (s_file S w) (unat (write_cmd seekto)) (unat (write_cmd_offset seekto)) of
       None \<Rightarrow> r = - 1
     | Some k \<Rightarrow> r \<noteq> - 1 \<and> s_open S w' fd \<and> s_rest S w' fd = drop k (s_bytes S (s_file S w))"
    by (rule ioctl_call [OF _ w(1) p(2)])
  note l = live_simps(5) [OF live r(1)]
  show ?thesis
  proof (cases "s_seek S (s_file S w) (unat (write_cmd seekto)) (unat (write_cmd_offset seekto))")
    case None
    have "u \<and> blocked (pending c)" using p(1) unfolding seeks_to_def blocked_def by blast
    then show ?thesis using None
      by (intro section_movesI [of _ _ _ _ _ "Inl Unlock_refused" c w'])
        (use inv Ioctl r l in \<open>auto simp: section_inv_def same_world_def\<close>)
  next
    case (Some k)
    let ?k = "[(Some (int n), Answered (pending c) k)]"
    have "section_step os cfd pt c w = Some (Inl (Answering fd E_read), c, w')" using Ioctl r Some by simp
    moreover have "section_inv u S f0 (h @ ?k) n stream cfd (Answering fd E_read) bs c w'"
      using inv Ioctl r Some w(2) by (auto simp: section_inv_def same_world_def replies_append)
    ultimately show ?thesis using r l Ioctl seeks_to_entry [OF p(1) Some]
      by (intro exI [of _ "Inl (Answering fd E_read)"] exI [of _ c] exI [of _ w'] exI [of _ ?k])
        (simp add: section_moves_def same_world_def del: right_entry.simps)
  qed
next
  case (Close_sent fd)
  have fd: "s_open S w fd" using inv Close_sent by (simp add: section_inv_def)
  obtain w' where r: "sys_close os w fd = (0, w')" "same_world S w w'" by (rule close_call [OF S w(1) fd])
  have l: "live w' = live w" using close_live [OF D w(1) fd r(1)] .
  show ?thesis
    by (rule section_movesI [of _ _ _ _ _ "Inl Unlock_done" c w'])
      (use inv Close_sent r l in \<open>auto simp: section_inv_def same_world_def\<close>)
next
  case (Sending fd ep)
  then show ?thesis using sending_serves [OF S live w(1) inv] by blast
next
  case (Answering fd ep)
  then show ?thesis using sending_serves [OF S live w(1) inv] by blast
qed (use unlock_call_serves [OF S live w(1) inv] inv in \<open>auto simp: section_inv_def\<close>)
qed

section \<open>The calls outside of a section\<close>

lemma packet_job_data:
  assumes "conn_ok c" "packet (pending c)" "u \<longrightarrow> \<not> seek_packet (pending c)"
  shows "packet_job u c = Some (Data (pending c))"
proof -
  obtain b where b: "packet_buf c = Some b" and p: "pending c = take (unat (packet_len c)) b"
    using assms(2) by (cases "packet_buf c") (auto simp: pending_def packet_def)
  have l: "1024 \<le> length b" "unat (packet_len c) \<le> length b" using assms(1) b by (simp_all add: conn_ok_def)
  have "length seek_prefix \<le> length b" using l(1) by (simp add: seek_prefix_def)
  note cmp = strncmp_eq_take [OF this]
  show ?thesis
  proof (cases u)
    case True
    then have "take (length seek_prefix) b \<noteq> seek_prefix"
      using assms seek_packet_take [of "unat (packet_len c)" b] p l by auto
    then show ?thesis using True b p cmp by (simp add: packet_job_def)
  qed (simp add: packet_job_def b p)
qed

lemma packet_job_cmd:
  assumes "conn_ok c" "pending c = seek_cmd x y @ later" "x < 2 ^ 31" "y < 2 ^ 31"
  shows "packet_job True c = Some (Seek (int x) (int y))"
proof -
  let ?cmd = "decimal x @ 44 # decimal y @ [newline]"
  obtain b where b: "packet_buf c = Some b" and p: "pending c = take (unat (packet_len c)) b"
    using assms(2) by (cases "packet_buf c") (auto simp: pending_def seek_cmd_def)
  have bs: "b = seek_prefix @ ?cmd @ later @ drop (unat (packet_len c)) b"
    using p assms(2) by (metis append.assoc append_take_drop_id seek_cmd_def)
  have "strncmp_eq b seek_prefix = Some True" by (subst bs) (simp add: strncmp_eq_take)
  moreover have "drop (length seek_prefix) b = ?cmd @ later @ drop (unat (packet_len c)) b" by (subst bs) simp
  ultimately show ?thesis using b scan_pair_decimal [OF assms(3,4)] by (simp add: packet_job_def)
qed

lemma grow_packet_world:
  "grow_packet os c w = (ok, c1, w1) \<Longrightarrow> w1 = w \<or> (\<exists>m r. sys_realloc os w m = (r, w1))"
  by (auto simp: grow_packet_def Let_def split: if_splits prod.splits option.splits)

text \<open>A received byte: the packet grows, and a newline that ends it makes a job.\<close>

lemma take_byte_serves:
  assumes S: "serves_clients os S" and D: "serves_descriptors os S live" and w: "s_ok S w"
    and c: "conn_ok c" "\<not> holds c" "waiting u (pending c)" and fits: "fits (client_view S cfd) u (pending c @ [ch])"
  shows "\<exists>ph c' w'. take_byte u os ch bs c w = Some (\<lparr>ct_phase = ph, ct_conn = c'\<rparr>, w') \<and>
     same_world S w w' \<and> live w' = live w \<and> keeps_files S w w' \<and>
     conn_ok c' \<and> \<not> holds c' \<and> pending c' = pending c @ [ch] \<and>
     (ph = Have bs \<and> waiting u (pending c') \<or>
      (\<exists>job. ph = In_section (Lock job) bs \<and> job_ok u (s_max S) (pending c') job))"
proof -
  let ?V = "client_view S cfd" and ?p = "pending c @ [ch]"
  have mem: "serves_memory os ?V" and re: "realloc_ok os"
    using S by (simp_all add: serves_clients_def os_serves_def serves_memory_def)
  have vw: "v_ok ?V w" using w by simp
  note len = fits_bounds(1) [OF fits c(3)]
  then obtain c1 w1 where g: "grow_packet os c w = (True, c1, w1)" and un: "unchanged ?V w w1"
    using grow_packet_serves [OF mem vw c(1)] by auto
  have u1: "same_world S w w1" by (rule unchanged_same [OF un])
  have kl: "keeps_live os live w" using D w by (simp add: serves_descriptors_def)
  have "keeps_files S w (snd (sys_realloc os w m))" for m using D w by (simp add: serves_descriptors_def)
  then have frame: "live w1 = live w" "keeps_files S w w1"
    using grow_packet_world [OF g] live_simps(8) [OF kl] by (auto simp: keeps_files_def) (metis snd_conv)+
  let ?c2 = "put_byte c1 ch"
  note put = process_byte_put [OF c(1) re g, where ch = ch]
  obtain b where b: "packet_buf c1 = Some b" using grow_packet_ok(4) [OF c(1) re g] by blast
  have "unat (packet_len c1) < length b"
    using grow_packet_ok(1,3) [OF c(1) re g] b by (simp add: conn_ok_def)
  then have step: "take_byte u os ch bs c w =
      (if ch = newline then Option.bind (packet_job u ?c2) (\<lambda>job. Some (\<lparr>ct_phase = In_section (Lock job) bs, ct_conn = ?c2\<rparr>, w1))
       else Some (\<lparr>ct_phase = Have bs, ct_conn = ?c2\<rparr>, w1))"
    using g b by (simp add: take_byte_def put_byte_def arr_set_def Let_def)
  have res: "conn_ok ?c2" "\<not> holds ?c2" "pending ?c2 = ?p" using put(1-3) c(2) by simp_all
  show ?thesis
  proof (cases "ch = newline")
    case False
    then have "waiting u ?p" using c(3) blocked_append by (auto simp: waiting_def)
    then show ?thesis using step False u1 frame res by auto
  next
    case nl: True
    have "\<exists>job. packet_job u ?c2 = Some job \<and> job_ok u (s_max S) ?p job"
    proof (cases "u \<and> blocked ?p")
      case True
      then obtain x y later where xy: "x < 2 ^ 31" "y < 2 ^ 31" and p: "?p = seek_cmd x y @ later"
        by (auto simp: blocked_def)
      have "packet_job u ?c2 = Some (Seek (int x) (int y))"
        using packet_job_cmd [OF res(1) _ xy] True p res(3) by simp
      moreover have "seeks_to u ?p \<lparr>write_cmd = of_int (int x), write_cmd_offset = of_int (int y)\<rparr>"
      proof -
        have "last ?p = newline" using nl by simp
        then show ?thesis using True xy p unfolding seeks_to_def by blast
      qed
      ultimately show ?thesis by (intro exI [of _ "Seek (int x) (int y)"]) simp
    next
      case False
      have start: "newline \<notin> set (pending c)" using c(3) False blocked_append by (auto simp: waiting_def)
      have plain: "u \<longrightarrow> \<not> seek_packet ?p"
      proof (intro impI notI)
        assume "u" "seek_packet ?p"
        then have "command ?p" using fits_bounds(2) [OF fits c(3)] start nl by blast
        then have "blocked ?p" unfolding command_def blocked_def by (metis append_Nil2)
        then show False using False \<open>u\<close> by blast
      qed
      have p: "packet ?p" using start nl by (auto simp: packet_def)
      have "packet_job u ?c2 = Some (Data ?p)" using packet_job_data [OF res(1)] res(3) p plain by simp
      then show ?thesis using p plain len by (intro exI [of _ "Data ?p"]) simp
    qed
    then show ?thesis using step nl u1 frame res by auto
  qed
qed

end
