(* ===== verification/Call_Log.thy ===== *)
theory Call_Log
  imports Call_Serving
begin

text \<open>
  All schedules of the threads' system calls on a system that serves: the file is what one
  history of packets and seek commands makes of it, at every moment between two calls, and the
  threads finish. \<open>Whole_Log\<close> has the properties, for the whole running server.
\<close>

section \<open>A connection\<close>

text \<open>
  A connection and its client, with the history of the file as a ghost. A connection that has
  ended keeps what its client was sent.
\<close>

definition ended_inv ::
  "bool \<Rightarrow> ('w, 'f) server_view \<Rightarrow> 'f \<Rightarrow> history \<Rightarrow> nat \<Rightarrow> byte list \<Rightarrow> conn \<Rightarrow> byte list \<Rightarrow> bool" where
  "ended_inv u S f0 h n stream c sent \<longleftrightarrow>
     \<not> holds c \<and> sent = replies S f0 (int n) h \<and>
     (\<exists>rest. waiting u rest \<and> stream = concat (packets_of (int n) h) @ rest)"

definition connection_inv ::
  "bool \<Rightarrow> ('w, 'f) server_view \<Rightarrow> ('w \<Rightarrow> int \<Rightarrow> bool) \<Rightarrow> 'f \<Rightarrow> history \<Rightarrow> nat \<Rightarrow> connection \<Rightarrow> 'w \<Rightarrow> bool" where
  "connection_inv u S live f0 h n k w \<longleftrightarrow>
     fits (client_view S (c_fd k)) u (c_stream k) \<and> (call_active (c_thread k) \<longrightarrow> live w (c_fd k)) \<and>
     (let c = ct_conn (c_thread k) in
      case ct_phase (c_thread k) of
        Waiting \<Rightarrow> reading_inv u S f0 h n (c_stream k) (c_fd k) [] c w
      | Have bs \<Rightarrow> reading_inv u S f0 h n (c_stream k) (c_fd k) bs c w
      | In_section pt bs \<Rightarrow> section_inv u S f0 h n (c_stream k) (c_fd k) pt bs c w
      | Hanging_up \<Rightarrow> ended_inv u S f0 h n (c_stream k) c (s_out S w (c_fd k))
      | Closing \<Rightarrow> ended_inv u S f0 h n (c_stream k) c (s_out S w (c_fd k))
      | Ended \<Rightarrow> ended_inv u S f0 h n (c_stream k) c (c_sent k)
      | Process_exit st \<Rightarrow> False)"

text \<open>How much a connection can still do: bytes, stages of a section, bytes to send.\<close>

definition call_work :: "('w, 'f) server_view \<Rightarrow> 'w \<Rightarrow> connection \<Rightarrow> nat \<times> nat \<times> nat" where
  "call_work S w k =
     (let todo = 3 * length (s_in S w (c_fd k))
      in case ct_phase (c_thread k) of
           Waiting \<Rightarrow> (todo + 3, 0, 0)
         | Have bs \<Rightarrow> (todo + length bs + 4, 0, 0)
         | In_section pt bs \<Rightarrow> (todo + length bs + 4, stage pt, point_work S w pt)
         | Hanging_up \<Rightarrow> (2, 0, 0)
         | Closing \<Rightarrow> (1, 0, 0)
         | _ \<Rightarrow> (0, 0, 0))"

definition less3 :: "((nat \<times> nat \<times> nat) \<times> (nat \<times> nat \<times> nat)) set" where
  "less3 = less_than <*lex*> less_than <*lex*> less_than"

text \<open>What the call of connection \<open>n\<close> does to it, to the file and to the others.\<close>

definition call_moves ::
  "bool \<Rightarrow> 'w os \<Rightarrow> ('w, 'f) server_view \<Rightarrow> ('w \<Rightarrow> int \<Rightarrow> bool) \<Rightarrow> 'f \<Rightarrow> history \<Rightarrow> nat \<Rightarrow> connection \<Rightarrow> 'w \<Rightarrow>
     call_thread \<Rightarrow> 'w \<Rightarrow> history \<Rightarrow> bool" where
  "call_moves u os S live f0 h n k w t' w' es \<longleftrightarrow>
     call_step u os (c_fd k) (c_thread k) w = Some (t', w') \<and> s_ok S w' \<and>
     live w' = (if ct_phase t' = Ended then (live w)(c_fd k := False) else live w) \<and>
     (\<forall>e \<in> set es. fst e = Some (int n)) \<and> right_history u S (s_file S w) es \<and>
     s_file S w' = file_after S (s_file S w) es \<and>
     (\<forall>fd. fd \<noteq> c_fd k \<longrightarrow> s_in S w' fd = s_in S w fd \<and> s_out S w' fd = s_out S w fd) \<and>
     connection_inv u S live f0 (h @ es) n (connection_after S t' w' k) w' \<and>
     ((\<forall>pt bs. ct_phase (c_thread k) \<noteq> In_section pt bs) \<longrightarrow> es = [] \<and> keeps_files S w w') \<and>
     (call_work S w' (connection_after S t' w' k), call_work S w k) \<in> less3"

lemma reading_fits:
  assumes "reading_inv u S f0 h n stream cfd (ch # bs) c w" "fits V u stream" "right_history u S f h"
  shows "fits V u (pending c @ [ch])"
proof -
  have s: "stream = concat (packets_of (int n) h) @ (pending c @ [ch]) @ bs @ s_in S w cfd"
    using assms(1) by (simp add: reading_inv_def)
  have "fits V u ((pending c @ [ch]) @ bs @ s_in S w cfd)"
    using assms(2) fits_append(2) [of V u "concat (packets_of (int n) h)"] packets_of_cut [OF assms(3)] by (simp add: s)
  then show ?thesis by (rule fits_append(1))
qed

lemma take_byte_moves:
  assumes S: "serves_clients os S" and D: "serves_descriptors os S live" and w: "s_ok S w"
    and h: "right_history u S f0 h" and inv: "connection_inv u S live f0 h n k w"
    and ph: "ct_phase (c_thread k) = Have (ch # bs)"
  shows "\<exists>t' w'. call_moves u os S live f0 h n k w t' w' []"
proof -
  let ?c = "ct_conn (c_thread k)"
  have r: "reading_inv u S f0 h n (c_stream k) (c_fd k) (ch # bs) ?c w" and f: "fits (client_view S (c_fd k)) u (c_stream k)"
    and l: "live w (c_fd k)" using inv ph by (auto simp: connection_inv_def call_active_def)
  have c: "conn_ok ?c" "\<not> holds ?c" "waiting u (pending ?c)" using r by (simp_all add: reading_inv_def)
  from take_byte_serves [OF S D w c reading_fits [OF r f h]]
  obtain ph' c' w' where t: "take_byte u os ch bs ?c w = Some (\<lparr>ct_phase = ph', ct_conn = c'\<rparr>, w')"
    "same_world S w w'" "live w' = live w" "keeps_files S w w'" "conn_ok c'" "\<not> holds c'" "pending c' = pending ?c @ [ch]"
    and ph': "ph' = Have bs \<and> waiting u (pending c') \<or>
      (\<exists>job. ph' = In_section (Lock job) bs \<and> job_ok u (s_max S) (pending c') job)"
    by metis
  have act: "call_active \<lparr>ct_phase = ph', ct_conn = c'\<rparr>" "ph' \<noteq> Ended" using ph' by (auto simp: call_active_def)
  have "connection_inv u S live f0 h n (connection_after S \<lparr>ct_phase = ph', ct_conn = c'\<rparr> w' k) w'"
    using ph' r f l t act(1)
    by (auto simp: connection_inv_def connection_after_def reading_inv_def section_inv_def same_world_def)
  moreover have "(call_work S w' (connection_after S \<lparr>ct_phase = ph', ct_conn = c'\<rparr> w' k), call_work S w k) \<in> less3"
    using ph' ph t(2) by (auto simp: call_work_def connection_after_def less3_def same_world_def)
  ultimately show ?thesis using ph t act(2)
    by (intro exI [of _ "\<lparr>ct_phase = ph', ct_conn = c'\<rparr>"] exI [of _ w'])
      (simp add: call_moves_def call_step_def same_world_def)
qed

lemma recv_moves:
  assumes S: "serves_clients os S" and D: "serves_descriptors os S live" and w: "s_ok S w"
    and inv: "connection_inv u S live f0 h n k w" and ph: "ct_phase (c_thread k) = Waiting"
  shows "\<exists>t' w'. call_moves u os S live f0 h n k w t' w' []"
proof -
  let ?c = "ct_conn (c_thread k)"
  have r: "reading_inv u S f0 h n (c_stream k) (c_fd k) [] ?c w" and f: "fits (client_view S (c_fd k)) u (c_stream k)"
    and l: "live w (c_fd k)" using inv ph by (auto simp: connection_inv_def call_active_def)
  obtain bs w' where v: "sys_recv os w (c_fd k) 1024 = (int (length bs), bs, w')" "s_ok S w'"
    "s_in S w' = (s_in S w)(c_fd k := s_in S w' (c_fd k))" "s_in S w (c_fd k) = bs @ s_in S w' (c_fd k)"
    "bs = [] \<longrightarrow> s_in S w (c_fd k) = []" "s_out S w' = s_out S w" "s_file S w' = s_file S w"
    by (rule recv_call [OF S w])
  have others: "fd \<noteq> c_fd k \<Longrightarrow> s_in S w' fd = s_in S w fd" for fd using v(3) by (metis fun_upd_other)
  have kl: "keeps_live os live w" and kf: "keeps_files S w w'"
    using D w v(1) by (auto simp: serves_descriptors_def keeps_files_def) (metis snd_conv)+
  let ?t = "\<lparr>ct_phase = (if bs = [] then Hanging_up else Have bs), ct_conn = ?c\<rparr>"
  have step: "call_step u os (c_fd k) (c_thread k) w = Some (?t, w')"
    using ph v(1) by (simp add: call_step_def)
  have "connection_inv u S live f0 h n (connection_after S ?t w' k) w'"
    using r f l v(4-6) live_simps(6) [OF kl v(1)]
    by (auto simp: connection_inv_def connection_after_def reading_inv_def ended_inv_def call_active_def)
  moreover have "(call_work S w' (connection_after S ?t w' k), call_work S w k) \<in> less3"
    using ph v(4,5) by (cases bs) (auto simp: call_work_def connection_after_def less3_def)
  ultimately show ?thesis using step v live_simps(6) [OF kl v(1)] kf others
    by (intro exI [of _ ?t] exI [of _ w']) (simp add: call_moves_def)
qed

lemma section_call_moves:
  assumes S: "serves_clients os S" and sk: "u \<Longrightarrow> serves_seeks os S" and D: "serves_descriptors os S live"
    and w: "s_ok S w" "s_file S w = file_after S f0 h"
    and inv: "connection_inv u S live f0 h n k w" and ph: "ct_phase (c_thread k) = In_section pt bs"
  shows "\<exists>t' w' es. call_moves u os S live f0 h n k w t' w' es"
proof -
  let ?c = "ct_conn (c_thread k)"
  have r: "section_inv u S f0 h n (c_stream k) (c_fd k) pt bs ?c w" and f: "fits (client_view S (c_fd k)) u (c_stream k)"
    and l: "live w (c_fd k)" using inv ph by (auto simp: connection_inv_def call_active_def)
  obtain x c' w' es where m: "section_moves u os S live f0 h n (c_stream k) (c_fd k) pt bs ?c w x c' w' es"
    using section_step_serves [OF S sk D w r] by blast
  let ?t = "\<lparr>ct_phase = (case x of Inl pt' \<Rightarrow> In_section pt' bs | Inr fl \<Rightarrow> after_section fl bs), ct_conn = c'\<rparr>"
  have step: "call_step u os (c_fd k) (c_thread k) w = Some (?t, w')"
    using m ph by (simp add: section_moves_def call_step_def)
  have "connection_inv u S live f0 (h @ es) n (connection_after S ?t w' k) w'"
    using m f l by (auto simp: section_moves_def connection_inv_def connection_after_def after_section_def
        split: sum.splits)
  moreover have "ct_phase ?t \<noteq> Ended"
    using m by (auto simp: section_moves_def after_section_def split: sum.splits)
  moreover have "(call_work S w' (connection_after S ?t w' k), call_work S w k) \<in> less3"
    using m ph by (auto simp: section_moves_def call_work_def connection_after_def after_section_def less3_def
        split: sum.splits)
  ultimately show ?thesis using step m ph
    by (intro exI [of _ ?t] exI [of _ w'] exI [of _ es]) (simp add: call_moves_def section_moves_def)
qed

lemma call_step_moves:
  assumes S: "serves_clients os S" and sk: "u \<Longrightarrow> serves_seeks os S" and D: "serves_descriptors os S live"
    and w: "s_ok S w" "s_file S w = file_after S f0 h" and h: "right_history u S f0 h"
    and inv: "connection_inv u S live f0 h n k w" and act: "call_active (c_thread k)"
  shows "\<exists>t' w' es. call_moves u os S live f0 h n k w t' w' es"
proof (cases "ct_phase (c_thread k)")
  case Waiting
  then show ?thesis using recv_moves [OF S D w(1) inv] by blast
next
  case (Have bs)
  show ?thesis
  proof (cases bs)
    case Nil
    let ?t = "\<lparr>ct_phase = Waiting, ct_conn = ct_conn (c_thread k)\<rparr>"
    have "connection_inv u S live f0 (h @ []) n (connection_after S ?t w k) w"
      using inv Have Nil by (auto simp: connection_inv_def connection_after_def call_active_def)
    moreover have "(call_work S w (connection_after S ?t w k), call_work S w k) \<in> less3"
      using Have Nil by (simp add: call_work_def connection_after_def less3_def)
    ultimately show ?thesis using Have Nil w(1)
      by (intro exI [of _ ?t] exI [of _ w] exI [of _ "[]"]) (simp add: call_moves_def call_step_def keeps_files_def)
  next
    case (Cons ch bs')
    then show ?thesis using take_byte_moves [OF S D w(1) h inv] Have by blast
  qed
next
  case (In_section pt bs)
  then show ?thesis using section_call_moves [OF S sk D w inv] by blast
next
  case Hanging_up
  let ?t = "\<lparr>ct_phase = Closing, ct_conn = free_packet (ct_conn (c_thread k))\<rparr>"
  have "connection_inv u S live f0 (h @ []) n (connection_after S ?t w k) w"
    using inv Hanging_up by (auto simp: connection_inv_def connection_after_def call_active_def ended_inv_def free_packet_def)
  moreover have "(call_work S w (connection_after S ?t w k), call_work S w k) \<in> less3"
    using Hanging_up by (simp add: call_work_def connection_after_def less3_def)
  ultimately show ?thesis using Hanging_up w(1)
    by (intro exI [of _ ?t] exI [of _ w] exI [of _ "[]"]) (simp add: call_moves_def call_step_def keeps_files_def)
next
  case Closing
  let ?w' = "snd (sys_close os w (c_fd k))" and ?c = "ct_conn (c_thread k)"
  have l: "live w (c_fd k)" and e: "ended_inv u S f0 h n (c_stream k) ?c (s_out S w (c_fd k))"
    using inv Closing by (auto simp: connection_inv_def call_active_def)
  let ?t = "\<lparr>ct_phase = Ended, ct_conn = ?c\<rparr>"
  have u: "same_world S w ?w'" by (rule hangup_call [OF S w(1)])
  have "keeps_live os live w" "keeps_files S w ?w'" using D w(1) l by (simp_all add: serves_descriptors_def)
  moreover then have "live ?w' = (live w)(c_fd k := False)" by (simp add: keeps_live_def)
  moreover have "connection_inv u S live f0 (h @ []) n (connection_after S ?t ?w' k) ?w'"
    using inv e u by (simp add: connection_inv_def connection_after_def ended_inv_def call_active_def same_world_def)
  moreover have "(call_work S ?w' (connection_after S ?t ?w' k), call_work S w k) \<in> less3"
    using Closing by (simp add: call_work_def connection_after_def less3_def)
  ultimately show ?thesis using Closing u
    by (intro exI [of _ ?t] exI [of _ ?w'] exI [of _ "[]"]) (simp add: call_moves_def call_step_def same_world_def)
qed (use act in \<open>simp_all add: call_active_def\<close>)

section \<open>What others leave alone\<close>

lemma point_frame:
  assumes "keeps_files S w w'" "s_file S w' = s_file S w" "point_ok u S w p pt"
  shows "point_ok u S w' p pt" "owed S w' pt = owed S w pt" "point_work S w' pt = point_work S w pt"
proof -
  have echo: "echo_ok S w fd ep \<Longrightarrow> echo_ok S w' fd ep \<and> echo_owed S w' fd ep = echo_owed S w fd ep \<and>
      echo_work S w' fd ep = echo_work S w fd ep" for fd ep
    using assms(1) by (cases ep) (auto simp: keeps_files_def)
  have "point_ok u S w' p pt \<and> owed S w' pt = owed S w pt \<and> point_work S w' pt = point_work S w pt"
  proof (cases pt)
    case (Writing wp)
    then show ?thesis using assms by (cases wp) (auto simp: keeps_files_def)
  qed (use assms echo in \<open>auto simp: keeps_files_def\<close>)
  then show "point_ok u S w' p pt" "owed S w' pt = owed S w pt" "point_work S w' pt = point_work S w pt" by blast+
qed

lemma history_frame:
  assumes "\<forall>e \<in> set es. fst e \<noteq> Some i"
  shows "packets_of i (h @ es) = packets_of i h" "replies S f i (h @ es) = replies S f i h"
proof -
  have "packets_of i es = []" using assms by (auto simp: packets_of_def filter_empty_conv)
  moreover have "replies S f i es = []" for f using assms by (induction es arbitrary: f) auto
  ultimately show "packets_of i (h @ es) = packets_of i h" "replies S f i (h @ es) = replies S f i h"
    by (simp_all add: replies_append)
qed

lemma connection_frame:
  assumes inv: "connection_inv u S live f0 h n k w" and es: "\<forall>e \<in> set es. fst e \<noteq> Some (int n)"
    and act: "call_active (c_thread k) \<Longrightarrow> s_in S w' (c_fd k) = s_in S w (c_fd k) \<and>
      s_out S w' (c_fd k) = s_out S w (c_fd k) \<and> live w' (c_fd k) = live w (c_fd k)"
    and fl: "holds (ct_conn (c_thread k)) \<Longrightarrow> keeps_files S w w' \<and> s_file S w' = s_file S w"
  shows "connection_inv u S live f0 (h @ es) n k w'" "call_work S w' k = call_work S w k"
proof -
  note hist = history_frame(1) [OF es, where h = h] history_frame(2) [OF es, where h = h and S = S and f = f0]
  have "connection_inv u S live f0 (h @ es) n k w' \<and> call_work S w' k = call_work S w k"
  proof (cases "ct_phase (c_thread k)")
    case (In_section pt bs)
    then have s: "section_inv u S f0 h n (c_stream k) (c_fd k) pt bs (ct_conn (c_thread k)) w"
      and a: "call_active (c_thread k)" using inv by (auto simp: connection_inv_def call_active_def)
    show ?thesis
    proof (cases "\<exists>job. pt = Lock job")
      case True
      then show ?thesis using inv In_section s act [OF a] a hist
        by (auto simp: connection_inv_def section_inv_def call_work_def)
    next
      case False
      then have "holds (ct_conn (c_thread k))" using s by (simp add: section_inv_def)
      note f = fl [OF this]
      have "point_ok u S w (pending (ct_conn (c_thread k))) pt" using s by (simp add: section_inv_def)
      note p = point_frame [OF conjunct1 [OF f] conjunct2 [OF f] this]
      show ?thesis using inv In_section s act [OF a] a hist p
        by (simp add: connection_inv_def section_inv_def call_work_def)
    qed
  qed (use inv act hist in
      \<open>simp_all add: connection_inv_def call_active_def reading_inv_def ended_inv_def call_work_def\<close>)
  then show "connection_inv u S live f0 (h @ es) n k w'" "call_work S w' k = call_work S w k" by blast+
qed

section \<open>The timestamp thread\<close>

fun stamp_inv :: "('w, 'f) server_view \<Rightarrow> 'w \<Rightarrow> conn \<Rightarrow> stamp_point \<Rightarrow> bool" where
  "stamp_inv S w c S_sleep = (\<not> holds c)"
| "stamp_inv S w c (S_lock str) = (\<not> holds c \<and> time_string str)"
| "stamp_inv S w c (S_writing wp) = (holds c \<and> write_ok S w wp)"
| "stamp_inv S w c S_unlock = holds c"

lemma stamp_frame:
  assumes "stamp_inv S w c pt" "holds c \<Longrightarrow> keeps_files S w w'"
  shows "stamp_inv S w' c pt"
proof (cases pt)
  case (S_writing wp)
  then show ?thesis using assms by (cases wp) (auto simp: keeps_files_def)
qed (use assms in auto)

definition stamp_moves ::
  "bool \<Rightarrow> 'w os \<Rightarrow> ('w, 'f) server_view \<Rightarrow> ('w \<Rightarrow> int \<Rightarrow> bool) \<Rightarrow> byte list \<Rightarrow> stamp_point \<Rightarrow> conn \<Rightarrow> 'w \<Rightarrow>
     stamp_point \<Rightarrow> conn \<Rightarrow> 'w \<Rightarrow> history \<Rightarrow> bool" where
  "stamp_moves u os S live str pt c w pt' c' w' es \<longleftrightarrow>
     stamp_step os str pt c w = Some (pt', c', w') \<and> s_ok S w' \<and> live w' = live w \<and>
     s_in S w' = s_in S w \<and> s_out S w' = s_out S w \<and>
     (\<forall>e \<in> set es. fst e = None) \<and> right_history u S (s_file S w) es \<and> s_file S w' = file_after S (s_file S w) es \<and>
     stamp_inv S w' c' pt' \<and> (pt = S_sleep \<longrightarrow> w' = w \<and> es = []) \<and> (pt \<noteq> S_sleep \<longrightarrow> stamp_rank pt' < stamp_rank pt)"

lemma stamp_step_moves:
  assumes S: "serves_clients os S" and D: "serves_descriptors os S live" and w: "s_ok S w" and m: "64 \<le> s_max S"
    and str: "\<not> u" "time_string str" and inv: "stamp_inv S w c pt"
  shows "\<exists>pt' c' w' es. stamp_moves u os S live str pt c w pt' c' w' es"
proof (cases pt)
  case S_sleep
  then show ?thesis using w inv str
    by (intro exI [of _ "S_lock str"] exI [of _ c] exI [of _ w] exI [of _ "[]"]) (simp add: stamp_moves_def stamp_step_def)
next
  case (S_lock str')
  have u: "same_world S w (sys_lock os w)" using mutex_call [OF S w] by simp
  have "keeps_live os live w" using D w by (simp add: serves_descriptors_def)
  then show ?thesis using S_lock u inv m
    by (intro exI [of _ "S_writing (W_open str')"] exI [of _ "c\<lparr>holds := True\<rparr>"] exI [of _ "sys_lock os w"]
        exI [of _ "[]"])
      (simp add: stamp_moves_def stamp_step_def mutex_lock'_def same_world_def time_string_def live_simps)
next
  case (S_writing wp)
  then have ok: "write_ok S w wp" "holds c" using inv by simp_all
  obtain x w' where r: "write_step os wp w = (x, w')" "s_ok S w'" "live w' = live w" "s_in S w' = s_in S w"
    "s_out S w' = s_out S w" "write_goes S w wp x w'"
    by (rule write_step_serves [OF S D w ok(1)])
  let ?es = "case wp of W_write fd q \<Rightarrow> [(None, Stored q)] | _ \<Rightarrow> []"
  let ?pt' = "case x of Inl wp' \<Rightarrow> S_writing wp' | Inr fr \<Rightarrow> S_unlock"
  have "stamp_step os str pt c w = Some (?pt', c, w')" using S_writing r(1) by (simp add: stamp_step_def)
  moreover have "right_history u S (s_file S w) ?es" "s_file S w' = file_after S (s_file S w) ?es"
    "\<forall>e \<in> set ?es. fst e = None" using r(6) ok(1) str(1) by (cases wp; auto)+
  moreover have "stamp_inv S w' c ?pt' \<and> stamp_rank ?pt' < stamp_rank pt"
    using S_writing r(6) ok by (cases wp) auto
  ultimately show ?thesis using r(2-5) S_writing
    by (intro exI [of _ ?pt'] exI [of _ c] exI [of _ w'] exI [of _ ?es]) (simp add: stamp_moves_def)
next
  case S_unlock
  have u: "same_world S w (sys_unlock os w)" using mutex_call [OF S w] by simp
  have "keeps_live os live w" using D w by (simp add: serves_descriptors_def)
  then show ?thesis using S_unlock u inv
    by (intro exI [of _ S_sleep] exI [of _ "c\<lparr>holds := False\<rparr>"] exI [of _ "sys_unlock os w"] exI [of _ "[]"])
      (simp add: stamp_moves_def stamp_step_def mutex_unlock'_def same_world_def live_simps)
qed

section \<open>All threads\<close>

definition active_conn :: "'w call_pool \<Rightarrow> nat \<Rightarrow> bool" where
  "active_conn p n \<longleftrightarrow> n < length (cp_conns p) \<and> call_active (c_thread (cp_conns p ! n))"

definition distinct_fds :: "'w call_pool \<Rightarrow> bool" where
  "distinct_fds p \<longleftrightarrow> (\<forall>i j. active_conn p i \<longrightarrow> active_conn p j \<longrightarrow> i \<noteq> j \<longrightarrow>
     c_fd (cp_conns p ! i) \<noteq> c_fd (cp_conns p ! j))"

text \<open>Every open connection has its thread.\<close>

definition live_owned :: "('w \<Rightarrow> int \<Rightarrow> bool) \<Rightarrow> 'w call_pool \<Rightarrow> bool" where
  "live_owned live p \<longleftrightarrow> (\<forall>fd. live (cp_world p) fd \<longrightarrow> (\<exists>n. active_conn p n \<and> c_fd (cp_conns p ! n) = fd))"

definition numbered :: "history \<Rightarrow> nat \<Rightarrow> bool" where
  "numbered h m \<longleftrightarrow> (\<forall>e \<in> set h. case fst e of None \<Rightarrow> True | Some i \<Rightarrow> 0 \<le> i \<and> nat i < m)"

definition calls_inv ::
  "bool \<Rightarrow> ('w, 'f) server_view \<Rightarrow> ('w \<Rightarrow> int \<Rightarrow> bool) \<Rightarrow> 'f \<Rightarrow> history \<Rightarrow> 'w call_pool \<Rightarrow> bool" where
  "calls_inv u S live f0 h p \<longleftrightarrow>
     s_ok S (cp_world p) \<and> cp_exit p = None \<and> mutex_inv p \<and> numbered h (length (cp_conns p)) \<and>
     right_history u S f0 h \<and> s_file S (cp_world p) = file_after S f0 h \<and> distinct_fds p \<and> live_owned live p \<and>
     (\<forall>n < length (cp_conns p). connection_inv u S live f0 h n (cp_conns p ! n) (cp_world p)) \<and>
     stamp_inv S (cp_world p) (cp_stamp_conn p) (cp_stamp p)"

lemma start_calls_inv: "s_ok S w0 \<Longrightarrow> \<forall>fd. \<not> live w0 fd \<Longrightarrow> calls_inv u S live (s_file S w0) [] (start_calls w0)"
  using start_mutex_inv [of w0]
  by (simp add: calls_inv_def start_calls_def numbered_def distinct_fds_def active_conn_def live_owned_def new_conn_def)

lemma numbered_append: "numbered (h @ k) m \<longleftrightarrow> numbered h m \<and> numbered k m"
  by (auto simp: numbered_def)

lemma numbered_mono: "numbered h m \<Longrightarrow> m \<le> m' \<Longrightarrow> numbered h m'"
  by (fastforce simp: numbered_def split: option.splits)

lemma numbered_own: "\<forall>e \<in> set es. fst e = Some (int n) \<Longrightarrow> n < m \<Longrightarrow> numbered es m"
  by (simp add: numbered_def)

lemma numbered_stamp: "\<forall>e \<in> set es. fst e = None \<Longrightarrow> numbered es m"
  by (simp add: numbered_def)

lemma numbered_new:
  assumes "numbered h n"
  shows "packets_of (int n) h = []" "replies S f (int n) h = []"
proof -
  have "\<forall>e \<in> set h. fst e \<noteq> Some (int n)" using assms by (auto simp: numbered_def)
  from history_frame [OF this, where h = "[]"] show "packets_of (int n) h = []" "replies S f (int n) h = []"
    by simp_all
qed

text \<open>The thread that makes a call in a section is the only one that has the mutex.\<close>

lemma no_other_holder:
  assumes inv: "calls_inv u S live f0 h p" and n: "n < length (cp_conns p)"
    and ph: "ct_phase (c_thread (cp_conns p ! n)) = In_section pt bs"
    and may: "may_call (cp_mutex p) (c_thread (cp_conns p ! n))"
  shows "i < length (cp_conns p) \<Longrightarrow> i \<noteq> n \<Longrightarrow> \<not> holds (ct_conn (c_thread (cp_conns p ! i)))"
    "\<not> holds (cp_stamp_conn p)"
proof -
  have m: "mutex_inv p" using inv by (simp add: calls_inv_def)
  have "connection_inv u S live f0 h n (cp_conns p ! n) (cp_world p)" using inv n by (simp add: calls_inv_def)
  then have "holds (ct_conn (c_thread (cp_conns p ! n))) \<longleftrightarrow> (\<forall>job. pt \<noteq> Lock job)"
    using ph by (auto simp: connection_inv_def section_inv_def Let_def)
  then have "cp_mutex p = Nobody \<or> cp_mutex p = Connection n"
    using may ph mutex_inv_conn [OF m n] by (auto simp: may_call_def)
  then show "i < length (cp_conns p) \<Longrightarrow> i \<noteq> n \<Longrightarrow> \<not> holds (ct_conn (c_thread (cp_conns p ! i)))"
    "\<not> holds (cp_stamp_conn p)"
    using m mutex_inv_conn [OF m, of i] by (auto simp: mutex_inv_def)
qed

text \<open>A call of a connection thread, for all.\<close>

lemma thread_calls_inv:
  assumes sv: "served_calls u os acc S live w0" and inv: "calls_inv u S live f0 h p" and n: "active_conn p n"
    and may: "may_call (cp_mutex p) (c_thread (cp_conns p ! n))"
  shows "\<exists>r es. call_step u os (c_fd (cp_conns p ! n)) (c_thread (cp_conns p ! n)) (cp_world p) = Some r \<and>
     calls_inv u S live f0 (h @ es) (after_call S n r p) \<and> (\<forall>e \<in> set es. fst e = Some (int n)) \<and>
     (call_work S (snd r) (cp_conns (after_call S n r p) ! n), call_work S (cp_world p) (cp_conns p ! n)) \<in> less3 \<and>
     (\<forall>i < length (cp_conns p). i \<noteq> n \<longrightarrow>
        call_work S (snd r) (cp_conns (after_call S n r p) ! i) = call_work S (cp_world p) (cp_conns p ! i))"
proof -
  let ?w = "cp_world p" and ?k = "cp_conns p ! n"
  have len: "n < length (cp_conns p)" and act: "call_active (c_thread ?k)" using n by (simp_all add: active_conn_def)
  have S: "serves_clients os S" and sk: "u \<Longrightarrow> serves_seeks os S" and D: "serves_descriptors os S live"
    using sv by (simp_all add: served_calls_def)
  have w: "s_ok S ?w" "s_file S ?w = file_after S f0 h" and h: "right_history u S f0 h" and num: "numbered h (length (cp_conns p))"
    and k: "connection_inv u S live f0 h n ?k ?w" and fds: "distinct_fds p" and mi: "mutex_inv p"
    using inv len by (simp_all add: calls_inv_def)
  from call_step_moves [OF S sk D w h k act]
  obtain t' w' es where m: "call_moves u os S live f0 h n ?k ?w t' w' es" by blast
  then have step: "call_step u os (c_fd ?k) (c_thread ?k) ?w = Some (t', w')"
    and own: "connection_inv u S live f0 (h @ es) n (connection_after S t' w' ?k) w'"
    and es: "\<forall>e \<in> set es. fst e = Some (int n)"
    and work: "(call_work S w' (connection_after S t' w' ?k), call_work S ?w ?k) \<in> less3"
    by (simp_all add: call_moves_def)
  let ?p = "after_call S n (t', w') p"
  have p': "cp_world ?p = w'" "cp_conns ?p = (cp_conns p)[n := connection_after S t' w' ?k]"
    "cp_stamp ?p = cp_stamp p" "cp_stamp_conn ?p = cp_stamp_conn p"
    by (simp_all add: after_call_def Let_def)
  have still: "c_fd (cp_conns ?p ! i) = c_fd (cp_conns p ! i)" "active_conn ?p i \<Longrightarrow> active_conn p i" for i
    using act len by (cases "i = n"; simp add: p' connection_after_def active_conn_def)+
  have "cp_exit ?p = None"
  proof -
    have "\<forall>st. ct_phase t' \<noteq> Process_exit st" using own by (auto simp: connection_inv_def connection_after_def)
    then show ?thesis using inv by (simp add: after_call_def calls_inv_def Let_def split: call_phase.split)
  qed
  moreover have "distinct_fds ?p"
    unfolding distinct_fds_def still(1)
  proof (intro allI impI)
    fix i j assume "active_conn ?p i" "active_conn ?p j" "i \<noteq> j"
    then show "c_fd (cp_conns p ! i) \<noteq> c_fd (cp_conns p ! j)"
      using fds still(2) [of i] still(2) [of j] by (simp add: distinct_fds_def)
  qed
  moreover have "live_owned live ?p"
    unfolding live_owned_def still(1)
  proof (intro allI impI)
    fix fd assume fd: "live (cp_world ?p) fd"
    then have now: "live ?w fd" "ct_phase t' = Ended \<longrightarrow> fd \<noteq> c_fd ?k"
      using m by (auto simp: call_moves_def p' split: if_splits)
    then obtain i where i: "active_conn p i" "c_fd (cp_conns p ! i) = fd"
      using inv by (auto simp: calls_inv_def live_owned_def)
    have "\<forall>st. ct_phase t' \<noteq> Process_exit st" using own by (auto simp: connection_inv_def connection_after_def)
    then have "active_conn ?p i"
      using i now(2) by (cases "i = n") (auto simp: active_conn_def p' connection_after_def call_active_def split: call_phase.split)
    then show "\<exists>i. active_conn ?p i \<and> c_fd (cp_conns p ! i) = fd" using i(2) by blast
  qed
  moreover have "mutex_inv ?p" by (rule thread_mutex_inv [OF mi len refl may step])
  moreover have held: "keeps_files S ?w w' \<and> s_file S w' = s_file S ?w"
    if "holds c" "c = cp_stamp_conn p \<or> (\<exists>i < length (cp_conns p). i \<noteq> n \<and> c = ct_conn (c_thread (cp_conns p ! i)))" for c
  proof (cases "\<exists>pt bs. ct_phase (c_thread ?k) = In_section pt bs")
    case True
    then show ?thesis using no_other_holder [OF inv len _ may] that by blast
  next
    case False
    then show ?thesis using m by (auto simp: call_moves_def)
  qed
  moreover have others: "connection_inv u S live f0 (h @ es) i (cp_conns p ! i) w' \<and>
      call_work S w' (cp_conns p ! i) = call_work S ?w (cp_conns p ! i)"
    if i: "i < length (cp_conns p)" "i \<noteq> n" for i
  proof -
    have ki: "connection_inv u S live f0 h i (cp_conns p ! i) ?w" using inv i by (simp add: calls_inv_def)
    have ei: "\<forall>e \<in> set es. fst e \<noteq> Some (int i)" using es i(2) by auto
    have same: "s_in S w' fd = s_in S ?w fd \<and> s_out S w' fd = s_out S ?w fd \<and> live w' fd = live ?w fd"
      if "call_active (c_thread (cp_conns p ! i))" "fd = c_fd (cp_conns p ! i)" for fd
    proof -
      have "fd \<noteq> c_fd ?k" using fds n i that by (auto simp: distinct_fds_def active_conn_def)
      then show ?thesis using m by (auto simp: call_moves_def split: if_splits)
    qed
    show ?thesis using connection_frame [OF ki ei] same held i by blast
  qed
  moreover have "stamp_inv S w' (cp_stamp_conn p) (cp_stamp p)"
    using stamp_frame [of S ?w "cp_stamp_conn p" "cp_stamp p" w'] inv held by (auto simp: calls_inv_def)
  moreover have "numbered es (length (cp_conns p))" using numbered_own [OF es len] .
  ultimately have "calls_inv u S live f0 (h @ es) ?p"
    using m own num h w(2) len unfolding calls_inv_def p'
    by (auto simp: call_moves_def numbered_append right_history_append file_after_append nth_list_update)
  then show ?thesis using step work others len es by (intro exI [of _ "(t', w')"] exI [of _ es]) (simp add: p')
qed

lemma stamp_calls_inv:
  assumes sv: "served_calls u os acc S live w0" and inv: "calls_inv u S live f0 h p"
    and str: "\<not> u" "time_string str" and may: "may_stamp (cp_mutex p) (cp_stamp p)"
  shows "\<exists>pt c w es. stamp_step os str (cp_stamp p) (cp_stamp_conn p) (cp_world p) = Some (pt, c, w) \<and>
     calls_inv u S live f0 (h @ es) (p\<lparr>cp_world := w, cp_stamp := pt, cp_stamp_conn := c,
       cp_mutex := mutex_after Timestamp (cp_stamp_conn p) c (cp_mutex p)\<rparr>) \<and> (\<forall>e \<in> set es. fst e = None) \<and>
     (cp_stamp p \<noteq> S_sleep \<longrightarrow> stamp_rank pt < stamp_rank (cp_stamp p)) \<and>
     (\<forall>i < length (cp_conns p). call_work S w (cp_conns p ! i) = call_work S (cp_world p) (cp_conns p ! i))"
proof -
  let ?w = "cp_world p"
  have S: "serves_clients os S" and D: "serves_descriptors os S live" and m: "64 \<le> s_max S"
    using sv by (simp_all add: served_calls_def)
  have w: "s_ok S ?w" "s_file S ?w = file_after S f0 h" and st: "stamp_inv S ?w (cp_stamp_conn p) (cp_stamp p)"
    and mi: "mutex_inv p" using inv by (simp_all add: calls_inv_def)
  from stamp_step_moves [OF S D w(1) m str st]
  obtain pt c w' es where mv: "stamp_moves u os S live str (cp_stamp p) (cp_stamp_conn p) ?w pt c w' es" by blast
  then have step: "stamp_step os str (cp_stamp p) (cp_stamp_conn p) ?w = Some (pt, c, w')"
    and es: "\<forall>e \<in> set es. fst e = None" by (simp_all add: stamp_moves_def)
  let ?p = "p\<lparr>cp_world := w', cp_stamp := pt, cp_stamp_conn := c,
       cp_mutex := mutex_after Timestamp (cp_stamp_conn p) c (cp_mutex p)\<rparr>"
  have mi': "mutex_inv ?p" by (rule stamp_mutex_inv [OF mi may step])
  have none: "\<not> holds (ct_conn (c_thread (cp_conns p ! i)))" if "cp_stamp p \<noteq> S_sleep" "i < length (cp_conns p)" for i
  proof -
    have "cp_mutex p = Nobody \<or> cp_mutex p = Timestamp"
      using st may that(1) mi by (cases "cp_stamp p") (auto simp: may_stamp_def mutex_inv_def)
    then show ?thesis using mutex_inv_conn [OF mi that(2)] by auto
  qed
  have others: "connection_inv u S live f0 (h @ es) i (cp_conns p ! i) w' \<and>
      call_work S w' (cp_conns p ! i) = call_work S ?w (cp_conns p ! i)"
    if i: "i < length (cp_conns p)" for i
  proof -
    have ki: "connection_inv u S live f0 h i (cp_conns p ! i) ?w" using inv i by (simp add: calls_inv_def)
    have ei: "\<forall>e \<in> set es. fst e \<noteq> Some (int i)" using es by auto
    have same: "s_in S w' = s_in S ?w" "s_out S w' = s_out S ?w" "live w' = live ?w"
      using mv by (simp_all add: stamp_moves_def)
    have "keeps_files S ?w w' \<and> s_file S w' = s_file S ?w" if "holds (ct_conn (c_thread (cp_conns p ! i)))"
      using none i that mv by (cases "cp_stamp p = S_sleep") (auto simp: stamp_moves_def keeps_files_def)
    then show ?thesis using connection_frame [OF ki ei] same by simp
  qed
  have "calls_inv u S live f0 (h @ es) ?p"
    using inv mv mi' others numbered_stamp [OF es, of "length (cp_conns p)"] w(2)
    by (auto simp: calls_inv_def stamp_moves_def numbered_append right_history_append file_after_append
        distinct_fds_def live_owned_def active_conn_def)
  then show ?thesis using step mv others
    by (intro exI [of _ pt] exI [of _ c] exI [of _ w'] exI [of _ es]) (auto simp: stamp_moves_def)
qed

text \<open>A new connection.\<close>

lemma accept_calls_inv:
  assumes sv: "served_calls u os acc S live w0" and inv: "calls_inv u S live f0 h p" and a: "acc (cp_world p) = (fd, w)"
  shows "fd = - 1 \<Longrightarrow> calls_inv u S live f0 h (p\<lparr>cp_world := w\<rparr>)"
    "fd \<noteq> - 1 \<Longrightarrow> calls_inv u S live f0 h (p\<lparr>cp_world := w, cp_conns := cp_conns p @ [new_connection S fd w]\<rparr>)"
proof -
  let ?w = "cp_world p"
  have acc: "s_ok S w" "s_file S w = s_file S ?w" "keeps_files S ?w w"
    "if fd = - 1 then live w = live ?w \<and> s_in S w = s_in S ?w \<and> s_out S w = s_out S ?w
      else \<not> live ?w fd \<and> live w = (live ?w)(fd := True) \<and> s_out S w fd = [] \<and>
        fits (client_view S fd) u (s_in S w fd) \<and> other_streams S fd w = other_streams S fd ?w"
    using sv inv a unfolding served_calls_def serves_accept_def calls_inv_def by blast+
  have k: "connection_inv u S live f0 h i (cp_conns p ! i) ?w" if "i < length (cp_conns p)" for i
    using inv that by (simp add: calls_inv_def)
  have old: "live ?w (c_fd (cp_conns p ! i))" if "active_conn p i" for i
    using k [of i] that by (simp add: connection_inv_def active_conn_def)
  have "s_in S w x = s_in S ?w x \<and> s_out S w x = s_out S ?w x \<and> live w x = live ?w x" if "live ?w x" for x
    using acc(4) that other_streams_eq [of S fd w ?w x] by (auto split: if_splits)
  then have others: "connection_inv u S live f0 h i (cp_conns p ! i) w" if "i < length (cp_conns p)" for i
    using connection_frame(1) [OF k [OF that], of "[]" w] old that acc(2,3) by (simp add: active_conn_def)
  have st: "stamp_inv S w (cp_stamp_conn p) (cp_stamp p)"
    using stamp_frame [of S ?w "cp_stamp_conn p" "cp_stamp p" w] inv acc(3) by (simp add: calls_inv_def)
  have mi: "mutex_inv p" using inv by (simp add: calls_inv_def)
  show "calls_inv u S live f0 h (p\<lparr>cp_world := w\<rparr>)" if "fd = - 1"
  proof -
    have "mutex_inv (p\<lparr>cp_world := w\<rparr>)" using mi by (simp add: mutex_inv_def)
    moreover have "live w = live ?w" using acc(4) that by simp
    ultimately show ?thesis
      using inv acc others st by (simp add: calls_inv_def distinct_fds_def live_owned_def active_conn_def)
  qed
  let ?p = "p\<lparr>cp_world := w, cp_conns := cp_conns p @ [new_connection S fd w]\<rparr>"
  show "calls_inv u S live f0 h ?p" if new: "fd \<noteq> - 1"
  proof -
    have num: "numbered h (length (cp_conns p))" using inv by (simp add: calls_inv_def)
    have "calls_step u os acc S p ?p" by (rule calls_step.client) (use inv a new in \<open>simp_all add: calls_inv_def\<close>)
    then have "mutex_inv ?p" by (rule calls_mutex_inv [OF mi])
    moreover have "connection_inv u S live f0 h (length (cp_conns p)) (new_connection S fd w) w"
      using acc new numbered_new(1) [OF num] numbered_new(2) [OF num, where S = S and f = f0] new_conn_ok
      by (simp add: connection_inv_def new_connection_def new_call_thread_def reading_inv_def)
    then have "\<forall>i < Suc (length (cp_conns p)). connection_inv u S live f0 h i (cp_conns ?p ! i) w"
      using others by (simp add: less_Suc_eq nth_append all_conj_distrib)
    moreover have "distinct_fds ?p"
    proof -
      have "active_conn ?p i \<Longrightarrow> i \<noteq> length (cp_conns p) \<Longrightarrow> active_conn p i \<and> cp_conns ?p ! i = cp_conns p ! i" for i
        by (auto simp: active_conn_def nth_append)
      moreover have "active_conn p i \<Longrightarrow> c_fd (cp_conns p ! i) \<noteq> fd" for i using old acc(4) new by auto
      moreover have "c_fd (cp_conns ?p ! length (cp_conns p)) = fd" by (simp add: new_connection_def)
      ultimately show ?thesis using inv unfolding calls_inv_def distinct_fds_def by metis
    qed
    moreover have "live_owned live ?p"
      unfolding live_owned_def
    proof (intro allI impI)
      fix x assume x: "live (cp_world ?p) x"
      show "\<exists>n. active_conn ?p n \<and> c_fd (cp_conns ?p ! n) = x"
      proof (cases "x = fd")
        case True
        then show ?thesis
          by (intro exI [of _ "length (cp_conns p)"])
            (simp add: active_conn_def new_connection_def new_call_thread_def call_active_def)
      next
        case False
        then have "live ?w x" using x acc(4) new by simp
        then obtain n where "active_conn p n" "c_fd (cp_conns p ! n) = x"
          using inv by (auto simp: calls_inv_def live_owned_def)
        then show ?thesis by (intro exI [of _ n]) (simp add: active_conn_def nth_append)
      qed
    qed
    moreover have "numbered h (Suc (length (cp_conns p)))" by (rule numbered_mono [OF num]) simp
    ultimately show ?thesis using inv acc st by (simp add: calls_inv_def)
  qed
qed

lemma calls_step_inv:
  assumes sv: "served_calls u os acc S live w0" and inv: "calls_inv u S live f0 h p" and "calls_step u os acc S p p'"
  shows "\<exists>es. calls_inv u S live f0 (h @ es) p'"
  using assms(3)
proof cases
  case (no_client w)
  then show ?thesis using accept_calls_inv(1) [OF sv inv no_client(3) refl] by (intro exI [of _ "[]"]) simp
next
  case (client fd w)
  then show ?thesis using accept_calls_inv(2) [OF sv inv client(3,4)] by (intro exI [of _ "[]"]) simp
next
  case (thread n k r)
  then have "active_conn p n" by (simp add: active_conn_def)
  from thread_calls_inv [OF sv inv this] show ?thesis using thread by auto
next
  case (stamp str pt c w)
  from stamp_calls_inv [OF sv inv stamp(3-5)] show ?thesis using stamp(1,6) by auto
qed

lemma calls_reach_inv:
  assumes sv: "served_calls u os acc S live w0" and "(calls_step u os acc S)\<^sup>*\<^sup>* (start_calls w0) p"
  shows "\<exists>h. calls_inv u S live (s_file S w0) h p"
  using assms(2)
proof (induction rule: rtranclp_induct)
  case base
  have "s_ok S w0" "\<forall>fd. \<not> live w0 fd" using sv by (simp_all add: served_calls_def)
  from start_calls_inv [of S w0 live, OF this] show ?case by blast
next
  case (step p p')
  then show ?case using calls_step_inv [OF sv] by blast
qed

section \<open>What the clients get\<close>

text \<open>What a connection's client was sent.\<close>

definition sent_to :: "('w, 'f) server_view \<Rightarrow> 'w \<Rightarrow> connection \<Rightarrow> byte list" where
  "sent_to S w k = (if call_active (c_thread k) then s_out S w (c_fd k) else c_sent k)"

lemma connection_log:
  assumes "connection_inv u S live f0 h n k w"
  shows "\<exists>rest todo. c_stream k = concat (packets_of (int n) h) @ rest \<and>
     sent_to S w k @ todo = replies S f0 (int n) h \<and> (holds (ct_conn (c_thread k)) \<or> todo = []) \<and>
     (call_active (c_thread k) \<or> waiting u rest)"
proof (cases "ct_phase (c_thread k)")
  case (In_section pt bs)
  then have a: "call_active (c_thread k)"
    and s: "section_inv u S f0 h n (c_stream k) (c_fd k) pt bs (ct_conn (c_thread k)) w"
    using assms by (auto simp: connection_inv_def call_active_def)
  have "owed S w pt = []" if "\<not> holds (ct_conn (c_thread k))" using s that by (auto simp: section_inv_def)
  then show ?thesis using a s
    by (intro exI [of _ "(if recorded pt then [] else pending (ct_conn (c_thread k))) @ bs @ s_in S w (c_fd k)"]
        exI [of _ "owed S w pt"]) (auto simp: section_inv_def sent_to_def)
qed (use assms in \<open>auto simp: connection_inv_def reading_inv_def ended_inv_def sent_to_def call_active_def Let_def\<close>)

text \<open>
  What the invariant says of a connection: its entries stand in the history in the order its
  client sent them, and the client was sent exactly the answers to them; only while its thread has
  the mutex can a part of the last answer be missing. The next call of the thread is defined.
\<close>

lemma calls_inv_log:
  assumes sv: "served_calls u os acc S live w0" and inv: "calls_inv u S live f0 h p" and n: "n < length (cp_conns p)"
  shows "let k = cp_conns p ! n in \<exists>rest todo.
      c_stream k = concat (packets_of (int n) h) @ rest \<and>
      sent_to S (cp_world p) k @ todo = replies S f0 (int n) h \<and>
      (holds (ct_conn (c_thread k)) \<or> todo = []) \<and> (call_active (c_thread k) \<or> waiting u rest) \<and>
      (call_active (c_thread k) \<longrightarrow> (\<exists>r. call_step u os (c_fd k) (c_thread k) (cp_world p) = Some r))"
proof -
  have os: "serves_clients os S" "u \<Longrightarrow> serves_seeks os S" "serves_descriptors os S live"
    using sv by (simp_all add: served_calls_def)
  let ?k = "cp_conns p ! n"
  have k: "connection_inv u S live f0 h n ?k (cp_world p)" using inv n by (simp add: calls_inv_def)
  have "\<exists>r. call_step u os (c_fd ?k) (c_thread ?k) (cp_world p) = Some r" if "call_active (c_thread ?k)"
    using call_step_moves [OF os _ _ _ k that] inv by (auto simp: calls_inv_def call_moves_def)
  then show ?thesis using connection_log [OF k] unfolding Let_def by blast
qed

text \<open>So in every state that the calls of the threads can reach.\<close>

theorem calls_share_one_log:
  assumes "served_calls u os acc S live w0" "(calls_step u os acc S)\<^sup>*\<^sup>* (start_calls w0) p"
  shows "cp_exit p = None \<and>
    (\<exists>h. s_file S (cp_world p) = file_after S (s_file S w0) h \<and> right_history u S (s_file S w0) h \<and>
       (\<forall>n < length (cp_conns p). let k = cp_conns p ! n in \<exists>rest todo.
          c_stream k = concat (packets_of (int n) h) @ rest \<and>
          sent_to S (cp_world p) k @ todo = replies S (s_file S w0) (int n) h \<and>
          (holds (ct_conn (c_thread k)) \<or> todo = []) \<and>
          (if call_active (c_thread k)
           then \<exists>r. call_step u os (c_fd k) (c_thread k) (cp_world p) = Some r else waiting u rest)))"
proof -
  obtain h where inv: "calls_inv u S live (s_file S w0) h p" using calls_reach_inv [OF assms] by blast
  have "let k = cp_conns p ! n in \<exists>rest todo.
      c_stream k = concat (packets_of (int n) h) @ rest \<and>
      sent_to S (cp_world p) k @ todo = replies S (s_file S w0) (int n) h \<and>
      (holds (ct_conn (c_thread k)) \<or> todo = []) \<and>
      (if call_active (c_thread k)
       then \<exists>r. call_step u os (c_fd k) (c_thread k) (cp_world p) = Some r else waiting u rest)"
    if "n < length (cp_conns p)" for n
    using calls_inv_log [OF assms(1) inv that] unfolding Let_def by (simp only: if_bool_eq_conj) blast
  then show ?thesis using inv unfolding calls_inv_def by blast
qed

section \<open>The threads finish\<close>

text \<open>
  The calls of the threads that are there, without new connections and without the timestamp
  thread waking up.
\<close>

inductive busy_step :: "bool \<Rightarrow> 'w os \<Rightarrow> ('w, 'f) server_view \<Rightarrow> 'w call_pool \<Rightarrow> 'w call_pool \<Rightarrow> bool"
  for use_char os S where
  thread: "cp_exit p = None \<Longrightarrow> active_conn p n \<Longrightarrow> k = cp_conns p ! n \<Longrightarrow> may_call (cp_mutex p) (c_thread k) \<Longrightarrow>
     call_step use_char os (c_fd k) (c_thread k) (cp_world p) = Some r \<Longrightarrow>
     busy_step use_char os S p (after_call S n r p)"
| stamp: "cp_exit p = None \<Longrightarrow> \<not> use_char \<Longrightarrow> cp_stamp p \<noteq> S_sleep \<Longrightarrow> time_string str \<Longrightarrow>
     may_stamp (cp_mutex p) (cp_stamp p) \<Longrightarrow>
     stamp_step os str (cp_stamp p) (cp_stamp_conn p) (cp_world p) = Some (pt, c, w) \<Longrightarrow>
     busy_step use_char os S p (p\<lparr>cp_world := w, cp_stamp := pt, cp_stamp_conn := c,
       cp_mutex := mutex_after Timestamp (cp_stamp_conn p) c (cp_mutex p)\<rparr>)"

lemma busy_is_step: "busy_step u os S p q \<Longrightarrow> calls_step u os acc S p q"
  by (induction rule: busy_step.induct) (auto simp: active_conn_def intro: calls_step.thread calls_step.stamp)

definition pool_work :: "('w, 'f) server_view \<Rightarrow> 'w call_pool \<Rightarrow> nat \<times> nat \<times> nat" where
  "pool_work S p =
     (let ws = map (call_work S (cp_world p)) (cp_conns p)
      in (sum_list (map fst ws), sum_list (map (fst \<circ> snd) ws),
          sum_list (map (snd \<circ> snd) ws) + stamp_rank (cp_stamp p)))"

lemma wf_less3: "wf less3"
  by (simp add: less3_def wf_lex_prod)

text \<open>One entry decreases and the others stay: the sums decrease.\<close>

lemma less3_sums:
  assumes n: "n < length xs" "length ys = length xs" and less: "(ys ! n, xs ! n) \<in> less3"
    and eq: "\<And>i. i < length xs \<Longrightarrow> i \<noteq> n \<Longrightarrow> ys ! i = xs ! i"
  shows "((sum_list (map fst ys), sum_list (map (fst \<circ> snd) ys), sum_list (map (snd \<circ> snd) ys) + (r :: nat)),
    (sum_list (map fst xs), sum_list (map (fst \<circ> snd) xs), sum_list (map (snd \<circ> snd) xs) + r)) \<in> less3"
proof -
  have ys: "ys = xs[n := ys ! n]"
    by (rule nth_equalityI) (use n eq in \<open>auto simp: nth_list_update\<close>)
  have upd: "sum_list (map f ys) + f (xs ! n) = sum_list (map f xs) + f (ys ! n)" for f :: "nat \<times> nat \<times> nat \<Rightarrow> nat"
  proof -
    have "f (xs ! n) \<le> sum_list (map f xs)" using n(1) by (intro member_le_sum_list) simp_all
    moreover have "sum_list (map f ys) = sum_list (map f xs) + f (ys ! n) - f (xs ! n)"
      using n(1) by (subst ys) (simp add: map_update sum_list_update)
    ultimately show ?thesis by simp
  qed
  from upd [of fst] upd [of "fst \<circ> snd"] upd [of "snd \<circ> snd"] less show ?thesis
    by (cases "xs ! n"; cases "ys ! n") (auto simp: less3_def)
qed

lemma busy_step_inv:
  assumes sv: "served_calls u os acc S live w0" and inv: "calls_inv u S live f0 h p" and step: "busy_step u os S p q"
  shows "\<exists>es. calls_inv u S live f0 (h @ es) q" "(pool_work S q, pool_work S p) \<in> less3"
proof -
  show "\<exists>es. calls_inv u S live f0 (h @ es) q"
    by (rule calls_step_inv [OF sv inv busy_is_step [OF step]])
  show "(pool_work S q, pool_work S p) \<in> less3"
    using step
  proof cases
    case (thread n k r)
    from thread_calls_inv [OF sv inv thread(3)] thread(4-6)
    have work: "(call_work S (snd r) (cp_conns q ! n), call_work S (cp_world p) (cp_conns p ! n)) \<in> less3"
      "\<And>i. i < length (cp_conns p) \<Longrightarrow> i \<noteq> n \<Longrightarrow> call_work S (snd r) (cp_conns q ! i) = call_work S (cp_world p) (cp_conns p ! i)"
      using thread(1) by auto
    have q: "cp_world q = snd r" "length (cp_conns q) = length (cp_conns p)" "cp_stamp q = cp_stamp p"
      by (simp_all add: thread(1) after_call_def Let_def split_beta)
    have n: "n < length (cp_conns p)" using thread(3) by (simp add: active_conn_def)
    let ?xs = "map (call_work S (cp_world p)) (cp_conns p)" and ?ys = "map (call_work S (snd r)) (cp_conns q)"
    have "((sum_list (map fst ?ys), sum_list (map (fst \<circ> snd) ?ys), sum_list (map (snd \<circ> snd) ?ys) + stamp_rank (cp_stamp p)),
      (sum_list (map fst ?xs), sum_list (map (fst \<circ> snd) ?xs), sum_list (map (snd \<circ> snd) ?xs) + stamp_rank (cp_stamp p))) \<in> less3"
      by (rule less3_sums [of n]) (use n q(2) work in simp_all)
    then show ?thesis unfolding pool_work_def Let_def q .
  next
    case (stamp str pt c w)
    from stamp_calls_inv [OF sv inv stamp(3,5,6)] stamp(4,7)
    have "stamp_rank pt < stamp_rank (cp_stamp p)"
      "\<forall>i < length (cp_conns p). call_work S w (cp_conns p ! i) = call_work S (cp_world p) (cp_conns p ! i)" by auto
    moreover from this(2) have "map (call_work S w) (cp_conns p) = map (call_work S (cp_world p)) (cp_conns p)"
      by (auto simp: in_set_conv_nth)
    ultimately show ?thesis by (simp add: stamp(1) pool_work_def Let_def less3_def del: map_map map_eq_conv)
  qed
qed

text \<open>Whoever has the mutex can go on.\<close>

lemma busy_progress:
  assumes sv: "served_calls u os acc S live w0" and inv: "calls_inv u S live f0 h p" and stuck: "\<nexists>q. busy_step u os S p q"
    and stamp: "u \<Longrightarrow> cp_stamp p = S_sleep"
  shows "n < length (cp_conns p) \<Longrightarrow> ct_phase (c_thread (cp_conns p ! n)) = Ended" "cp_stamp p = S_sleep" "cp_mutex p = Nobody"
proof -
  have mi: "mutex_inv p" and ex: "cp_exit p = None" and st: "stamp_inv S (cp_world p) (cp_stamp_conn p) (cp_stamp p)"
    using inv by (simp_all add: calls_inv_def)
  have conn: "connection_inv u S live f0 h n (cp_conns p ! n) (cp_world p)" if "n < length (cp_conns p)" for n
    using inv that by (simp add: calls_inv_def)
  have blocked: "\<not> may_call (cp_mutex p) (c_thread (cp_conns p ! n))" if "active_conn p n" for n
    using thread_calls_inv [OF sv inv that] stuck busy_step.thread [OF ex that refl] by blast
  have asleep: "cp_stamp p = S_sleep \<or> \<not> may_stamp (cp_mutex p) (cp_stamp p)"
  proof (rule ccontr)
    assume a: "\<not> ?thesis"
    then have u: "\<not> u" using stamp by blast
    have str: "time_string [newline]" by (simp add: time_string_def packet_def)
    from stamp_calls_inv [OF sv inv u str] a show False
      using busy_step.stamp [OF ex u _ str, where os = os and S = S] stuck by blast
  qed
  have held: "\<not> holds (ct_conn (c_thread (cp_conns p ! n)))" if n: "n < length (cp_conns p)" for n
  proof
    assume h: "holds (ct_conn (c_thread (cp_conns p ! n)))"
    with conn [OF n] obtain pt bs where pt: "ct_phase (c_thread (cp_conns p ! n)) = In_section pt bs" "\<forall>job. pt \<noteq> Lock job"
      by (auto simp: connection_inv_def reading_inv_def ended_inv_def section_inv_def Let_def split: call_phase.splits)
    then have "active_conn p n" "may_call (cp_mutex p) (c_thread (cp_conns p ! n))"
      using n by (auto simp: active_conn_def call_active_def may_call_def split: point.split)
    then show False using blocked by blast
  qed
  have "\<not> holds (cp_stamp_conn p)"
    using asleep st by (cases "cp_stamp p") (auto simp: may_stamp_def)
  then show free: "cp_mutex p = Nobody"
    using mi mutex_inv_conn [OF mi] held by (cases "cp_mutex p") (auto simp: mutex_inv_def)
  show "cp_stamp p = S_sleep" using asleep free by (cases "cp_stamp p") (simp_all add: may_stamp_def)
  show "ct_phase (c_thread (cp_conns p ! n)) = Ended" if n: "n < length (cp_conns p)"
  proof -
    have "may_call (cp_mutex p) (c_thread (cp_conns p ! n))"
      by (simp add: free may_call_def split: call_phase.split point.split)
    then have "\<not> call_active (c_thread (cp_conns p ! n))" using blocked n by (auto simp: active_conn_def)
    then show ?thesis using conn [OF n] by (auto simp: call_active_def connection_inv_def split: call_phase.splits)
  qed
qed

lemma stamp_asleep:
  "(calls_step u os acc S)\<^sup>*\<^sup>* (start_calls w0) p \<Longrightarrow> u \<Longrightarrow> cp_stamp p = S_sleep"
proof (induction rule: rtranclp_induct)
  case (step p q)
  from step.hyps(2) step.IH step.prems show ?case
    by cases (simp_all add: after_call_def Let_def split_beta)
qed (simp add: start_calls_def)

end
