(* ===== verification/Whole_Calls.thy ===== *)
theory Whole_Calls
  imports Main_Calls Call_Log
begin

text \<open>
  The running server one call at a time: \<open>main\<close> in its accept loop, the connection threads and the
  timestamp thread, interleaved. The threads reach their client through the record that \<open>main\<close>
  gave them, and set the flag in it before they close the connection; \<open>main\<close> joins a thread
  whose flag it has read, then frees the record.
\<close>

section \<open>State\<close>

text \<open>
  Thread \<open>n\<close> serves connection \<open>n\<close> of the pool and was created with the argument \<open>l_args ! n\<close>;
  \<open>l_ids\<close> is what the blocks for a \<open>pthread_t\<close> hold. A connection that was accepted has no
  thread until \<open>pthread_create\<close>.
\<close>

record 'w life =
  l_pool :: "'w call_pool"
  l_server :: server
  l_main :: main_point
  l_args :: "ptr list"
  l_ids :: "ptr \<Rightarrow> nat"

definition start_life :: "server \<Rightarrow> 'w \<Rightarrow> 'w life" where
  "start_life s w =
     \<lparr>l_pool = start_calls w, l_server = server_init s, l_main = M_accept, l_args = [], l_ids = (\<lambda>q. 0)\<rparr>"

text \<open>It starts without records, blocks and threads.\<close>

definition nothing_allocated :: "server \<Rightarrow> bool" where
  "nothing_allocated s \<longleftrightarrow> (\<forall>p. \<not> elem_live (tq s) p) \<and> (\<forall>q. \<not> thread_block s q) \<and> running s = []"

definition life_thread :: "'w life \<Rightarrow> nat \<Rightarrow> call_thread" where
  "life_thread x n = c_thread (cp_conns (l_pool x) ! n)"

section \<open>The calls of \<open>main\<close>\<close>

text \<open>What a call of \<open>main\<close> does beyond the records.\<close>

definition main_effect ::
  "'w os \<Rightarrow> ('w \<Rightarrow> int \<times> 'w) \<Rightarrow> ('w, 'f) server_view \<Rightarrow> accept_answers \<Rightarrow> 'w life \<Rightarrow> 'w life" where
  "main_effect os acc S a x =
     (let p = l_pool x; s = l_server x in
      case l_main x of
        M_accept \<Rightarrow>
          (let w = snd (acc (cp_world p))
           in x\<lparr>l_pool := (if a_fd a = - 1 then p\<lparr>cp_world := w\<rparr>
                else p\<lparr>cp_world := w, cp_conns := cp_conns p @ [new_connection S (a_fd a) w]\<rparr>)\<rparr>)
      | M_create fd item \<Rightarrow>
          if a_rc a = 0
          then x\<lparr>l_args := l_args x @ [item], l_ids := (l_ids x)(td_thread (td s item) := length (l_args x))\<rparr> else x
      | M_close fd item \<Rightarrow> x\<lparr>l_pool := p\<lparr>cp_world := snd (sys_close os (cp_world p) fd)\<rparr>\<rparr>
      | M_returned \<Rightarrow> x\<lparr>l_pool := p\<lparr>cp_exit := Some 0\<rparr>\<rparr>
      | _ \<Rightarrow> x)"

definition main_call ::
  "'w os \<Rightarrow> ('w \<Rightarrow> int \<times> 'w) \<Rightarrow> ('w, 'f) server_view \<Rightarrow> accept_answers \<Rightarrow> 'w life \<Rightarrow> 'w life option" where
  "main_call os acc S a x = do {
     (pt, s) \<leftarrow> main_step a (l_main x) (l_server x);
     Some ((main_effect os acc S a x)\<lparr>l_main := pt, l_server := s\<rparr>)
   }"

text \<open>\<open>pthread_join\<close> returns when the thread whose id is in the block has ended.\<close>

definition may_main :: "'w life \<Rightarrow> bool" where
  "may_main x \<longleftrightarrow>
     (case l_main x of
        M_join item tmp \<Rightarrow> ct_phase (life_thread x (l_ids x (td_thread (td (l_server x) item)))) = Ended
      | _ \<Rightarrow> True)"

text \<open>\<open>accept\<close> answers from the world; the allocator gives new addresses.\<close>

definition main_answers :: "('w \<Rightarrow> int \<times> 'w) \<Rightarrow> accept_answers \<Rightarrow> 'w life \<Rightarrow> bool" where
  "main_answers acc a x \<longleftrightarrow>
     fresh_answers a (l_server x) \<and> (l_main x = M_accept \<longrightarrow> a_fd a = fst (acc (cp_world (l_pool x))))"

section \<open>The calls of a thread\<close>

text \<open>
  A thread uses its record in every call on the connection, and for the mutex; it is undefined
  behaviour if the record is not there any more.
\<close>

definition sets_flag :: "call_thread \<Rightarrow> bool" where
  "sets_flag t \<longleftrightarrow> ct_phase t = Hanging_up \<and> packet_buf (ct_conn t) \<noteq> None"

definition thread_call ::
  "bool \<Rightarrow> 'w os \<Rightarrow> ('w, 'f) server_view \<Rightarrow> nat \<Rightarrow> 'w life \<Rightarrow> 'w life option" where
  "thread_call use_char os S n x =
     (let p = l_pool x; s = l_server x; arg = l_args x ! n; t = life_thread x n in
      if \<not> elem_live (tq s) arg then None
      else do {
        r \<leftarrow> call_step use_char os (td_client_fd (td s arg)) t (cp_world p);
        Some (x\<lparr>l_pool := after_call S n r p, l_server := (if sets_flag t then set_flag arg s else s)\<rparr>)
      })"

inductive life_step ::
  "bool \<Rightarrow> 'w os \<Rightarrow> ('w \<Rightarrow> int \<times> 'w) \<Rightarrow> ('w, 'f) server_view \<Rightarrow> 'w life \<Rightarrow> 'w life \<Rightarrow> bool"
  for use_char os acc S where
  main: "cp_exit (l_pool x) = None \<Longrightarrow> main_answers acc a x \<Longrightarrow> may_main x \<Longrightarrow> main_call os acc S a x = Some y \<Longrightarrow>
     life_step use_char os acc S x y"
| thread: "cp_exit (l_pool x) = None \<Longrightarrow> n < length (l_args x) \<Longrightarrow> call_active (life_thread x n) \<Longrightarrow>
     may_call (cp_mutex (l_pool x)) (life_thread x n) \<Longrightarrow> thread_call use_char os S n x = Some y \<Longrightarrow>
     life_step use_char os acc S x y"
| stamp: "cp_exit (l_pool x) = None \<Longrightarrow> \<not> use_char \<Longrightarrow> time_string str \<Longrightarrow>
     may_stamp (cp_mutex (l_pool x)) (cp_stamp (l_pool x)) \<Longrightarrow>
     stamp_step os str (cp_stamp (l_pool x)) (cp_stamp_conn (l_pool x)) (cp_world (l_pool x)) = Some (pt, c, w) \<Longrightarrow>
     life_step use_char os acc S x (x\<lparr>l_pool := (l_pool x)\<lparr>cp_world := w, cp_stamp := pt, cp_stamp_conn := c,
       cp_mutex := mutex_after Timestamp (cp_stamp_conn (l_pool x)) c (cp_mutex (l_pool x))\<rparr>\<rparr>)"

inductive_cases life_stepE: "life_step use_char os acc S x y"

section \<open>When a thread sets its flag\<close>

lemma grow_packet_flag:
  "grow_packet os c w = (ok, c', w') \<Longrightarrow> thread_complete_success c' = thread_complete_success c"
  by (auto simp: grow_packet_def Let_def split: if_splits prod.splits option.splits)

lemma section_step_flag:
  "section_step os cfd pt c w = Some (x, c', w') \<Longrightarrow> thread_complete_success c' = thread_complete_success c"
  by (cases pt) (auto simp: Let_def mutex_lock'_def mutex_unlock'_def split: bind_splits prod.splits if_splits)

definition flag_ok :: "call_thread \<Rightarrow> bool" where
  "flag_ok t \<longleftrightarrow> (thread_complete_success (ct_conn t) \<longrightarrow> ct_phase t = Closing \<or> ct_phase t = Ended)"

lemma call_step_flag:
  assumes "call_step use_char os cfd t w = Some (t', w')" "call_active t"
  shows "thread_complete_success (ct_conn t') \<longleftrightarrow> thread_complete_success (ct_conn t) \<or> sets_flag t"
    "flag_ok t \<Longrightarrow> flag_ok t'"
proof -
  have "(thread_complete_success (ct_conn t') \<longleftrightarrow> thread_complete_success (ct_conn t) \<or> sets_flag t) \<and>
      (flag_ok t \<longrightarrow> flag_ok t')"
  proof (cases "ct_phase t")
    case (In_section pt bs)
    then obtain x c1 where s: "section_step os cfd pt (ct_conn t) w = Some (x, c1, w')"
      and t': "ct_conn t' = c1" using assms(1) by (auto simp: call_step_def split: bind_splits)
    then show ?thesis using section_step_flag [OF s] In_section by (auto simp: flag_ok_def sets_flag_def)
  next
    case (Have bs)
    then show ?thesis using assms(1)
      by (cases bs) (auto simp: call_step_def take_byte_def flag_ok_def sets_flag_def Let_def dest!: grow_packet_flag
          split: prod.splits bind_splits if_splits)
  qed (use assms in \<open>auto simp: call_step_def call_active_def flag_ok_def sets_flag_def free_packet_def Let_def
      split: prod.splits if_splits\<close>)
  then show "thread_complete_success (ct_conn t') \<longleftrightarrow> thread_complete_success (ct_conn t) \<or> sets_flag t"
    "flag_ok t \<Longrightarrow> flag_ok t'" by blast+
qed

lemma new_thread_flag: "\<not> thread_complete_success (ct_conn new_call_thread)" "flag_ok new_call_thread"
  by (simp_all add: new_call_thread_def new_conn_def flag_ok_def)

section \<open>The invariant\<close>

text \<open>
  The record of a thread that is not joined has its client and its flag; a thread that has not
  ended, or has ended without its flag, is not joined.
\<close>

definition record_ok :: "'w life \<Rightarrow> ptr \<Rightarrow> bool" where
  "record_ok x p \<longleftrightarrow>
     (let n = l_ids x (td_thread (td (l_server x) p)) in
      n < length (l_args x) \<and> l_args x ! n = p \<and>
      td_client_fd (td (l_server x) p) = c_fd (cp_conns (l_pool x) ! n) \<and>
      (td_complete (td (l_server x) p) \<longleftrightarrow> thread_complete_success (ct_conn (life_thread x n))))"

definition thread_ok :: "'w life \<Rightarrow> nat \<Rightarrow> bool" where
  "thread_ok x n \<longleftrightarrow>
     flag_ok (life_thread x n) \<and>
     (ct_phase (life_thread x n) \<noteq> Ended \<or> \<not> thread_complete_success (ct_conn (life_thread x n)) \<longrightarrow>
        l_args x ! n \<in> set (running (l_server x)) \<and> l_ids x (td_thread (td (l_server x) (l_args x ! n))) = n)"

text \<open>
  Between \<open>accept\<close> and \<open>pthread_create\<close> the last connection has no thread yet; when
  \<open>pthread_create\<close> has failed it never gets one, and \<open>main\<close> closes it.
\<close>

fun waiting_client :: "main_point \<Rightarrow> int option" where
  "waiting_client (M_malloc fd) = Some fd"
| "waiting_client (M_fill fd p) = Some fd"
| "waiting_client (M_create fd p) = Some fd"
| "waiting_client (M_close fd p) = Some fd"
| "waiting_client _ = None"

fun gives_up :: "main_point \<Rightarrow> bool" where
  "gives_up (M_close fd p) \<longleftrightarrow> True"
| "gives_up (M_free_new p) \<longleftrightarrow> True"
| "gives_up M_returned \<longleftrightarrow> True"
| "gives_up _ \<longleftrightarrow> False"

definition clients_ok :: "'w life \<Rightarrow> bool" where
  "clients_ok x \<longleftrightarrow>
     (case waiting_client (l_main x) of
        Some fd \<Rightarrow> \<exists>ks k. cp_conns (l_pool x) = ks @ [k] \<and> length (l_args x) = length ks \<and>
          c_fd k = fd \<and> c_thread k = new_call_thread
      | None \<Rightarrow> length (cp_conns (l_pool x)) = length (l_args x) + (if gives_up (l_main x) then 1 else 0))"

definition life_inv :: "'w life \<Rightarrow> bool" where
  "life_inv x \<longleftrightarrow>
     (\<exists>ks ys. main_ok (l_main x) ks ys (l_server x)) \<and> mutex_inv (l_pool x) \<and> clients_ok x \<and>
     (\<forall>p \<in> set (running (l_server x)). record_ok x p) \<and> (\<forall>n < length (l_args x). thread_ok x n)"

lemma start_life_inv:
  assumes "nothing_allocated s0"
  shows "life_inv (start_life s0 w0)"
proof -
  have "main_ok M_accept [] [] (server_init s0)"
    using holds_threads_init assms by (simp add: nothing_allocated_def)
  then show ?thesis using assms start_mutex_inv [of w0]
    by (auto simp: nothing_allocated_def life_inv_def start_life_def clients_ok_def server_init_def start_calls_def)
qed

lemma clients_ok_args: "clients_ok x \<Longrightarrow> length (l_args x) \<le> length (cp_conns (l_pool x))"
  by (auto simp: clients_ok_def split: option.splits if_splits)

lemma unjoined:
  assumes "life_inv x" "n < length (l_args x)" "ct_phase (life_thread x n) \<noteq> Ended"
  shows "l_args x ! n \<in> set (running (l_server x))" "l_ids x (td_thread (td (l_server x) (l_args x ! n))) = n"
    "elem_live (tq (l_server x)) (l_args x ! n)" "record_ok x (l_args x ! n)"
  using assms main_ok_running(1) by (auto simp: life_inv_def thread_ok_def)

text \<open>A call of a thread.\<close>

lemma thread_life_inv:
  assumes inv: "life_inv x" and n: "n < length (l_args x)" and act: "call_active (life_thread x n)"
    and may: "may_call (cp_mutex (l_pool x)) (life_thread x n)" and step: "thread_call u os S n x = Some y"
  shows "life_inv y"
proof -
  let ?s = "l_server x" and ?p = "l_pool x" and ?arg = "l_args x ! n" and ?t = "life_thread x n"
  have phase: "ct_phase ?t \<noteq> Ended" using act by (auto simp: call_active_def)
  note arg = unjoined [OF inv n phase]
  have fd: "td_client_fd (td ?s ?arg) = c_fd (cp_conns ?p ! n)" and flag: "td_complete (td ?s ?arg) \<longleftrightarrow> thread_complete_success (ct_conn ?t)"
    using arg(2,4) by (simp_all add: record_ok_def Let_def)
  obtain t' w' where r: "call_step u os (c_fd (cp_conns ?p ! n)) ?t (cp_world ?p) = Some (t', w')"
    and y: "y = x\<lparr>l_pool := after_call S n (t', w') ?p, l_server := (if sets_flag ?t then set_flag ?arg ?s else ?s)\<rparr>"
    using step arg(3) fd by (auto simp: thread_call_def Let_def split: bind_splits)
  have nc: "n < length (cp_conns ?p)" using n inv clients_ok_args by (fastforce simp: life_inv_def)
  have conns: "length (cp_conns (l_pool y)) = length (cp_conns ?p)"
    "life_thread y i = (if i = n then t' else life_thread x i)"
    "c_fd (cp_conns (l_pool y) ! i) = c_fd (cp_conns ?p ! i)" for i
    using nc by (simp_all add: y life_thread_def after_call_def connection_after_def Let_def nth_list_update)
  have server: "running (l_server y) = running ?s" "td_thread (td (l_server y) p) = td_thread (td ?s p)"
    "td_client_fd (td (l_server y) p) = td_client_fd (td ?s p)"
    "td_complete (td (l_server y) p) \<longleftrightarrow> p = ?arg \<and> sets_flag ?t \<or> td_complete (td ?s p)" for p
    by (auto simp: y set_flag_fields set_flag_td)
  have rest: "l_args y = l_args x" "l_ids y = l_ids x" "l_main y = l_main x" by (simp_all add: y)
  obtain ks ys where "main_ok (l_main x) ks ys ?s" using inv by (auto simp: life_inv_def)
  then have "main_ok (l_main y) ks ys (l_server y)" using set_flag_ok [OF _ arg(1)] by (simp add: y)
  then have "\<exists>ks ys. main_ok (l_main y) ks ys (l_server y)" by blast
  moreover have "mutex_inv (l_pool y)"
  proof -
    have "mutex_inv ?p" using inv by (simp add: life_inv_def)
    from thread_mutex_inv [OF this nc refl may [unfolded life_thread_def] r [unfolded life_thread_def]]
    show ?thesis by (simp add: y)
  qed
  moreover have "clients_ok y"
  proof (cases "waiting_client (l_main x)")
    case None
    then show ?thesis using inv by (simp add: life_inv_def clients_ok_def rest conns)
  next
    case (Some f)
    then obtain ks k where "cp_conns ?p = ks @ [k]" "length (l_args x) = length ks" "c_fd k = f" "c_thread k = new_call_thread"
      using inv by (auto simp: life_inv_def clients_ok_def)
    moreover from this n have "cp_conns (l_pool y) = ks[n := connection_after S t' w' (ks ! n)] @ [k]"
      by (simp add: y after_call_def Let_def list_update_append nth_append)
    ultimately show ?thesis using Some by (simp add: clients_ok_def rest)
  qed
  moreover have "record_ok y p" if p: "p \<in> set (running (l_server y))" for p
  proof -
    have old: "record_ok x p" using inv p by (simp add: life_inv_def server)
    have "l_ids x (td_thread (td ?s p)) = n \<longleftrightarrow> p = ?arg" using old arg(2) by (auto simp: record_ok_def Let_def)
    then show ?thesis using old flag call_step_flag(1) [OF r act]
      by (auto simp: record_ok_def Let_def rest conns server)
  qed
  moreover have "thread_ok y i" if i: "i < length (l_args y)" for i
  proof -
    have old: "thread_ok x i" using inv i by (simp add: life_inv_def rest)
    then show ?thesis using arg(1,2) call_step_flag(2) [OF r act]
      by (auto simp: thread_ok_def rest conns server)
  qed
  ultimately show ?thesis by (simp add: life_inv_def)
qed

text \<open>A call of \<open>main\<close> that leaves the threads and their records alone.\<close>

lemma record_ok_cong:
  "l_args y = l_args x \<Longrightarrow> l_ids y = l_ids x \<Longrightarrow> cp_conns (l_pool y) = cp_conns (l_pool x) \<Longrightarrow>
     td (l_server y) p = td (l_server x) p \<Longrightarrow> record_ok y p = record_ok x p"
  by (simp add: record_ok_def life_thread_def)

lemma main_life_quiet:
  assumes inv: "life_inv x" and ok: "main_ok (l_main y) ks ys (l_server y)" and c: "clients_ok y"
    and same: "cp_conns (l_pool y) = cp_conns (l_pool x)" "cp_mutex (l_pool y) = cp_mutex (l_pool x)"
      "cp_stamp (l_pool y) = cp_stamp (l_pool x)" "cp_stamp_conn (l_pool y) = cp_stamp_conn (l_pool x)"
      "l_args y = l_args x" "l_ids y = l_ids x" "running (l_server y) = running (l_server x)"
    and td: "\<And>p. p \<in> set (running (l_server x)) \<Longrightarrow> td (l_server y) p = td (l_server x) p"
  shows "life_inv y"
proof -
  have "mutex_inv (l_pool y)" using inv by (simp add: life_inv_def mutex_inv_def same)
  moreover have "record_ok y p" if "p \<in> set (running (l_server y))" for p
    using inv that td record_ok_cong [OF same(5,6,1)] by (simp add: life_inv_def same)
  moreover have "thread_ok y n" if "n < length (l_args y)" for n
    using inv that td by (auto simp: life_inv_def thread_ok_def same life_thread_def)
  ultimately show ?thesis using ok c by (auto simp: life_inv_def)
qed

lemma main_life_accept:
  assumes inv: "life_inv x" and pt: "l_main x = M_accept" and fd: "a_fd a \<noteq> - 1" and ex: "cp_exit (l_pool x) = None"
    and acc: "acc (cp_world (l_pool x)) = (a_fd a, w)"
  shows "life_inv (x\<lparr>l_main := M_malloc (a_fd a), l_pool := (l_pool x)\<lparr>cp_world := w,
    cp_conns := cp_conns (l_pool x) @ [new_connection S (a_fd a) w]\<rparr>\<rparr>)" (is "life_inv ?y")
proof -
  let ?conns = "cp_conns (l_pool x)"
  have len: "length (l_args x) = length ?conns" using inv pt by (simp add: life_inv_def clients_ok_def)
  have "mutex_inv (l_pool ?y)"
  proof -
    have "mutex_inv (l_pool x)" using inv by (simp add: life_inv_def)
    moreover have "calls_step True undefined acc S (l_pool x) (l_pool ?y)"
      using calls_step.client [where acc = acc and p = "l_pool x", OF ex acc fd] by simp
    ultimately show ?thesis by (rule calls_mutex_inv)
  qed
  moreover have "clients_ok ?y" using len by (simp add: clients_ok_def new_connection_def)
  moreover have "record_ok ?y p" if p: "p \<in> set (running (l_server ?y))" for p
  proof -
    have "record_ok x p" using inv p by (simp add: life_inv_def)
    then show ?thesis using len by (auto simp: record_ok_def Let_def life_thread_def nth_append)
  qed
  moreover have "thread_ok ?y n" if n: "n < length (l_args ?y)" for n
  proof -
    have "thread_ok x n" using inv n by (simp add: life_inv_def)
    then show ?thesis using n len by (simp add: thread_ok_def life_thread_def nth_append)
  qed
  moreover have "\<exists>ks ys. main_ok (l_main ?y) ks ys (l_server ?y)" using inv pt by (auto simp: life_inv_def)
  ultimately show ?thesis by (simp add: life_inv_def)
qed

lemma main_life_create:
  assumes inv: "life_inv x" and pt: "l_main x = M_create fd p" and s': "s' = (l_server x)\<lparr>running := p # running (l_server x)\<rparr>"
    and ok: "\<exists>ks ys. main_ok (M_insert p) ks ys s'"
  shows "life_inv (x\<lparr>l_args := l_args x @ [p], l_ids := (l_ids x)(td_thread (td (l_server x) p) := length (l_args x)),
    l_main := M_insert p, l_server := s'\<rparr>)" (is "life_inv ?y")
proof -
  let ?s = "l_server x" and ?n = "length (l_args x)"
  obtain js k where conns: "cp_conns (l_pool x) = js @ [k]" "?n = length js" and k: "c_fd k = fd" "c_thread k = new_call_thread"
    using inv pt by (auto simp: life_inv_def clients_ok_def)
  obtain ks where r: "records ?s ks (insert p (set ks)) (insert p (set ks)) (set ks)" "p \<notin> set ks"
    and new: "td_client_fd (td ?s p) = fd" "\<not> td_complete (td ?s p)"
    using inv pt by (auto simp: life_inv_def)
  have run: "set (running ?s) = set ks" using r(1) by (simp add: records_def)
  have block: "td_thread (td ?s q) \<noteq> td_thread (td ?s p)" if "q \<in> set (running ?s)" for q
    using r that run by (auto simp: records_def inj_on_def)
  have this_thread: "life_thread x ?n = new_call_thread" "cp_conns (l_pool x) ! ?n = k"
    using conns k by (simp_all add: life_thread_def)
  have "record_ok ?y q" if q: "q \<in> set (running (l_server ?y))" for q
  proof (cases "q = p")
    case True
    then show ?thesis using new k this_thread(2) new_thread_flag
      by (simp add: record_ok_def s' life_thread_def Let_def)
  next
    case False
    then have q': "q \<in> set (running ?s)" using q s' by simp
    then have "record_ok x q" using inv by (simp add: life_inv_def)
    then show ?thesis using block [OF q'] by (auto simp: record_ok_def s' life_thread_def Let_def nth_append)
  qed
  moreover have "thread_ok ?y i" if i: "i < length (l_args ?y)" for i
  proof (cases "i = ?n")
    case True
    then show ?thesis using this_thread(2) k new_thread_flag by (simp add: thread_ok_def life_thread_def s')
  next
    case False
    then have i': "i < ?n" using i by simp
    then have "thread_ok x i" using inv by (simp add: life_inv_def)
    then show ?thesis using i' block by (auto simp: thread_ok_def life_thread_def s' nth_append)
  qed
  moreover have "mutex_inv (l_pool ?y)" using inv by (simp add: life_inv_def)
  moreover have "clients_ok ?y" using conns by (simp add: clients_ok_def)
  ultimately show ?thesis using ok by (simp add: life_inv_def)
qed

lemma main_life_join:
  assumes inv: "life_inv x" and pt: "l_main x = M_join item tmp" and may: "may_main x"
    and run: "running s' = remove1 item (running (l_server x))" and td: "td s' = td (l_server x)"
    and ok: "\<exists>ks ys. main_ok (M_remove item tmp) ks ys s'"
  shows "life_inv (x\<lparr>l_main := M_remove item tmp, l_server := s'\<rparr>)" (is "life_inv ?y")
proof -
  let ?s = "l_server x"
  obtain ks ys where h: "holds_threads ?s (ks @ item # ys)" "td_complete (td ?s item)"
    using inv pt by (auto simp: life_inv_def)
  then have item: "item \<in> set (running ?s)" "distinct (running ?s)" by (simp_all add: holds_threads_def)
  let ?n = "l_ids x (td_thread (td ?s item))"
  have "record_ok x item" using inv item by (simp add: life_inv_def)
  then have n: "l_args x ! ?n = item" "thread_complete_success (ct_conn (life_thread x ?n))"
    using h(2) by (simp_all add: record_ok_def Let_def)
  have ended: "ct_phase (life_thread x ?n) = Ended" using may pt by (simp add: may_main_def)
  have threads: "life_thread ?y i = life_thread x i" for i by (simp add: life_thread_def)
  have run': "set (running s') = set (running ?s) - {item}" using item(2) by (simp add: run set_remove1_eq)
  have "record_ok ?y p" if "p \<in> set (running (l_server ?y))" for p
  proof -
    have "record_ok x p" using inv that by (auto simp: life_inv_def run')
    then show ?thesis by (simp add: record_ok_def td threads)
  qed
  moreover have "thread_ok ?y i" if i: "i < length (l_args ?y)" for i
  proof -
    have t: "thread_ok x i" using inv i by (simp add: life_inv_def)
    have "l_args x ! i \<noteq> item" if "ct_phase (life_thread x i) \<noteq> Ended \<or> \<not> thread_complete_success (ct_conn (life_thread x i))"
    proof
      assume "l_args x ! i = item"
      then have "?n = i" using t that by (auto simp: thread_ok_def)
      then show False using that ended n(2) by simp
    qed
    then show ?thesis using t by (auto simp: thread_ok_def td threads run')
  qed
  moreover have "mutex_inv (l_pool ?y)" using inv by (simp add: life_inv_def)
  moreover have "clients_ok ?y" using inv pt by (simp add: life_inv_def clients_ok_def)
  ultimately show ?thesis using ok by (simp add: life_inv_def)
qed

lemma main_life_inv:
  assumes inv: "life_inv x" and ok: "main_ok (l_main x) ks ys (l_server x)" and ex: "cp_exit (l_pool x) = None"
    and a: "main_answers acc a x" and may: "may_main x"
  shows "\<exists>y ks' ys'. main_call os acc S a x = Some y \<and> life_inv y \<and> main_ok (l_main y) ks' ys' (l_server y) \<and>
    (in_iteration (l_main x) \<longrightarrow> main_rank (l_main y) ks' ys' < main_rank (l_main x) ks ys)"
proof (cases "l_main x = M_returned")
  case True
  let ?y = "x\<lparr>l_pool := (l_pool x)\<lparr>cp_exit := Some 0\<rparr>\<rparr>"
  have "main_call os acc S a x = Some ?y" using True by (simp add: main_call_def main_step_def main_effect_def)
  moreover have "life_inv ?y"
    by (rule main_life_quiet [OF inv, of ?y ks ys]) (use ok inv True in \<open>simp_all add: life_inv_def clients_ok_def\<close>)
  ultimately show ?thesis using ok True by (intro exI [of _ ?y] exI [of _ ks] exI [of _ ys]) (simp add: in_iteration_def)
next
  case False
  have "fresh_answers a (l_server x)" using a by (simp add: main_answers_def)
  from main_step_moves [OF ok this False] obtain pt s' ks' ys' where
    st: "main_step a (l_main x) (l_server x) = Some (pt, s')" and ok': "main_ok pt ks' ys' s'"
    and less: "in_iteration (l_main x) \<Longrightarrow> main_rank pt ks' ys' < main_rank (l_main x) ks ys"
    by (auto simp: main_moves_def)
  note fields = main_step_fields [OF st]
  let ?y = "(main_effect os acc S a x)\<lparr>l_main := pt, l_server := s'\<rparr>"
  have call: "main_call os acc S a x = Some ?y" using st by (simp add: main_call_def)
  have quiet: "life_inv ?y" if q: "main_effect os acc S a x = x" "td s' = td (l_server x)" "running s' = running (l_server x)"
    "waiting_client pt = waiting_client (l_main x)" "gives_up pt = gives_up (l_main x)"
  proof (rule main_life_quiet [OF inv])
    show "main_ok (l_main ?y) ks' ys' (l_server ?y)" using ok' by simp
    have "clients_ok x" using inv by (simp add: life_inv_def)
    then show "clients_ok ?y" using q(1,4,5) by (simp add: clients_ok_def split: option.splits)
  qed (use q(1-3) in simp_all)
  have "life_inv ?y"
  proof (cases "l_main x")
    case M_accept
    show ?thesis
    proof (cases "a_fd a = - 1")
      case True
      then have y: "?y = x\<lparr>l_pool := (l_pool x)\<lparr>cp_world := snd (acc (cp_world (l_pool x)))\<rparr>\<rparr>"
        using st M_accept by (simp add: main_effect_def main_step_def Let_def)
      show ?thesis unfolding y
        by (rule main_life_quiet [OF inv, of _ ks ys]) (use ok inv M_accept in \<open>simp_all add: life_inv_def clients_ok_def\<close>)
    next
      case new: False
      then have acc: "acc (cp_world (l_pool x)) = (a_fd a, snd (acc (cp_world (l_pool x))))"
        using a M_accept by (simp add: main_answers_def)
      have "?y = x\<lparr>l_main := M_malloc (a_fd a), l_pool := (l_pool x)\<lparr>cp_world := snd (acc (cp_world (l_pool x))),
          cp_conns := cp_conns (l_pool x) @ [new_connection S (a_fd a) (snd (acc (cp_world (l_pool x))))]\<rparr>\<rparr>"
        using st M_accept new by (simp add: main_effect_def main_step_def Let_def)
      then show ?thesis using main_life_accept [where acc = acc, OF inv M_accept new ex acc, of S] by simp
    qed
  next
    case (M_create fd p)
    show ?thesis
    proof (cases "a_rc a = 0")
      case True
      then have s': "pt = M_insert p" "s' = (l_server x)\<lparr>running := p # running (l_server x)\<rparr>"
        using st M_create by (auto simp: main_step_def split: if_splits)
      have "\<exists>ks ys. main_ok (M_insert p) ks ys s'" using ok' s'(1) by blast
      from main_life_create [OF inv M_create s'(2) this] show ?thesis
        using True M_create s'(1) by (simp add: main_effect_def Let_def)
    next
      case False
      then have s': "pt = M_close fd p" "s' = l_server x"
        using st M_create by (auto simp: main_step_def split: if_splits)
      have "?y = x\<lparr>l_main := M_close fd p\<rparr>" using False M_create s' by (simp add: main_effect_def Let_def)
      then show ?thesis using ok' s' inv M_create
        by (intro main_life_quiet [OF inv, of ?y ks' ys']) (auto simp: life_inv_def clients_ok_def)
    qed
  next
    case (M_join item tmp)
    then have pt: "pt = M_remove item tmp" and y: "?y = x\<lparr>l_main := M_remove item tmp, l_server := s'\<rparr>"
      using st by (auto simp: main_step_def main_effect_def Let_def split: bind_splits)
    have "\<exists>ks ys. main_ok (M_remove item tmp) ks ys s'" using ok' pt by blast
    from main_life_join [OF inv M_join may _ _ this] show ?thesis unfolding y using fields M_join by simp
  next
    case (M_fill fd p)
    then have pt: "pt = M_create fd p" and y: "?y = x\<lparr>l_main := M_create fd p, l_server := s'\<rparr>"
      using st by (auto simp: main_step_def main_effect_def Let_def split: bind_splits)
    have "p \<notin> set (running (l_server x))" using ok M_fill by (simp add: records_def)
    then show ?thesis unfolding y using ok' pt inv M_fill fields
      by (intro main_life_quiet [OF inv, of _ ks' ys']) (auto simp: life_inv_def clients_ok_def)
  next
    case (M_close fd p)
    then have pt: "pt = M_free_new p"
      and y: "?y = x\<lparr>l_pool := (l_pool x)\<lparr>cp_world := snd (sys_close os (cp_world (l_pool x)) fd)\<rparr>, l_main := M_free_new p, l_server := s'\<rparr>"
      using st by (auto simp: main_step_def main_effect_def Let_def)
    then show ?thesis unfolding y using ok' pt inv M_close fields
      by (intro main_life_quiet [OF inv, of _ ks' ys']) (auto simp: life_inv_def clients_ok_def)
  next
    case (M_free_new p)
    then have pt: "pt = M_returned" and y: "?y = x\<lparr>l_main := M_returned, l_server := s'\<rparr>"
      using st by (auto simp: main_step_def main_effect_def Let_def split: bind_splits)
    then show ?thesis unfolding y using ok' inv M_free_new fields
      by (intro main_life_quiet [OF inv, of _ ks' ys']) (auto simp: life_inv_def clients_ok_def)
  next
    case M_returned
    then show ?thesis using False by simp
  next
    case (M_malloc fd)
    show ?thesis
      by (rule quiet) (use st M_malloc fields in \<open>auto simp: main_effect_def main_step_def Let_def split: bind_splits if_splits\<close>)
  next
    case (M_insert p)
    show ?thesis
      by (rule quiet) (use st M_insert fields in \<open>auto simp: main_effect_def main_step_def Let_def split: bind_splits if_splits\<close>)
  next
    case (M_loop item)
    show ?thesis
      by (rule quiet) (use st M_loop fields in \<open>auto simp: main_effect_def main_step_def Let_def split: bind_splits if_splits\<close>)
  next
    case (M_remove item tmp)
    show ?thesis
      by (rule quiet) (use st M_remove fields in \<open>auto simp: main_effect_def main_step_def Let_def split: bind_splits if_splits\<close>)
  next
    case (M_free_thread item tmp)
    show ?thesis
      by (rule quiet) (use st M_free_thread fields in \<open>auto simp: main_effect_def main_step_def Let_def split: bind_splits if_splits\<close>)
  next
    case (M_free item tmp)
    show ?thesis
      by (rule quiet) (use st M_free fields in \<open>auto simp: main_effect_def main_step_def Let_def split: bind_splits if_splits\<close>)
  qed
  then show ?thesis using call ok' less by (intro exI [of _ ?y] exI [of _ ks'] exI [of _ ys']) simp
qed

lemma stamp_life_inv:
  assumes inv: "life_inv x" and may: "may_stamp (cp_mutex (l_pool x)) (cp_stamp (l_pool x))"
    and step: "stamp_step os str (cp_stamp (l_pool x)) (cp_stamp_conn (l_pool x)) (cp_world (l_pool x)) = Some (pt, c, w)"
  shows "life_inv (x\<lparr>l_pool := (l_pool x)\<lparr>cp_world := w, cp_stamp := pt, cp_stamp_conn := c,
    cp_mutex := mutex_after Timestamp (cp_stamp_conn (l_pool x)) c (cp_mutex (l_pool x))\<rparr>\<rparr>)"
  using inv stamp_mutex_inv [OF _ may step]
  by (auto simp: life_inv_def clients_ok_def record_ok_def thread_ok_def life_thread_def split: option.splits)

lemma life_step_inv:
  assumes inv: "life_inv x" and step: "life_step u os acc S x y"
  shows "life_inv y"
  using step
proof cases
  case (main a)
  obtain ks ys where "main_ok (l_main x) ks ys (l_server x)" using inv by (auto simp: life_inv_def)
  from main_life_inv [where os = os and S = S, OF inv this main(1-3)] main(4) show ?thesis by auto
next
  case (thread n)
  then show ?thesis using thread_life_inv [OF inv] by blast
next
  case (stamp str pt c w)
  then show ?thesis using stamp_life_inv [OF inv] by blast
qed

lemma life_reach_inv:
  assumes "nothing_allocated s0"
    and "(life_step u os acc S)\<^sup>*\<^sup>* (start_life s0 w0) x"
  shows "life_inv x"
  using assms(2)
proof (induction rule: rtranclp_induct)
  case base
  show ?case by (rule start_life_inv [OF assms(1)])
next
  case (step x y)
  then show ?case using life_step_inv by blast
qed

section \<open>Safety, whatever the system answers\<close>

lemma no_waiting_thread:
  assumes "life_inv x" "ct_phase (life_thread x n) = Closing \<or> ct_phase (life_thread x n) = Ended" "n < length (l_args x)"
  shows "\<not> holds (ct_conn (life_thread x n))"
proof -
  have n: "n < length (cp_conns (l_pool x))" and m: "mutex_inv (l_pool x)"
    using assms(1,3) clients_ok_args by (fastforce simp: life_inv_def)+
  have "lock_inv (life_thread x n)" using mutex_inv_conn [OF m n] by (simp add: life_thread_def)
  then show ?thesis using assms(2) by (auto simp: lock_inv_def)
qed

lemma joined_thread:
  assumes inv: "life_inv x" and pt: "l_main x = M_join item tmp" and n: "n = l_ids x (td_thread (td (l_server x) item))"
  shows "n < length (l_args x)" "l_args x ! n = item"
    "ct_phase (life_thread x n) = Closing \<or> ct_phase (life_thread x n) = Ended"
proof -
  obtain ks ys where h: "holds_threads (l_server x) (ks @ item # ys)" "td_complete (td (l_server x) item)"
    using inv pt by (auto simp: life_inv_def)
  then have "item \<in> set (running (l_server x))" by (simp add: holds_threads_def)
  then have r: "record_ok x item" using inv by (simp add: life_inv_def)
  then show m: "n < length (l_args x)" "l_args x ! n = item" by (simp_all add: record_ok_def n Let_def)
  have "thread_ok x n" using inv m(1) by (simp add: life_inv_def)
  then show "ct_phase (life_thread x n) = Closing \<or> ct_phase (life_thread x n) = Ended"
    using r h(2) by (simp add: record_ok_def thread_ok_def flag_ok_def n Let_def)
qed

lemma thread_call_defined:
  assumes inv: "life_inv x" and n: "n < length (l_args x)" "ct_phase (life_thread x n) \<noteq> Ended"
  shows "thread_call u os S n x = map_option (\<lambda>r. x\<lparr>l_pool := after_call S n r (l_pool x),
      l_server := (if sets_flag (life_thread x n) then set_flag (l_args x ! n) (l_server x) else l_server x)\<rparr>)
    (call_step u os (c_fd (cp_conns (l_pool x) ! n)) (life_thread x n) (cp_world (l_pool x)))"
proof -
  have "td_client_fd (td (l_server x) (l_args x ! n)) = c_fd (cp_conns (l_pool x) ! n)"
    using unjoined(2,4) [OF inv n] by (simp add: record_ok_def Let_def)
  then show ?thesis using unjoined(3) [OF inv n]
    by (cases "call_step u os (c_fd (cp_conns (l_pool x) ! n)) (life_thread x n) (cp_world (l_pool x))")
      (simp_all add: thread_call_def)
qed


section \<open>The threads are those of the pool\<close>

text \<open>After a failed \<open>pthread_create\<close>, \<open>main\<close> closes the connection and ends the process.\<close>

fun gone :: "main_point \<Rightarrow> bool" where
  "gone (M_free_new p) \<longleftrightarrow> True"
| "gone M_returned \<longleftrightarrow> True"
| "gone _ \<longleftrightarrow> False"

lemma main_call_gone:
  "main_call os acc S a x = Some y \<Longrightarrow> gone (l_main x) \<Longrightarrow> gone (l_main y)"
  by (cases "l_main x") (auto simp: main_call_def main_step_def split: bind_splits)

lemma main_call_pool:
  assumes "main_call os acc S a x = Some y" "\<not> gone (l_main y)" "main_answers acc a x" "cp_exit (l_pool x) = None"
  shows "l_pool y = l_pool x \<or> calls_step u os acc S (l_pool x) (l_pool y)"
    "l_main x \<noteq> M_accept \<Longrightarrow> l_pool y = l_pool x"
proof -
  have x: "\<not> gone (l_main x)" using assms(1,2) main_call_gone by blast
  have "l_pool y = l_pool x \<or> calls_step u os acc S (l_pool x) (l_pool y)" if m: "l_main x = M_accept"
  proof -
    obtain w where acc: "acc (cp_world (l_pool x)) = (a_fd a, w)"
      using assms(3) m by (cases "acc (cp_world (l_pool x))") (simp add: main_answers_def)
    then show ?thesis
      using assms(1) m calls_step.no_client [where acc = acc and p = "l_pool x" and w = w and S = S and use_char = u and os = os, OF assms(4)]
        calls_step.client [where acc = acc and p = "l_pool x" and S = S and use_char = u and os = os, OF assms(4) acc]
      by (cases "a_fd a = - 1") (auto simp: main_call_def main_step_def main_effect_def Let_def)
  qed
  moreover show other: "l_pool y = l_pool x" if "l_main x \<noteq> M_accept"
    using assms(1,2) x that by (cases "l_main x")
      (auto simp: main_call_def main_step_def main_effect_def Let_def split: bind_splits if_splits)
  ultimately show "l_pool y = l_pool x \<or> calls_step u os acc S (l_pool x) (l_pool y)" by blast
qed

lemma thread_call_pool:
  assumes inv: "life_inv x" and n: "n < length (l_args x)" "call_active (life_thread x n)" and step: "thread_call u os S n x = Some y"
  obtains r where "call_step u os (c_fd (cp_conns (l_pool x) ! n)) (life_thread x n) (cp_world (l_pool x)) = Some r"
    "l_pool y = after_call S n r (l_pool x)" "l_main y = l_main x" "l_args y = l_args x" "active_conn (l_pool x) n"
proof -
  have phase: "ct_phase (life_thread x n) \<noteq> Ended" using n(2) by (auto simp: call_active_def)
  have "n < length (cp_conns (l_pool x))" using inv n(1) clients_ok_args by (fastforce simp: life_inv_def)
  then have "active_conn (l_pool x) n" using n(2) by (simp add: active_conn_def life_thread_def)
  then show thesis using that step by (auto simp: thread_call_defined [OF inv n(1) phase])
qed

lemma life_step_pool:
  assumes inv: "life_inv x" and step: "life_step u os acc S x y" and stay: "\<not> gone (l_main y)"
  shows "l_pool y = l_pool x \<or> calls_step u os acc S (l_pool x) (l_pool y)" "\<not> gone (l_main x)"
proof -
  have "(l_pool y = l_pool x \<or> calls_step u os acc S (l_pool x) (l_pool y)) \<and> \<not> gone (l_main x)"
    using step
  proof cases
    case (main a)
    then show ?thesis using main_call_pool(1) [OF main(4) stay main(2,1)] main_call_gone [OF main(4)] stay by blast
  next
    case (thread n)
    obtain r where r: "call_step u os (c_fd (cp_conns (l_pool x) ! n)) (life_thread x n) (cp_world (l_pool x)) = Some r"
      "l_pool y = after_call S n r (l_pool x)" "l_main y = l_main x" "active_conn (l_pool x) n"
      by (rule thread_call_pool [OF inv thread(2,3,5)])
    have "calls_step u os acc S (l_pool x) (after_call S n r (l_pool x))"
      using thread(1,3,4) r(1,4) by (intro calls_step.thread [OF thread(1) _ refl]) (simp_all add: active_conn_def life_thread_def)
    then show ?thesis using r stay by simp
  next
    case (stamp str pt c w)
    then show ?thesis using calls_step.stamp [OF stamp(2-6), of acc S] stay by simp
  qed
  then show "l_pool y = l_pool x \<or> calls_step u os acc S (l_pool x) (l_pool y)" "\<not> gone (l_main x)" by blast+
qed

lemma life_pool_reach:
  assumes init: "nothing_allocated s0"
    and reach: "(life_step u os acc S)\<^sup>*\<^sup>* (start_life s0 w0) x" and stay: "\<not> gone (l_main x)"
  shows "(calls_step u os acc S)\<^sup>*\<^sup>* (start_calls w0) (l_pool x)"
  using reach stay
proof (induction rule: rtranclp_induct)
  case base
  show ?case by (simp add: start_life_def)
next
  case (step x y)
  have "life_inv x" by (rule life_reach_inv [OF init step.hyps(1)])
  from life_step_pool [OF this step.hyps(2) step.prems] step.IH show ?case by (metis rtranclp.rtrancl_into_rtrancl)
qed

end
