(* ===== verification/Whole_Log.thy ===== *)
theory Whole_Log
  imports Whole_Calls
begin

text \<open>
  The running server on a system that serves: its threads are those of \<open>Call_Pool\<close>, so the file is
  one history of its clients' packets, and \<open>main\<close> always comes back to \<open>accept\<close>.
\<close>

section \<open>A connection that got no thread\<close>

text \<open>
  When \<open>pthread_create\<close> has failed, the threads that are there go on until \<open>main\<close> has returned. The
  pool without the connection that \<open>main\<close> closes keeps its invariant.
\<close>

definition kept_pool :: "'w life \<Rightarrow> 'w call_pool" where
  "kept_pool x =
     (if gone (l_main x) then (l_pool x)\<lparr>cp_conns := butlast (cp_conns (l_pool x)), cp_exit := None\<rparr> else l_pool x)"

definition log_inv ::
  "bool \<Rightarrow> ('w, 'f) server_view \<Rightarrow> ('w \<Rightarrow> int \<Rightarrow> bool) \<Rightarrow> 'f \<Rightarrow> history \<Rightarrow> 'w life \<Rightarrow> bool" where
  "log_inv u S live f0 h x \<longleftrightarrow>
     calls_inv u S live f0 h (kept_pool x) \<and> numbered h (length (l_args x)) \<and>
     (cp_exit (l_pool x) = None \<or> cp_exit (l_pool x) = Some 0 \<and> l_main x = M_returned)"

lemma kept_pool_fields:
  "cp_world (kept_pool x) = cp_world (l_pool x)" "cp_mutex (kept_pool x) = cp_mutex (l_pool x)"
  "cp_stamp (kept_pool x) = cp_stamp (l_pool x)" "cp_stamp_conn (kept_pool x) = cp_stamp_conn (l_pool x)"
  by (simp_all add: kept_pool_def)

lemma kept_conns:
  assumes "life_inv x"
  shows "length (l_args x) \<le> length (cp_conns (kept_pool x))"
    "gone (l_main x) \<Longrightarrow> length (cp_conns (kept_pool x)) = length (l_args x)"
    "n < length (cp_conns (kept_pool x)) \<Longrightarrow> cp_conns (kept_pool x) ! n = cp_conns (l_pool x) ! n"
proof -
  have "length (cp_conns (l_pool x)) = Suc (length (l_args x))" if "gone (l_main x)"
    using assms that by (cases "l_main x") (simp_all add: life_inv_def clients_ok_def)
  then show "length (l_args x) \<le> length (cp_conns (kept_pool x))"
    "gone (l_main x) \<Longrightarrow> length (cp_conns (kept_pool x)) = length (l_args x)"
    using assms clients_ok_args [of x] by (simp_all add: kept_pool_def life_inv_def)
  show "n < length (cp_conns (kept_pool x)) \<Longrightarrow> cp_conns (kept_pool x) ! n = cp_conns (l_pool x) ! n"
    by (auto simp: kept_pool_def nth_butlast)
qed

lemma refused_calls_inv:
  assumes sv: "served_calls u os acc S live w0" and inv: "calls_inv u S live f0 h p"
    and k: "cp_conns p = ks @ [k]" "c_thread k = new_call_thread" and num: "numbered h (length ks)"
  shows "calls_inv u S live f0 h (p\<lparr>cp_world := snd (sys_close os (cp_world p) (c_fd k)), cp_conns := ks\<rparr>)"
proof -
  let ?w = "cp_world p" and ?w' = "snd (sys_close os (cp_world p) (c_fd k))"
  let ?p = "p\<lparr>cp_world := ?w', cp_conns := ks\<rparr>"
  have S: "serves_clients os S" and D: "serves_descriptors os S live" using sv by (simp_all add: served_calls_def)
  have w: "s_ok S ?w" and fds: "distinct_fds p" and mi: "mutex_inv p" using inv by (simp_all add: calls_inv_def)
  have last: "active_conn p (length ks)" "cp_conns p ! length ks = k"
    using k by (simp_all add: active_conn_def new_call_thread_def call_active_def)
  have l: "live ?w (c_fd k)"
    using inv last by (auto simp: calls_inv_def connection_inv_def active_conn_def)
  have u: "same_world S ?w ?w'" by (rule hangup_call [OF S w])
  have kl: "live ?w' = (live ?w)(c_fd k := False)" and kf: "keeps_files S ?w ?w'"
    using D w l by (simp_all add: serves_descriptors_def keeps_live_def)
  have old: "cp_conns p ! i = ks ! i" "active_conn ?p i \<longleftrightarrow> active_conn p i" if "i < length ks" for i
    using that k by (simp_all add: active_conn_def nth_append)
  have act: "active_conn ?p i \<Longrightarrow> active_conn p i \<and> i < length ks" for i
    using old by (auto simp: active_conn_def)
  have "connection_inv u S live f0 h i (ks ! i) ?w'" if i: "i < length ks" for i
  proof -
    have ki: "connection_inv u S live f0 h i (ks ! i) ?w"
    proof -
      have "i < length (cp_conns p)" using i k by simp
      then show ?thesis using inv old(1) [OF i] unfolding calls_inv_def by metis
    qed
    have "c_fd (ks ! i) \<noteq> c_fd k" if "call_active (c_thread (ks ! i))"
    proof -
      have "active_conn p i" using i k that by (simp add: active_conn_def nth_append)
      then show ?thesis using fds last i old(1) [OF i] unfolding distinct_fds_def by (metis less_irrefl)
    qed
    then show ?thesis
      using connection_frame(1) [OF ki, where es = "[]" and w' = ?w'] u kl kf by (auto simp: same_world_def)
  qed
  moreover have "live_owned live ?p"
    unfolding live_owned_def
  proof (intro allI impI)
    fix fd assume "live (cp_world ?p) fd"
    then have fd: "live ?w fd" "fd \<noteq> c_fd k" using kl by (simp_all split: if_splits)
    then obtain n where n: "active_conn p n" "c_fd (cp_conns p ! n) = fd"
      using inv by (auto simp: calls_inv_def live_owned_def)
    then have "n \<noteq> length ks" using fd(2) last(2) by auto
    then have "n < length ks" using n(1) k by (simp add: active_conn_def)
    then show "\<exists>n. active_conn ?p n \<and> c_fd (cp_conns ?p ! n) = fd"
      using n old by (intro exI [of _ n]) simp
  qed
  moreover have "mutex_inv ?p"
  proof -
    have "cp_mutex p \<noteq> Connection (length ks)"
      using mutex_inv_conn [OF mi, of "length ks"] k by (simp add: new_call_thread_def new_conn_def)
    then show ?thesis using mi k by (auto simp: mutex_inv_def nth_append Let_def less_Suc_eq)
  qed
  moreover have "distinct_fds ?p"
    unfolding distinct_fds_def
  proof (intro allI impI)
    fix i j assume ij: "active_conn ?p i" "active_conn ?p j" "i \<noteq> j"
    then have "c_fd (cp_conns p ! i) \<noteq> c_fd (cp_conns p ! j)" using act fds unfolding distinct_fds_def by blast
    then show "c_fd (cp_conns ?p ! i) \<noteq> c_fd (cp_conns ?p ! j)" using act [OF ij(1)] act [OF ij(2)] old(1) by simp
  qed
  moreover have "stamp_inv S ?w' (cp_stamp_conn p) (cp_stamp p)"
    using stamp_frame [of S ?w "cp_stamp_conn p" "cp_stamp p" ?w'] inv kf u by (simp add: calls_inv_def same_world_def)
  ultimately show ?thesis using inv u num by (simp add: calls_inv_def same_world_def)
qed

lemma new_entries: "numbered h m \<Longrightarrow> n < m \<Longrightarrow> \<forall>e \<in> set es. fst e = Some (int n) \<or> fst e = None \<Longrightarrow> numbered (h @ es) m"
  by (fastforce simp: numbered_def)

text \<open>A call of a thread, and one of the timestamp thread.\<close>

lemma thread_log_inv:
  assumes sv: "served_calls u os acc S live w0" and inv: "life_inv x" and log: "log_inv u S live f0 h x"
    and ex: "cp_exit (l_pool x) = None" and n: "n < length (l_args x)" "call_active (life_thread x n)"
    and may: "may_call (cp_mutex (l_pool x)) (life_thread x n)" and step: "thread_call u os S n x = Some y"
  shows "\<exists>es. log_inv u S live f0 (h @ es) y" "busy_step u os S (kept_pool x) (kept_pool y)"
proof -
  obtain r where r: "call_step u os (c_fd (cp_conns (l_pool x) ! n)) (life_thread x n) (cp_world (l_pool x)) = Some r"
    "l_pool y = after_call S n r (l_pool x)" "l_main y = l_main x" "l_args y = l_args x"
    by (rule thread_call_pool [OF inv n step])
  have c: "calls_inv u S live f0 h (kept_pool x)" and num: "numbered h (length (l_args x))"
    using log by (simp_all add: log_inv_def)
  have len: "n < length (cp_conns (kept_pool x))" using kept_conns(1) [OF inv] n(1) by simp
  note k = kept_conns(3) [OF inv len] kept_pool_fields [of x]
  have act: "active_conn (kept_pool x) n" using len n(2) by (simp add: active_conn_def k life_thread_def)
  have "may_call (cp_mutex (kept_pool x)) (c_thread (cp_conns (kept_pool x) ! n))"
    using may by (simp add: k life_thread_def)
  from thread_calls_inv [OF sv c act this] obtain es where es: "calls_inv u S live f0 (h @ es) (after_call S n r (kept_pool x))"
    "\<forall>e \<in> set es. fst e = Some (int n)"
    using r(1) by (auto simp: k life_thread_def)
  obtain t w where tw: "r = (t, w)" by fastforce
  have alive: "\<forall>st. ct_phase t \<noteq> Process_exit st"
  proof -
    have "cp_exit (after_call S n (t, w) (kept_pool x)) = None" using es(1) tw by (simp add: calls_inv_def)
    then show ?thesis by (auto simp: after_call_def Let_def split: call_phase.splits)
  qed
  have "butlast ((cp_conns (l_pool x))[n := k']) = (butlast (cp_conns (l_pool x)))[n := k']" if "gone (l_main x)" for k'
    using len that by (cases "cp_conns (l_pool x)" rule: rev_cases) (auto simp: kept_pool_def list_update_append)
  then have y: "kept_pool y = after_call S n r (kept_pool x)"
    using r(2,3) alive k by (simp add: kept_pool_def after_call_def tw Let_def split: call_phase.split if_splits)
  have "cp_exit (kept_pool x) = None" using c by (simp add: calls_inv_def)
  then show "busy_step u os S (kept_pool x) (kept_pool y)"
    unfolding y using act may r(1) by (intro busy_step.thread) (simp_all add: k life_thread_def)
  have "numbered (h @ es) (length (l_args y))" using new_entries [OF num n(1), of es] es(2) r(4) by simp
  moreover have "cp_exit (l_pool y) = None" using r(2) alive ex by (simp add: after_call_def tw Let_def split: call_phase.split)
  ultimately show "\<exists>es. log_inv u S live f0 (h @ es) y" using es(1) y by (auto simp: log_inv_def)
qed

lemma stamp_log_inv:
  assumes sv: "served_calls u os acc S live w0" and inv: "life_inv x" and log: "log_inv u S live f0 h x"
    and ex: "cp_exit (l_pool x) = None" and str: "\<not> u" "time_string str"
    and may: "may_stamp (cp_mutex (l_pool x)) (cp_stamp (l_pool x))"
    and step: "stamp_step os str (cp_stamp (l_pool x)) (cp_stamp_conn (l_pool x)) (cp_world (l_pool x)) = Some (pt, c, w)"
  shows "\<exists>es. log_inv u S live f0 (h @ es) (x\<lparr>l_pool := (l_pool x)\<lparr>cp_world := w, cp_stamp := pt, cp_stamp_conn := c,
    cp_mutex := mutex_after Timestamp (cp_stamp_conn (l_pool x)) c (cp_mutex (l_pool x))\<rparr>\<rparr>)" (is "\<exists>es. log_inv _ _ _ _ _ ?y")
proof -
  have ci: "calls_inv u S live f0 h (kept_pool x)" and num: "numbered h (length (l_args x))"
    using log by (simp_all add: log_inv_def)
  have "may_stamp (cp_mutex (kept_pool x)) (cp_stamp (kept_pool x))" using may by (simp add: kept_pool_fields)
  from stamp_calls_inv [OF sv ci str this] obtain es where
    "calls_inv u S live f0 (h @ es) ((kept_pool x)\<lparr>cp_world := w, cp_stamp := pt, cp_stamp_conn := c,
       cp_mutex := mutex_after Timestamp (cp_stamp_conn (l_pool x)) c (cp_mutex (l_pool x))\<rparr>)"
    "\<forall>e \<in> set es. fst e = None"
    using step by (auto simp: kept_pool_fields)
  moreover from this(2) have "numbered (h @ es) (length (l_args x))" using num by (fastforce simp: numbered_def)
  moreover have "kept_pool ?y = (kept_pool x)\<lparr>cp_world := w, cp_stamp := pt, cp_stamp_conn := c,
       cp_mutex := mutex_after Timestamp (cp_stamp_conn (l_pool x)) c (cp_mutex (l_pool x))\<rparr>"
    by (simp add: kept_pool_def)
  ultimately show ?thesis using ex by (intro exI [of _ es]) (simp add: log_inv_def)
qed

text \<open>A call of \<open>main\<close>.\<close>

lemma main_log_inv:
  assumes sv: "served_calls u os acc S live w0" and inv: "life_inv x" and log: "log_inv u S live f0 h x"
    and ex: "cp_exit (l_pool x) = None" and a: "main_answers acc a x" and call: "main_call os acc S a x = Some y"
  shows "\<exists>es. log_inv u S live f0 (h @ es) y"
proof -
  have c: "calls_inv u S live f0 h (kept_pool x)" and num: "numbered h (length (l_args x))"
    using log by (simp_all add: log_inv_def)
  have args: "length (l_args x) \<le> length (l_args y)"
    using call by (auto simp: main_call_def main_effect_def Let_def split: bind_splits main_point.splits if_splits)
  show ?thesis
  proof (cases "gone (l_main y)")
    case False
    then have x: "\<not> gone (l_main x)" using main_call_gone [OF call] by blast
    then have c': "calls_inv u S live f0 h (l_pool x)" using c by (simp add: kept_pool_def)
    from main_call_pool(1) [OF call False a ex, of u] have "\<exists>es. calls_inv u S live f0 (h @ es) (l_pool y) \<and> (es = [])"
    proof
      assume "l_pool y = l_pool x"
      then show ?thesis using c' by simp
    next
      assume "calls_step u os acc S (l_pool x) (l_pool y)"
      show ?thesis
      proof (cases "l_main x = M_accept")
        case True
        obtain w where acc: "acc (cp_world (l_pool x)) = (a_fd a, w)"
          using a True by (cases "acc (cp_world (l_pool x))") (simp add: main_answers_def)
        show ?thesis using accept_calls_inv [OF sv c' acc] call True acc
          by (cases "a_fd a = - 1") (auto simp: main_call_def main_step_def main_effect_def Let_def)
      next
        case False
        then show ?thesis using main_call_pool(2) [OF call \<open>\<not> gone (l_main y)\<close> a ex] c' by simp
      qed
    qed
    then show ?thesis using False numbered_mono [OF num args]
      by (intro exI [of _ "[]"]) (auto simp: log_inv_def kept_pool_def calls_inv_def)
  next
    case True
    consider (close) fd p where "l_main x = M_close fd p" | (free) p where "l_main x = M_free_new p" | (ret) "l_main x = M_returned"
      using call True by (cases "l_main x") (auto simp: main_call_def main_step_def split: bind_splits if_splits)
    then show ?thesis
    proof cases
      case close
      obtain ks k where k: "cp_conns (l_pool x) = ks @ [k]" "length (l_args x) = length ks" "c_fd k = fd"
        "c_thread k = new_call_thread" using inv close by (auto simp: life_inv_def clients_ok_def)
      have "calls_inv u S live f0 h (l_pool x)" using c close by (simp add: kept_pool_def)
      from refused_calls_inv [OF sv this k(1,4)] num k(2,3)
      have "calls_inv u S live f0 h ((l_pool x)\<lparr>cp_world := snd (sys_close os (cp_world (l_pool x)) fd), cp_conns := ks\<rparr>)"
        by simp
      then have "calls_inv u S live f0 h
          ((l_pool x)\<lparr>cp_world := snd (sys_close os (cp_world (l_pool x)) fd), cp_conns := ks, cp_exit := None\<rparr>)"
        using ex by (cases "l_pool x") simp
      moreover have "l_main y = M_free_new p" "l_args y = l_args x"
        "l_pool y = (l_pool x)\<lparr>cp_world := snd (sys_close os (cp_world (l_pool x)) fd)\<rparr>"
        using call close by (auto simp: main_call_def main_step_def main_effect_def Let_def)
      ultimately show ?thesis using k num ex
        by (intro exI [of _ "[]"]) (simp add: log_inv_def kept_pool_def)
    next
      case free
      then have "l_main y = M_returned" "l_args y = l_args x" "l_pool y = l_pool x"
        using call by (auto simp: main_call_def main_step_def main_effect_def Let_def split: bind_splits)
      then show ?thesis using c num ex free by (intro exI [of _ "[]"]) (simp add: log_inv_def kept_pool_def)
    next
      case ret
      then have "l_main y = M_returned" "l_args y = l_args x" "l_pool y = (l_pool x)\<lparr>cp_exit := Some 0\<rparr>"
        using call by (auto simp: main_call_def main_step_def main_effect_def Let_def)
      then show ?thesis using c num ret by (intro exI [of _ "[]"]) (simp add: log_inv_def kept_pool_def)
    qed
  qed
qed

lemma life_log_inv:
  assumes sv: "served_calls u os acc S live w0" and init: "nothing_allocated s0"
    and reach: "(life_step u os acc S)\<^sup>*\<^sup>* (start_life s0 w0) x"
  shows "\<exists>h. log_inv u S live (s_file S w0) h x"
  using reach
proof (induction rule: rtranclp_induct)
  case base
  have "s_ok S w0" "\<forall>fd. \<not> live w0 fd" using sv by (simp_all add: served_calls_def)
  then have "log_inv u S live (s_file S w0) [] (start_life s0 w0)"
    using start_calls_inv [of S w0 live u] by (simp add: log_inv_def kept_pool_def start_life_def start_calls_def numbered_def)
  then show ?case by blast
next
  case (step x y)
  then obtain h where h: "log_inv u S live (s_file S w0) h x" by blast
  have inv: "life_inv x" by (rule life_reach_inv [OF init step.hyps(1)])
  from step.hyps(2) show ?case
  proof cases
    case (main a)
    then show ?thesis using main_log_inv [OF sv inv h] by blast
  next
    case (thread n)
    then show ?thesis using thread_log_inv [OF sv inv h] by blast
  next
    case (stamp str pt c w)
    then show ?thesis using stamp_log_inv [OF sv inv h] by blast
  qed
qed

section \<open>The log\<close>

text \<open>What the invariant says of a connection.\<close>

lemma log_inv_conns:
  assumes sv: "served_calls u os acc S live w0" and inv: "life_inv x" and log: "log_inv u S live f0 h x"
    and n: "n < length (cp_conns (l_pool x))" "n < length (l_args x) \<or> \<not> gone (l_main x)"
  shows "let k = cp_conns (l_pool x) ! n in \<exists>rest todo.
      c_stream k = concat (packets_of (int n) h) @ rest \<and>
      sent_to S (cp_world (l_pool x)) k @ todo = replies S f0 (int n) h \<and>
      (holds (ct_conn (c_thread k)) \<or> todo = []) \<and> (call_active (c_thread k) \<or> waiting u rest) \<and>
      (n < length (l_args x) \<and> call_active (c_thread k) \<longrightarrow> (\<exists>y. thread_call u os S n x = Some y))"
proof -
  have c: "calls_inv u S live f0 h (kept_pool x)" using log by (simp add: log_inv_def)
  have n': "n < length (cp_conns (kept_pool x))" using n kept_conns(1) [OF inv] by (auto simp: kept_pool_def)
  have "\<exists>y. thread_call u os S n x = Some y" if "n < length (l_args x)" "call_active (life_thread x n)"
    "\<exists>r. call_step u os (c_fd (cp_conns (l_pool x) ! n)) (life_thread x n) (cp_world (l_pool x)) = Some r"
  proof -
    have "ct_phase (life_thread x n) \<noteq> Ended" using that(2) by (auto simp: call_active_def)
    then show ?thesis using that(3) thread_call_defined [OF inv that(1), of u os S] by auto
  qed
  then show ?thesis using calls_inv_log [OF sv c n']
    unfolding kept_conns(3) [OF inv n'] kept_pool_fields life_thread_def Let_def by blast
qed

text \<open>
  C10: from the start of the accept loop on, however the calls of \<open>main\<close>, of the connection threads
  and of the timestamp thread interleave, the file is at every moment what one history makes of
  it: packets that were stored, one after the other, and seek commands that were answered. Each
  connection's entries stand in it in the order its client sent them, and the client was sent
  exactly the answers to them, each with the file as it was at that entry; only while its thread
  has the mutex can a part of the last answer be missing. What a client sent and is in no entry is
  still on its way, or, when its thread has ended, the beginning of a line or something after a
  seek command that was refused; nothing of a connection without a thread is stored. The next call
  of a thread is always defined, and nothing ends the process but the return of \<open>main\<close>, which a
  failed \<open>pthread_create\<close> causes; even then the file is what the history makes of it. All this on a
  system that serves (\<open>served_calls\<close>): no \<open>send\<close> fails there, so the \<open>exit(1)\<close> after a failed \<open>send\<close>
  (:236, :280) is outside it, as is a failed write of the file.
\<close>

theorem server_shares_one_log:
  assumes "served_calls u os acc S live w0" "nothing_allocated s0"
    and "(life_step u os acc S)\<^sup>*\<^sup>* (start_life s0 w0) x"
  shows "(cp_exit (l_pool x) = None \<or> cp_exit (l_pool x) = Some 0 \<and> l_main x = M_returned) \<and>
    (\<exists>h. s_file S (cp_world (l_pool x)) = file_after S (s_file S w0) h \<and> right_history u S (s_file S w0) h \<and>
       (\<forall>n \<ge> length (l_args x). packets_of (int n) h = []) \<and>
       (\<forall>n < length (cp_conns (l_pool x)). n < length (l_args x) \<or> \<not> gone (l_main x) \<longrightarrow>
          (let k = cp_conns (l_pool x) ! n in \<exists>rest todo.
             c_stream k = concat (packets_of (int n) h) @ rest \<and>
             sent_to S (cp_world (l_pool x)) k @ todo = replies S (s_file S w0) (int n) h \<and>
             (holds (ct_conn (c_thread k)) \<or> todo = []) \<and>
             (call_active (c_thread k) \<or> waiting u rest) \<and>
             (n < length (l_args x) \<and> call_active (c_thread k) \<longrightarrow> (\<exists>y. thread_call u os S n x = Some y)))))"
proof -
  note inv = life_reach_inv [OF assms(2,3)]
  obtain h where log: "log_inv u S live (s_file S w0) h x" using life_log_inv [OF assms] by blast
  then have c: "calls_inv u S live (s_file S w0) h (kept_pool x)" and num: "numbered h (length (l_args x))"
    by (simp_all add: log_inv_def)
  note conns = log_inv_conns [OF assms(1) inv log]
  have "packets_of (int n) h = []" if "length (l_args x) \<le> n" for n
    using numbered_new(1) [OF numbered_mono [OF num that]] .
  then show ?thesis using log c conns
    by (intro conjI exI [of _ h]) (simp_all add: log_inv_def calls_inv_def kept_pool_fields)
qed

section \<open>Coming back to \<open>accept\<close>\<close>

text \<open>
  Every call but those of \<open>accept\<close> and the wake-up of the timestamp thread: what \<open>main\<close> does until the
  next \<open>accept\<close>, or until it has returned because \<open>pthread_create\<close> failed, what the connection threads do,
  and the rest of a round of the timestamp thread.
\<close>

inductive between_accepts ::
  "bool \<Rightarrow> 'w os \<Rightarrow> ('w \<Rightarrow> int \<times> 'w) \<Rightarrow> ('w, 'f) server_view \<Rightarrow> 'w life \<Rightarrow> 'w life \<Rightarrow> bool"
  for use_char os acc S where
  main: "cp_exit (l_pool x) = None \<Longrightarrow> l_main x \<noteq> M_accept \<Longrightarrow> main_answers acc a x \<Longrightarrow> may_main x \<Longrightarrow>
     main_call os acc S a x = Some y \<Longrightarrow> between_accepts use_char os acc S x y"
| thread: "cp_exit (l_pool x) = None \<Longrightarrow> n < length (l_args x) \<Longrightarrow> call_active (life_thread x n) \<Longrightarrow>
     may_call (cp_mutex (l_pool x)) (life_thread x n) \<Longrightarrow> thread_call use_char os S n x = Some y \<Longrightarrow>
     between_accepts use_char os acc S x y"
| stamp: "cp_exit (l_pool x) = None \<Longrightarrow> \<not> use_char \<Longrightarrow> cp_stamp (l_pool x) \<noteq> S_sleep \<Longrightarrow> time_string str \<Longrightarrow>
     may_stamp (cp_mutex (l_pool x)) (cp_stamp (l_pool x)) \<Longrightarrow>
     stamp_step os str (cp_stamp (l_pool x)) (cp_stamp_conn (l_pool x)) (cp_world (l_pool x)) = Some (pt, c, w) \<Longrightarrow>
     between_accepts use_char os acc S x (x\<lparr>l_pool := (l_pool x)\<lparr>cp_world := w, cp_stamp := pt, cp_stamp_conn := c,
       cp_mutex := mutex_after Timestamp (cp_stamp_conn (l_pool x)) c (cp_mutex (l_pool x))\<rparr>\<rparr>)"

lemma between_life_step: "between_accepts u os acc S x y \<Longrightarrow> life_step u os acc S x y"
  by (induction rule: between_accepts.induct) (blast intro: life_step.intros)+

lemma between_reach: "(between_accepts u os acc S)\<^sup>*\<^sup>* x y \<Longrightarrow> (life_step u os acc S)\<^sup>*\<^sup>* x y"
  by (rule rtranclp_mono [THEN predicate2D]) (auto intro: between_life_step)

lemma gone_gives_up: "gone pt \<Longrightarrow> gives_up pt"
  by (cases pt) simp_all

text \<open>
  What is left to do gets less: first the way to the end after a failed \<open>pthread_create\<close>, then the
  threads' work, then that of \<open>main\<close>.
\<close>

fun give_up_stage :: "main_point \<Rightarrow> nat" where
  "give_up_stage (M_close fd p) = 3"
| "give_up_stage (M_free_new p) = 2"
| "give_up_stage M_returned = 1"
| "give_up_stage _ = 4"

definition life_stage :: "'w life \<Rightarrow> nat" where
  "life_stage x = (if cp_exit (l_pool x) = None then give_up_stage (l_main x) else 0)"

definition less5 :: "((nat \<times> (nat \<times> nat \<times> nat) \<times> nat) \<times> (nat \<times> (nat \<times> nat \<times> nat) \<times> nat)) set" where
  "less5 = less_than <*lex*> less3 <*lex*> less_than"

lemma wf_less5: "wf less5"
  by (simp add: less5_def wf_less3 wf_lex_prod)

definition life_work :: "('w, 'f) server_view \<Rightarrow> 'w life \<Rightarrow> ptr list \<Rightarrow> ptr list \<Rightarrow> nat \<times> (nat \<times> nat \<times> nat) \<times> nat" where
  "life_work S x ks ys = (life_stage x, pool_work S (kept_pool x), main_rank (l_main x) ks ys)"

lemma stage_positive: "give_up_stage pt > 0" "\<not> gives_up pt \<Longrightarrow> give_up_stage pt = 4"
  by (cases pt; simp)+

lemma main_call_stage:
  assumes "main_call os acc S a x = Some y" "l_main x \<noteq> M_accept" "cp_exit (l_pool x) = None" "gives_up (l_main x) \<or> gives_up (l_main y)"
  shows "life_stage y < life_stage x"
  using assms by (cases "l_main x")
    (auto simp: main_call_def main_step_def main_effect_def life_stage_def Let_def split: bind_splits if_splits)

lemma between_inv:
  assumes sv: "served_calls u os acc S live w0" and inv: "life_inv x" and ok: "main_ok (l_main x) ks ys (l_server x)"
    and log: "log_inv u S live f0 h x" and step: "between_accepts u os acc S x y"
  shows "life_inv y \<and> (\<exists>h' ks' ys'. log_inv u S live f0 h' y \<and> main_ok (l_main y) ks' ys' (l_server y) \<and>
    (life_work S y ks' ys', life_work S x ks ys) \<in> less5)"
  using step
proof cases
  case (main a)
  obtain ks' ys' where m: "life_inv y" "main_ok (l_main y) ks' ys' (l_server y)"
    "in_iteration (l_main x) \<longrightarrow> main_rank (l_main y) ks' ys' < main_rank (l_main x) ks ys"
    using main_life_inv [where os = os and S = S, OF inv ok main(1,3,4)] main(5) by auto
  have less: "(life_work S y ks' ys', life_work S x ks ys) \<in> less5"
  proof (cases "gives_up (l_main x) \<or> gives_up (l_main y)")
    case True
    then show ?thesis using main_call_stage [OF main(5,2,1)] by (simp add: life_work_def less5_def)
  next
    case False
    then have "\<not> gone (l_main x)" "\<not> gone (l_main y)" using gone_gives_up by blast+
    moreover from this have "l_pool y = l_pool x" using main_call_pool(2) [OF main(5) _ main(3,1,2)] by blast
    moreover have "in_iteration (l_main x)" using False main(2) by (auto simp: in_iteration_def)
    ultimately show ?thesis using False m(3) by (simp add: life_work_def less5_def life_stage_def kept_pool_def stage_positive)
  qed
  from main_log_inv [OF sv inv log main(1,3,5)] m(1,2) less show ?thesis by blast
next
  case (thread n)
  note l = thread_log_inv [OF sv inv log thread]
  have inv': "life_inv y" by (rule thread_life_inv [OF inv thread(2-5)])
  obtain r where "l_main y = l_main x" by (rule thread_call_pool [OF inv thread(2,3,5)])
  then have "life_stage y \<le> life_stage x" using thread(1) by (simp add: life_stage_def)
  moreover have "calls_inv u S live f0 h (kept_pool x)" using log by (simp add: log_inv_def)
  moreover obtain ks' ys' where "main_ok (l_main y) ks' ys' (l_server y)" using inv' by (auto simp: life_inv_def)
  ultimately show ?thesis using inv' l(1) busy_step_inv(2) [OF sv _ l(2)]
    by (auto simp: life_work_def less5_def)
next
  case (stamp str pt c' w)
  have inv': "life_inv y" using life_step_inv [OF inv between_life_step [OF step]] .
  have ex: "cp_exit (kept_pool x) = None" and c: "calls_inv u S live f0 h (kept_pool x)"
    using log by (simp_all add: log_inv_def calls_inv_def)
  have "busy_step u os S (kept_pool x) ((kept_pool x)\<lparr>cp_world := w, cp_stamp := pt, cp_stamp_conn := c',
      cp_mutex := mutex_after Timestamp (cp_stamp_conn (kept_pool x)) c' (cp_mutex (kept_pool x))\<rparr>)"
    by (rule busy_step.stamp [OF ex]) (use stamp in \<open>simp_all add: kept_pool_fields\<close>)
  moreover have "kept_pool y = (kept_pool x)\<lparr>cp_world := w, cp_stamp := pt, cp_stamp_conn := c',
      cp_mutex := mutex_after Timestamp (cp_stamp_conn (kept_pool x)) c' (cp_mutex (kept_pool x))\<rparr>"
    by (simp add: stamp(1) kept_pool_def)
  ultimately have busy: "busy_step u os S (kept_pool x) (kept_pool y)" by simp
  have "life_stage y = life_stage x" by (simp add: life_stage_def stamp(1))
  moreover obtain ks' ys' where "main_ok (l_main y) ks' ys' (l_server y)" using inv' by (auto simp: life_inv_def)
  moreover have "\<exists>h'. log_inv u S live f0 h' y" using stamp_log_inv [OF sv inv log stamp(2,3,5-7)] stamp(1) by blast
  ultimately show ?thesis using inv' busy_step_inv(2) [OF sv c busy] by (auto simp: life_work_def less5_def)
qed

text \<open>So it does not go on for ever.\<close>

lemma work_ends:
  assumes sv: "served_calls u os acc S live w0"
  shows "life_inv x \<Longrightarrow> main_ok (l_main x) ks ys (l_server x) \<Longrightarrow> log_inv u S live f0 h x \<Longrightarrow> f 0 = x \<Longrightarrow>
    \<not> (\<forall>i :: nat. between_accepts u os acc S (f i) (f (Suc i)))"
proof (induction "life_work S x ks ys" arbitrary: x ks ys h f rule: wf_induct_rule [OF wf_less5])
  case less: (1 x ks ys)
  show ?case
  proof
    assume run: "\<forall>i. between_accepts u os acc S (f i) (f (Suc i))"
    then have "between_accepts u os acc S x (f (Suc 0))" using less.prems(4) by metis
    from between_inv [OF sv less.prems(1-3) this] obtain h' ks' ys' where y: "life_inv (f (Suc 0))"
      "log_inv u S live f0 h' (f (Suc 0))" "main_ok (l_main (f (Suc 0))) ks' ys' (l_server (f (Suc 0)))"
      "(life_work S (f (Suc 0)) ks' ys', life_work S x ks ys) \<in> less5" by blast
    have "\<not> (\<forall>i. between_accepts u os acc S (f (Suc i)) (f (Suc (Suc i))))"
      by (rule less.hyps [where f = "\<lambda>i. f (Suc i)", OF y(4,1,3,2) refl])
    then show False using run by blast
  qed
qed

lemma between_ends:
  assumes "served_calls u os acc S live w0" "nothing_allocated s0"
    and "(life_step u os acc S)\<^sup>*\<^sup>* (start_life s0 w0) x" "f 0 = x"
  shows "\<not> (\<forall>i :: nat. between_accepts u os acc S (f i) (f (Suc i)))"
proof -
  have inv: "life_inv x" by (rule life_reach_inv [OF assms(2,3)])
  obtain ks ys where "main_ok (l_main x) ks ys (l_server x)" using inv by (auto simp: life_inv_def)
  moreover obtain h where "log_inv u S live (s_file S w0) h x" using life_log_inv [OF assms(1-3)] by blast
  ultimately show ?thesis using work_ends [OF assms(1) inv] assms(4) by blast
qed

text \<open>When nothing is left to do, \<open>main\<close> is at \<open>accept\<close>, not waiting for a thread, or has ended the process.\<close>

lemma stuck_main:
  assumes inv: "life_inv x" and ex: "cp_exit (l_pool x) = None" and pt: "l_main x \<noteq> M_accept"
  shows "\<exists>a y. main_answers acc a x \<and> a_rc a = 0 \<and> may_main x \<and> main_call os acc S a x = Some y \<or>
    (\<exists>n y. n < length (l_args x) \<and> call_active (life_thread x n) \<and> may_call (cp_mutex (l_pool x)) (life_thread x n) \<and>
       thread_call u os S n x = Some y)"
proof -
  obtain ks ys where ok: "main_ok (l_main x) ks ys (l_server x)" using inv by (auto simp: life_inv_def)
  obtain a where "fresh_answers a (l_server x)" and rc: "a_rc a = 0" using main_ok_fresh [OF ok] by blast
  then have a: "main_answers acc a x" using pt by (simp add: main_answers_def)
  show ?thesis
  proof (cases "may_main x")
    case True
    then show ?thesis using main_life_inv [where os = os and S = S, OF inv ok ex a] a rc by blast
  next
    case False
    then obtain item tmp where j: "l_main x = M_join item tmp"
      and n: "ct_phase (life_thread x (l_ids x (td_thread (td (l_server x) item)))) \<noteq> Ended"
      by (auto simp: may_main_def split: main_point.splits)
    let ?n = "l_ids x (td_thread (td (l_server x) item))"
    note t = joined_thread [OF inv j refl]
    have closing: "ct_phase (life_thread x ?n) = Closing" using t(3) n by blast
    then have "\<exists>y. thread_call u os S ?n x = Some y"
      using thread_call_defined [OF inv t(1) n, of u os S] by (simp add: call_step_def)
    moreover have "call_active (life_thread x ?n)" "may_call (cp_mutex (l_pool x)) (life_thread x ?n)"
      using closing by (simp_all add: call_active_def may_call_def)
    ultimately show ?thesis using t(1) by blast
  qed
qed

lemma between_stuck:
  assumes "life_inv x" "\<nexists>y. between_accepts u os acc S x y" "cp_exit (l_pool x) = None"
  shows "l_main x = M_accept"
  using stuck_main [OF assms(1,3), of acc os S u] assms(2,3) between_accepts.main between_accepts.thread by metis

lemma stuck_pool:
  assumes inv: "life_inv x" and pt: "l_main x = M_accept" and stuck: "\<nexists>y. between_accepts u os acc S x y"
  shows "\<nexists>q. busy_step u os S (l_pool x) q"
proof
  assume "\<exists>q. busy_step u os S (l_pool x) q"
  then obtain q where "busy_step u os S (l_pool x) q" by blast
  then show False
  proof cases
    case (thread n k r)
    have n: "n < length (l_args x)" "call_active (life_thread x n)"
      using thread(3) inv pt by (simp_all add: active_conn_def life_thread_def life_inv_def clients_ok_def)
    then have "ct_phase (life_thread x n) \<noteq> Ended" by (auto simp: call_active_def)
    then have "\<exists>y. thread_call u os S n x = Some y"
      using thread_call_defined [OF inv n(1), of u os S] thread(4,6) by (simp add: life_thread_def)
    then show False using between_accepts.thread [OF thread(2) n, of u os S _ acc] thread(4,5) stuck by (auto simp: life_thread_def)
  next
    case (stamp str pt c w)
    then show False using between_accepts.stamp [OF stamp(2-7), of acc S] stuck by blast
  qed
qed

lemma served_at_accept:
  assumes "served_calls u os acc S live w0" "nothing_allocated s0"
    and "(life_step u os acc S)\<^sup>*\<^sup>* (start_life s0 w0) y" "l_main y = M_accept" "\<nexists>z. between_accepts u os acc S y z"
  shows "length (l_args y) = length (cp_conns (l_pool y))" "\<forall>k \<in> set (cp_conns (l_pool y)). ct_phase (c_thread k) = Ended"
    "\<forall>fd. \<not> live (cp_world (l_pool y)) fd" "cp_mutex (l_pool y) = Nobody"
proof -
  have inv: "life_inv y" by (rule life_reach_inv [OF assms(2,3)])
  have "\<not> gone (l_main y)" using assms(4) by simp
  note pool = life_pool_reach [OF assms(2,3) this]
  obtain h where c: "calls_inv u S live (s_file S w0) h (l_pool y)" using calls_reach_inv [OF assms(1) pool] by blast
  show "length (l_args y) = length (cp_conns (l_pool y))" using inv assms(4) by (simp add: life_inv_def clients_ok_def)
  note e = busy_progress [OF assms(1) c stuck_pool [OF inv assms(4,5)] stamp_asleep [OF pool]]
  from e(3) show "cp_mutex (l_pool y) = Nobody" .
  show all: "\<forall>k \<in> set (cp_conns (l_pool y)). ct_phase (c_thread k) = Ended"
    using e(1) by (auto simp: in_set_conv_nth)
  then have "\<not> active_conn (l_pool y) n" for n by (auto simp: active_conn_def call_active_def)
  then show "\<forall>fd. \<not> live (cp_world (l_pool y)) fd" using c by (auto simp: calls_inv_def live_owned_def)
qed

text \<open>
  C12: the server always comes back to \<open>accept\<close>. In every infinite run from any state that can be reached,
  \<open>accept\<close> is called or the timestamp thread wakes up again and again: in between, \<open>main\<close> and the threads
  make only finitely many calls, in whatever order, also when \<open>pthread_create\<close> fails. When no other call
  is left, the process has ended with status 0, because \<open>main\<close> has returned after a failed
  \<open>pthread_create\<close>, or \<open>main\<close> is at \<open>accept\<close>, every connection that was accepted had its thread, all of
  them have ended, no connection is left open, and nobody has the mutex. In particular
  \<open>pthread_join\<close> never waits for ever. (The system serves, and what a client sends is finite.)
\<close>

theorem server_returns_to_accept:
  assumes "served_calls u os acc S live w0" "nothing_allocated s0"
    and "(life_step u os acc S)\<^sup>*\<^sup>* (start_life s0 w0) x"
  shows "(\<forall>f. f 0 = x \<and> (\<forall>i :: nat. life_step u os acc S (f i) (f (Suc i))) \<longrightarrow>
       (\<forall>i. \<exists>j \<ge> i. \<not> between_accepts u os acc S (f j) (f (Suc j)))) \<and>
    (\<forall>y. (between_accepts u os acc S)\<^sup>*\<^sup>* x y \<and> (\<nexists>z. between_accepts u os acc S y z) \<longrightarrow>
       (if cp_exit (l_pool y) = None
        then l_main y = M_accept \<and> length (l_args y) = length (cp_conns (l_pool y)) \<and>
          (\<forall>k \<in> set (cp_conns (l_pool y)). ct_phase (c_thread k) = Ended) \<and>
          (\<forall>fd. \<not> live (cp_world (l_pool y)) fd) \<and> cp_mutex (l_pool y) = Nobody
        else cp_exit (l_pool y) = Some 0 \<and> l_main y = M_returned))"
proof (intro conjI allI impI)
  fix f i
  assume f: "f 0 = x \<and> (\<forall>i :: nat. life_step u os acc S (f i) (f (Suc i)))"
  have "(life_step u os acc S)\<^sup>*\<^sup>* (start_life s0 w0) (f i)" for i
    using f assms(3) by (induction i) (auto intro: rtranclp.rtrancl_into_rtrancl)
  from between_ends [where f = "\<lambda>k. f (i + k)", OF assms(1,2) this [of i]]
  obtain k where "\<not> between_accepts u os acc S (f (i + k)) (f (Suc (i + k)))" by auto
  then show "\<exists>j \<ge> i. \<not> between_accepts u os acc S (f j) (f (Suc j))" by (intro exI [of _ "i + k"]) simp
next
  fix y
  assume y: "(between_accepts u os acc S)\<^sup>*\<^sup>* x y \<and> (\<nexists>z. between_accepts u os acc S y z)"
  then have r: "(life_step u os acc S)\<^sup>*\<^sup>* (start_life s0 w0) y" using between_reach assms(3) by fastforce
  note inv = life_reach_inv [OF assms(2) r] and log = life_log_inv [OF assms(1,2) r]
  show "if cp_exit (l_pool y) = None
        then l_main y = M_accept \<and> length (l_args y) = length (cp_conns (l_pool y)) \<and>
          (\<forall>k \<in> set (cp_conns (l_pool y)). ct_phase (c_thread k) = Ended) \<and>
          (\<forall>fd. \<not> live (cp_world (l_pool y)) fd) \<and> cp_mutex (l_pool y) = Nobody
        else cp_exit (l_pool y) = Some 0 \<and> l_main y = M_returned"
  proof (cases "cp_exit (l_pool y) = None")
    case True
    then have pt: "l_main y = M_accept" using between_stuck [OF inv] y by blast
    from served_at_accept [OF assms(1,2) r pt] y True pt show ?thesis by simp
  next
    case False
    then show ?thesis using log by (auto simp: log_inv_def)
  qed
qed

section \<open>Runs back to \<open>accept\<close>\<close>

text \<open>
  As long as \<open>pthread_create\<close> works the server can go on until \<open>main\<close> is at \<open>accept\<close> with all clients
  served; nobody takes a connection meanwhile.
\<close>

definition busy_life ::
  "bool \<Rightarrow> 'w os \<Rightarrow> ('w \<Rightarrow> int \<times> 'w) \<Rightarrow> ('w, 'f) server_view \<Rightarrow> 'w life \<Rightarrow> 'w life \<Rightarrow> bool" where
  "busy_life u os acc S x y \<longleftrightarrow> between_accepts u os acc S x y \<and> \<not> gives_up (l_main y)"

lemma busy_life_between: "(busy_life u os acc S)\<^sup>*\<^sup>* x y \<Longrightarrow> (between_accepts u os acc S)\<^sup>*\<^sup>* x y"
  by (rule rtranclp_mono [THEN predicate2D]) (auto simp: busy_life_def)

lemma busy_life_reach: "(busy_life u os acc S)\<^sup>*\<^sup>* x y \<Longrightarrow> (life_step u os acc S)\<^sup>*\<^sup>* x y"
  by (rule between_reach [OF busy_life_between])

lemma busy_stays_up: "(busy_life u os acc S)\<^sup>*\<^sup>* x y \<Longrightarrow> \<not> gives_up (l_main x) \<Longrightarrow> \<not> gives_up (l_main y)"
  by (induction rule: rtranclp_induct) (simp_all add: busy_life_def)

lemma maximal_run:
  assumes "\<And>f. f 0 = x \<Longrightarrow> \<not> (\<forall>i :: nat. R (f i) (f (Suc i)))"
  shows "\<exists>y. R\<^sup>*\<^sup>* x y \<and> (\<nexists>z. R y z)"
proof (rule ccontr)
  assume "\<nexists>y. R\<^sup>*\<^sup>* x y \<and> (\<nexists>z. R y z)"
  then have ex: "\<exists>z. R y z" if "R\<^sup>*\<^sup>* x y" for y using that by blast
  define f where "f = rec_nat x (\<lambda>_ y. SOME z. R y z)"
  have "R\<^sup>*\<^sup>* x (f i) \<and> R (f i) (f (Suc i))" for i
  proof (induction i)
    case 0
    then show ?case using someI_ex [OF ex [of x]] by (simp add: f_def)
  next
    case (Suc i)
    then have "R\<^sup>*\<^sup>* x (f (Suc i))" by (meson rtranclp.rtrancl_into_rtrancl)
    then show ?case using someI_ex [OF ex [of "f (Suc i)"]] by (simp add: f_def)
  qed
  then show False using assms [of f] by (simp add: f_def)
qed

lemma thread_call_main: "thread_call u os S n x = Some y \<Longrightarrow> l_main y = l_main x"
  by (auto simp: thread_call_def Let_def split: bind_splits if_splits)

lemma busy_life_runs_out:
  assumes "served_calls u os acc S live w0" "nothing_allocated s0"
    and "(life_step u os acc S)\<^sup>*\<^sup>* (start_life s0 w0) x" "\<not> gives_up (l_main x)"
  obtains y where "(busy_life u os acc S)\<^sup>*\<^sup>* x y" "l_main y = M_accept" "cp_exit (l_pool y) = None"
    "\<nexists>z. between_accepts u os acc S y z"
proof -
  have "\<not> (\<forall>i :: nat. busy_life u os acc S (f i) (f (Suc i)))" if "f 0 = x" for f
    using between_ends [where f = f, OF assms(1-3) that] by (auto simp: busy_life_def)
  from maximal_run [of x "busy_life u os acc S", OF this] obtain y where y: "(busy_life u os acc S)\<^sup>*\<^sup>* x y" and stuck: "\<nexists>z. busy_life u os acc S y z"
    by blast
  have up: "\<not> gives_up (l_main y)" by (rule busy_stays_up [OF y assms(4)])
  have r: "(life_step u os acc S)\<^sup>*\<^sup>* (start_life s0 w0) y" using assms(3) busy_life_reach [OF y] by simp
  note inv = life_reach_inv [OF assms(2) r]
  have ex: "cp_exit (l_pool y) = None" using life_log_inv [OF assms(1,2) r] up by (auto simp: log_inv_def)
  have keep: "\<not> gives_up (l_main z)" if "main_call os acc S a y = Some z" "a_rc a = 0" for a z
    using that up by (cases "l_main y") (auto simp: main_call_def main_step_def split: bind_splits if_splits)
  have pt: "l_main y = M_accept"
  proof (rule ccontr)
    assume "l_main y \<noteq> M_accept"
    from stuck_main [OF inv ex this, of acc os S u] show False
      using stuck keep between_accepts.main [OF ex \<open>l_main y \<noteq> M_accept\<close>, of acc _ os S _ u] up
        between_accepts.thread [OF ex, of _ u os S _ acc] thread_call_main [of u os S _ y]
      unfolding busy_life_def by metis
  qed
  have "l_main z = M_accept" if "between_accepts u os acc S y z" for z
    using that by cases (simp_all add: pt thread_call_main)
  then have "\<nexists>z. between_accepts u os acc S y z" using stuck by (auto simp: busy_life_def)
  then show thesis using that [OF y pt ex] by blast
qed

definition same_clients :: "'w life \<Rightarrow> 'w life \<Rightarrow> bool" where
  "same_clients x y \<longleftrightarrow>
     map (\<lambda>k. (c_fd k, c_stream k)) (cp_conns (l_pool y)) = map (\<lambda>k. (c_fd k, c_stream k)) (cp_conns (l_pool x))"

lemma after_call_clients:
  assumes "n < length (cp_conns p)"
  shows "map (\<lambda>k. (c_fd k, c_stream k)) (cp_conns (after_call S n r p)) = map (\<lambda>k. (c_fd k, c_stream k)) (cp_conns p)"
  by (rule nth_equalityI)
    (use assms in \<open>auto simp: after_call_def connection_after_def Let_def split_beta nth_list_update\<close>)

text \<open>A busy step is a call of a thread, or leaves the clients and what waits outside alone.\<close>

lemma busy_life_cases:
  assumes inv: "life_inv x" and up: "\<not> gives_up (l_main x)" and step: "busy_life u os acc S x y"
  obtains (main) "l_pool y = l_pool x"
  | (thread) n r where "call_step u os (c_fd (cp_conns (l_pool x) ! n)) (life_thread x n) (cp_world (l_pool x)) = Some r"
      "l_pool y = after_call S n r (l_pool x)" "n < length (cp_conns (l_pool x))"
  | (stamp) str pt c w where "stamp_step os str (cp_stamp (l_pool x)) (cp_stamp_conn (l_pool x)) (cp_world (l_pool x)) = Some (pt, c, w)"
      "\<not> u" "cp_conns (l_pool y) = cp_conns (l_pool x)" "cp_world (l_pool y) = w"
proof -
  from step have "between_accepts u os acc S x y" and "\<not> gives_up (l_main y)" by (simp_all add: busy_life_def)
  from this(1) show thesis
  proof cases
    case (main a)
    have "\<not> gone (l_main y)" using \<open>\<not> gives_up (l_main y)\<close> gone_gives_up by blast
    then show thesis using that(1) main_call_pool(2) [OF main(5) _ main(3,1,2)] by blast
  next
    case (thread n)
    obtain r where "call_step u os (c_fd (cp_conns (l_pool x) ! n)) (life_thread x n) (cp_world (l_pool x)) = Some r"
      "l_pool y = after_call S n r (l_pool x)" "active_conn (l_pool x) n"
      by (rule thread_call_pool [OF inv thread(2,3,5)])
    then show thesis using that(2) by (simp add: active_conn_def)
  next
    case (stamp str pt c w)
    then show thesis using that(3) [of str pt c w] by simp
  qed
qed

lemma busy_life_clients:
  assumes "life_inv x" "\<not> gives_up (l_main x)" "(busy_life u os acc S)\<^sup>*\<^sup>* x y"
  shows "same_clients x y \<and> life_inv y"
  using assms(3)
proof (induction rule: rtranclp_induct)
  case base
  show ?case using assms(1) by (simp add: same_clients_def)
next
  case (step y z)
  then have inv: "life_inv y" and c: "same_clients x y" by simp_all
  have "between_accepts u os acc S y z" using step.hyps(2) by (simp add: busy_life_def)
  then have "life_inv z" by (rule life_step_inv [OF inv between_life_step])
  moreover have "same_clients y z"
    using inv busy_stays_up [OF step.hyps(1) assms(2)] step.hyps(2)
    by (rule busy_life_cases) (simp_all add: same_clients_def after_call_clients)
  ultimately show ?case using c by (simp add: same_clients_def)
qed

section \<open>A server without records\<close>

definition no_records :: server where
  "no_records =
     \<lparr>tq = \<lparr>tqh_first = (\<lambda>h. 0), tqh_last = (\<lambda>h. HeadFirst h), tqe_next = (\<lambda>p. 0), tqe_prev = (\<lambda>p. HeadFirst 0),
        elem_live = (\<lambda>p. False)\<rparr>,
      td = (\<lambda>p. \<lparr>td_thread = 0, td_complete = False, td_client_fd = 0\<rparr>), thread_block = (\<lambda>q. False),
      running = [], closed = []\<rparr>"

lemma no_records_empty: "nothing_allocated no_records"
  by (simp add: nothing_allocated_def no_records_def)

end
