(* ===== verification/Server_Startup.thy ===== *)
theory Server_Startup
  imports Aesd_Socket "HOL-Library.Sublist"
begin

text \<open>
  How the server starts and stops: \<open>main\<close> of \<^verbatim>\<open>server/aesdsocket.c\<close> up to its accept loop, with
  \<open>setup_signal_handlers\<close> and \<open>handle_signal\<close>. The code runs against a machine that answers
  each system call from all calls made so far; the calls are recorded, so the order in which
  the code makes them can be stated. \<open>exit\<close> is a value.
\<close>

section \<open>System calls\<close>

record addrinfo =
  ai_flags :: int
  ai_family :: int
  ai_socktype :: int
  ai_protocol :: int
  ai_addr :: "byte list"

datatype syscall =
    Clear_file "oflag list"
  | Close int
  | Sigaction int
  | Getaddrinfo string addrinfo
  | Socket addrinfo
  | Bind int addrinfo
  | Freeaddrinfo
  | Fork
  | Setsid
  | Chdir string
  | Open_null oflag
  | Listen int int
  | Create_timestamp_thread

text \<open>The answer to a call, and the list that a successful \<open>getaddrinfo\<close> stores in \<open>servinfo\<close>.\<close>

record machine =
  answer :: "syscall list \<Rightarrow> syscall \<Rightarrow> int"
  servinfo :: "syscall list \<Rightarrow> addrinfo list"

type_synonym trace = "syscall list"

definition call :: "machine \<Rightarrow> syscall \<Rightarrow> trace \<Rightarrow> int \<times> trace" where
  "call M c h = (answer M h c, h @ [c])"

definition SIGINT :: int where "SIGINT = 2"
definition SIGTERM :: int where "SIGTERM = 15"
definition BACKLOG :: int where "BACKLOG = 10"
definition PORT :: string where "PORT = ''9000''"

definition hints :: addrinfo where
  "hints = \<lparr>ai_flags = 1, ai_family = 0, ai_socktype = 1, ai_protocol = 0, ai_addr = []\<rparr>"

section \<open>The code\<close>

text \<open>The file-scope variable that the signal handler reads; initially -1.\<close>

record globals =
  g_sockfd :: int

definition initial_globals :: globals where
  "initial_globals = \<lparr>g_sockfd = - 1\<rparr>"

text \<open>The exit status and the calls made.\<close>

definition handle_signal :: "machine \<Rightarrow> globals \<Rightarrow> trace \<Rightarrow> int \<times> trace" where
  "handle_signal M g h =
     (let h1 = (if g_sockfd g \<noteq> - 1 then snd (call M (Close (g_sockfd g)) h) else h) in (0, h1))"

text \<open>\<open>Inl\<close> is the status of an \<open>exit\<close>, \<open>Inr\<close> a return.\<close>

definition setup_signal_handlers :: "machine \<Rightarrow> trace \<Rightarrow> (int + unit) \<times> trace" where
  "setup_signal_handlers M h =
     (let (r, h1) = call M (Sigaction SIGINT) h
      in if r = - 1 then (Inl 1, h1)
      else let (r, h2) = call M (Sigaction SIGTERM) h1
      in if r = - 1 then (Inl 1, h2) else (Inr (), h2))"

definition clear_file :: "bool \<Rightarrow> machine \<Rightarrow> trace \<Rightarrow> trace" where
  "clear_file use_char M h =
     (if use_char then h
      else let (fd_clear, h1) = call M (Clear_file [O_WRONLY, O_CREAT, O_TRUNC]) h
      in if fd_clear = - 1 then h1 else snd (call M (Close fd_clear) h1))"

text \<open>
  From \<open>getaddrinfo\<close> to \<open>freeaddrinfo\<close>; \<open>None\<close> if \<open>res\<close> would be null. What \<open>socket\<close>
  answers is not tested.
\<close>

definition bind_socket :: "machine \<Rightarrow> trace \<Rightarrow> ((int + int) \<times> trace) option" where
  "bind_socket M h =
     (let (status, h1) = call M (Getaddrinfo PORT hints) h
      in if status \<noteq> 0 then Some (Inl 1, h1)
      else case servinfo M h of
        [] \<Rightarrow> None
      | res # _ \<Rightarrow>
          let (sockfd, h2) = call M (Socket res) h1;
              (bind_status, h3) = call M (Bind sockfd res) h2
          in if bind_status < 0 then Some (Inl 1, h3)
             else Some (Inr sockfd, snd (call M Freeaddrinfo h3)))"

definition daemonize :: "machine \<Rightarrow> trace \<Rightarrow> (int + unit) \<times> trace" where
  "daemonize M h =
     (let (pid, h1) = call M Fork h
      in if pid < 0 then (Inl 1, h1)
      else if pid > 0 then (Inl 0, h1)
      else let (r, h2) = call M Setsid h1
      in if r < 0 then (Inl 1, h2)
      else let (r, h3) = call M (Chdir ''/'') h2
      in if r < 0 then (Inl 1, h3)
      else let h4 = snd (call M (Close 0) h3);
               h5 = snd (call M (Close 1) h4);
               h6 = snd (call M (Close 2) h5);
               h7 = snd (call M (Open_null O_RDONLY) h6);
               h8 = snd (call M (Open_null O_WRONLY) h7)
           in (Inr (), snd (call M (Open_null O_RDWR) h8)))"

definition start_listening :: "bool \<Rightarrow> machine \<Rightarrow> int \<Rightarrow> trace \<Rightarrow> (int + unit) \<times> trace" where
  "start_listening use_char M sockfd h =
     (let (r, h1) = call M (Listen sockfd BACKLOG) h
      in if r = - 1 then (Inl 1, h1)
      else if use_char then (Inr (), h1)
      else let (r, h2) = call M Create_timestamp_thread h1
      in if r \<noteq> 0 then (Inl 1, h2) else (Inr (), h2))"

definition wants_daemon :: "string list \<Rightarrow> bool" where
  "wants_daemon argv = (length argv = 2 \<and> argv ! 1 = ''-d'')"

text \<open>
  \<open>main\<close> up to the accept loop: the socket it accepts on, or an exit. \<open>main\<close> declares a
  \<open>sockfd\<close> of its own, so the global one stays as it is.
\<close>

definition main_startup ::
  "bool \<Rightarrow> machine \<Rightarrow> string list \<Rightarrow> globals \<Rightarrow> trace \<Rightarrow> ((int + int) \<times> globals \<times> trace) option" where
  "main_startup use_char M argv g h =
     (let h1 = clear_file use_char M h
      in case setup_signal_handlers M h1 of
        (Inl st, h2) \<Rightarrow> Some (Inl st, g, h2)
      | (Inr _, h2) \<Rightarrow>
          (case bind_socket M h2 of
             None \<Rightarrow> None
           | Some (Inl st, h3) \<Rightarrow> Some (Inl st, g, h3)
           | Some (Inr sockfd, h3) \<Rightarrow>
               (case (if wants_daemon argv then daemonize M h3 else (Inr (), h3)) of
                  (Inl st, h4) \<Rightarrow> Some (Inl st, g, h4)
                | (Inr _, h4) \<Rightarrow>
                    (case start_listening use_char M sockfd h4 of
                       (Inl st, h5) \<Rightarrow> Some (Inl st, g, h5)
                     | (Inr _, h5) \<Rightarrow> Some (Inr sockfd, g, h5)))))"

section \<open>The plan\<close>

text \<open>
  The reference: every call has a verdict on its answer, go on or exit with a status, and a
  plan is carried out up to the first call that ends it.
\<close>

definition verdict :: "syscall \<Rightarrow> int \<Rightarrow> int option" where
  "verdict c r =
     (case c of
        Sigaction _ \<Rightarrow> if r = - 1 then Some 1 else None
      | Getaddrinfo _ _ \<Rightarrow> if r \<noteq> 0 then Some 1 else None
      | Bind _ _ \<Rightarrow> if r < 0 then Some 1 else None
      | Fork \<Rightarrow> if r < 0 then Some 1 else if r > 0 then Some 0 else None
      | Setsid \<Rightarrow> if r < 0 then Some 1 else None
      | Chdir _ \<Rightarrow> if r < 0 then Some 1 else None
      | Listen _ _ \<Rightarrow> if r = - 1 then Some 1 else None
      | Create_timestamp_thread \<Rightarrow> if r \<noteq> 0 then Some 1 else None
      | _ \<Rightarrow> None)"

fun run_plan :: "machine \<Rightarrow> syscall list \<Rightarrow> trace \<Rightarrow> (int + unit) \<times> trace" where
  "run_plan M [] h = (Inr (), h)"
| "run_plan M (c # cs) h =
     (case verdict c (answer M h c) of
        Some st \<Rightarrow> (Inl st, h @ [c])
      | None \<Rightarrow> run_plan M cs (h @ [c]))"

definition daemon_plan :: "syscall list" where
  "daemon_plan =
     [Fork, Setsid, Chdir ''/'', Close 0, Close 1, Close 2,
      Open_null O_RDONLY, Open_null O_WRONLY, Open_null O_RDWR]"

definition clear_plan :: "bool \<Rightarrow> int \<Rightarrow> syscall list" where
  "clear_plan use_char fd =
     (if use_char then []
      else Clear_file [O_WRONLY, O_CREAT, O_TRUNC] # (if fd = - 1 then [] else [Close fd]))"

definition socket_plan :: "bool \<Rightarrow> bool \<Rightarrow> int \<Rightarrow> addrinfo \<Rightarrow> syscall list" where
  "socket_plan use_char daemon fd a =
     [Bind fd a, Freeaddrinfo] @ (if daemon then daemon_plan else []) @ [Listen fd BACKLOG] @
     (if use_char then [] else [Create_timestamp_thread])"

definition signal_plan :: "syscall list" where
  "signal_plan = [Sigaction SIGINT, Sigaction SIGTERM, Getaddrinfo PORT hints]"

text \<open>All calls of the startup, with the descriptor of the cleared file and of the socket.\<close>

definition startup_plan :: "bool \<Rightarrow> bool \<Rightarrow> int \<Rightarrow> int \<Rightarrow> addrinfo \<Rightarrow> syscall list" where
  "startup_plan use_char daemon cfd fd a =
     clear_plan use_char cfd @ signal_plan @ [Socket a] @ socket_plan use_char daemon fd a"

text \<open>All calls of a trace have answers that let the code go on.\<close>

definition passed :: "machine \<Rightarrow> trace \<Rightarrow> bool" where
  "passed M h \<longleftrightarrow> (\<forall>i < length h. verdict (h ! i) (answer M (take i h) (h ! i)) = None)"

lemma passed_Nil [simp]: "passed M []"
  by (simp add: passed_def)

lemma passed_snoc [simp]: "passed M (h @ [c]) \<longleftrightarrow> passed M h \<and> verdict c (answer M h c) = None"
  by (auto simp: passed_def nth_append less_Suc_eq)

lemma run_plan_append:
  "run_plan M (cs @ ds) h =
     (case run_plan M cs h of (Inl st, h1) \<Rightarrow> (Inl st, h1) | (Inr _, h1) \<Rightarrow> run_plan M ds h1)"
  by (induction cs arbitrary: h) (simp_all split: option.split)

text \<open>What running a plan can do: all of it, or a part that ends with the call that failed.\<close>

lemma run_plan_cases:
  assumes "passed M h"
  shows "(run_plan M cs h = (Inr (), h @ cs) \<and> passed M (h @ cs)) \<or>
    (\<exists>ds c rest st. cs = ds @ c # rest \<and> run_plan M cs h = (Inl st, h @ ds @ [c]) \<and>
       passed M (h @ ds) \<and> verdict c (answer M (h @ ds) c) = Some st)"
  using assms
proof (induction cs arbitrary: h)
  case (Cons c cs)
  show ?case
  proof (cases "verdict c (answer M h c)")
    case None
    with Cons.prems have "passed M (h @ [c])" by simp
    from Cons.IH [OF this] show ?thesis
    proof (elim disjE exE conjE)
      fix ds d rest st
      assume "cs = ds @ d # rest" "run_plan M cs (h @ [c]) = (Inl st, (h @ [c]) @ ds @ [d])"
        "passed M ((h @ [c]) @ ds)" "verdict d (answer M ((h @ [c]) @ ds) d) = Some st"
      then show ?thesis using None
        by (intro disjI2 exI [of _ "c # ds"] exI [of _ d] exI [of _ rest] exI [of _ st]) simp
    qed (use None in simp)
  next
    case (Some st)
    then show ?thesis using Cons.prems
      by (intro disjI2 exI [of _ "[]"] exI [of _ c] exI [of _ cs] exI [of _ st]) simp
  qed
qed simp

lemma verdict_simps [simp]:
  "verdict (Clear_file fs) r = None" "verdict (Close fd) r = None"
  "verdict (Sigaction s) r = (if r = - 1 then Some 1 else None)"
  "verdict (Getaddrinfo p i) r = (if r \<noteq> 0 then Some 1 else None)"
  "verdict (Socket a) r = None"
  "verdict (Bind fd a) r = (if r < 0 then Some 1 else None)"
  "verdict Freeaddrinfo r = None"
  "verdict Fork r = (if r < 0 then Some 1 else if r > 0 then Some 0 else None)"
  "verdict Setsid r = (if r < 0 then Some 1 else None)"
  "verdict (Chdir d) r = (if r < 0 then Some 1 else None)"
  "verdict (Open_null f) r = None"
  "verdict (Listen fd b) r = (if r = - 1 then Some 1 else None)"
  "verdict Create_timestamp_thread r = (if r \<noteq> 0 then Some 1 else None)"
  by (simp_all add: verdict_def)

section \<open>The code carries out the plan\<close>

lemma setup_signal_handlers_plan:
  "setup_signal_handlers M h = run_plan M [Sigaction SIGINT, Sigaction SIGTERM] h"
  by (simp add: setup_signal_handlers_def call_def)

lemma clear_file_plan:
  "clear_file use_char M h =
     h @ clear_plan use_char (answer M h (Clear_file [O_WRONLY, O_CREAT, O_TRUNC]))"
  by (simp add: clear_file_def clear_plan_def call_def)

lemma bind_socket_plan:
  "bind_socket M h =
     (case run_plan M [Getaddrinfo PORT hints] h of
        (Inl st, h1) \<Rightarrow> Some (Inl st, h1)
      | (Inr _, h1) \<Rightarrow>
          (case servinfo M h of
             [] \<Rightarrow> None
           | a # _ \<Rightarrow>
               let fd = answer M h1 (Socket a)
               in Some (case run_plan M [Bind fd a, Freeaddrinfo] (h1 @ [Socket a]) of
                    (Inl st, h2) \<Rightarrow> (Inl st, h2) | (Inr _, h2) \<Rightarrow> (Inr fd, h2))))"
  by (simp add: bind_socket_def call_def Let_def split: list.split)

lemma daemonize_plan: "daemonize M h = run_plan M daemon_plan h"
  by (simp add: daemonize_def daemon_plan_def call_def Let_def)

lemma start_listening_plan:
  "start_listening use_char M fd h =
     run_plan M (Listen fd BACKLOG # (if use_char then [] else [Create_timestamp_thread])) h"
  by (simp add: start_listening_def call_def)

text \<open>The plan is carried out, and the global variables stay as they are.\<close>

lemma main_startup_plan:
  "main_startup use_char M argv g h =
     (let h0 = h @ clear_plan use_char (answer M h (Clear_file [O_WRONLY, O_CREAT, O_TRUNC]))
      in case run_plan M signal_plan h0 of
           (Inl st, h1) \<Rightarrow> Some (Inl st, g, h1)
         | (Inr _, h1) \<Rightarrow>
             (case servinfo M (h0 @ butlast signal_plan) of
                [] \<Rightarrow> None
              | a # _ \<Rightarrow>
                  let fd = answer M h1 (Socket a)
                  in case run_plan M (socket_plan use_char (wants_daemon argv) fd a) (h1 @ [Socket a]) of
                       (Inl st, h2) \<Rightarrow> Some (Inl st, g, h2)
                     | (Inr _, h2) \<Rightarrow> Some (Inr fd, g, h2)))"
proof -
  define S B L where "S = [Sigaction SIGINT, Sigaction SIGTERM]" and "B fd a = [Bind fd a, Freeaddrinfo]"
    and "L fd = Listen fd BACKLOG # (if use_char then [] else [Create_timestamp_thread])" for fd a
  let ?D = "if wants_daemon argv then daemon_plan else []"
  have sig: "signal_plan = S @ [Getaddrinfo PORT hints]" "butlast signal_plan = S"
    and sock: "socket_plan use_char (wants_daemon argv) fd a = B fd a @ ?D @ L fd" for fd a
    by (simp_all add: signal_plan_def socket_plan_def S_def B_def L_def)
  have D: "(if wants_daemon argv then daemonize M h' else (Inr (), h')) = run_plan M ?D h'" for h'
    by (simp add: daemonize_plan)
  have S: "run_plan M S h' = (Inr (), h1) \<Longrightarrow> h1 = h' @ S" for h' h1
    by (auto simp: S_def split: if_splits)
  note code = main_startup_def clear_file_plan setup_signal_handlers_plan [folded S_def]
    bind_socket_plan [folded B_def] start_listening_plan [of use_char, folded L_def] D
  define h0 where "h0 = h @ clear_plan use_char (answer M h (Clear_file [O_WRONLY, O_CREAT, O_TRUNC]))"
  note goal = code sig sock Let_def run_plan_append h0_def [symmetric]
  obtain r1 h1 where 1: "run_plan M S h0 = (r1, h1)" by fastforce
  show ?thesis
  proof (cases r1)
    case (Inl st)
    then show ?thesis unfolding goal using 1 by (simp del: run_plan.simps)
  next
    case (Inr u)
    then have h1: "h1 = h0 @ S" using 1 S by simp
    obtain r2 h2 where 2: "run_plan M [Getaddrinfo PORT hints] h1 = (r2, h2)" by fastforce
    show ?thesis
    proof (cases "servinfo M (h0 @ S)")
      case Nil
      then show ?thesis unfolding goal using 1 2 Inr h1
        by (cases r2) (simp_all del: run_plan.simps)
    next
      case (Cons a as)
      obtain r3 h3 where 3: "run_plan M (B (answer M h2 (Socket a)) a) (h2 @ [Socket a]) = (r3, h3)"
        by fastforce
      obtain r4 h4 where 4: "run_plan M ?D h3 = (r4, h4)" by fastforce
      obtain r5 h5 where 5: "run_plan M (L (answer M h2 (Socket a))) h4 = (r5, h5)" by fastforce
      show ?thesis unfolding goal using 1 2 3 4 5 Inr h1 Cons
        by (cases r2; cases r3; cases r4; cases r5) (simp_all del: run_plan.simps)
    qed
  qed
qed

section \<open>Properties\<close>

text \<open>A successful \<open>getaddrinfo\<close> gives at least one address.\<close>

definition resolver_ok :: "machine \<Rightarrow> bool" where
  "resolver_ok M \<longleftrightarrow> (\<forall>h p i. answer M h (Getaddrinfo p i) = 0 \<longrightarrow> servinfo M h \<noteq> [])"

lemma clear_plan_passed: "passed M (clear_plan use_char fd)"
  by (auto simp: clear_plan_def passed_def less_Suc_eq nth_Cons')

text \<open>
  What can come of a start: everything went well and the calls are exactly the plan, or the
  plan was left at a call that failed.
\<close>

definition started :: "machine \<Rightarrow> syscall list \<Rightarrow> int \<Rightarrow> (int + int) \<Rightarrow> trace \<Rightarrow> bool" where
  "started M plan fd r h =
     (case r of
        Inr fd' \<Rightarrow> fd' = fd \<and> h = plan \<and> passed M h
      | Inl st \<Rightarrow> \<exists>h0 c. h = h0 @ [c] \<and> prefix h plan \<and> passed M h0 \<and> verdict c (answer M h0 c) = Some st)"

lemma startup_started:
  assumes M: "resolver_ok M"
  shows "\<exists>cfd fd a r h. main_startup use_char M argv g [] = Some (r, g, h) \<and>
     started M (startup_plan use_char (wants_daemon argv) cfd fd a) fd r h"
proof -
  define cfd where "cfd = answer M [] (Clear_file [O_WRONLY, O_CREAT, O_TRUNC])"
  define h0 where "h0 = clear_plan use_char cfd"
  let ?d = "wants_daemon argv" and ?sig = "[Sigaction SIGINT, Sigaction SIGTERM]"
  have h0: "passed M h0" by (simp add: h0_def clear_plan_passed)
  have but: "butlast signal_plan = ?sig" and sig: "signal_plan = ?sig @ [Getaddrinfo PORT hints]"
    by (simp_all add: signal_plan_def)
  note main = main_startup_plan [of use_char M argv g "[]", folded cfd_def, unfolded append_Nil, folded h0_def]
  show ?thesis
    using run_plan_cases [OF h0, of signal_plan]
  proof (elim disjE exE conjE)
    fix ds c rest st
    assume p: "signal_plan = ds @ c # rest" and r: "run_plan M signal_plan h0 = (Inl st, h0 @ ds @ [c])"
      and v: "passed M (h0 @ ds)" "verdict c (answer M (h0 @ ds) c) = Some st"
    have plan: "startup_plan use_char ?d cfd fd a = (h0 @ ds @ [c]) @ rest @ Socket a # socket_plan use_char ?d fd a"
      for fd a by (simp add: startup_plan_def h0_def p)
    have "started M (startup_plan use_char ?d cfd fd a) fd (Inl st) (h0 @ ds @ [c])" for fd a
      using v unfolding started_def plan by (auto intro!: exI [of _ "h0 @ ds"])
    moreover have "main_startup use_char M argv g [] = Some (Inl st, g, h0 @ ds @ [c])"
      using main r by simp
    ultimately show ?thesis by blast
  next
    assume r: "run_plan M signal_plan h0 = (Inr (), h0 @ signal_plan)" and v: "passed M (h0 @ signal_plan)"
    have "passed M ((h0 @ ?sig) @ [Getaddrinfo PORT hints])" using v sig by simp
    then have "answer M (h0 @ ?sig) (Getaddrinfo PORT hints) = 0"
      unfolding passed_snoc by (simp split: if_splits)
    then obtain a as where a: "servinfo M (h0 @ ?sig) = a # as"
      using M unfolding resolver_ok_def by (meson neq_Nil_conv)
    define fd h1 where "fd = answer M (h0 @ signal_plan) (Socket a)" and "h1 = (h0 @ signal_plan) @ [Socket a]"
    have h1: "passed M h1" using v unfolding h1_def passed_snoc by simp
    have plan: "startup_plan use_char ?d cfd fd a = h1 @ socket_plan use_char ?d fd a"
      by (simp add: startup_plan_def h0_def h1_def)
    have main1: "main_startup use_char M argv g [] =
      (case run_plan M (socket_plan use_char ?d fd a) h1 of
         (Inl st, h2) \<Rightarrow> Some (Inl st, g, h2) | (Inr _, h2) \<Rightarrow> Some (Inr fd, g, h2))"
      using main r a but unfolding fd_def h1_def Let_def by simp
    from run_plan_cases [OF h1, of "socket_plan use_char ?d fd a"]
    have "\<exists>r h. main_startup use_char M argv g [] = Some (r, g, h) \<and>
        started M (startup_plan use_char ?d cfd fd a) fd r h"
      unfolding plan started_def by (elim disjE exE conjE) (auto simp: main1)
    then show ?thesis by blast
  qed
qed

text \<open>
  C19: however the system answers, the server either reaches its accept loop after exactly
  these calls: clear the file (without the driver), install the handlers for SIGINT and
  SIGTERM, look up the address, open a socket for it, bind it, free the addresses, become a
  daemon if asked to, listen, start the timestamp thread (without the driver); each of
  them with an answer that lets it go on. Or it exits at the first call whose answer does
  not: with status 0 in the parent of the daemon, with status 1 otherwise.
\<close>

theorem startup_outcome:
  assumes "resolver_ok M"
  shows "\<exists>cfd fd a plan. plan = startup_plan use_char (wants_daemon argv) cfd fd a \<and>
    ((main_startup use_char M argv g [] = Some (Inr fd, g, plan) \<and> passed M plan) \<or>
     (\<exists>st h c. main_startup use_char M argv g [] = Some (Inl st, g, h @ [c]) \<and> prefix (h @ [c]) plan \<and>
        passed M h \<and> st = (if c = Fork \<and> answer M h c > 0 then 0 else 1)))"
proof -
  obtain cfd fd a r h where m: "main_startup use_char M argv g [] = Some (r, g, h)"
    and st: "started M (startup_plan use_char (wants_daemon argv) cfd fd a) fd r h"
    using startup_started [OF assms] by blast
  have status: "verdict c x = Some st \<Longrightarrow> st = (if c = Fork \<and> x > 0 then 0 else 1)" for c x st
    by (cases c) (auto split: if_splits)
  show ?thesis
  proof (cases r)
    case (Inl st')
    obtain h0 c where c: "h = h0 @ [c]" "prefix h (startup_plan use_char (wants_daemon argv) cfd fd a)" "passed M h0"
      "verdict c (answer M h0 c) = Some st'"
      using st Inl by (auto simp: started_def)
    have "main_startup use_char M argv g [] = Some (Inl st', g, h0 @ [c])" using m Inl c(1) by simp
    then show ?thesis using c status [OF c(4)] by blast
  next
    case (Inr fd')
    then have "fd' = fd" "h = startup_plan use_char (wants_daemon argv) cfd fd a" "passed M h"
      using st by (auto simp: started_def)
    then show ?thesis using m Inr by blast
  qed
qed

text \<open>
  C39: a signal that stops the server leaves its listening socket open. \<open>main\<close> keeps the
  socket in a variable of its own, so the handler finds -1 in the global one: it makes no
  system call, although the server listens on the socket and has not closed it since.
\<close>

theorem signal_leaves_socket_open:
  assumes "resolver_ok M"
    and "main_startup use_char M argv initial_globals [] = Some (Inr fd, g, h)"
  shows "\<exists>pre post. h = pre @ Listen fd BACKLOG # post \<and> Close fd \<notin> set post \<and>
    handle_signal M g (h @ later) = (0, h @ later)"
proof -
  obtain cfd a where h: "h = startup_plan use_char (wants_daemon argv) cfd fd a" and g: "g = initial_globals"
    using startup_started [OF assms(1), of use_char argv initial_globals] assms(2)
    by (auto simp: started_def)
  have "handle_signal M g (h @ later) = (0, h @ later)"
    by (simp add: g handle_signal_def initial_globals_def)
  moreover obtain pre where "h = pre @ Listen fd BACKLOG # (if use_char then [] else [Create_timestamp_thread])"
    by (simp add: h startup_plan_def socket_plan_def)
  moreover have "Close fd \<notin> set (if use_char then [] else [Create_timestamp_thread])" by simp
  ultimately show ?thesis by blast
qed

section \<open>Witnesses\<close>

text \<open>A machine on which all goes well, with socket 4, and one where a call fails.\<close>

definition any_addr :: addrinfo where
  "any_addr = \<lparr>ai_flags = 1, ai_family = 2, ai_socktype = 1, ai_protocol = 6, ai_addr = [0, 0, 0, 0]\<rparr>"

definition fine_machine :: machine where
  "fine_machine =
     \<lparr>answer = (\<lambda>h c. case c of Clear_file fs \<Rightarrow> 3 | Socket a \<Rightarrow> 4 | _ \<Rightarrow> 0), servinfo = (\<lambda>h. [any_addr])\<rparr>"

definition busy_machine :: machine where
  "busy_machine = fine_machine\<lparr>answer := (\<lambda>h c. if c = Bind 4 any_addr then - 1 else answer fine_machine h c)\<rparr>"

lemma machines_ok: "resolver_ok fine_machine" "resolver_ok busy_machine"
  by (simp_all add: resolver_ok_def fine_machine_def busy_machine_def)

lemma busy_start:
  "main_startup False busy_machine [''aesdsocket''] initial_globals [] =
     Some (Inl 1, initial_globals, clear_plan False 3 @ signal_plan @ [Socket any_addr, Bind 4 any_addr])"
  by code_simp

theorem startup_outcome_witness:
  "\<exists>plan h. main_startup False busy_machine [''aesdsocket''] initial_globals [] =
     Some (Inl 1, initial_globals, h @ [Bind 4 any_addr]) \<and>
     prefix (h @ [Bind 4 any_addr]) plan \<and> passed busy_machine h"
proof -
  let ?h = "clear_plan False 3 @ signal_plan @ [Socket any_addr]"
  have "clear_plan False 3 @ signal_plan @ [Socket any_addr, Bind 4 any_addr] = ?h @ [Bind 4 any_addr]" by simp
  then show ?thesis
    using startup_outcome [OF machines_ok(2), of False "[''aesdsocket'']" initial_globals] busy_start
    by (auto simp del: append_assoc)
qed

lemma fine_start:
  "main_startup True fine_machine [''aesdsocket'', ''-d''] initial_globals [] =
     Some (Inr 4, initial_globals, startup_plan True True 3 4 any_addr)"
  by code_simp

theorem signal_leaves_socket_open_witness:
  "\<exists>pre post. startup_plan True True 3 4 any_addr = pre @ Listen 4 BACKLOG # post \<and> Close 4 \<notin> set post \<and>
     handle_signal fine_machine initial_globals (startup_plan True True 3 4 any_addr @ []) =
       (0, startup_plan True True 3 4 any_addr @ [])"
  by (rule signal_leaves_socket_open [OF machines_ok(1) fine_start])

end
