(* ===== verification/Whole_Program.thy ===== *)
theory Whole_Program
  imports Whole_Log Server_Startup
begin

text \<open>
  The server from its start to its end: the startup of \<open>main\<close>, then the accept loop with all
  threads one call at a time, and the ways the process can end: a call of the startup that
  fails, the parent of the daemon, a signal at any moment after its handler was installed, or
  the return of \<open>main\<close>.
\<close>

section \<open>The process\<close>

text \<open>
  A process that serves has its socket, the global variables, the calls made by the startup, and
  the state of the accept loop; one that ended has its exit status, the calls that were made, and
  the state of the system.
\<close>

datatype 'w process =
    Launched
  | Serving int globals trace "'w life"
  | Exited int trace 'w

text \<open>What the handler of a signal does to the system: it closes the global socket if that is set.\<close>

definition signalled :: "'w os \<Rightarrow> globals \<Rightarrow> 'w \<Rightarrow> 'w" where
  "signalled os g w = (if g_sockfd g \<noteq> - 1 then snd (sys_close os w (g_sockfd g)) else w)"

text \<open>
  \<open>boot h\<close> is the state of the system after the calls \<open>h\<close>, \<open>acc fd\<close> what \<open>accept\<close> answers on a
  socket. The accept loop starts in the state the startup leaves, on the socket it returned. A
  signal can come between any two calls once \<open>sigaction\<close> was called for it.
\<close>

inductive process_step ::
  "bool \<Rightarrow> machine \<Rightarrow> string list \<Rightarrow> (trace \<Rightarrow> 'w) \<Rightarrow> server \<Rightarrow> 'w os \<Rightarrow> (int \<Rightarrow> 'w \<Rightarrow> int \<times> 'w) \<Rightarrow>
     ('w, 'f) server_view \<Rightarrow> 'w process \<Rightarrow> 'w process \<Rightarrow> bool"
  for use_char M argv boot s0 os acc S where
  startup_exits: "main_startup use_char M argv initial_globals [] = Some (Inl st, g, h) \<Longrightarrow>
     process_step use_char M argv boot s0 os acc S Launched (Exited st h (boot h))"
| startup_done: "main_startup use_char M argv initial_globals [] = Some (Inr fd, g, h) \<Longrightarrow>
     process_step use_char M argv boot s0 os acc S Launched (Serving fd g h (start_life s0 (boot h)))"
| early_signal: "main_startup use_char M argv initial_globals [] = Some (r, g, h) \<Longrightarrow> prefix h1 h \<Longrightarrow>
     Sigaction sig \<in> set h1 \<Longrightarrow> handle_signal M initial_globals h1 = (st, h2) \<Longrightarrow>
     process_step use_char M argv boot s0 os acc S Launched (Exited st h2 (boot h2))"
| serves: "life_step use_char os (acc fd) S x y \<Longrightarrow>
     process_step use_char M argv boot s0 os acc S (Serving fd g h x) (Serving fd g h y)"
| signal: "cp_exit (l_pool x) = None \<Longrightarrow> handle_signal M g h = (st, h1) \<Longrightarrow>
     process_step use_char M argv boot s0 os acc S (Serving fd g h x) (Exited st h1 (signalled os g (cp_world (l_pool x))))"
| returns: "cp_exit (l_pool x) = Some st \<Longrightarrow>
     process_step use_char M argv boot s0 os acc S (Serving fd g h x) (Exited st h (cp_world (l_pool x)))"

inductive_cases process_stepE: "process_step use_char M argv boot s0 os acc S p q"

text \<open>The system serves the accept loop in the state any startup leaves.\<close>

definition serves_started ::
  "bool \<Rightarrow> machine \<Rightarrow> string list \<Rightarrow> (trace \<Rightarrow> 'w) \<Rightarrow> 'w os \<Rightarrow> (int \<Rightarrow> 'w \<Rightarrow> int \<times> 'w) \<Rightarrow>
     ('w, 'f) server_view \<Rightarrow> ('w \<Rightarrow> int \<Rightarrow> bool) \<Rightarrow> bool" where
  "serves_started u M argv boot os acc S live \<longleftrightarrow>
     (\<forall>fd g h. main_startup u M argv initial_globals [] = Some (Inr fd, g, h) \<longrightarrow>
        served_calls u os (acc fd) S live (boot h))"

section \<open>What is reached\<close>

definition process_inv ::
  "bool \<Rightarrow> machine \<Rightarrow> string list \<Rightarrow> (trace \<Rightarrow> 'w) \<Rightarrow> server \<Rightarrow> 'w os \<Rightarrow> (int \<Rightarrow> 'w \<Rightarrow> int \<times> 'w) \<Rightarrow>
     ('w, 'f) server_view \<Rightarrow> 'w process \<Rightarrow> bool" where
  "process_inv u M argv boot s0 os acc S p \<longleftrightarrow>
     (case p of
        Launched \<Rightarrow> True
      | Serving fd g h x \<Rightarrow> main_startup u M argv initial_globals [] = Some (Inr fd, initial_globals, h) \<and>
          g = initial_globals \<and> (life_step u os (acc fd) S)\<^sup>*\<^sup>* (start_life s0 (boot h)) x
      | Exited st h w \<Rightarrow>
          (\<exists>g. main_startup u M argv initial_globals [] = Some (Inl st, g, h) \<and> w = boot h) \<or>
          (\<exists>r g h' sig. main_startup u M argv initial_globals [] = Some (r, g, h') \<and> prefix h h' \<and>
             Sigaction sig \<in> set h \<and> st = 0 \<and> w = boot h) \<or>
          (\<exists>fd x. main_startup u M argv initial_globals [] = Some (Inr fd, initial_globals, h) \<and>
             (life_step u os (acc fd) S)\<^sup>*\<^sup>* (start_life s0 (boot h)) x \<and> w = cp_world (l_pool x) \<and>
             (st = 0 \<and> cp_exit (l_pool x) = None \<or> cp_exit (l_pool x) = Some st)))"

lemma no_signal_call: "handle_signal M initial_globals h = (st, h1) \<longleftrightarrow> st = 0 \<and> h1 = h"
  by (auto simp: handle_signal_def initial_globals_def)

lemma not_signalled: "signalled os initial_globals w = w"
  by (simp add: signalled_def initial_globals_def)

lemma startup_globals:
  assumes "main_startup u M argv g h = Some (r, g', h')"
  shows "g' = g"
  using assms by (auto simp: main_startup_def Let_def split: prod.splits sum.splits option.splits)

lemma process_step_inv:
  assumes "process_inv u M argv boot s0 os acc S p" "process_step u M argv boot s0 os acc S p q"
  shows "process_inv u M argv boot s0 os acc S q"
  using assms(2)
proof cases
  case (startup_exits st g h)
  then show ?thesis by (auto simp: process_inv_def)
next
  case (startup_done fd g h)
  then show ?thesis using startup_globals [OF startup_done(3)] by (simp add: process_inv_def)
next
  case (early_signal r g h h1 sig st h2)
  then show ?thesis by (auto simp: process_inv_def no_signal_call)
next
  case (serves fd x y g h)
  then show ?thesis using assms(1) by (auto simp: process_inv_def intro: rtranclp.rtrancl_into_rtrancl)
next
  case (signal x g h st h1 fd)
  then have g: "g = initial_globals" "main_startup u M argv initial_globals [] = Some (Inr fd, initial_globals, h)"
    and x: "(life_step u os (acc fd) S)\<^sup>*\<^sup>* (start_life s0 (boot h)) x"
    using assms(1) by (simp_all add: process_inv_def)
  from signal(4) have "st = 0" "h1 = h" by (simp_all add: g(1) no_signal_call)
  then show ?thesis using g x signal(2,3) by (auto simp: process_inv_def not_signalled)
next
  case (returns x st fd g h)
  then show ?thesis using assms(1) by (auto simp: process_inv_def)
qed

lemma process_reach_inv:
  assumes "(process_step u M argv boot s0 os acc S)\<^sup>*\<^sup>* Launched p"
  shows "process_inv u M argv boot s0 os acc S p"
  using assms
proof (induction rule: rtranclp_induct)
  case base
  show ?case by (simp add: process_inv_def)
next
  case (step p q)
  then show ?case using process_step_inv by blast
qed

lemma process_serves:
  assumes "(life_step u os (acc fd) S)\<^sup>*\<^sup>* x y"
  shows "(process_step u M argv boot s0 os acc S)\<^sup>*\<^sup>* (Serving fd g h x) (Serving fd g h y)"
  using assms by (induction rule: rtranclp_induct) (auto intro: rtranclp.rtrancl_into_rtrancl process_step.serves)

section \<open>How it ends\<close>

text \<open>
  C18: however the server process ends, nothing of a packet is half stored. It made the calls of
  its plan, or a beginning of them. Either it never served: then it exits with status 1 at the
  call that failed, with status 0 as the parent of the daemon or by a signal, in the state its
  calls left. Or it served, and a signal at any moment, or the return of \<open>main\<close>, ended it: then
  the status is 0, its calls are exactly the plan, and the file is what one history of stored
  packets and answered seek commands makes of the file it started with, at whatever call each of
  the threads was. All this on a system that serves (\<open>serves_started\<close>): the \<open>exit(1)\<close> of a thread after
  a failed \<open>send\<close> (:236, :280) is outside it.
\<close>

theorem process_ends_with_one_log:
  assumes "resolver_ok M" "serves_started u M argv boot os acc S live" "nothing_allocated s0"
    and "(process_step u M argv boot s0 os acc S)\<^sup>*\<^sup>* Launched (Exited st h w)"
  shows "\<exists>cfd fd a plan. plan = startup_plan u (wants_daemon argv) cfd fd a \<and>
    ((prefix h plan \<and> w = boot h \<and>
       (st = 0 \<and> (\<exists>sig. Sigaction sig \<in> set h) \<or>
        (\<exists>h0 c. h = h0 @ [c] \<and> passed M h0 \<and> st = (if c = Fork \<and> answer M h0 c > 0 then 0 else 1)))) \<or>
     (h = plan \<and> passed M h \<and> st = 0 \<and>
       (\<exists>es. s_file S w = file_after S (s_file S (boot h)) es \<and> right_history u S (s_file S (boot h)) es)))"
proof -
  obtain cfd fd a r h' where m: "main_startup u M argv initial_globals [] = Some (r, initial_globals, h')"
    and sd: "started M (startup_plan u (wants_daemon argv) cfd fd a) fd r h'"
    using startup_started [OF assms(1)] by blast
  define plan where "plan = startup_plan u (wants_daemon argv) cfd fd a"
  have pre: "prefix h' plan" using sd by (cases r) (auto simp: started_def plan_def)
  have status: "verdict c x = Some st \<Longrightarrow> st = (if c = Fork \<and> x > 0 then 0 else 1)" for c x st
    by (cases c) (auto split: if_splits)
  from process_reach_inv [OF assms(4)] consider
      (fails) "r = Inl st" "h = h'" "w = boot h"
    | (early) sig where "prefix h h'" "Sigaction sig \<in> set h" "st = 0" "w = boot h"
    | (served) x where "r = Inr fd" "h = h'" "(life_step u os (acc fd) S)\<^sup>*\<^sup>* (start_life s0 (boot h)) x"
        "w = cp_world (l_pool x)" "st = 0 \<and> cp_exit (l_pool x) = None \<or> cp_exit (l_pool x) = Some st"
    using m sd by (auto simp: process_inv_def started_def)
  then show ?thesis
  proof cases
    case fails
    then obtain h0 c where "h = h0 @ [c]" "passed M h0" "verdict c (answer M h0 c) = Some st"
      using sd by (auto simp: started_def)
    then show ?thesis using fails pre status by (intro exI [of _ cfd] exI [of _ fd] exI [of _ a] exI [of _ plan]) (auto simp: plan_def)
  next
    case early
    then show ?thesis using pre prefix_order.trans [of h h' plan]
      by (intro exI [of _ cfd] exI [of _ fd] exI [of _ a] exI [of _ plan]) (auto simp: plan_def)
  next
    case served
    have sv: "served_calls u os (acc fd) S live (boot h)" using assms(2) m served(1,2) by (auto simp: serves_started_def)
    obtain es where log: "log_inv u S live (s_file S (boot h)) es x" using life_log_inv [OF sv assms(3) served(3)] by blast
    then have "s_file S w = file_after S (s_file S (boot h)) es" "right_history u S (s_file S (boot h)) es"
      by (simp_all add: served(4) log_inv_def calls_inv_def kept_pool_fields)
    moreover have "st = 0" using log served(5) by (auto simp: log_inv_def)
    moreover have "h = plan" "passed M h" using sd served(1,2) by (auto simp: started_def plan_def)
    ultimately show ?thesis by (intro exI [of _ cfd] exI [of _ fd] exI [of _ a] exI [of _ plan]) (auto simp: plan_def)
  qed
qed

end
