(* ===== verification/Device_Calls.thy ===== *)
theory Device_Calls
  imports Device_Server Call_Log
begin

text \<open>
  The threads of the server on the device, one system call at a time: the system of
  \<open>Device_Server\<close> with clients that arrive. It serves, so the properties of \<open>Call_Log\<close> hold on
  the driver's log; the witnesses are runs on it.
\<close>

section \<open>The network\<close>

text \<open>
  The system, the descriptors that are connections, and the clients that will arrive: the
  descriptor \<open>accept\<close> gives to them and what they send. A descriptor can be given again.
\<close>

record net =
  n_world :: world
  n_live :: "int set"
  n_arrivals :: "(int \<times> byte list) list"

definition in_net :: "net \<Rightarrow> 'a \<times> world \<Rightarrow> 'a \<times> net" where
  "in_net w = (\<lambda>(r, d). (r, w\<lparr>n_world := d\<rparr>))"

definition in_net2 :: "net \<Rightarrow> 'a \<times> 'b \<times> world \<Rightarrow> 'a \<times> 'b \<times> net" where
  "in_net2 w = (\<lambda>(r, b, d). (r, b, w\<lparr>n_world := d\<rparr>))"

definition net_os :: "kernel \<Rightarrow> host \<Rightarrow> net os" where
  "net_os K H =
     \<lparr>sys_open = (\<lambda>w flags. in_net w (dev_open K H (n_world w) flags)),
      sys_close = (\<lambda>w fd. in_net (w\<lparr>n_live := n_live w - {fd}\<rparr>) (dev_close (n_world w) fd)),
      sys_write = (\<lambda>w fd bs. in_net w (dev_write K (n_world w) fd bs)),
      sys_fsync = (\<lambda>w fd. in_net w (dev_fsync (n_world w) fd)),
      sys_read = (\<lambda>w fd n. in_net2 w (dev_read K (n_world w) fd n)),
      sys_ioctl = (\<lambda>w fd cmd to. in_net w (dev_ioctl K (n_world w) fd cmd to)),
      sys_recv = (\<lambda>w fd n. in_net2 w (sock_recv H (n_world w) fd n)),
      sys_send = (\<lambda>w fd bs. in_net w (sock_send H (n_world w) fd bs)),
      sys_realloc = (\<lambda>w n. (h_alloc H (n_world w) n, w)), sys_lock = (\<lambda>w. w), sys_unlock = (\<lambda>w. w)\<rparr>"

definition net_accept :: "net \<Rightarrow> int \<times> net" where
  "net_accept w =
     (case n_arrivals w of
        [] \<Rightarrow> (- 1, w)
      | (fd, bs) # rest \<Rightarrow>
          if fd \<in> n_live w \<or> w_fds (n_world w) fd \<noteq> None then (- 1, w)
          else (fd, \<lparr>n_world = (n_world w)\<lparr>w_in := (w_in (n_world w))(fd := bs), w_out := (w_out (n_world w))(fd := [])\<rparr>,
                     n_live = insert fd (n_live w), n_arrivals = rest\<rparr>))"

text \<open>Files are opened under descriptors in \<open>F\<close>, which are no connections.\<close>

definition fds_in :: "int set \<Rightarrow> world \<Rightarrow> bool" where
  "fds_in F d \<longleftrightarrow> (\<forall>fd. w_fds d fd \<noteq> None \<longrightarrow> fd \<in> F)"

definition net_fine :: "int set \<Rightarrow> nat \<Rightarrow> net \<Rightarrow> bool" where
  "net_fine F m w \<longleftrightarrow> fds_in F (n_world w) \<and> n_live w \<inter> F = {} \<and>
     (\<forall>(fd, bs) \<in> set (n_arrivals w). fd \<notin> F \<and> fd \<noteq> - 1 \<and>
        fits (device_view undefined undefined m fd) True bs)"

definition net_clients ::
  "kernel \<Rightarrow> (kstate \<Rightarrow> bool) \<Rightarrow> nat \<Rightarrow> int set \<Rightarrow> (net, byte list list) server_view" where
  "net_clients K room m F =
     (let S = device_clients K room m in
      \<lparr>s_ok = (\<lambda>w. s_ok S (n_world w) \<and> net_fine F m w), s_in = (\<lambda>w. s_in S (n_world w)),
       s_out = (\<lambda>w. s_out S (n_world w)), s_file = (\<lambda>w. s_file S (n_world w)),
       s_open = (\<lambda>w. s_open S (n_world w)), s_rest = (\<lambda>w. s_rest S (n_world w)),
       s_append = s_append S, s_bytes = s_bytes S, s_max = s_max S, s_seek = s_seek S\<rparr>)"

lemma fits_max: "v_max V = v_max W \<Longrightarrow> fits V u bs = fits W u bs"
  by (simp add: fits_def)

lemma fds_ops:
  "h_fd H d \<in> F \<Longrightarrow> fds_in F d \<Longrightarrow> dev_open K H d flags = (r, d') \<Longrightarrow> fds_in F d'"
  "fds_in F d \<Longrightarrow> dev_close d fd = (r, d') \<Longrightarrow> fds_in F d'"
  "fds_in F d \<Longrightarrow> dev_write K d fd bs = (r, d') \<Longrightarrow> fds_in F d'"
  "fds_in F d \<Longrightarrow> dev_fsync d fd = (r, d') \<Longrightarrow> fds_in F d'"
  "fds_in F d \<Longrightarrow> dev_read K d fd n = (r, bs, d') \<Longrightarrow> fds_in F d'"
  "fds_in F d \<Longrightarrow> dev_ioctl K d fd cmd to = (r, d') \<Longrightarrow> fds_in F d'"
  "fds_in F d \<Longrightarrow> sock_recv H d fd n = (r, bs, d') \<Longrightarrow> fds_in F d'"
  "fds_in F d \<Longrightarrow> sock_send H d fd bs = (r, d') \<Longrightarrow> fds_in F d'"
  by (auto simp: fds_in_def dev_open_def dev_close_def dev_write_def dev_fsync_def dev_read_def dev_ioctl_def
      sock_recv_def sock_send_def Let_def split: prod.splits option.splits if_splits)

section \<open>It serves\<close>

lemma net_view:
  "v_ok (client_view (net_clients K room m F) cfd) w = (v_ok (device_view K room m cfd) (n_world w) \<and> net_fine F m w)"
  "v_input (client_view (net_clients K room m F) cfd) w = v_input (device_view K room m cfd) (n_world w)"
  "v_sent (client_view (net_clients K room m F) cfd) w = v_sent (device_view K room m cfd) (n_world w)"
  "v_store (client_view (net_clients K room m F) cfd) w = v_store (device_view K room m cfd) (n_world w)"
  "v_open (client_view (net_clients K room m F) cfd) w fd = v_open (device_view K room m cfd) (n_world w) fd"
  "v_rest (client_view (net_clients K room m F) cfd) w fd = v_rest (device_view K room m cfd) (n_world w) fd"
  "v_append (client_view (net_clients K room m F) cfd) = v_append (device_view K room m cfd)"
  "v_bytes (client_view (net_clients K room m F) cfd) = v_bytes (device_view K room m cfd)"
  "v_max (client_view (net_clients K room m F) cfd) = v_max (device_view K room m cfd)"
  by (simp_all add: device_view_def client_view_def net_clients_def Let_def other_streams_def cong: if_cong)

lemma net_calls:
  "sys_open (net_os K H) w flags = in_net w (sys_open (device_os K H) (n_world w) flags)"
  "sys_close (net_os K H) w fd = in_net (w\<lparr>n_live := n_live w - {fd}\<rparr>) (sys_close (device_os K H) (n_world w) fd)"
  "sys_write (net_os K H) w fd p = in_net w (sys_write (device_os K H) (n_world w) fd p)"
  "sys_fsync (net_os K H) w fd = in_net w (sys_fsync (device_os K H) (n_world w) fd)"
  "sys_read (net_os K H) w fd n = in_net2 w (sys_read (device_os K H) (n_world w) fd n)"
  "sys_ioctl (net_os K H) w fd cmd to = in_net w (sys_ioctl (device_os K H) (n_world w) fd cmd to)"
  "sys_recv (net_os K H) w fd n = in_net2 w (sys_recv (device_os K H) (n_world w) fd n)"
  "sys_send (net_os K H) w fd p = in_net w (sys_send (device_os K H) (n_world w) fd p)"
  "sys_realloc (net_os K H) w k = in_net w (sys_realloc (device_os K H) (n_world w) k)"
  "sys_lock (net_os K H) w = w" "sys_unlock (net_os K H) w = w"
  by (simp_all add: net_os_def device_os_def in_net_def)

lemma net_fine_world:
  "net_fine F m w \<Longrightarrow> fds_in F d \<Longrightarrow> net_fine F m (w\<lparr>n_world := d\<rparr>)"
  "net_fine F m w \<Longrightarrow> fds_in F d \<Longrightarrow> net_fine F m (w\<lparr>n_live := n_live w - {fd}, n_world := d\<rparr>)"
  "net_fine F m w \<Longrightarrow> fds_in F (n_world w)"
  by (auto simp: net_fine_def)

lemma net_unchanged:
  assumes "net_fine F m w" "unchanged (device_view K room m cfd) (n_world w) d" "fds_in F d"
  shows "unchanged (client_view (net_clients K room m F) cfd) w (w\<lparr>n_world := d\<rparr>)"
    "unchanged (client_view (net_clients K room m F) cfd) w (w\<lparr>n_live := n_live w - {fd}, n_world := d\<rparr>)"
  using assms net_fine_world by (simp_all add: unchanged_def net_view del: client_view_simps)

lemmas net_law = net_view net_calls in_net_def in_net2_def split_beta

lemma net_serves_files:
  assumes os: "os_serves (device_os K H) (device_view K room m cfd) cfd" and fd: "\<And>d. h_fd H d \<in> F"
  shows "serves_open (net_os K H) (client_view (net_clients K room m F) cfd)"
    "serves_close (net_os K H) (client_view (net_clients K room m F) cfd)"
    "serves_fsync (net_os K H) (client_view (net_clients K room m F) cfd)"
    "serves_hangup (net_os K H) (client_view (net_clients K room m F) cfd) cfd"
proof -
  let ?os = "device_os K H" and ?V = "device_view K room m cfd" and ?W = "client_view (net_clients K room m F) cfd"
  have laws: "serves_open ?os ?V" "serves_close ?os ?V" "serves_fsync ?os ?V" "serves_hangup ?os ?V cfd"
    using os by (simp_all add: os_serves_def)
  show "serves_open (net_os K H) ?W"
    unfolding serves_open_def
  proof (intro allI impI)
    fix w flags
    assume w: "v_ok ?W w"
    then have fine: "v_ok ?V (n_world w)" "net_fine F m w" by (simp_all add: net_view del: client_view_simps)
    from laws(1) [unfolded serves_open_def, rule_format, OF fine(1), of flags] obtain r d where
      d: "sys_open ?os (n_world w) flags = (r, d)" "r \<noteq> - 1" "unchanged ?V (n_world w) d" "v_open ?V d r"
        "v_rest ?V d r = v_bytes ?V (v_store ?V (n_world w))" by blast
    have "fds_in F d" using fds_ops(1) [OF fd net_fine_world(3) [OF fine(2)]] d(1) by (simp add: os_simps)
    from net_unchanged(1) [OF fine(2) d(3) this] d(1,2,4,5)
    show "\<exists>fd w'. sys_open (net_os K H) w flags = (fd, w') \<and> fd \<noteq> - 1 \<and> unchanged ?W w w' \<and>
        v_open ?W w' fd \<and> v_rest ?W w' fd = v_bytes ?W (v_store ?W w)" by (simp add: net_law del: client_view_simps)
  qed
  have close: "\<exists>d. sys_close ?os (n_world w) fd = (0, d) \<and> fds_in F d" if "net_fine F m w" for w fd
    using that by (auto simp: os_simps dev_close_def net_fine_def fds_in_def)
  show "serves_close (net_os K H) ?W"
    unfolding serves_close_def
  proof (intro allI impI)
    fix w fd
    assume "v_ok ?W w" "v_open ?W w fd"
    then have fine: "v_ok ?V (n_world w)" "net_fine F m w" "v_open ?V (n_world w) fd" by (simp_all add: net_view del: client_view_simps)
    from laws(2) [unfolded serves_close_def, rule_format, OF fine(1,3)] close [OF fine(2), of fd] obtain d where
      d: "sys_close ?os (n_world w) fd = (0, d)" "unchanged ?V (n_world w) d" "fds_in F d" by auto
    from net_unchanged(2) [OF fine(2) d(2,3)] d(1)
    show "\<exists>w'. sys_close (net_os K H) w fd = (0, w') \<and> unchanged ?W w w'" by (simp add: net_law del: client_view_simps)
  qed
  show "serves_fsync (net_os K H) ?W"
    unfolding serves_fsync_def
  proof (intro allI impI)
    fix w fd
    assume "v_ok ?W w" "v_open ?W w fd"
    then have fine: "v_ok ?V (n_world w)" "net_fine F m w" "v_open ?V (n_world w) fd" by (simp_all add: net_view del: client_view_simps)
    from laws(3) [unfolded serves_fsync_def, rule_format, OF fine(1,3)] obtain d where
      d: "sys_fsync ?os (n_world w) fd = (0, d)" "unchanged ?V (n_world w) d" "v_open ?V d fd" by blast
    have "fds_in F d" using fds_ops(4) [OF net_fine_world(3) [OF fine(2)]] d(1) by (simp add: os_simps)
    from net_unchanged(1) [OF fine(2) d(2) this] d(1,3)
    show "\<exists>w'. sys_fsync (net_os K H) w fd = (0, w') \<and> unchanged ?W w w' \<and> v_open ?W w' fd" by (simp add: net_law del: client_view_simps)
  qed
  show "serves_hangup (net_os K H) ?W cfd"
    unfolding serves_hangup_def
  proof (intro allI impI)
    fix w
    assume "v_ok ?W w"
    then have fine: "v_ok ?V (n_world w)" "net_fine F m w" by (simp_all add: net_view del: client_view_simps)
    from laws(4) [unfolded serves_hangup_def, rule_format, OF fine(1)] close [OF fine(2), of cfd]
    have "unchanged ?V (n_world w) (snd (sys_close ?os (n_world w) cfd))"
      "fds_in F (snd (sys_close ?os (n_world w) cfd))" by auto
    from net_unchanged(2) [OF fine(2) this] show "unchanged ?W w (snd (sys_close (net_os K H) w cfd))"
      by (simp add: net_law del: client_view_simps)
  qed
qed

lemma net_serves_streams:
  assumes os: "os_serves (device_os K H) (device_view K room m cfd) cfd"
  shows "serves_send (net_os K H) (client_view (net_clients K room m F) cfd) cfd"
    "serves_recv (net_os K H) (client_view (net_clients K room m F) cfd) cfd"
    "serves_memory (net_os K H) (client_view (net_clients K room m F) cfd)"
    "serves_mutex (net_os K H) (client_view (net_clients K room m F) cfd)"
proof -
  let ?os = "device_os K H" and ?V = "device_view K room m cfd" and ?W = "client_view (net_clients K room m F) cfd"
  have laws: "serves_send ?os ?V cfd" "serves_recv ?os ?V cfd" "serves_memory ?os ?V"
    using os by (simp_all add: os_serves_def)
  show "serves_send (net_os K H) ?W cfd"
    unfolding serves_send_def
  proof (intro allI impI)
    fix w and bs :: "byte list"
    assume "v_ok ?W w" "bs \<noteq> []"
    then have fine: "v_ok ?V (n_world w)" "net_fine F m w" "bs \<noteq> []" by (simp_all add: net_view del: client_view_simps)
    from laws(1) [unfolded serves_send_def, rule_format, OF fine(1,3)] obtain k d where
      d: "sys_send ?os (n_world w) cfd bs = (int k, d)" "0 < k" "k \<le> length bs" "v_ok ?V d"
        "v_sent ?V d = v_sent ?V (n_world w) @ take k bs" "v_input ?V d = v_input ?V (n_world w)"
        "v_store ?V d = v_store ?V (n_world w)"
        "\<forall>fd. v_open ?V (n_world w) fd \<longrightarrow> v_open ?V d fd \<and> v_rest ?V d fd = v_rest ?V (n_world w) fd" by blast
    have "fds_in F d" using fds_ops(8) [OF net_fine_world(3) [OF fine(2)]] d(1) by (simp add: os_simps)
    from net_fine_world(1) [OF fine(2) this] d
    show "\<exists>k w'. sys_send (net_os K H) w cfd bs = (int k, w') \<and> 0 < k \<and> k \<le> length bs \<and>
        v_ok ?W w' \<and> v_sent ?W w' = v_sent ?W w @ take k bs \<and> v_input ?W w' = v_input ?W w \<and>
        v_store ?W w' = v_store ?W w \<and>
        (\<forall>fd. v_open ?W w fd \<longrightarrow> v_open ?W w' fd \<and> v_rest ?W w' fd = v_rest ?W w fd)"
      by (intro exI [of _ k] exI [of _ "w\<lparr>n_world := d\<rparr>"]) (simp add: net_law del: client_view_simps)
  qed
  show "serves_recv (net_os K H) ?W cfd"
    unfolding serves_recv_def
  proof (intro allI impI)
    fix w and n :: nat
    assume "v_ok ?W w" "0 < n"
    then have fine: "v_ok ?V (n_world w)" "net_fine F m w" "0 < n" by (simp_all add: net_view del: client_view_simps)
    from laws(2) [unfolded serves_recv_def, rule_format, OF fine(1,3)] obtain bs d where
      d: "sys_recv ?os (n_world w) cfd n = (int (length bs), bs, d)" "length bs \<le> n" "v_ok ?V d"
        "v_input ?V (n_world w) = bs @ v_input ?V d" "bs = [] \<longrightarrow> v_input ?V (n_world w) = []"
        "v_sent ?V d = v_sent ?V (n_world w)" "v_store ?V d = v_store ?V (n_world w)" by blast
    have "fds_in F d" using fds_ops(7) [OF net_fine_world(3) [OF fine(2)]] d(1) by (simp add: os_simps)
    from net_fine_world(1) [OF fine(2) this] d
    show "\<exists>bs w'. sys_recv (net_os K H) w cfd n = (int (length bs), bs, w') \<and> length bs \<le> n \<and>
        v_ok ?W w' \<and> v_input ?W w = bs @ v_input ?W w' \<and> (bs = [] \<longrightarrow> v_input ?W w = []) \<and>
        v_sent ?W w' = v_sent ?W w \<and> v_store ?W w' = v_store ?W w"
      by (intro exI [of _ bs] exI [of _ "w\<lparr>n_world := d\<rparr>"]) (simp add: net_law del: client_view_simps)
  qed
  show "serves_memory (net_os K H) ?W"
    using laws(3) net_unchanged(1)
    by (auto simp: serves_memory_def net_law realloc_ok_def os_simps net_fine_world unchanged_def simp del: client_view_simps)
  show "serves_mutex (net_os K H) ?W"
    by (simp add: serves_mutex_def net_law unchanged_def del: client_view_simps)
qed

lemma net_serves_data:
  assumes os: "os_serves (device_os K H) (device_view K room m cfd) cfd"
  shows "serves_write (net_os K H) (client_view (net_clients K room m F) cfd)"
    "serves_read (net_os K H) (client_view (net_clients K room m F) cfd)"
proof -
  let ?os = "device_os K H" and ?V = "device_view K room m cfd" and ?W = "client_view (net_clients K room m F) cfd"
  have laws: "serves_write ?os ?V" "serves_read ?os ?V"
    using os by (simp_all add: os_serves_def)
  show "serves_write (net_os K H) ?W"
    unfolding serves_write_def
  proof (intro allI impI)
    fix w fd p
    assume "v_ok ?W w" "v_open ?W w fd" "packet p" "length p \<le> v_max ?W"
    then have fine: "v_ok ?V (n_world w)" "net_fine F m w" "v_open ?V (n_world w) fd" "packet p" "length p \<le> v_max ?V"
      by (simp_all add: net_view del: client_view_simps)
    from laws(1) [unfolded serves_write_def, rule_format, OF fine(1,3-5)] obtain d where
      d: "sys_write ?os (n_world w) fd p = (int (length p), d)" "v_ok ?V d" "v_open ?V d fd"
        "v_input ?V d = v_input ?V (n_world w)" "v_sent ?V d = v_sent ?V (n_world w)"
        "v_store ?V d = v_append ?V (v_store ?V (n_world w)) p" by blast
    have "fds_in F d" using fds_ops(3) [OF net_fine_world(3) [OF fine(2)]] d(1) by (simp add: os_simps)
    from net_fine_world(1) [OF fine(2) this] d
    show "\<exists>w'. sys_write (net_os K H) w fd p = (int (length p), w') \<and> v_ok ?W w' \<and> v_open ?W w' fd \<and>
        v_input ?W w' = v_input ?W w \<and> v_sent ?W w' = v_sent ?W w \<and>
        v_store ?W w' = v_append ?W (v_store ?W w) p"
      by (simp add: net_law del: client_view_simps)
  qed
  show "serves_read (net_os K H) ?W"
    unfolding serves_read_def
  proof (intro allI impI)
    fix w fd and n :: nat
    assume "v_ok ?W w" "v_open ?W w fd" "0 < n"
    then have fine: "v_ok ?V (n_world w)" "net_fine F m w" "v_open ?V (n_world w) fd" "0 < n"
      by (simp_all add: net_view del: client_view_simps)
    from laws(2) [unfolded serves_read_def, rule_format, OF fine(1,3,4)] obtain bs d where
      d: "sys_read ?os (n_world w) fd n = (int (length bs), bs, d)" "unchanged ?V (n_world w) d" "v_open ?V d fd"
        "v_rest ?V (n_world w) fd = bs @ v_rest ?V d fd" "bs = [] \<longrightarrow> v_rest ?V (n_world w) fd = []" by blast
    have "fds_in F d" using fds_ops(5) [OF net_fine_world(3) [OF fine(2)]] d(1) by (simp add: os_simps)
    from net_unchanged(1) [OF fine(2) d(2) this] d
    show "\<exists>bs w'. sys_read (net_os K H) w fd n = (int (length bs), bs, w') \<and> unchanged ?W w w' \<and> v_open ?W w' fd \<and>
        v_rest ?W w fd = bs @ v_rest ?W w' fd \<and> (bs = [] \<longrightarrow> v_rest ?W w fd = [])"
      by (intro exI [of _ bs] exI [of _ "w\<lparr>n_world := d\<rparr>"]) (simp add: net_law del: client_view_simps)
  qed
qed

lemma net_serves_seeks:
  assumes "serves_seeks (device_os K H) (device_clients K room m)"
  shows "serves_seeks (net_os K H) (net_clients K room m F)"
proof -
  have "serves_seek (net_os K H) (client_view (net_clients K room m F) cfd) (client_sk (net_clients K room m F))" for cfd
    unfolding serves_seek_def
  proof (intro allI impI)
    let ?os = "device_os K H" and ?V = "device_view K room m cfd" and ?W = "client_view (net_clients K room m F) cfd"
    have sk: "client_sk (net_clients K room m F) = client_sk (device_clients K room m)"
      by (simp add: client_sk_def fun_eq_iff net_clients_def Let_def)
    fix w fd to
    assume "v_ok ?W w" "v_open ?W w fd"
    then have fine: "v_ok ?V (n_world w)" "net_fine F m w" "v_open ?V (n_world w) fd"
      by (simp_all add: net_view del: client_view_simps)
    have "serves_seek ?os ?V (client_sk (device_clients K room m))"
      using assms by (simp add: serves_seeks_def device_view_def)
    from this [unfolded serves_seek_def, rule_format, OF fine(1,3), of to] obtain r d where
      d: "sys_ioctl ?os (n_world w) fd AESDCHAR_IOCSEEKTO to = (r, d)" "unchanged ?V (n_world w) d"
        "case client_sk (device_clients K room m) (v_store ?V (n_world w)) (unat (write_cmd to)) (unat (write_cmd_offset to)) of
           None \<Rightarrow> r = - 1
         | Some p \<Rightarrow> r \<noteq> - 1 \<and> v_open ?V d fd \<and> v_rest ?V d fd = drop p (v_bytes ?V (v_store ?V (n_world w)))" by blast
    have "fds_in F d" using fds_ops(6) [OF net_fine_world(3) [OF fine(2)]] d(1) by (simp add: os_simps)
    from net_unchanged(1) [OF fine(2) d(2) this] d
    show "\<exists>r w'. sys_ioctl (net_os K H) w fd AESDCHAR_IOCSEEKTO to = (r, w') \<and> unchanged ?W w w' \<and>
        (case client_sk (net_clients K room m F) (v_store ?W w) (unat (write_cmd to)) (unat (write_cmd_offset to)) of
           None \<Rightarrow> r = - 1
         | Some p \<Rightarrow> r \<noteq> - 1 \<and> v_open ?W w' fd \<and> v_rest ?W w' fd = drop p (v_bytes ?W (v_store ?W w)))"
      by (intro exI [of _ r] exI [of _ "w\<lparr>n_world := d\<rparr>"]) (simp add: net_law sk del: client_view_simps split: option.splits)
  qed
  then show ?thesis by (simp add: serves_seeks_def)
qed

text \<open>The descriptors that are connections.\<close>

abbreviation net_live :: "net \<Rightarrow> int \<Rightarrow> bool" where
  "net_live w fd \<equiv> fd \<in> n_live w"

lemma net_clients_simps:
  "s_ok (net_clients K room m F) w \<longleftrightarrow> device_ok K room (n_world w) \<and> net_fine F m w"
  "s_in (net_clients K room m F) w = w_in (n_world w)" "s_out (net_clients K room m F) w = w_out (n_world w)"
  "s_file (net_clients K room m F) w = w_lines (n_world w)"
  "s_open (net_clients K room m F) w fd \<longleftrightarrow> w_fds (n_world w) fd \<noteq> None"
  "s_rest (net_clients K room m F) w fd =
     (case w_fds (n_world w) fd of None \<Rightarrow> [] | Some filp \<Rightarrow> drop (unat (f_pos filp)) (concat (w_lines (n_world w))))"
  "s_append (net_clients K room m F) ls p = take_last 10 (ls @ [p])"
  "s_bytes (net_clients K room m F) = concat" "s_max (net_clients K room m F) = m"
  "s_seek (net_clients K room m F) = spec_seek"
  by (simp_all add: net_clients_def device_clients_def Let_def)

lemma net_serves_descriptors: "serves_descriptors (net_os K H) (net_clients K room m F) net_live"
proof -
  have "w_fds (n_world w) fd = None" if "net_live w fd" "net_fine F m w" for w fd
    using that by (auto simp: net_fine_def fds_in_def)
  then show ?thesis
    by (auto simp: serves_descriptors_def keeps_live_def net_os_def in_net_def in_net2_def split_beta fun_eq_iff
        keeps_files_def net_clients_simps sock_recv_def dev_close_def Let_def split: option.split)
qed

lemma net_serves_accept: "serves_accept True net_accept (net_clients K room m F) net_live"
  unfolding serves_accept_def
proof (intro allI impI)
  let ?S = "net_clients K room m F"
  fix w fd w'
  assume ok: "s_ok ?S w" and acc: "net_accept w = (fd, w')"
  show "s_ok ?S w' \<and> s_file ?S w' = s_file ?S w \<and> keeps_files ?S w w' \<and>
     (if fd = - 1 then net_live w' = net_live w \<and> s_in ?S w' = s_in ?S w \<and> s_out ?S w' = s_out ?S w
      else \<not> net_live w fd \<and> net_live w' = (net_live w)(fd := True) \<and> s_out ?S w' fd = [] \<and>
        fits (client_view ?S fd) True (s_in ?S w' fd) \<and> other_streams ?S fd w' = other_streams ?S fd w)"
  proof (cases "w' = w \<and> fd = - 1")
    case True
    then show ?thesis using ok by (simp add: keeps_files_def)
  next
    case False
    then obtain bs rest where a: "n_arrivals w = (fd, bs) # rest" "fd \<notin> n_live w" "w_fds (n_world w) fd = None"
      "w' = \<lparr>n_world = (n_world w)\<lparr>w_in := (w_in (n_world w))(fd := bs), w_out := (w_out (n_world w))(fd := [])\<rparr>,
         n_live = insert fd (n_live w), n_arrivals = rest\<rparr>"
      using acc by (auto simp: net_accept_def split: list.splits if_splits)
    have fine: "net_fine F m w" using ok by (simp add: net_clients_simps)
    then have fd: "fd \<notin> F" "fd \<noteq> - 1" "fits (device_view undefined undefined m fd) True bs"
      using a(1) by (simp_all add: net_fine_def)
    have "net_fine F m w'" using fine fd(1) a(1) by (simp add: net_fine_def fds_in_def a(4))
    moreover have "fits (client_view ?S fd) True bs"
      using fd(3) by (subst fits_max) (simp_all add: net_clients_simps view_simps)
    moreover have "s_file ?S w' = s_file ?S w" by (simp add: net_clients_simps a(4))
    ultimately show ?thesis using ok fd a(2)
      by (auto simp: net_clients_simps a(4) keeps_files_def fun_eq_iff other_streams_def)
  qed
qed

lemma net_served:
  assumes "kernel_ok K" "kernel_serves K room" "host_ok H m" "m \<le> kmax K" "m \<le> MAX_RW_COUNT" "64 \<le> m"
    and "\<And>d. h_fd H d \<in> F" and "device_ok K room (n_world w0)" "net_fine F m w0" "n_live w0 = {}"
  shows "served_calls True (net_os K H) net_accept (net_clients K room m F) net_live w0"
proof -
  have "os_serves (device_os K H) (device_view K room m cfd) cfd" for cfd
    by (rule device_serves [OF assms(1-5)])
  note os = this
  have "os_serves (net_os K H) (client_view (net_clients K room m F) cfd) cfd" for cfd
    using net_serves_files [where F = F, OF os assms(7)] net_serves_streams [where F = F, OF os]
      net_serves_data [where F = F, OF os]
    by (simp add: os_serves_def)
  moreover note net_serves_seeks [OF device_serves_seeks [OF assms(1,2)], of H m F]
  ultimately show ?thesis
    using net_serves_descriptors [of K H room m F] net_serves_accept [of K room m F] assms(6,8-10)
    by (simp add: served_calls_def serves_clients_def net_clients_simps)
qed

end
