(* ===== verification/Call_Schedules.thy ===== *)
theory Call_Schedules
  imports Device_Calls
begin

text \<open>
  Three clients of the loaded driver, as a system with clients of \<open>Device_Calls\<close>, and a schedule
  of the threads of the first two that meets the hypotheses of the property of \<open>Call_Pool\<close>.
\<close>

section \<open>Three clients, the last on a descriptor that was used before\<close>

definition net_start :: net where
  "net_start = \<lparr>n_world = booted_world, n_live = {},
     n_arrivals = [(5, [newline, 98, newline]), (6, [newline]), (5, [99, newline, 100])]\<rparr>"

definition small_net :: "net os" where
  "small_net = net_os simple_kernel small_host"

definition small_clients :: "(net, byte list list) server_view" where
  "small_clients = net_clients simple_kernel simple_room 512 {3}"

lemma streams_lines:
  "split_lines [newline, 98, newline] = ([[newline], [98, newline]], [])" "split_lines [newline] = ([[newline]], [])"
  "split_lines [99, newline, 100] = ([[99, newline]], [100])"
  by code_simp+

lemma streams_plain:
  "\<not> seeks True [newline, 98, newline]" "\<not> seeks True [newline]" "\<not> seeks True [99, newline, 100]"
  by (simp_all add: seeks_def streams_lines seek_packet_def seek_prefix_def)

lemma net_start_served: "served_calls True small_net net_accept small_clients net_live net_start"
  unfolding small_net_def small_clients_def
proof (rule net_served [OF simple_kernel_ok simple_kernel_serves small_host_ok])
  have "fits (device_view undefined undefined 512 fd) True [newline, 98, newline]"
    "fits (device_view undefined undefined 512 fd) True [newline]"
    "fits (device_view undefined undefined 512 fd) True [99, newline, 100]" for fd
    by (simp_all add: fits_def streams_plain streams_lines view_simps seek_packet_def seek_prefix_def)
  then show "net_fine {3} 512 net_start"
    by (simp add: net_fine_def net_start_def fds_in_def booted_world_def)
  show "device_ok simple_kernel simple_room (n_world net_start)" using booted_world_ok by (simp add: net_start_def)
qed (simp_all add: simple_kernel_def MAX_RW_COUNT_def small_host_def net_start_def)

abbreviation small_step :: "net call_pool \<Rightarrow> net call_pool \<Rightarrow> bool" where
  "small_step \<equiv> writing_calls True small_net net_accept small_clients"

text \<open>The first two are accepted.\<close>

definition two_here :: "net call_pool" where
  "two_here =
     (let w1 = snd (net_accept net_start); w2 = snd (net_accept w1)
      in (start_calls net_start)\<lparr>cp_world := w2,
           cp_conns := [new_connection small_clients 5 w1, new_connection small_clients 6 w2]\<rparr>)"

lemma two_accepts:
  "net_accept net_start = (5, snd (net_accept net_start))"
  "net_accept (snd (net_accept net_start)) = (6, snd (net_accept (snd (net_accept net_start))))"
  by (simp_all add: net_accept_def net_start_def booted_world_def)

lemma two_here_reached: "small_step\<^sup>*\<^sup>* (start_calls net_start) two_here"
proof -
  let ?p = "start_calls net_start" and ?w1 = "snd (net_accept net_start)"
  let ?q = "?p\<lparr>cp_world := ?w1, cp_conns := cp_conns ?p @ [new_connection small_clients 5 ?w1]\<rparr>"
  let ?w2 = "snd (net_accept ?w1)"
  let ?r = "?q\<lparr>cp_world := ?w2, cp_conns := cp_conns ?q @ [new_connection small_clients 6 ?w2]\<rparr>"
  have "small_step ?p ?q"
    by (rule conjI [OF raw_calls.call [OF calls_step.client]])
      (use two_accepts in \<open>simp_all add: start_calls_def writes_ok_def new_connection_def new_call_outside\<close>)
  moreover have "small_step ?q ?r"
    by (rule conjI [OF raw_calls.call [OF calls_step.client]])
      (use two_accepts in \<open>simp_all add: start_calls_def writes_ok_def new_connection_def new_call_outside\<close>)
  moreover have "?r = two_here" by (simp add: two_here_def start_calls_def Let_def)
  ultimately show ?thesis using rtranclp.rtrancl_into_rtrancl [OF r_into_rtranclp [of small_step ?p ?q], of two_here] by simp
qed

lemma two_here_simps:
  "n_arrivals (cp_world two_here) = [(5, [99, newline, 100])]"
  "length (cp_conns two_here) = 2" "cp_exit two_here = None" "cp_mutex two_here = Nobody"
  "c_fd (cp_conns two_here ! 0) = 5" "c_fd (cp_conns two_here ! 1) = 6"
  "c_stream (cp_conns two_here ! 0) = [newline, 98, newline]" "c_stream (cp_conns two_here ! 1) = [newline]"
  "c_thread (cp_conns two_here ! 0) = new_call_thread" "c_thread (cp_conns two_here ! 1) = new_call_thread"
  "w_in (n_world (cp_world two_here)) 5 = [newline, 98, newline]" "w_in (n_world (cp_world two_here)) 6 = [newline]"
  by (simp_all add: two_here_def net_accept_def net_start_def start_calls_def new_connection_def
      small_clients_def net_clients_simps Let_def booted_world_def)

text \<open>The calls that take a connection to its first line, and the one that locks.\<close>

definition one_line :: conn where
  "one_line = new_conn\<lparr>packet_buf := Some (newline # replicate 1023 0), packet_len := 1, packet_size := 1024\<rparr>"

lemma new_conn_fields: "packet_len new_conn = 0" "packet_size new_conn = 0" "holds new_conn = False"
  by (simp_all add: new_conn_def)

lemma one_line_holds: "holds one_line = False"
  by (simp add: one_line_def new_conn_fields)

lemma first_recv:
  "w_in (n_world w) fd = bs \<Longrightarrow> 0 < length bs \<Longrightarrow> length bs \<le> 7 \<Longrightarrow>
   call_step True small_net fd new_call_thread w = Some (\<lparr>ct_phase = Have bs, ct_conn = new_conn\<rparr>,
     w\<lparr>n_world := (n_world w)\<lparr>w_in := (w_in (n_world w))(fd := [])\<rparr>\<rparr>)"
  by (simp add: call_step_def new_call_thread_def small_net_def net_os_def in_net2_def sock_recv_def small_host_def Let_def)

lemma first_line:
  "call_step True small_net fd \<lparr>ct_phase = Have (newline # bs), ct_conn = new_conn\<rparr> w =
     Some (\<lparr>ct_phase = In_section (Lock (Data [newline])) bs, ct_conn = one_line\<rparr>, w)"
proof -
  have g: "grow_packet small_net new_conn w =
      (True, new_conn\<lparr>packet_buf := Some (replicate 1024 0), packet_size := 1024\<rparr>, w)"
    by (simp add: grow_packet_def new_conn_def small_net_def net_os_def small_host_def)
  have u: "(replicate 1024 0)[0 := newline] = newline # replicate 1023 (0 :: byte)"
  proof -
    have "replicate 1024 (0 :: byte) = 0 # replicate 1023 0" using replicate_Suc [of 1023 "0 :: byte"] by simp
    then show ?thesis by simp
  qed
  have "strncmp_eq (newline # replicate 1023 0) seek_prefix = Some False"
    by (subst strncmp_eq_take) (simp_all add: seek_prefix_def)
  then have "packet_job True one_line = Some (Data [newline])"
    by (simp add: packet_job_def one_line_def)
  moreover have "new_conn\<lparr>packet_size := 1024, packet_buf := Some (newline # replicate 1023 0), packet_len := 1\<rparr> = one_line"
    by (simp add: one_line_def)
  ultimately show ?thesis
    using g u by (simp add: call_step_def take_byte_def arr_set_def new_conn_fields Let_def)
qed

lemma lock_line:
  "call_step True small_net fd \<lparr>ct_phase = In_section (Lock (Data p)) bs, ct_conn = one_line\<rparr> w =
     Some (\<lparr>ct_phase = In_section (Writing (W_open p)) bs, ct_conn = one_line\<lparr>holds := True\<rparr>\<rparr>, w)"
  by (simp add: call_step_def mutex_lock'_def one_line_def new_conn_def small_net_def net_os_def)

lemma after_call_simps:
  assumes "n < length (cp_conns p)"
  shows "cp_world (after_call S n (t, w) p) = w" "length (cp_conns (after_call S n (t, w) p)) = length (cp_conns p)"
    "cp_conns (after_call S n (t, w) p) ! i = (if i = n then connection_after S t w (cp_conns p ! n) else cp_conns p ! i)"
    "cp_exit (after_call S n (t, w) p) = (case ct_phase t of Process_exit st \<Rightarrow> Some st | _ \<Rightarrow> cp_exit p)"
    "cp_mutex (after_call S n (t, w) p) =
       mutex_after (Connection n) (ct_conn (c_thread (cp_conns p ! n))) (ct_conn t) (cp_mutex p)"
  using assms by (simp_all add: after_call_def Let_def nth_list_update)

lemma small_call:
  assumes "small_step\<^sup>*\<^sup>* (start_calls net_start) p" "cp_exit p = None" "n < length (cp_conns p)"
    and "call_active (c_thread (cp_conns p ! n))" "may_call (cp_mutex p) (c_thread (cp_conns p ! n))"
    and "call_step True small_net (c_fd (cp_conns p ! n)) (c_thread (cp_conns p ! n)) (cp_world p) = Some (t, w)"
    and "\<not> write_failed t"
  shows "small_step\<^sup>*\<^sup>* (start_calls net_start) (after_call small_clients n (t, w) p)"
proof -
  have "writes_ok p" using writing_exclusion_inv [OF assms(1)] by (simp add: exclusion_inv_def)
  then have "small_step p (after_call small_clients n (t, w) p)"
    using raw_calls.call [OF calls_step.thread [OF assms(2,3) refl assms(4-6)]] writes_ok_after_call [OF _ assms(3,7)] by blast
  with assms(1) show ?thesis by (rule rtranclp.rtrancl_into_rtrancl)
qed


text \<open>The log of this system, and that only \<open>accept\<close> takes a client from those that will arrive.\<close>

lemma small_file_after:
  "length ls \<le> 10 \<Longrightarrow> file_after small_clients ls h = take_last 10 (ls @ stored h)"
proof -
  have "file_after small_clients ls h = file_after (device_clients simple_kernel simple_room 512) ls h" for ls
    by (induction h arbitrary: ls rule: stored.induct)
      (simp_all add: small_clients_def net_clients_simps device_clients_simps)
  then show "length ls \<le> 10 \<Longrightarrow> file_after small_clients ls h = take_last 10 (ls @ stored h)"
    by (simp add: device_file_after)
qed

lemma dev_arrivals:
  "n_arrivals (snd (sys_open small_net w flags)) = n_arrivals w"
  "n_arrivals (snd (sys_write small_net w fd p)) = n_arrivals w"
  "n_arrivals (snd (sys_fsync small_net w fd)) = n_arrivals w"
  "n_arrivals (snd (snd (sys_read small_net w fd n))) = n_arrivals w"
  "n_arrivals (snd (sys_ioctl small_net w fd cmd to)) = n_arrivals w"
  "n_arrivals (snd (snd (sys_recv small_net w fd n))) = n_arrivals w"
  "n_arrivals (snd (sys_send small_net w fd p)) = n_arrivals w"
  "n_arrivals (snd (sys_realloc small_net w k)) = n_arrivals w"
  "n_arrivals (snd (sys_close small_net w fd)) = n_arrivals w"
  "n_arrivals (sys_lock small_net w) = n_arrivals w" "n_arrivals (sys_unlock small_net w) = n_arrivals w"
  by (simp_all add: small_net_def net_os_def in_net_def in_net2_def split_beta)

lemma write_arrivals: "n_arrivals (snd (write_step small_net wp w)) = n_arrivals w"
  by (cases wp) (simp_all add: split_beta Let_def dev_arrivals)

lemma echo_arrivals: "n_arrivals (snd (echo_step small_net cfd fd ep w)) = n_arrivals w"
  by (cases ep) (simp_all add: split_beta Let_def dev_arrivals)

lemma lock_arrivals:
  "mutex_lock' small_net c w = Some (c', w') \<Longrightarrow> n_arrivals w' = n_arrivals w"
  "mutex_unlock' small_net c w = Some (c', w') \<Longrightarrow> n_arrivals w' = n_arrivals w"
  by (auto simp: mutex_lock'_def mutex_unlock'_def dev_arrivals split: if_splits)

lemma section_arrivals:
  "section_step small_net cfd pt c w = Some (x, c', w') \<Longrightarrow> n_arrivals w' = n_arrivals w"
  by (cases pt) (auto simp: split_beta Let_def dev_arrivals write_arrivals echo_arrivals lock_arrivals split: bind_splits)

lemma grow_arrivals: "n_arrivals (snd (snd (grow_packet small_net c w))) = n_arrivals w"
  by (simp add: grow_packet_def split_beta Let_def dev_arrivals split: option.split)

lemma call_arrivals:
  assumes "call_step True small_net fd t w = Some (t', w')"
  shows "n_arrivals w' = n_arrivals w"
proof (cases "ct_phase t")
  case (Have bs)
  then show ?thesis using assms grow_arrivals [of "ct_conn t" w]
    by (cases bs) (auto simp: call_step_def take_byte_def split_beta Let_def split: bind_splits if_splits)
next
  case (In_section pt bs)
  then show ?thesis using assms by (auto simp: call_step_def section_arrivals split: bind_splits)
qed (use assms in \<open>auto simp: call_step_def split_beta Let_def dev_arrivals split: if_splits\<close>)

end
