(* ===== verification/Whole_Schedules.thy ===== *)
theory Whole_Schedules
  imports Whole_Program Call_Schedules
begin

text \<open>
  The running server on the loaded driver, with the clients of \<open>Call_Schedules\<close>: schedules that
  meet the hypotheses of the properties of \<open>Whole_Calls\<close> and \<open>Whole_Log\<close>.
\<close>

abbreviation small_life :: "net life \<Rightarrow> net life \<Rightarrow> bool" where
  "small_life \<equiv> life_step True small_net net_accept small_clients"

abbreviation small_busy :: "net life \<Rightarrow> net life \<Rightarrow> bool" where
  "small_busy \<equiv> busy_life True small_net net_accept small_clients"

abbreviation small_between :: "net life \<Rightarrow> net life \<Rightarrow> bool" where
  "small_between \<equiv> between_accepts True small_net net_accept small_clients"

abbreviation net_reach :: "net life \<Rightarrow> bool" where
  "net_reach \<equiv> small_life\<^sup>*\<^sup>* (start_life no_records net_start)"

text \<open>What holds when \<open>main\<close> is at \<open>accept\<close> and all clients are served; \<open>cs\<close> are those clients.\<close>

definition served_so_far :: "net life \<Rightarrow> (int \<times> byte list) list \<Rightarrow> (int \<times> byte list) list \<Rightarrow> bool" where
  "served_so_far x cs todo \<longleftrightarrow>
     net_reach x \<and> l_main x = M_accept \<and> n_live (cp_world (l_pool x)) = {} \<and>
     n_arrivals (cp_world (l_pool x)) = todo \<and> map (\<lambda>k. (c_fd k, c_stream k)) (cp_conns (l_pool x)) = cs \<and>
     (\<forall>k \<in> set (cp_conns (l_pool x)). ct_phase (c_thread k) = Ended)"

lemma start_served: "served_so_far (start_life no_records net_start) [] (n_arrivals net_start)"
  by (simp add: served_so_far_def start_life_def start_calls_def net_start_def)

lemma net_reach_calls:
  assumes "net_reach x" "\<not> gives_up (l_main x)"
  obtains h where "life_inv x" "calls_inv True small_clients net_live (s_file small_clients net_start) h (l_pool x)"
proof -
  have "\<not> gone (l_main x)" using assms(2) gone_gives_up by blast
  from life_pool_reach [OF no_records_empty assms(1) this] calls_reach_inv [OF net_start_served]
  show thesis using that life_reach_inv [OF no_records_empty assms(1)] by blast
qed

lemma busy_life_arrivals:
  assumes "life_inv x" "\<not> gives_up (l_main x)" "small_busy\<^sup>*\<^sup>* x y"
  shows "n_arrivals (cp_world (l_pool y)) = n_arrivals (cp_world (l_pool x))"
  using assms(3)
proof (induction rule: rtranclp_induct)
  case (step y z)
  have inv: "life_inv y" using busy_life_clients [OF assms(1,2) step.hyps(1)] by simp
  have "n_arrivals (cp_world (l_pool z)) = n_arrivals (cp_world (l_pool y))"
    using inv busy_stays_up [OF step.hyps(1) assms(2)] step.hyps(2)
  proof (cases rule: busy_life_cases)
    case (thread n r)
    then show ?thesis using call_arrivals [of _ "life_thread y n" "cp_world (l_pool y)" "fst r" "snd r"]
      by (simp add: after_call_def Let_def split_beta)
  qed simp_all
  then show ?case using step.IH by simp
qed simp

text \<open>The next client is accepted.\<close>

lemma next_client:
  assumes x: "served_so_far x cs ((fd, bs) # todo)" and fd: "fd \<noteq> 3" "fd \<noteq> - 1"
  obtains y where "net_reach y" "l_main y = M_malloc fd" "n_arrivals (cp_world (l_pool y)) = todo"
    "map (\<lambda>k. (c_fd k, c_stream k)) (cp_conns (l_pool y)) = cs @ [(fd, bs)]"
proof -
  have r: "net_reach x" "l_main x = M_accept" "n_live (cp_world (l_pool x)) = {}"
    "n_arrivals (cp_world (l_pool x)) = (fd, bs) # todo" "map (\<lambda>k. (c_fd k, c_stream k)) (cp_conns (l_pool x)) = cs"
    using x by (simp_all add: served_so_far_def)
  obtain h where inv: "life_inv x" and c: "calls_inv True small_clients net_live (s_file small_clients net_start) h (l_pool x)"
    using net_reach_calls [OF r(1)] r(2) by auto
  have ex: "cp_exit (l_pool x) = None" and "net_fine {3} 512 (cp_world (l_pool x))"
    using c by (simp_all add: calls_inv_def small_clients_def net_clients_simps)
  then have "w_fds (n_world (cp_world (l_pool x))) fd = None" using fd(1) by (auto simp: net_fine_def fds_in_def)
  then obtain w where w: "net_accept (cp_world (l_pool x)) = (fd, w)" "n_arrivals w = todo" "w_in (n_world w) fd = bs"
    using r(3,4) by (simp add: net_accept_def)
  obtain ks ys where ok: "main_ok (l_main x) ks ys (l_server x)" using inv by (auto simp: life_inv_def)
  obtain a where "fresh_answers a (l_server x)" using main_ok_fresh [OF ok] by blast
  then have a: "main_answers net_accept (a\<lparr>a_fd := fd\<rparr>) x" using w(1) by (simp add: main_answers_def fresh_answers_def)
  let ?y = "x\<lparr>l_pool := (l_pool x)\<lparr>cp_world := w, cp_conns := cp_conns (l_pool x) @ [new_connection small_clients fd w]\<rparr>,
    l_main := M_malloc fd\<rparr>"
  have "main_call small_net net_accept small_clients (a\<lparr>a_fd := fd\<rparr>) x = Some ?y"
    using r(2) w(1) fd(2) by (simp add: main_call_def main_step_def main_effect_def Let_def)
  moreover have "may_main x" using r(2) by (simp add: may_main_def)
  ultimately have "small_life x ?y" using life_step.main [OF ex a] by blast
  then have "net_reach ?y" using r(1) by (rule rtranclp.rtrancl_into_rtrancl [rotated])
  then show thesis
    using that [of ?y] w(2,3) r(5) by (simp add: new_connection_def small_clients_def net_clients_simps)
qed

text \<open>It is served, and \<open>main\<close> is back at \<open>accept\<close>.\<close>

lemma client_served:
  assumes x: "net_reach x" "\<not> gives_up (l_main x)"
  obtains y where "small_busy\<^sup>*\<^sup>* x y" "\<nexists>z. small_between y z" "cp_exit (l_pool y) = None"
    "served_so_far y (map (\<lambda>k. (c_fd k, c_stream k)) (cp_conns (l_pool x))) (n_arrivals (cp_world (l_pool x)))"
proof -
  have inv: "life_inv x" by (rule life_reach_inv [OF no_records_empty x(1)])
  obtain y where y: "small_busy\<^sup>*\<^sup>* x y" "l_main y = M_accept" "cp_exit (l_pool y) = None" "\<nexists>z. small_between y z"
    by (rule busy_life_runs_out [OF net_start_served no_records_empty x])
  have r: "net_reach y" using x(1) busy_life_reach [OF y(1)] by simp
  have "n_live (cp_world (l_pool y)) = {}" using served_at_accept(3) [OF net_start_served no_records_empty r y(2,4)] by auto
  then show thesis
    using that [OF y(1,4,3)] r y(2) busy_life_arrivals [OF inv x(2) y(1)] busy_life_clients [OF inv x(2) y(1)]
      served_at_accept(2) [OF net_start_served no_records_empty r y(2,4)]
    by (simp add: served_so_far_def same_clients_def)
qed

lemma one_more:
  assumes "served_so_far x cs ((fd, bs) # todo)" "fd \<noteq> 3" "fd \<noteq> - 1"
  obtains y where "served_so_far y (cs @ [(fd, bs)]) todo"
proof -
  obtain y where y: "net_reach y" "l_main y = M_malloc fd" "n_arrivals (cp_world (l_pool y)) = todo"
    "map (\<lambda>k. (c_fd k, c_stream k)) (cp_conns (l_pool y)) = cs @ [(fd, bs)]"
    by (rule next_client [OF assms])
  have "\<not> gives_up (l_main y)" using y(2) by simp
  from client_served [OF y(1) this] show thesis using that y(3,4) by metis
qed

text \<open>
  From the moment a client was accepted no run goes on for ever without another \<open>accept\<close>, and one run is back
  at \<open>accept\<close> with the client served.
\<close>

theorem server_returns_to_accept_witness:
  "\<exists>x y. net_reach x \<and> l_main x = M_malloc 5 \<and>
     (\<forall>f. f 0 = x \<and> (\<forall>i :: nat. small_life (f i) (f (Suc i))) \<longrightarrow> (\<exists>j. \<not> small_between (f j) (f (Suc j)))) \<and>
     small_between\<^sup>*\<^sup>* x y \<and> (\<nexists>z. small_between y z) \<and>
     l_main y = M_accept \<and> length (l_args y) = 1 \<and> n_live (cp_world (l_pool y)) = {} \<and> cp_mutex (l_pool y) = Nobody"
proof -
  have s: "served_so_far (start_life no_records net_start) [] ((5, [newline, 98, newline]) # [(6, [newline]), (5, [99, newline, 100])])"
    using start_served by (simp add: net_start_def)
  obtain x where x: "net_reach x" "l_main x = M_malloc 5"
    "map (\<lambda>k. (c_fd k, c_stream k)) (cp_conns (l_pool x)) = [] @ [(5, [newline, 98, newline])]"
    by (rule next_client [OF s]) simp_all
  have up: "\<not> gives_up (l_main x)" using x(2) by simp
  obtain y where y: "small_busy\<^sup>*\<^sup>* x y" "\<nexists>z. small_between y z" "cp_exit (l_pool y) = None"
    "served_so_far y (map (\<lambda>k. (c_fd k, c_stream k)) (cp_conns (l_pool x))) (n_arrivals (cp_world (l_pool x)))"
    by (rule client_served [OF x(1) up])
  have "length (cp_conns (l_pool y)) = 1"
    using y(4) x(3) arg_cong [of _ _ length] unfolding served_so_far_def by fastforce
  moreover have r: "small_between\<^sup>*\<^sup>* x y \<and> (\<nexists>z. small_between y z)" using busy_life_between [OF y(1)] y(2) by blast
  note home = server_returns_to_accept [OF net_start_served no_records_empty x(1)]
  moreover have "l_main y = M_accept \<and> length (l_args y) = length (cp_conns (l_pool y)) \<and>
      (\<forall>fd. \<not> net_live (cp_world (l_pool y)) fd) \<and> cp_mutex (l_pool y) = Nobody"
    using home [THEN conjunct2] r y(3) by (metis (mono_tags, lifting))
  moreover have "\<forall>f. f 0 = x \<and> (\<forall>i :: nat. small_life (f i) (f (Suc i))) \<longrightarrow> (\<exists>j. \<not> small_between (f j) (f (Suc j)))"
    using home [THEN conjunct1] by blast
  ultimately show ?thesis using x(1,2) r by (intro exI [of _ x] exI [of _ y]) simp
qed

text \<open>Three clients, one after the other; the third gets the descriptor of the first.\<close>

theorem server_shares_one_log_witness:
  "\<exists>x h. net_reach x \<and> map c_fd (cp_conns (l_pool x)) = [5, 6, 5] \<and>
     w_lines (n_world (cp_world (l_pool x))) = take_last 10 (stored h) \<and>
     packets_of 0 h = [[newline], [98, newline]] \<and> packets_of 1 h = [[newline]] \<and> packets_of 2 h = [[99, newline]]"
proof -
  let ?S = small_clients
  have "served_so_far (start_life no_records net_start) [] ((5, [newline, 98, newline]) # [(6, [newline]), (5, [99, newline, 100])])"
    using start_served by (simp add: net_start_def)
  then obtain x1 where "served_so_far x1 ([] @ [(5, [newline, 98, newline])]) ((6, [newline]) # [(5, [99, newline, 100])])"
    by (rule one_more) simp_all
  then obtain x2 where "served_so_far x2 (([] @ [(5, [newline, 98, newline])]) @ [(6, [newline])]) ((5, [99, newline, 100]) # [])"
    by (rule one_more) simp_all
  then obtain x where "served_so_far x ((([] @ [(5, [newline, 98, newline])]) @ [(6, [newline])]) @ [(5, [99, newline, 100])]) []"
    by (rule one_more) simp_all
  then have x: "net_reach x" "\<not> gone (l_main x)"
    and clients: "map (\<lambda>k. (c_fd k, c_stream k)) (cp_conns (l_pool x)) =
      [(5, [newline, 98, newline]), (6, [newline]), (5, [99, newline, 100])]"
    and ended: "\<And>k. k \<in> set (cp_conns (l_pool x)) \<Longrightarrow> ct_phase (c_thread k) = Ended"
    by (simp_all add: served_so_far_def)
  obtain k0 k1 k2 where conns: "cp_conns (l_pool x) = [k0, k1, k2]" and fds: "c_fd k0 = 5" "c_fd k1 = 6" "c_fd k2 = 5"
    and streams: "c_stream k0 = [newline, 98, newline]" "c_stream k1 = [newline]" "c_stream k2 = [99, newline, 100]"
    using clients by (auto simp: map_eq_Cons_conv)
  obtain h where h: "s_file ?S (cp_world (l_pool x)) = file_after ?S (s_file ?S net_start) h"
    "right_history True ?S (s_file ?S net_start) h"
    and all: "\<And>n. n < length (cp_conns (l_pool x)) \<Longrightarrow> \<exists>rest.
        c_stream (cp_conns (l_pool x) ! n) = concat (packets_of (int n) h) @ rest \<and>
        (call_active (c_thread (cp_conns (l_pool x) ! n)) \<or> waiting True rest)"
    using server_shares_one_log [OF net_start_served no_records_empty x(1)] x(2) unfolding Let_def by metis
  have packets: "packets_of (int n) h = fst (split_lines (c_stream (cp_conns (l_pool x) ! n)))"
    if n: "n < 3" and no: "\<not> seeks True (c_stream (cp_conns (l_pool x) ! n))" for n
  proof -
    have n': "n < length (cp_conns (l_pool x))" using n conns by simp
    have "\<not> call_active (c_thread (cp_conns (l_pool x) ! n))"
      using ended [OF nth_mem [OF n']] by (simp add: call_active_def)
    then obtain rest where "c_stream (cp_conns (l_pool x) ! n) = concat (packets_of (int n) h) @ rest" "waiting True rest"
      using all [OF n'] by blast
    from plain_client [OF h(2) this no] show ?thesis by simp
  qed
  have "w_lines (n_world net_start) = []" using booted_world_start(1) by (simp add: net_start_def)
  then have "w_lines (n_world (cp_world (l_pool x))) = take_last 10 (stored h)"
    using h(1) small_file_after [of "[]" h] by (simp add: small_clients_def net_clients_simps)
  moreover have "packets_of 0 h = [[newline], [98, newline]]" "packets_of 1 h = [[newline]]" "packets_of 2 h = [[99, newline]]"
    using packets [of 0] packets [of 1] packets [of 2] by (simp_all add: conns streams streams_plain streams_lines)
  moreover have "map c_fd (cp_conns (l_pool x)) = [5, 6, 5]" by (simp add: conns fds)
  ultimately show ?thesis using x(1) by (intro exI [of _ x] exI [of _ h] conjI)
qed

text \<open>The first client's thread has just been created.\<close>

lemma main_goes_on:
  assumes x: "net_reach x" "\<not> gives_up (l_main x)" and it: "in_iteration (l_main x)" "may_main x"
  obtains a y where "a_rc a = 0" "main_call small_net net_accept small_clients a x = Some y" "net_reach y"
proof -
  obtain h where inv: "life_inv x" and c: "calls_inv True small_clients net_live (s_file small_clients net_start) h (l_pool x)"
    using net_reach_calls [OF x] by blast
  have ex: "cp_exit (l_pool x) = None" using c by (simp add: calls_inv_def)
  obtain ks ys where ok: "main_ok (l_main x) ks ys (l_server x)" using inv by (auto simp: life_inv_def)
  obtain a where a: "fresh_answers a (l_server x)" "a_rc a = 0" using main_ok_fresh [OF ok] by blast
  then have ans: "main_answers net_accept a x" using it(1) by (simp add: main_answers_def in_iteration_def)
  obtain y where y: "main_call small_net net_accept small_clients a x = Some y"
    using main_life_inv [where os = small_net and S = small_clients, OF inv ok ex ans it(2)] by blast
  have "small_life x y" by (rule life_step.main [OF ex ans it(2) y])
  then have "net_reach y" using x(1) by (rule rtranclp.rtrancl_into_rtrancl [rotated])
  then show thesis using that a(2) y by blast
qed


text \<open>The daemon is stopped by a signal after its first client was served, when two more are waiting.\<close>

abbreviation daemon_args :: "string list" where
  "daemon_args \<equiv> [''aesdsocket'', ''-d'']"

abbreviation daemon_step :: "net process \<Rightarrow> net process \<Rightarrow> bool" where
  "daemon_step \<equiv> process_step True fine_machine daemon_args (\<lambda>h. net_start) no_records small_net (\<lambda>fd. net_accept) small_clients"

theorem process_ends_with_one_log_witness:
  "\<exists>w es. daemon_step\<^sup>*\<^sup>* Launched (Exited 0 (startup_plan True True 3 4 any_addr) w) \<and>
     n_arrivals w = [(6, [newline]), (5, [99, newline, 100])] \<and>
     s_file small_clients w = file_after small_clients (s_file small_clients net_start) es"
proof -
  let ?plan = "startup_plan True True 3 4 any_addr"
  have "served_so_far (start_life no_records net_start) [] ((5, [newline, 98, newline]) # [(6, [newline]), (5, [99, newline, 100])])"
    using start_served by (simp add: net_start_def)
  then obtain x where "served_so_far x ([] @ [(5, [newline, 98, newline])]) [(6, [newline]), (5, [99, newline, 100])]"
    by (rule one_more) simp_all
  then have x: "net_reach x" "l_main x = M_accept" "n_arrivals (cp_world (l_pool x)) = [(6, [newline]), (5, [99, newline, 100])]"
    by (simp_all add: served_so_far_def)
  have ex: "cp_exit (l_pool x) = None" using net_reach_calls [OF x(1)] x(2) by (auto simp: calls_inv_def)
  have "daemon_step Launched (Serving 4 initial_globals ?plan (start_life no_records net_start))"
    using process_step.startup_done [OF fine_start, of "\<lambda>h. net_start"] .
  moreover have "daemon_step\<^sup>*\<^sup>* (Serving 4 initial_globals ?plan (start_life no_records net_start)) (Serving 4 initial_globals ?plan x)"
    using x(1) by (rule process_serves)
  moreover have "daemon_step (Serving 4 initial_globals ?plan x) (Exited 0 ?plan (cp_world (l_pool x)))"
    using process_step.signal [OF ex, of fine_machine initial_globals ?plan 0 ?plan] by (simp add: no_signal_call not_signalled)
  ultimately have run: "daemon_step\<^sup>*\<^sup>* Launched (Exited 0 ?plan (cp_world (l_pool x)))"
    by (meson converse_rtranclp_into_rtranclp rtranclp.rtrancl_into_rtrancl)
  have sv: "serves_started True fine_machine daemon_args (\<lambda>h. net_start) small_net (\<lambda>fd. net_accept) small_clients net_live"
    using net_start_served by (simp add: serves_started_def)
  have "cp_world (l_pool x) \<noteq> net_start" using x(3) by (auto simp: net_start_def)
  then obtain es where "s_file small_clients (cp_world (l_pool x)) = file_after small_clients (s_file small_clients net_start) es"
    using process_ends_with_one_log [OF machines_ok(1) sv no_records_empty run] by auto
  then show ?thesis using run x(3) by blast
qed

end
