(* ===== verification/Socket_Props.thy ===== *)
theory Socket_Props
  imports Socket_Session
begin

text \<open>
  The properties of a connection thread: when the system serves it, the client's stream is
  cut into packets, each is appended to the file and the file is sent back, however the
  stream arrives; the packet buffer is safe whatever the system does; a seek command is
  read back as it was written and never changes the file; and where the error paths and
  the scanner go wrong.
\<close>

section \<open>A whole connection\<close>

text \<open>
  C8: when the system serves a client whose packets fit, the thread ends and has held the
  session of its packets: every complete packet that is no seek command was appended to the
  file, in order, and answered with the whole file; every seek command was answered with the
  file from its place on, until one was refused, after which nothing is answered. An
  unfinished packet is dropped; the mutex is free. The result depends on the bytes alone,
  not on how \<open>recv\<close> and \<open>send\<close> cut them. The thread reports success, so that it can be
  joined, exactly when the client sent anything.
\<close>

theorem connection_serves_packets:
  assumes "os_serves os V cfd" "v_ok V w" "fits V use_char (v_input V w)"
    and "seeks use_char (v_input V w) \<Longrightarrow> serves_seek os V sk"
  shows "\<exists>c w'. handle_connection use_char os cfd w = Some (Client_done, c, w') \<and> \<not> holds c \<and>
     packet_buf c = None \<and> v_input V w' = [] \<and>
     (let (file, reply, served) = session V use_char sk (v_store V w) (fst (split_lines (v_input V w)))
      in v_store V w' = file \<and> v_sent V w' = v_sent V w @ reply) \<and>
     (thread_complete_success c \<longleftrightarrow> v_input V w \<noteq> [])"
  using handle_connection_serves [OF assms] by (simp add: did_def split_beta Let_def) blast

text \<open>
  C14: the bytes of an unfinished packet are stored inside the packet buffer, whatever the
  system answers: the thread goes on with all of them pending, or the buffer could not
  grow, it was freed and the thread ends, without the flag that lets it be joined.
\<close>

theorem packet_buffer_safe:
  assumes "conn_ok c" "realloc_ok os" "newline \<notin> set bs"
  shows "\<exists>fl c' w'. bytes_loop use_char os cfd bs c w = Some (fl, c', w') \<and>
     thread_complete_success c' = thread_complete_success c \<and>
     (fl = Next_byte \<and> conn_ok c' \<and> pending c' = pending c @ bs \<or>
      fl = Client_done \<and> packet_buf c' = None)"
  using assms(1,3)
proof (induction bs arbitrary: c w)
  case Nil
  then show ?case by simp
next
  case (Cons ch bs)
  obtain ok c1 w1 where g: "grow_packet os c w = (ok, c1, w1)" by (metis prod_cases3)
  show ?case
  proof (cases ok)
    case False
    then have "packet_buf c1 = None \<and> thread_complete_success c1 = thread_complete_success c"
      using g by (auto simp: grow_packet_def Let_def split: if_splits prod.splits option.splits)
    then show ?thesis using process_byte_full [of os c w c1 w1 use_char cfd ch] g False by simp
  next
    case True
    then have g': "grow_packet os c w = (True, c1, w1)" using g by simp
    note put = process_byte_put [OF Cons.prems(1) assms(2) g', where ch = ch]
    have t: "thread_complete_success (put_byte c1 ch) = thread_complete_success c"
      using grow_packet_ok [OF Cons.prems(1) assms(2) g' TrueI] by (simp add: put_byte_ok)
    have "process_byte use_char os cfd ch c w = Some (Next_byte, put_byte c1 ch, w1)"
      using put(5) Cons.prems(2) by simp
    then show ?thesis using Cons.IH [OF put(1), of w1] Cons.prems(2) put(2) t by simp
  qed
qed

section \<open>Failures\<close>

text \<open>
  When the file cannot be opened for the reply, the packet was written and stays in the
  buffer: the rest of the received bytes is dropped and the next packet starts with the
  bytes of this one.
\<close>

theorem failed_reply_keeps_packet:
  assumes "\<not> holds c" "write_to_file os (sys_lock os w) p = (0, w1)" "sys_open os w1 [O_RDONLY] = (- 1, w2)"
  shows "handle_data os cfd p c w = Some (Break_loop, c, sys_unlock os w2)"
proof -
  have "c\<lparr>holds := False\<rparr> = c" using assms(1) by (cases c) simp
  then show ?thesis using assms
    by (simp add: handle_data_def mutex_lock'_def mutex_unlock'_def)
qed

text \<open>
  C36: after a seek command that the driver refused, \<open>packet_len\<close> is not reset: whatever the
  client sends later on this connection is taken for the same command again and never
  written, and each time another descriptor stays open.
\<close>

theorem refused_seek_blocks_connection:
  assumes "conn_ok c" "\<not> holds c" "pending c = seek_prefix @ cmd @ later"
    and "\<And>s. scan_pair (cmd @ s) = Some (Some (x, y))"
    and "sys_open os (sys_lock os w) [O_RDWR] = (fd, w1)" "fd \<noteq> - 1"
    and "sys_ioctl os w1 fd AESDCHAR_IOCSEEKTO \<lparr>write_cmd = of_int x, write_cmd_offset = of_int y\<rparr> = (- 1, w2)"
  shows "handle_packet True os cfd c w = Some (Next_byte, c, sys_unlock os w2)"
proof -
  have "c\<lparr>holds := False\<rparr> = c" using assms(2) by (cases c) simp
  then show ?thesis
    using assms by (simp add: handle_packet_seek handle_seek_def mutex_lock'_def mutex_unlock'_def)
qed

section \<open>The seek command\<close>

text \<open>
  C26: the seek command is read back as it was written: for numbers below $2^{31}$ the
  scanner gives the two numbers of the text, whatever stands in the buffer behind it.
\<close>

theorem seek_command_roundtrip:
  assumes "x < 2 ^ 31" "y < 2 ^ 31"
  shows "scan_pair ((decimal x @ 44 # decimal y @ [newline]) @ stale) = Some (Some (int x, int y))"
  by (rule scan_pair_decimal [OF assms])

text \<open>
  A command without numbers makes the scanner run on: \<open>%d\<close> skips the newline as white
  space and goes on in what the buffer held before; if that is white space to the end of
  the allocation, the scan leaves it. A first number of $2^{31}$ or more is undefined
  as well.
\<close>

theorem seek_scan_leaves_packet:
  assumes "packet_buf c = Some b" "b = seek_prefix @ rest"
    and "(\<exists>stale. rest = newline # stale \<and> (\<forall>s \<in> set stale. isspace s)) \<or>
         (\<exists>n tail. rest = decimal n @ tail \<and> 2 ^ 31 \<le> n)"
  shows "handle_packet True os cfd c w = None"
proof -
  have sp: "(\<forall>s \<in> set bs. isspace s) \<Longrightarrow> skip_space bs = None" for bs
    by (induction bs) auto
  have "isspace newline" by (simp add: isspace_def word_le_nat_alt)
  then have "scan_int rest = None"
    using assms(3) sp scan_int_overflow by (auto simp: scan_int_def)
  then have "scan_pair rest = None" by (simp add: scan_pair_def)
  moreover have "strncmp_eq b seek_prefix = Some True"
    using strncmp_eq_take [of seek_prefix b] assms(2) by simp
  ultimately show ?thesis using assms(1,2) by (simp add: handle_packet_def)
qed

text \<open>
  On a system that serves, a seek command is answered with the file from the byte it
  names on and the packet buffer is emptied; a refused one is answered with nothing and stays
  in the buffer. The file is never changed.
\<close>

theorem seek_packet_answered:
  assumes "os_serves os V cfd" "serves_seek os V sk" "v_ok V w"
    and "conn_ok c" "\<not> holds c" "pending c = seek_cmd x y" "x < 2 ^ 31" "y < 2 ^ 31"
  shows "\<exists>c' w'. handle_packet True os cfd c w = Some (Next_byte, c', w') \<and> \<not> holds c' \<and>
     v_ok V w' \<and> v_store V w' = v_store V w \<and>
     (case sk (v_store V w) x y of
        None \<Rightarrow> v_sent V w' = v_sent V w \<and> pending c' = pending c
      | Some p \<Rightarrow> v_sent V w' = v_sent V w @ drop p (v_bytes V (v_store V w)) \<and> pending c' = [])"
proof -
  have "pending c = seek_cmd x y @ []" using assms(6) by simp
  note h = handle_packet_cmd [OF assms(4) this assms(7,8), of os cfd w]
  have "pending (c\<lparr>packet_len := 0\<rparr>) = []" by (simp add: pending_def split: option.split)
  then show ?thesis
    using handle_seek_serves [OF assms(1-3,5,7,8)] assms(5) h
    by (auto split: option.splits)
qed

section \<open>Witnesses\<close>

text \<open>
  A system with one growing file that serves: \<open>recv\<close> gives three bytes at a time,
  \<open>send\<close> takes two, and the seek command moves the reader within line 0.
\<close>

record one_file =
  client_in :: "byte list"
  client_out :: "byte list"
  file_bytes :: "byte list"
  file_pos :: nat

definition plain_os :: "one_file os" where
  "plain_os =
     \<lparr>sys_open = (\<lambda>w flags. (3, w\<lparr>file_pos := 0\<rparr>)),
      sys_close = (\<lambda>w fd. (0, w)),
      sys_write = (\<lambda>w fd bs. (int (length bs), w\<lparr>file_bytes := file_bytes w @ bs\<rparr>)),
      sys_fsync = (\<lambda>w fd. (0, w)),
      sys_read = (\<lambda>w fd n. let bs = take n (drop (file_pos w) (file_bytes w))
         in (int (length bs), bs, w\<lparr>file_pos := file_pos w + length bs\<rparr>)),
      sys_ioctl = (\<lambda>w fd cmd to. if write_cmd to = 0
         then (0, w\<lparr>file_pos := unat (write_cmd_offset to)\<rparr>) else (- 1, w)),
      sys_recv = (\<lambda>w fd n. let bs = take (min n 3) (client_in w)
         in (int (length bs), bs, w\<lparr>client_in := drop (length bs) (client_in w)\<rparr>)),
      sys_send = (\<lambda>w fd bs. (int (min 2 (length bs)), w\<lparr>client_out := client_out w @ take 2 bs\<rparr>)),
      sys_realloc = (\<lambda>w n. (if n \<le> 65536 then Some (replicate (unat n) 0) else None, w)),
      sys_lock = (\<lambda>w. w), sys_unlock = (\<lambda>w. w)\<rparr>"

definition plain_view :: "(one_file, byte list) view" where
  "plain_view =
     \<lparr>v_ok = (\<lambda>w. True), v_input = client_in, v_sent = client_out, v_store = file_bytes,
      v_open = (\<lambda>w fd. True), v_rest = (\<lambda>w fd. drop (file_pos w) (file_bytes w)),
      v_append = (@), v_bytes = (\<lambda>f. f), v_max = 4096\<rparr>"

lemma take_then_drop: "drop k xs = take n (drop k xs) @ drop (k + min (length xs - k) n) xs"
proof -
  have "drop (k + min (length xs - k) n) xs = drop n (drop k xs)"
    by (cases "n \<le> length xs - k") (simp_all add: min_def add.commute)
  then show ?thesis by (simp only: append_take_drop_id)
qed

lemma plain_serves: "os_serves plain_os plain_view 5"
proof -
  have "serves_open plain_os plain_view" "serves_write plain_os plain_view" "serves_fsync plain_os plain_view"
    "serves_close plain_os plain_view" "serves_hangup plain_os plain_view 5" "serves_mutex plain_os plain_view"
    by (simp_all add: serves_open_def serves_write_def serves_fsync_def serves_close_def serves_hangup_def
        serves_mutex_def plain_os_def plain_view_def unchanged_def)
  moreover have "serves_read plain_os plain_view"
    using take_then_drop [of "file_pos w" "file_bytes w" n for w n]
    by (auto simp: serves_read_def plain_os_def plain_view_def unchanged_def Let_def add.commute)
  moreover have "serves_send plain_os plain_view 5"
    by (auto simp: serves_send_def plain_os_def plain_view_def min_def)
  moreover have "serves_recv plain_os plain_view 5"
    by (auto simp: serves_recv_def plain_os_def plain_view_def Let_def min_def)
  moreover have "serves_memory plain_os plain_view"
    by (auto simp: serves_memory_def realloc_ok_def plain_os_def plain_view_def unchanged_def word_le_nat_alt)
  ultimately show ?thesis by (simp add: os_serves_def)
qed

text \<open>Its seek command knows line 0 only.\<close>

definition plain_sk :: "byte list \<Rightarrow> nat \<Rightarrow> nat \<Rightarrow> nat option" where
  "plain_sk f x y = (if x = 0 then Some y else None)"

lemma plain_seek: "serves_seek plain_os plain_view plain_sk"
  by (auto simp: serves_seek_def plain_os_def plain_view_def unchanged_def plain_sk_def unat_eq_0)

lemma plain_realloc: "realloc_ok plain_os"
  using plain_serves by (simp add: os_serves_def serves_memory_def)

text \<open>A client that sends \<open>"ab\nc\nd"\<close>; the file holds one line.\<close>

definition talk :: one_file where
  "talk = \<lparr>client_in = [97, 98, newline, 99, newline, 100], client_out = [], file_bytes = [120, newline],
           file_pos = 0\<rparr>"

text \<open>A client that appends a line, seeks to its second byte, seeks to no line, and goes on.\<close>

definition seeker :: one_file where
  "seeker = talk\<lparr>client_in := [97, 98, newline] @ seek_cmd 0 1 @ seek_cmd 7 0 @ [99, newline]\<rparr>"

lemma seeker_lines:
  "split_lines (client_in seeker) = ([[97, 98, newline], seek_cmd 0 1, seek_cmd 7 0, [99, newline]], [])"
  by code_simp

lemma seeker_session:
  "session plain_view True plain_sk [120, newline] (fst (split_lines (client_in seeker))) =
     ([120, newline, 97, 98, newline], [120, newline, 97, 98, newline] @ [newline, 97, 98, newline], False)"
proof -
  have plain: "seek_args [97, 98, newline] = None" by code_simp
  show ?thesis
    by (simp add: seeker_lines session.simps plain seek_args_cmd plain_sk_def plain_view_def)
qed

theorem connection_serves_packets_witness:
  "\<exists>c w'. handle_connection True plain_os 5 seeker = Some (Client_done, c, w') \<and> thread_complete_success c \<and>
     file_bytes w' = [120, newline, 97, 98, newline] \<and>
     client_out w' = [120, newline, 97, 98, newline] @ [newline, 97, 98, newline]"
proof -
  have "command (seek_cmd 0 1)" "command (seek_cmd 7 0)"
    unfolding command_def by (rule exI [of _ 0] exI [of _ 7] exI [of _ 1], simp)+
  moreover have "length (seek_cmd 0 1) = 23" "length (seek_cmd 7 0) = 23"
    by (simp_all add: seek_cmd_def seek_prefix_def decimal.simps)
  moreover have "\<not> seek_packet [97, 98, newline]" "\<not> seek_packet [99, newline]"
    by (simp_all add: seek_packet_def seek_prefix_def)
  moreover have "length (client_in seeker) = 51" by code_simp
  ultimately have "fits plain_view True (v_input plain_view seeker)"
    by (simp add: fits_def plain_view_def seeker_lines)
  from connection_serves_packets [OF plain_serves _ this plain_seek] show ?thesis
    using seeker_session by (simp add: plain_view_def) (auto simp: seeker_def talk_def)
qed

theorem packet_buffer_safe_witness:
  "\<exists>fl c' w'. bytes_loop True plain_os 5 [97, 98] new_conn talk = Some (fl, c', w') \<and>
     (fl = Next_byte \<and> pending c' = [97, 98] \<or> fl = Client_done \<and> packet_buf c' = None)"
  using packet_buffer_safe [OF new_conn_ok(1) plain_realloc, of "[97, 98]" True 5 talk]
  by (auto simp: new_conn_ok)

text \<open>The same system, where the file cannot be opened for reading.\<close>

definition no_read_os :: "one_file os" where
  "no_read_os = plain_os\<lparr>sys_open := (\<lambda>w flags. if O_RDONLY \<in> set flags then (- 1, w) else (3, w))\<rparr>"

theorem failed_reply_keeps_packet_witness:
  "handle_data no_read_os 5 [97, newline] (new_conn\<lparr>packet_len := 2\<rparr>) talk =
     Some (Break_loop, new_conn\<lparr>packet_len := 2\<rparr>, talk\<lparr>file_bytes := [120, newline, 97, newline]\<rparr>)"
proof -
  let ?w = "talk\<lparr>file_bytes := [120, newline, 97, newline]\<rparr>"
  have "write_to_file no_read_os (sys_lock no_read_os talk) [97, newline] = (0, ?w)"
    "sys_open no_read_os ?w [O_RDONLY] = (- 1, ?w)" "\<not> holds (new_conn\<lparr>packet_len := 2\<rparr>)"
    by (simp_all add: write_to_file_def no_read_os_def plain_os_def talk_def new_conn_def)
  from failed_reply_keeps_packet [OF this(3,1,2), of 5] show ?thesis
    by (simp add: no_read_os_def plain_os_def)
qed

text \<open>A connection whose buffer holds some bytes.\<close>

definition conn_with :: "byte list \<Rightarrow> conn" where
  "conn_with bs = \<lparr>packet_buf = Some (bs @ replicate (1024 - length bs) 0), packet_len = of_nat (length bs),
     packet_size = 1024, holds = False, thread_complete_success = False\<rparr>"

lemma conn_with_ok:
  "length bs \<le> 1024 \<Longrightarrow> conn_ok (conn_with bs) \<and> pending (conn_with bs) = bs \<and> \<not> holds (conn_with bs)"
  by (simp add: conn_ok_def conn_with_def pending_def unat_of_nat_64)

theorem refused_seek_blocks_connection_witness:
  "handle_packet True plain_os 5
     (conn_with (seek_prefix @ (decimal 7 @ 44 # decimal 0 @ [newline]) @ [104, 105, newline])) talk =
   Some (Next_byte, conn_with (seek_prefix @ (decimal 7 @ 44 # decimal 0 @ [newline]) @ [104, 105, newline]),
     talk)"
proof -
  let ?cmd = "decimal 7 @ 44 # decimal 0 @ [newline]"
  have "length (seek_prefix @ ?cmd @ [104, 105, newline]) \<le> 1024"
    by (simp add: seek_prefix_def decimal.simps)
  note c = conn_with_ok [OF this]
  have s: "\<And>s. scan_pair (?cmd @ s) = Some (Some (int 7, int 0))" by (rule scan_pair_decimal) simp_all
  have w: "talk\<lparr>file_pos := 0\<rparr> = talk" by (simp add: talk_def)
  have o: "sys_open plain_os (sys_lock plain_os talk) [O_RDWR] = (3, talk)"
    and i: "sys_ioctl plain_os talk 3 AESDCHAR_IOCSEEKTO
      \<lparr>write_cmd = of_int (int 7), write_cmd_offset = of_int (int 0)\<rparr> = (- 1, talk)"
    by (simp_all add: plain_os_def w)
  show ?thesis
    using refused_seek_blocks_connection [OF _ _ _ s o _ i, of _ "[104, 105, newline]" 5] c
    by (simp add: plain_os_def)
qed

theorem seek_command_roundtrip_witness:
  "scan_pair ((decimal 0 @ 44 # decimal 2147483647 @ [newline]) @ [49]) = Some (Some (int 0, int 2147483647))"
  using seek_command_roundtrip [of 0 2147483647 "[49]"] by simp

theorem seek_scan_leaves_packet_witness:
  "handle_packet True plain_os 5
     (conn_with []\<lparr>packet_buf := Some (seek_prefix @ newline # replicate 1004 32)\<rparr>) talk = None"
  by (rule seek_scan_leaves_packet [OF _ refl]) (auto simp: isspace_def intro!: exI)

theorem seek_packet_answered_witness:
  "\<exists>c' w'. handle_packet True plain_os 5 (conn_with (seek_cmd 0 1)) talk = Some (Next_byte, c', w') \<and>
     file_bytes w' = [120, newline] \<and> client_out w' = [newline] \<and> pending c' = []"
proof -
  have "length (seek_cmd 0 1) \<le> 1024"
    by (simp add: seek_cmd_def seek_prefix_def decimal.simps)
  note c = conn_with_ok [OF this]
  have "\<exists>c' w'. handle_packet True plain_os 5 (conn_with (seek_cmd 0 1)) talk = Some (Next_byte, c', w') \<and>
      \<not> holds c' \<and> v_ok plain_view w' \<and> v_store plain_view w' = v_store plain_view talk \<and>
      (case plain_sk (v_store plain_view talk) 0 1 of
         None \<Rightarrow> v_sent plain_view w' = v_sent plain_view talk \<and> pending c' = pending (conn_with (seek_cmd 0 1))
       | Some p \<Rightarrow> v_sent plain_view w' = v_sent plain_view talk @ drop p (v_bytes plain_view (v_store plain_view talk)) \<and>
           pending c' = [])"
    by (rule seek_packet_answered [OF plain_serves plain_seek]) (use c in \<open>simp_all add: plain_view_def\<close>)
  then show ?thesis by (auto simp: plain_view_def plain_sk_def talk_def)
qed

end
