(* ===== verification/Singly_Linked.thy ===== *)
theory Singly_Linked
  imports Tail_Queue
begin

text \<open>
  The singly linked lists and tail queues of \<^verbatim>\<open>server/queue.h\<close>. A cell is a place that holds
  a pointer to an element: the \<open>slh_first\<close> or \<open>stqh_first\<close> of a head, the \<open>sle_next\<close> or
  \<open>stqe_next\<close> of an element; \<open>stqh_last\<close> holds the address of a cell. Using a field of an
  element that is not allocated is undefined behaviour (\<open>None\<close>), and so is a loop that runs
  off the list. As for \<open>Tail_Queue\<close>, the debugging hooks are empty.
\<close>

section \<open>Memory\<close>

record sl_mem =
  cell :: "loc \<Rightarrow> ptr"
  stqh_last :: "ptr \<Rightarrow> loc"
  sl_live :: "ptr \<Rightarrow> bool"

definition cell_ok :: "sl_mem \<Rightarrow> loc \<Rightarrow> bool" where
  "cell_ok m l = (case l of HeadFirst h \<Rightarrow> True | NextOf e \<Rightarrow> sl_live m e)"

definition get_cell :: "sl_mem \<Rightarrow> loc \<Rightarrow> ptr option" where
  "get_cell m l = (if cell_ok m l then Some (cell m l) else None)"

definition put_cell :: "sl_mem \<Rightarrow> loc \<Rightarrow> ptr \<Rightarrow> sl_mem option" where
  "put_cell m l v = (if cell_ok m l then Some (m\<lparr>cell := (cell m)(l := v)\<rparr>) else None)"

definition put_last :: "sl_mem \<Rightarrow> ptr \<Rightarrow> loc \<Rightarrow> sl_mem" where
  "put_last m h l = m\<lparr>stqh_last := (stqh_last m)(h := l)\<rparr>"

text \<open>The loop that walks to the element whose successor is \<open>elm\<close>.\<close>

partial_function (option) find_pred :: "(ptr \<Rightarrow> ptr option) \<Rightarrow> ptr \<Rightarrow> ptr \<Rightarrow> ptr option" where
  "find_pred nxt elm curelm =
     Option.bind (nxt curelm) (\<lambda>n. if n = elm then Some curelm else find_pred nxt elm n)"

section \<open>Singly linked lists\<close>

definition SLIST_FIRST :: "sl_mem \<Rightarrow> ptr \<Rightarrow> ptr" where
  "SLIST_FIRST m head = cell m (HeadFirst head)"

definition SLIST_EMPTY :: "sl_mem \<Rightarrow> ptr \<Rightarrow> bool" where
  "SLIST_EMPTY m head \<longleftrightarrow> SLIST_FIRST m head = NULL"

definition SLIST_NEXT :: "sl_mem \<Rightarrow> ptr \<Rightarrow> ptr option" where
  "SLIST_NEXT m elm = get_cell m (NextOf elm)"

definition SLIST_INIT :: "sl_mem \<Rightarrow> ptr \<Rightarrow> sl_mem" where
  "SLIST_INIT m head = m\<lparr>cell := (cell m)(HeadFirst head := NULL)\<rparr>"

definition SLIST_INSERT_AFTER :: "sl_mem \<Rightarrow> ptr \<Rightarrow> ptr \<Rightarrow> sl_mem option" where
  "SLIST_INSERT_AFTER m slistelm elm = do {
     n \<leftarrow> SLIST_NEXT m slistelm;
     m1 \<leftarrow> put_cell m (NextOf elm) n;
     put_cell m1 (NextOf slistelm) elm
   }"

definition SLIST_INSERT_HEAD :: "sl_mem \<Rightarrow> ptr \<Rightarrow> ptr \<Rightarrow> sl_mem option" where
  "SLIST_INSERT_HEAD m head elm = do {
     m1 \<leftarrow> put_cell m (NextOf elm) (SLIST_FIRST m head);
     put_cell m1 (HeadFirst head) elm
   }"

definition SLIST_REMOVE_AFTER :: "sl_mem \<Rightarrow> ptr \<Rightarrow> sl_mem option" where
  "SLIST_REMOVE_AFTER m elm = do {
     n \<leftarrow> SLIST_NEXT m elm;
     nn \<leftarrow> SLIST_NEXT m n;
     put_cell m (NextOf elm) nn
   }"

definition SLIST_REMOVE_HEAD :: "sl_mem \<Rightarrow> ptr \<Rightarrow> sl_mem option" where
  "SLIST_REMOVE_HEAD m head = do {
     n \<leftarrow> SLIST_NEXT m (SLIST_FIRST m head);
     put_cell m (HeadFirst head) n
   }"

definition SLIST_REMOVE :: "sl_mem \<Rightarrow> ptr \<Rightarrow> ptr \<Rightarrow> sl_mem option" where
  "SLIST_REMOVE m head elm =
     (if SLIST_FIRST m head = elm then SLIST_REMOVE_HEAD m head
      else do {
        curelm \<leftarrow> find_pred (SLIST_NEXT m) elm (SLIST_FIRST m head);
        SLIST_REMOVE_AFTER m curelm
      })"

definition SLIST_CONCAT :: "sl_mem \<Rightarrow> ptr \<Rightarrow> ptr \<Rightarrow> sl_mem option" where
  "SLIST_CONCAT m head1 head2 =
     (let curelm = SLIST_FIRST m head1
      in if curelm = NULL then do {
           m1 \<leftarrow> put_cell m (HeadFirst head1) (SLIST_FIRST m head2);
           Some (if SLIST_FIRST m1 head1 \<noteq> NULL then SLIST_INIT m1 head2 else m1)
         }
         else if SLIST_FIRST m head2 \<noteq> NULL then do {
           curelm \<leftarrow> find_pred (SLIST_NEXT m) NULL curelm;
           m1 \<leftarrow> put_cell m (NextOf curelm) (SLIST_FIRST m head2);
           Some (SLIST_INIT m1 head2)
         }
         else Some m)"

definition SLIST_SWAP :: "sl_mem \<Rightarrow> ptr \<Rightarrow> ptr \<Rightarrow> sl_mem option" where
  "SLIST_SWAP m head1 head2 = do {
     let swap_first = SLIST_FIRST m head1;
     m1 \<leftarrow> put_cell m (HeadFirst head1) (SLIST_FIRST m head2);
     put_cell m1 (HeadFirst head2) swap_first
   }"

text \<open>The loops: the elements visited, the cells a \<open>PREVPTR\<close> loop visits, a body that may free.\<close>

definition SLIST_FOREACH :: "sl_mem \<Rightarrow> ptr \<Rightarrow> ptr list option" where
  "SLIST_FOREACH m head = foreach_visits (SLIST_NEXT m) (SLIST_FIRST m head)"

definition SLIST_FOREACH_FROM :: "sl_mem \<Rightarrow> ptr \<Rightarrow> ptr \<Rightarrow> ptr list option" where
  "SLIST_FOREACH_FROM m var head =
     foreach_visits (SLIST_NEXT m) (if var \<noteq> NULL then var else SLIST_FIRST m head)"

definition SLIST_FOREACH_SAFE :: "ptr \<Rightarrow> (ptr \<Rightarrow> sl_mem \<Rightarrow> sl_mem option) \<Rightarrow> sl_mem \<Rightarrow> sl_mem option" where
  "SLIST_FOREACH_SAFE head body m = foreach_safe SLIST_NEXT body (SLIST_FIRST m head) m"

definition SLIST_FOREACH_FROM_SAFE ::
  "ptr \<Rightarrow> ptr \<Rightarrow> (ptr \<Rightarrow> sl_mem \<Rightarrow> sl_mem option) \<Rightarrow> sl_mem \<Rightarrow> sl_mem option" where
  "SLIST_FOREACH_FROM_SAFE var head body m =
     foreach_safe SLIST_NEXT body (if var \<noteq> NULL then var else SLIST_FIRST m head) m"

partial_function (option) prevptr_visits :: "sl_mem \<Rightarrow> loc \<Rightarrow> (loc \<times> ptr) list option" where
  "prevptr_visits m varp =
     Option.bind (get_cell m varp) (\<lambda>var.
       if var = NULL then Some []
       else Option.bind (prevptr_visits m (NextOf var)) (\<lambda>vs. Some ((varp, var) # vs)))"

definition SLIST_FOREACH_PREVPTR :: "sl_mem \<Rightarrow> ptr \<Rightarrow> (loc \<times> ptr) list option" where
  "SLIST_FOREACH_PREVPTR m head = prevptr_visits m (HeadFirst head)"

section \<open>Singly linked tail queues\<close>

definition STAILQ_FIRST :: "sl_mem \<Rightarrow> ptr \<Rightarrow> ptr" where
  "STAILQ_FIRST m head = cell m (HeadFirst head)"

definition STAILQ_EMPTY :: "sl_mem \<Rightarrow> ptr \<Rightarrow> bool" where
  "STAILQ_EMPTY m head \<longleftrightarrow> cell m (HeadFirst head) = NULL"

definition STAILQ_NEXT :: "sl_mem \<Rightarrow> ptr \<Rightarrow> ptr option" where
  "STAILQ_NEXT m elm = get_cell m (NextOf elm)"

definition STAILQ_INIT :: "sl_mem \<Rightarrow> ptr \<Rightarrow> sl_mem" where
  "STAILQ_INIT m head = put_last (m\<lparr>cell := (cell m)(HeadFirst head := NULL)\<rparr>) head (HeadFirst head)"

definition STAILQ_HEAD_INITIALIZER :: "ptr \<Rightarrow> ptr \<times> loc" where
  "STAILQ_HEAD_INITIALIZER head = (NULL, HeadFirst head)"

lemma STAILQ_INIT_initializer:
  "(STAILQ_FIRST (STAILQ_INIT m head) head, stqh_last (STAILQ_INIT m head) head) = STAILQ_HEAD_INITIALIZER head"
  by (simp add: STAILQ_FIRST_def STAILQ_INIT_def put_last_def STAILQ_HEAD_INITIALIZER_def)

definition STAILQ_INSERT_AFTER :: "sl_mem \<Rightarrow> ptr \<Rightarrow> ptr \<Rightarrow> ptr \<Rightarrow> sl_mem option" where
  "STAILQ_INSERT_AFTER m head tqelm elm = do {
     n \<leftarrow> STAILQ_NEXT m tqelm;
     m1 \<leftarrow> put_cell m (NextOf elm) n;
     let m2 = (if n = NULL then put_last m1 head (NextOf elm) else m1);
     put_cell m2 (NextOf tqelm) elm
   }"

definition STAILQ_INSERT_HEAD :: "sl_mem \<Rightarrow> ptr \<Rightarrow> ptr \<Rightarrow> sl_mem option" where
  "STAILQ_INSERT_HEAD m head elm = do {
     let n = STAILQ_FIRST m head;
     m1 \<leftarrow> put_cell m (NextOf elm) n;
     let m2 = (if n = NULL then put_last m1 head (NextOf elm) else m1);
     put_cell m2 (HeadFirst head) elm
   }"

definition STAILQ_INSERT_TAIL :: "sl_mem \<Rightarrow> ptr \<Rightarrow> ptr \<Rightarrow> sl_mem option" where
  "STAILQ_INSERT_TAIL m head elm = do {
     m1 \<leftarrow> put_cell m (NextOf elm) NULL;
     m2 \<leftarrow> put_cell m1 (stqh_last m1 head) elm;
     Some (put_last m2 head (NextOf elm))
   }"

text \<open>\<open>__containerof\<close> of the address of an element's \<open>stqe_next\<close> is that element.\<close>

definition STAILQ_LAST :: "sl_mem \<Rightarrow> ptr \<Rightarrow> ptr option" where
  "STAILQ_LAST m head =
     (if STAILQ_EMPTY m head then Some NULL
      else case stqh_last m head of NextOf e \<Rightarrow> Some e | HeadFirst h \<Rightarrow> None)"

definition STAILQ_REMOVE_AFTER :: "sl_mem \<Rightarrow> ptr \<Rightarrow> ptr \<Rightarrow> sl_mem option" where
  "STAILQ_REMOVE_AFTER m head elm = do {
     n \<leftarrow> STAILQ_NEXT m elm;
     nn \<leftarrow> STAILQ_NEXT m n;
     m1 \<leftarrow> put_cell m (NextOf elm) nn;
     Some (if nn = NULL then put_last m1 head (NextOf elm) else m1)
   }"

definition STAILQ_REMOVE_HEAD :: "sl_mem \<Rightarrow> ptr \<Rightarrow> sl_mem option" where
  "STAILQ_REMOVE_HEAD m head = do {
     n \<leftarrow> STAILQ_NEXT m (STAILQ_FIRST m head);
     m1 \<leftarrow> put_cell m (HeadFirst head) n;
     Some (if n = NULL then put_last m1 head (HeadFirst head) else m1)
   }"

definition STAILQ_REMOVE :: "sl_mem \<Rightarrow> ptr \<Rightarrow> ptr \<Rightarrow> sl_mem option" where
  "STAILQ_REMOVE m head elm =
     (if STAILQ_FIRST m head = elm then STAILQ_REMOVE_HEAD m head
      else do {
        curelm \<leftarrow> find_pred (STAILQ_NEXT m) elm (STAILQ_FIRST m head);
        STAILQ_REMOVE_AFTER m head curelm
      })"

definition STAILQ_CONCAT :: "sl_mem \<Rightarrow> ptr \<Rightarrow> ptr \<Rightarrow> sl_mem option" where
  "STAILQ_CONCAT m head1 head2 =
     (if STAILQ_EMPTY m head2 then Some m
      else do {
        m1 \<leftarrow> put_cell m (stqh_last m head1) (STAILQ_FIRST m head2);
        Some (STAILQ_INIT (put_last m1 head1 (stqh_last m1 head2)) head2)
      })"

definition STAILQ_SWAP :: "sl_mem \<Rightarrow> ptr \<Rightarrow> ptr \<Rightarrow> sl_mem option" where
  "STAILQ_SWAP m head1 head2 = do {
     let swap_first = STAILQ_FIRST m head1;
     let swap_last = stqh_last m head1;
     m1 \<leftarrow> put_cell m (HeadFirst head1) (STAILQ_FIRST m head2);
     let m2 = put_last m1 head1 (stqh_last m1 head2);
     m3 \<leftarrow> put_cell m2 (HeadFirst head2) swap_first;
     let m4 = put_last m3 head2 swap_last;
     let m5 = (if STAILQ_EMPTY m4 head1 then put_last m4 head1 (HeadFirst head1) else m4);
     Some (if STAILQ_EMPTY m5 head2 then put_last m5 head2 (HeadFirst head2) else m5)
   }"

definition STAILQ_FOREACH :: "sl_mem \<Rightarrow> ptr \<Rightarrow> ptr list option" where
  "STAILQ_FOREACH m head = foreach_visits (STAILQ_NEXT m) (STAILQ_FIRST m head)"

definition STAILQ_FOREACH_FROM :: "sl_mem \<Rightarrow> ptr \<Rightarrow> ptr \<Rightarrow> ptr list option" where
  "STAILQ_FOREACH_FROM m var head =
     foreach_visits (STAILQ_NEXT m) (if var \<noteq> NULL then var else STAILQ_FIRST m head)"

definition STAILQ_FOREACH_SAFE :: "ptr \<Rightarrow> (ptr \<Rightarrow> sl_mem \<Rightarrow> sl_mem option) \<Rightarrow> sl_mem \<Rightarrow> sl_mem option" where
  "STAILQ_FOREACH_SAFE head body m = foreach_safe STAILQ_NEXT body (STAILQ_FIRST m head) m"

definition STAILQ_FOREACH_FROM_SAFE ::
  "ptr \<Rightarrow> ptr \<Rightarrow> (ptr \<Rightarrow> sl_mem \<Rightarrow> sl_mem option) \<Rightarrow> sl_mem \<Rightarrow> sl_mem option" where
  "STAILQ_FOREACH_FROM_SAFE var head body m =
     foreach_safe STAILQ_NEXT body (if var \<noteq> NULL then var else STAILQ_FIRST m head) m"

section \<open>Chains of cells\<close>

fun path :: "(loc \<Rightarrow> ptr) \<Rightarrow> loc \<Rightarrow> ptr list \<Rightarrow> ptr \<Rightarrow> bool" where
  "path c l [] q \<longleftrightarrow> c l = q"
| "path c l (x # xs) q \<longleftrightarrow> c l = x \<and> x \<noteq> NULL \<and> path c (NextOf x) xs q"

lemma path_append [simp]:
  "path c l (xs @ y # ys) q \<longleftrightarrow> path c l xs y \<and> y \<noteq> NULL \<and> path c (NextOf y) ys q"
  by (induction xs arbitrary: l) auto

lemma path_end: "path c l xs q \<Longrightarrow> c (end_loc l xs) = q"
  by (induction xs arbitrary: l) auto

text \<open>A path sees only the cells it goes through; writing the last one leads it elsewhere.\<close>

lemma path_other: "k \<noteq> l \<Longrightarrow> k \<notin> NextOf ` set xs \<Longrightarrow> path (c(k := v)) l xs q = path c l xs q"
  by (induction xs arbitrary: l) auto

lemma path_redirect:
  "path c l xs q \<Longrightarrow> distinct xs \<Longrightarrow> l \<notin> NextOf ` set xs \<Longrightarrow> path (c(end_loc l xs := v)) l xs v"
proof (induction xs arbitrary: l)
  case (Cons x xs)
  have "end_loc (NextOf x) xs \<noteq> l"
    using Cons.prems(3) end_loc_cases [of "NextOf x" xs] by auto
  moreover have "path (c(end_loc (NextOf x) xs := v)) (NextOf x) xs v"
    by (rule Cons.IH) (use Cons.prems in auto)
  ultimately show ?case using Cons.prems(1) by (simp del: fun_upd_apply add: fun_upd_other)
qed simp

definition slist :: "sl_mem \<Rightarrow> ptr \<Rightarrow> ptr list \<Rightarrow> bool" where
  "slist m h xs \<longleftrightarrow> distinct xs \<and> path (cell m) (HeadFirst h) xs NULL \<and> (\<forall>x \<in> set xs. x \<noteq> NULL \<and> sl_live m x)"

definition stailq :: "sl_mem \<Rightarrow> ptr \<Rightarrow> ptr list \<Rightarrow> bool" where
  "stailq m h xs \<longleftrightarrow> slist m h xs \<and> stqh_last m h = end_loc (HeadFirst h) xs"

lemma path_split:
  "path c l (xs @ ys) q \<longleftrightarrow> path c l xs (c (end_loc l xs)) \<and> path c (end_loc l xs) ys q"
  by (induction xs arbitrary: l) auto

lemma path_from:
  "path c k ys q \<Longrightarrow> c' k' = c k \<Longrightarrow> \<forall>y \<in> set ys. c' (NextOf y) = c (NextOf y) \<Longrightarrow> path c' k' ys q"
  by (induction ys arbitrary: k k') auto

lemma end_loc_fresh: "end_loc (HeadFirst h) xs = NextOf y \<Longrightarrow> y \<in> set xs"
  using end_loc_cases [of "HeadFirst h" xs] by auto

lemma cell_ok_simps [simp]: "cell_ok m (HeadFirst h)" "cell_ok m (NextOf e) = sl_live m e"
  by (simp_all add: cell_ok_def)

lemma slist_cell_ok: "slist m h (xs @ ys) \<Longrightarrow> cell_ok m (end_loc (HeadFirst h) xs)"
  using end_loc_cases [of "HeadFirst h" xs] by (auto simp: slist_def)

lemma slist_first: "slist m h xs \<Longrightarrow> cell m (HeadFirst h) = first_or_null xs"
  by (cases xs) (auto simp: slist_def)

lemma slist_next:
  "slist m h (xs @ x # ys) \<Longrightarrow> sl_live m x \<and> cell m (NextOf x) = first_or_null ys"
  by (cases ys) (auto simp: slist_def)

text \<open>A new element between two parts of a list, and an element taken out: the cells to write.\<close>

lemma slist_splice:
  assumes s: "slist m h (xs @ ys)" and e: "sl_live m e" "e \<noteq> NULL" "e \<notin> set (xs @ ys)"
    and m': "cell m' = (cell m)(NextOf e := cell m (end_loc (HeadFirst h) xs), end_loc (HeadFirst h) xs := e)"
      "sl_live m' = sl_live m"
  shows "slist m' h (xs @ e # ys)"
proof -
  let ?k = "end_loc (HeadFirst h) xs" and ?c = "cell m"
  have p: "path ?c (HeadFirst h) xs (?c ?k)" "path ?c ?k ys NULL" and d: "distinct (xs @ ys)"
    using s by (simp_all add: slist_def path_split)
  have k: "?k \<noteq> NextOf e" "\<forall>y \<in> set ys. ?k \<noteq> NextOf y"
    using end_loc_fresh [of h xs] e d by auto
  have c': "cell m' = (?c(?k := e))(NextOf e := ?c ?k)" using m'(1) k(1) by (simp add: fun_upd_twist)
  have "path (?c(?k := e)) (HeadFirst h) xs e" by (rule path_redirect [OF p(1)]) (use d in auto)
  then have "path (cell m') (HeadFirst h) xs e"
    unfolding c' by (subst path_other) (use e in auto)
  moreover have "path (cell m') (NextOf e) ys NULL"
    by (rule path_from [OF p(2)]) (use k e in \<open>auto simp: c'\<close>)
  ultimately show ?thesis using s e m'(2) by (auto simp: slist_def)
qed

lemma slist_unsplice:
  assumes s: "slist m h (xs @ e # ys)"
    and m': "cell m' = (cell m)(end_loc (HeadFirst h) xs := cell m (NextOf e))" "sl_live m' = sl_live m"
  shows "slist m' h (xs @ ys)"
proof -
  let ?k = "end_loc (HeadFirst h) xs"
  have p: "path (cell m) (HeadFirst h) xs e" "path (cell m) (NextOf e) ys NULL" and d: "distinct (xs @ e # ys)"
    using s by (simp_all add: slist_def)
  have "path (cell m') (HeadFirst h) xs (cell m (NextOf e))"
    unfolding m' by (rule path_redirect [OF p(1)]) (use d in auto)
  moreover have "\<forall>y \<in> set ys. ?k \<noteq> NextOf y" using end_loc_fresh [of h xs] d by auto
  then have "path (cell m') ?k ys NULL"
    by (intro path_from [OF p(2)]) (auto simp: m')
  ultimately show ?thesis using s m' by (auto simp: slist_def path_split)
qed

lemma find_pred_end:
  "path c (NextOf x) zs q \<Longrightarrow> \<forall>z \<in> set (x # zs). nxt z = Some (c (NextOf z)) \<Longrightarrow> q \<notin> set zs \<Longrightarrow>
     find_pred nxt q x = Some (last (x # zs))"
proof (induction zs arbitrary: x)
  case Nil
  then show ?case by (simp add: find_pred.simps)
next
  case (Cons z zs)
  then have "find_pred nxt q z = Some (last (z # zs))" by simp
  then show ?case using Cons.prems by (subst find_pred.simps) auto
qed

lemma find_pred_path:
  "path (cell m) (NextOf x) zs q \<Longrightarrow> \<forall>z \<in> set (x # zs). sl_live m z \<Longrightarrow> q \<notin> set zs \<Longrightarrow>
     find_pred (\<lambda>z. get_cell m (NextOf z)) q x = Some (last (x # zs))"
  by (rule find_pred_end) (auto simp: get_cell_def)

text \<open>The element before \<open>e\<close>, found by the walk from the front.\<close>

lemma slist_find_pred:
  assumes "slist m h ((xs @ [p]) @ e # ys)"
  shows "find_pred (\<lambda>z. get_cell m (NextOf z)) e (cell m (HeadFirst h)) = Some p"
    "cell m (HeadFirst h) \<noteq> e"
proof -
  have s: "path (cell m) (HeadFirst h) (xs @ [p]) e" "distinct ((xs @ [p]) @ e # ys)"
    "\<forall>x \<in> set (xs @ [p]). sl_live m x"
    using assms by (auto simp: slist_def)
  obtain z zs where z: "xs @ [p] = z # zs" by (cases xs) auto
  have "find_pred (\<lambda>z. get_cell m (NextOf z)) e z = Some (last (z # zs))"
    by (rule find_pred_path) (use s z in auto)
  moreover have "last (z # zs) = p" unfolding z [symmetric] by simp
  ultimately show "find_pred (\<lambda>z. get_cell m (NextOf z)) e (cell m (HeadFirst h)) = Some p"
    "cell m (HeadFirst h) \<noteq> e" using s z by auto
qed

lemma put_cell_simps [simp]: "cell_ok m l \<Longrightarrow> put_cell m l v = Some (m\<lparr>cell := (cell m)(l := v)\<rparr>)"
  by (simp add: put_cell_def)

lemma cell_ok_update [simp]: "cell_ok (m\<lparr>cell := c\<rparr>) l = cell_ok m l" "cell_ok (put_last m h k) l = cell_ok m l"
  by (cases l; simp add: put_last_def)+

lemma put_last_simps [simp]:
  "cell (put_last m h l) = cell m" "sl_live (put_last m h l) = sl_live m"
  "stqh_last (put_last m h l) = (stqh_last m)(h := l)"
  by (simp_all add: put_last_def)

section \<open>The macros on lists\<close>

text \<open>What an operation on some heads and elements leaves alone.\<close>

definition sl_frame :: "ptr set \<Rightarrow> ptr set \<Rightarrow> sl_mem \<Rightarrow> sl_mem \<Rightarrow> bool" where
  "sl_frame hs es m m' \<longleftrightarrow>
     (\<forall>g. g \<notin> hs \<longrightarrow> cell m' (HeadFirst g) = cell m (HeadFirst g) \<and> stqh_last m' g = stqh_last m g) \<and>
     (\<forall>x. x \<notin> es \<longrightarrow> cell m' (NextOf x) = cell m (NextOf x)) \<and> sl_live m' = sl_live m"

lemma slist_frame:
  assumes "sl_frame hs es m m'" "slist m g ys" "g \<notin> hs" "set ys \<inter> es = {}"
  shows "slist m' g ys"
proof -
  have "path (cell m') (HeadFirst g) ys NULL"
    by (rule path_from [of "cell m" "HeadFirst g"]) (use assms in \<open>auto simp: slist_def sl_frame_def\<close>)
  then show ?thesis using assms by (simp add: slist_def sl_frame_def)
qed

lemmas sl_macros = SLIST_FIRST_def SLIST_NEXT_def SLIST_EMPTY_def STAILQ_FIRST_def STAILQ_NEXT_def
  STAILQ_EMPTY_def get_cell_def

lemma SLIST_INIT_slist: "slist (SLIST_INIT m h) h []"
  by (simp add: slist_def SLIST_INIT_def)

lemma SLIST_INSERT_HEAD_slist:
  assumes s: "slist m h xs" and e: "sl_live m e" "e \<noteq> NULL" "e \<notin> set xs"
  obtains m' where "SLIST_INSERT_HEAD m h e = Some m'" "slist m' h (e # xs)" "sl_frame {h} {e} m m'"
proof -
  let ?m = "m\<lparr>cell := (cell m)(NextOf e := cell m (HeadFirst h), HeadFirst h := e)\<rparr>"
  have "SLIST_INSERT_HEAD m h e = Some ?m" using e by (simp add: SLIST_INSERT_HEAD_def sl_macros)
  moreover have "slist ?m h ([] @ e # xs)" by (rule slist_splice) (use s e in auto)
  ultimately show ?thesis using that by (simp add: sl_frame_def)
qed

lemma SLIST_INSERT_AFTER_slist:
  assumes s: "slist m h (xs @ a # ys)" and e: "sl_live m e" "e \<noteq> NULL" "e \<notin> set (xs @ a # ys)"
  obtains m' where "SLIST_INSERT_AFTER m a e = Some m'" "slist m' h (xs @ a # e # ys)" "sl_frame {} {a, e} m m'"
proof -
  let ?m = "m\<lparr>cell := (cell m)(NextOf e := cell m (NextOf a), NextOf a := e)\<rparr>"
  have "SLIST_INSERT_AFTER m a e = Some ?m"
    using e slist_next [OF s] by (simp add: SLIST_INSERT_AFTER_def sl_macros)
  moreover have "slist ?m h ((xs @ [a]) @ e # ys)" by (rule slist_splice) (use s e in auto)
  ultimately show ?thesis using that by (simp add: sl_frame_def)
qed

lemma SLIST_REMOVE_slist:
  assumes s: "slist m h (xs @ e # ys)"
  obtains m' where "SLIST_REMOVE m h e = Some m'" "slist m' h (xs @ ys)" "sl_frame {h} (set xs) m m'"
proof -
  let ?k = "end_loc (HeadFirst h) xs"
  let ?m = "m\<lparr>cell := (cell m)(?k := cell m (NextOf e))\<rparr>"
  have e: "sl_live m e" using s by (simp add: slist_def)
  have "SLIST_REMOVE m h e = Some ?m"
  proof (cases xs rule: rev_cases)
    case Nil
    then show ?thesis using s e
      by (simp add: SLIST_REMOVE_def SLIST_REMOVE_HEAD_def sl_macros slist_def)
  next
    case (snoc ps p)
    then have s': "slist m h ((ps @ [p]) @ e # ys)" using s by simp
    have "slist m h (ps @ p # e # ys)" using s' by simp
    then have "sl_live m p" "cell m (NextOf p) = e" using slist_next [of m h ps p "e # ys"] by auto
    then show ?thesis using slist_find_pred [OF s'] e snoc
      by (simp add: SLIST_REMOVE_def SLIST_REMOVE_AFTER_def SLIST_FIRST_def SLIST_NEXT_def [abs_def])
        (simp add: get_cell_def)
  qed
  moreover have "slist ?m h (xs @ ys)" by (rule slist_unsplice [OF s]) simp_all
  moreover have "sl_frame {h} (set xs) m ?m"
    using end_loc_cases [of "HeadFirst h" xs] by (auto simp: sl_frame_def)
  ultimately show ?thesis by (rule that)
qed

lemma slist_append:
  assumes s1: "slist m h1 xs" and s2: "slist m h2 ys" and ne: "h1 \<noteq> h2" "set xs \<inter> set ys = {}"
    and m': "cell m' = (cell m)(end_loc (HeadFirst h1) xs := cell m (HeadFirst h2), HeadFirst h2 := NULL)"
      "sl_live m' = sl_live m"
  shows "slist m' h1 (xs @ ys) \<and> slist m' h2 []"
proof -
  let ?k = "end_loc (HeadFirst h1) xs"
  have p: "path (cell m) (HeadFirst h1) xs NULL" "distinct xs" and q: "path (cell m) (HeadFirst h2) ys NULL"
    using s1 s2 by (simp_all add: slist_def)
  have k: "?k \<noteq> HeadFirst h2" "\<forall>y \<in> set ys. ?k \<noteq> NextOf y"
    using end_loc_cases [of "HeadFirst h1" xs] ne by auto
  have "path ((cell m)(?k := cell m (HeadFirst h2))) (HeadFirst h1) xs (cell m (HeadFirst h2))"
    by (rule path_redirect [OF p]) auto
  then have "path (cell m') (HeadFirst h1) xs (cell m (HeadFirst h2))"
    unfolding m' by (subst path_other) (use ne in auto)
  moreover have "cell m' ?k = cell m (HeadFirst h2)" using k by (simp add: m')
  moreover have "path (cell m') ?k ys NULL"
    by (rule path_from [OF q]) (use k in \<open>auto simp: m'\<close>)
  ultimately have "path (cell m') (HeadFirst h1) (xs @ ys) NULL" by (simp add: path_split)
  then show ?thesis using s1 s2 ne m' by (auto simp: slist_def)
qed

lemma SLIST_CONCAT_slist:
  assumes s1: "slist m h1 xs" and s2: "slist m h2 ys" and ne: "h1 \<noteq> h2" "set xs \<inter> set ys = {}"
  obtains m' where "SLIST_CONCAT m h1 h2 = Some m'" "slist m' h1 (xs @ ys)" "slist m' h2 []"
proof -
  let ?k = "end_loc (HeadFirst h1) xs"
  let ?m = "m\<lparr>cell := (cell m)(?k := cell m (HeadFirst h2), HeadFirst h2 := NULL)\<rparr>"
  have f: "cell m (HeadFirst h1) = first_or_null xs" "cell m (HeadFirst h2) = first_or_null ys"
    using slist_first [OF s1] slist_first [OF s2] by simp_all
  have nn: "xs \<noteq> [] \<Longrightarrow> hd xs \<noteq> NULL" "ys \<noteq> [] \<Longrightarrow> hd ys \<noteq> NULL"
    using s1 s2 hd_in_set by (auto simp: slist_def)
  have walk: "find_pred (\<lambda>z. get_cell m (NextOf z)) NULL (hd xs) = Some (last xs)" if some: "xs \<noteq> []"
  proof -
    obtain z zs where z: "xs = z # zs" using some by (cases xs) auto
    then show ?thesis using s1 find_pred_path [of m z zs NULL] by (auto simp: slist_def)
  qed
  have "SLIST_CONCAT m h1 h2 = Some (if ys = [] then m else ?m)"
  proof (cases "xs = []")
    case True
    have "(cell m)(HeadFirst h1 := NULL) = cell m" using f(1) True by auto
    then show ?thesis using f nn True ne(1)
      by (auto simp: SLIST_CONCAT_def SLIST_FIRST_def SLIST_INIT_def Let_def)
  next
    case False
    then have "sl_live m (last xs)" "?k = NextOf (last xs)" using s1 by (simp_all add: slist_def end_loc_def)
    then show ?thesis using f nn False walk
      by (cases "ys = []") (simp_all add: SLIST_CONCAT_def SLIST_FIRST_def SLIST_NEXT_def [abs_def] SLIST_INIT_def Let_def)
  qed
  moreover have "slist ?m h1 (xs @ ys) \<and> slist ?m h2 []" by (rule slist_append [OF s1 s2 ne]) simp_all
  ultimately show ?thesis using that s1 s2 by (cases "ys = []") simp_all
qed

text \<open>A list hung on another head.\<close>

lemma slist_rehang:
  assumes "slist m h xs" "cell m' (HeadFirst g) = first_or_null xs" "sl_live m' = sl_live m"
    and "\<forall>x \<in> set xs. cell m' (NextOf x) = cell m (NextOf x)"
  shows "slist m' g xs"
proof -
  have "path (cell m') (HeadFirst g) xs NULL"
    by (rule path_from [of "cell m" "HeadFirst h"]) (use assms slist_first [OF assms(1)] in \<open>auto simp: slist_def\<close>)
  then show ?thesis using assms by (simp add: slist_def)
qed

lemma SLIST_SWAP_slist:
  assumes s1: "slist m h1 xs" and s2: "slist m h2 ys" and ne: "h1 \<noteq> h2"
  obtains m' where "SLIST_SWAP m h1 h2 = Some m'" "slist m' h1 ys" "slist m' h2 xs"
proof -
  let ?m = "m\<lparr>cell := (cell m)(HeadFirst h1 := cell m (HeadFirst h2), HeadFirst h2 := cell m (HeadFirst h1))\<rparr>"
  have "SLIST_SWAP m h1 h2 = Some ?m" by (simp add: SLIST_SWAP_def SLIST_FIRST_def Let_def)
  moreover have "slist ?m h1 ys" by (rule slist_rehang [OF s2]) (use ne slist_first [OF s2] in auto)
  moreover have "slist ?m h2 xs" by (rule slist_rehang [OF s1]) (use slist_first [OF s1] in auto)
  ultimately show ?thesis by (rule that)
qed

section \<open>The macros on tail queues\<close>

lemma slist_put_last [simp]: "slist (put_last m g l) h xs = slist m h xs"
  by (simp add: slist_def)

lemma stailq_end: "slist m h xs \<Longrightarrow> cell m (end_loc (HeadFirst h) xs) = NULL"
  by (auto simp: slist_def dest: path_end)

lemma STAILQ_INIT_stailq: "stailq (STAILQ_INIT m h) h []"
  by (simp add: stailq_def STAILQ_INIT_def) (simp add: slist_def)

lemma STAILQ_INSERT_TAIL_stailq:
  assumes q: "stailq m h xs" and e: "sl_live m e" "e \<noteq> NULL" "e \<notin> set xs"
  obtains m' where "STAILQ_INSERT_TAIL m h e = Some m'" "stailq m' h (xs @ [e])"
    "sl_frame {h} (insert e (set xs)) m m'"
proof -
  let ?k = "end_loc (HeadFirst h) xs"
  let ?m = "put_last (m\<lparr>cell := (cell m)(NextOf e := cell m ?k, ?k := e)\<rparr>) h (NextOf e)"
  have s: "slist m h xs" "stqh_last m h = ?k" "cell m ?k = NULL"
    using q stailq_end by (simp_all add: stailq_def)
  have "cell_ok m ?k" using slist_cell_ok [of m h xs "[]"] s(1) by simp
  then have "STAILQ_INSERT_TAIL m h e = Some ?m" using e s(2,3) by (simp add: STAILQ_INSERT_TAIL_def)
  moreover have "slist ?m h (xs @ e # [])" by (rule slist_splice) (use s e in auto)
  then have "stailq ?m h (xs @ [e])" by (simp add: stailq_def)
  moreover have "sl_frame {h} (insert e (set xs)) m ?m"
    using end_loc_cases [of "HeadFirst h" xs] by (auto simp: sl_frame_def)
  ultimately show ?thesis by (rule that)
qed

lemma STAILQ_INSERT_HEAD_stailq:
  assumes q: "stailq m h xs" and e: "sl_live m e" "e \<noteq> NULL" "e \<notin> set xs"
  obtains m' where "STAILQ_INSERT_HEAD m h e = Some m'" "stailq m' h (e # xs)" "sl_frame {h} {e} m m'"
proof -
  let ?m = "m\<lparr>cell := (cell m)(NextOf e := cell m (HeadFirst h), HeadFirst h := e)\<rparr>"
  let ?m' = "if xs = [] then put_last ?m h (NextOf e) else ?m"
  have s: "slist m h xs" using q by (simp add: stailq_def)
  have "xs \<noteq> [] \<Longrightarrow> hd xs \<noteq> NULL" using s hd_in_set by (auto simp: slist_def)
  then have "STAILQ_INSERT_HEAD m h e = Some ?m'"
    using e slist_first [OF s]
    by (cases "xs = []") (simp_all add: STAILQ_INSERT_HEAD_def sl_macros Let_def put_last_def)
  moreover have "slist ?m h ([] @ e # xs)" by (rule slist_splice) (use s e in auto)
  then have "stailq ?m' h (e # xs)"
    using q by (cases xs) (simp_all add: stailq_def)
  moreover have "sl_frame {h} {e} m ?m'" by (simp add: sl_frame_def)
  ultimately show ?thesis by (rule that)
qed

lemma STAILQ_INSERT_AFTER_stailq:
  assumes q: "stailq m h (xs @ a # ys)" and e: "sl_live m e" "e \<noteq> NULL" "e \<notin> set (xs @ a # ys)"
  obtains m' where "STAILQ_INSERT_AFTER m h a e = Some m'" "stailq m' h (xs @ a # e # ys)" "sl_frame {h} {a, e} m m'"
proof -
  let ?m = "m\<lparr>cell := (cell m)(NextOf e := cell m (NextOf a), NextOf a := e)\<rparr>"
  let ?m' = "if ys = [] then put_last ?m h (NextOf e) else ?m"
  have s: "slist m h (xs @ a # ys)" using q by (simp add: stailq_def)
  have "ys \<noteq> [] \<Longrightarrow> hd ys \<noteq> NULL" using s hd_in_set by (auto simp: slist_def)
  then have "STAILQ_INSERT_AFTER m h a e = Some ?m'"
    using e slist_next [OF s]
    by (cases "ys = []") (simp_all add: STAILQ_INSERT_AFTER_def sl_macros Let_def put_last_def)
  moreover have "slist ?m h ((xs @ [a]) @ e # ys)" by (rule slist_splice) (use s e in auto)
  then have "stailq ?m' h (xs @ a # e # ys)"
    using q by (cases ys) (simp_all add: stailq_def)
  moreover have "sl_frame {h} {a, e} m ?m'" by (simp add: sl_frame_def)
  ultimately show ?thesis by (rule that)
qed

lemma STAILQ_REMOVE_stailq:
  assumes q: "stailq m h (xs @ e # ys)"
  obtains m' where "STAILQ_REMOVE m h e = Some m'" "stailq m' h (xs @ ys)" "sl_frame {h} (set xs) m m'"
proof -
  let ?k = "end_loc (HeadFirst h) xs"
  let ?m = "m\<lparr>cell := (cell m)(?k := cell m (NextOf e))\<rparr>"
  let ?m' = "if ys = [] then put_last ?m h ?k else ?m"
  have s: "slist m h (xs @ e # ys)" using q by (simp add: stailq_def)
  have e: "sl_live m e" "cell m (NextOf e) = first_or_null ys" using slist_next [OF s] by simp_all
  have nn: "ys \<noteq> [] \<Longrightarrow> hd ys \<noteq> NULL" using s hd_in_set by (auto simp: slist_def)
  have "STAILQ_REMOVE m h e = Some ?m'"
  proof (cases xs rule: rev_cases)
    case Nil
    then show ?thesis using s e
      by (cases ys) (simp_all add: STAILQ_REMOVE_def STAILQ_REMOVE_HEAD_def sl_macros slist_def)
  next
    case (snoc ps p)
    then have s': "slist m h ((ps @ [p]) @ e # ys)" using s by simp
    have "slist m h (ps @ p # e # ys)" using s' by simp
    then have p: "sl_live m p" "cell m (NextOf p) = e" using slist_next [of m h ps p "e # ys"] by auto
    have "STAILQ_REMOVE m h e = STAILQ_REMOVE_AFTER m h p"
      using slist_find_pred [OF s'] by (simp add: STAILQ_REMOVE_def STAILQ_FIRST_def STAILQ_NEXT_def [abs_def])
    then show ?thesis using p e nn snoc
      by (cases "ys = []") (simp_all add: STAILQ_REMOVE_AFTER_def STAILQ_NEXT_def get_cell_def)
  qed
  moreover have "slist ?m h (xs @ ys)" by (rule slist_unsplice [OF s]) simp_all
  then have "stailq ?m' h (xs @ ys)" using q by (cases ys) (simp_all add: stailq_def)
  moreover have "sl_frame {h} (set xs) m ?m'"
    using end_loc_cases [of "HeadFirst h" xs] by (auto simp: sl_frame_def)
  ultimately show ?thesis by (rule that)
qed

lemma STAILQ_LAST_stailq: "stailq m h xs \<Longrightarrow> STAILQ_LAST m h = Some (if xs = [] then NULL else last xs)"
  using slist_first [of m h xs]
  by (cases xs) (auto simp: stailq_def STAILQ_LAST_def STAILQ_EMPTY_def end_loc_def slist_def)

lemma STAILQ_CONCAT_stailq:
  assumes q1: "stailq m h1 xs" and q2: "stailq m h2 ys" and ne: "h1 \<noteq> h2" "set xs \<inter> set ys = {}"
  obtains m' where "STAILQ_CONCAT m h1 h2 = Some m'" "stailq m' h1 (xs @ ys)" "stailq m' h2 []"
proof (cases "ys = []")
  case True
  then have "STAILQ_CONCAT m h1 h2 = Some m"
    using q2 slist_first [of m h2 ys] by (simp add: stailq_def STAILQ_CONCAT_def STAILQ_EMPTY_def)
  then show ?thesis using that q1 q2 True by simp
next
  case False
  let ?k = "end_loc (HeadFirst h1) xs"
  let ?m = "m\<lparr>cell := (cell m)(?k := cell m (HeadFirst h2), HeadFirst h2 := NULL)\<rparr>"
  let ?m' = "put_last (put_last ?m h1 (stqh_last m h2)) h2 (HeadFirst h2)"
  have s: "slist m h1 xs" "slist m h2 ys" and l: "stqh_last m h1 = ?k" "stqh_last m h2 = end_loc (HeadFirst h2) ys"
    using q1 q2 by (simp_all add: stailq_def)
  have "cell_ok m ?k" using slist_cell_ok [of m h1 xs "[]"] s(1) by simp
  moreover have "hd ys \<noteq> NULL" using s(2) False by (auto simp: slist_def)
  ultimately have "STAILQ_CONCAT m h1 h2 = Some ?m'"
    using slist_first [OF s(2)] False l
    by (simp add: STAILQ_CONCAT_def STAILQ_EMPTY_def STAILQ_FIRST_def STAILQ_INIT_def put_last_def)
  moreover have "slist ?m h1 (xs @ ys) \<and> slist ?m h2 []" by (rule slist_append [OF s ne]) simp_all
  then have "stailq ?m' h1 (xs @ ys)" "stailq ?m' h2 []"
    using l ne False by (simp_all add: stailq_def end_loc_def)
  ultimately show ?thesis by (rule that)
qed

lemma STAILQ_SWAP_stailq:
  assumes q1: "stailq m h1 xs" and q2: "stailq m h2 ys" and ne: "h1 \<noteq> h2"
  obtains m' where "STAILQ_SWAP m h1 h2 = Some m'" "stailq m' h1 ys" "stailq m' h2 xs"
proof -
  let ?m = "m\<lparr>cell := (cell m)(HeadFirst h1 := cell m (HeadFirst h2), HeadFirst h2 := cell m (HeadFirst h1))\<rparr>"
  let ?m4 = "put_last (put_last ?m h1 (stqh_last m h2)) h2 (stqh_last m h1)"
  let ?m5 = "if ys = [] then put_last ?m4 h1 (HeadFirst h1) else ?m4"
  let ?m' = "if xs = [] then put_last ?m5 h2 (HeadFirst h2) else ?m5"
  have s: "slist m h1 xs" "slist m h2 ys" and l: "stqh_last m h1 = end_loc (HeadFirst h1) xs"
    "stqh_last m h2 = end_loc (HeadFirst h2) ys"
    using q1 q2 by (simp_all add: stailq_def)
  note f = slist_first [OF s(1)] slist_first [OF s(2)]
  have nn: "xs \<noteq> [] \<Longrightarrow> hd xs \<noteq> NULL" "ys \<noteq> [] \<Longrightarrow> hd ys \<noteq> NULL"
    using s by (auto simp: slist_def)
  have "STAILQ_SWAP m h1 h2 = Some ?m'"
    using f nn ne
    by (cases "xs = []"; cases "ys = []")
      (simp_all add: STAILQ_SWAP_def STAILQ_FIRST_def STAILQ_EMPTY_def Let_def put_last_def)
  moreover have "slist ?m h1 ys" by (rule slist_rehang [OF s(2)]) (use ne f in auto)
  moreover have "slist ?m h2 xs" by (rule slist_rehang [OF s(1)]) (use f in auto)
  then have "stailq ?m' h2 xs" using l ne by (auto simp: stailq_def end_loc_def)
  moreover have "stailq ?m' h1 ys" using \<open>slist ?m h1 ys\<close> l ne by (auto simp: stailq_def end_loc_def)
  ultimately show ?thesis using that by blast
qed

section \<open>Interfaces\<close>

interpretation sl: removable_list SLIST_NEXT "\<lambda>m. slist m h" "\<lambda>m. SLIST_REMOVE m h" for h
proof
  show "slist m h xs \<Longrightarrow> x \<in> set xs \<Longrightarrow> x \<noteq> NULL" for m xs x by (simp add: slist_def)
  show "SLIST_NEXT m x = Some (first_or_null ys)" if "slist m h (xs @ x # ys)" for m xs x ys
    using slist_next [OF that] by (simp add: SLIST_NEXT_def get_cell_def)
  show "\<exists>m'. SLIST_REMOVE m h e = Some m' \<and> slist m' h (xs @ ys)" if "slist m h (xs @ e # ys)" for m xs e ys
    using SLIST_REMOVE_slist [OF that] by blast
qed

interpretation stq: linked_queue STAILQ_NEXT "\<lambda>m. stailq m h" "\<lambda>m. STAILQ_REMOVE m h" "\<lambda>m. STAILQ_FIRST m h"
  "\<lambda>m. STAILQ_INSERT_TAIL m h" "\<lambda>m e. sl_live m e \<and> e \<noteq> NULL" for h
proof
  show "stailq m h xs \<Longrightarrow> x \<in> set xs \<Longrightarrow> x \<noteq> NULL" for m xs x by (simp add: stailq_def slist_def)
  show "STAILQ_NEXT m x = Some (first_or_null ys)" if "stailq m h (xs @ x # ys)" for m xs x ys
    using slist_next [of m h xs x ys] that by (simp add: stailq_def STAILQ_NEXT_def get_cell_def)
  show "stailq m h xs \<Longrightarrow> STAILQ_FIRST m h = first_or_null xs" for m xs
    using slist_first by (simp add: stailq_def STAILQ_FIRST_def)
  show "stailq m h xs \<Longrightarrow> distinct xs" for m xs by (simp add: stailq_def slist_def)
  show "\<exists>m'. STAILQ_INSERT_TAIL m h e = Some m' \<and> stailq m' h (xs @ [e]) \<and>
      (\<forall>x. (sl_live m' x \<and> x \<noteq> NULL) = (sl_live m x \<and> x \<noteq> NULL))"
    if "stailq m h xs" "sl_live m e \<and> e \<noteq> NULL" "e \<notin> set xs" for m xs e
    using STAILQ_INSERT_TAIL_stailq [OF that(1)] that(2,3) by (metis sl_frame_def)
  show "\<exists>m'. STAILQ_REMOVE m h e = Some m' \<and> stailq m' h (xs @ ys)" if "stailq m h (xs @ e # ys)" for m xs e ys
    using STAILQ_REMOVE_stailq [OF that] by blast
qed

section \<open>Loops\<close>

text \<open>The loops visit the list in order, from its start or from an element on.\<close>

lemma SLIST_loops:
  assumes s: "slist m h (xs @ a # ys)"
  shows "SLIST_FOREACH m h = Some (xs @ a # ys)" "SLIST_FOREACH_FROM m a h = Some (a # ys)"
    "\<exists>m'. SLIST_FOREACH_SAFE h (\<lambda>x m. if gone x then SLIST_REMOVE m h x else Some m) m = Some m' \<and>
       slist m' h (filter (\<lambda>x. \<not> gone x) (xs @ a # ys))"
    "\<exists>m'. SLIST_FOREACH_FROM_SAFE a h (\<lambda>x m. if gone x then SLIST_REMOVE m h x else Some m) m = Some m' \<and>
       slist m' h (xs @ filter (\<lambda>x. \<not> gone x) (a # ys))"
proof -
  have f: "SLIST_FIRST m h = first_or_null (xs @ a # ys)" using slist_first [OF s] by (simp add: SLIST_FIRST_def)
  have a: "a \<noteq> NULL" using s by (simp add: slist_def)
  note defs = SLIST_FOREACH_def SLIST_FOREACH_FROM_def SLIST_FOREACH_SAFE_def SLIST_FOREACH_FROM_SAFE_def
  show "SLIST_FOREACH m h = Some (xs @ a # ys)" "SLIST_FOREACH_FROM m a h = Some (a # ys)"
    using sl.visits [of m h "[]" "xs @ a # ys"] sl.visits [OF s] s f a by (simp_all add: defs)
  show "\<exists>m'. SLIST_FOREACH_SAFE h (\<lambda>x m. if gone x then SLIST_REMOVE m h x else Some m) m = Some m' \<and>
       slist m' h (filter (\<lambda>x. \<not> gone x) (xs @ a # ys))"
    using sl.foreach_safe_remove [of m h "[]" "xs @ a # ys" gone] s f by (simp add: defs)
  show "\<exists>m'. SLIST_FOREACH_FROM_SAFE a h (\<lambda>x m. if gone x then SLIST_REMOVE m h x else Some m) m = Some m' \<and>
       slist m' h (xs @ filter (\<lambda>x. \<not> gone x) (a # ys))"
    using sl.foreach_safe_remove [OF s, of gone] a by (simp add: defs)
qed

lemma STAILQ_loops:
  assumes s: "stailq m h (xs @ a # ys)"
  shows "STAILQ_FOREACH m h = Some (xs @ a # ys)" "STAILQ_FOREACH_FROM m a h = Some (a # ys)"
    "\<exists>m'. STAILQ_FOREACH_SAFE h (\<lambda>x m. if gone x then STAILQ_REMOVE m h x else Some m) m = Some m' \<and>
       stailq m' h (filter (\<lambda>x. \<not> gone x) (xs @ a # ys))"
    "\<exists>m'. STAILQ_FOREACH_FROM_SAFE a h (\<lambda>x m. if gone x then STAILQ_REMOVE m h x else Some m) m = Some m' \<and>
       stailq m' h (xs @ filter (\<lambda>x. \<not> gone x) (a # ys))"
proof -
  have f: "STAILQ_FIRST m h = first_or_null (xs @ a # ys)" using stq.first_rep [OF s] by simp
  have a: "a \<noteq> NULL" using s by (simp add: stailq_def slist_def)
  note defs = STAILQ_FOREACH_def STAILQ_FOREACH_FROM_def STAILQ_FOREACH_SAFE_def STAILQ_FOREACH_FROM_SAFE_def
  show "STAILQ_FOREACH m h = Some (xs @ a # ys)" "STAILQ_FOREACH_FROM m a h = Some (a # ys)"
    using stq.visits [of m h "[]" "xs @ a # ys"] stq.visits [OF s] s f a by (simp_all add: defs)
  show "\<exists>m'. STAILQ_FOREACH_SAFE h (\<lambda>x m. if gone x then STAILQ_REMOVE m h x else Some m) m = Some m' \<and>
       stailq m' h (filter (\<lambda>x. \<not> gone x) (xs @ a # ys))"
    using stq.foreach_safe_remove [of m h "[]" "xs @ a # ys" gone] s f by (simp add: defs)
  show "\<exists>m'. STAILQ_FOREACH_FROM_SAFE a h (\<lambda>x m. if gone x then STAILQ_REMOVE m h x else Some m) m = Some m' \<and>
       stailq m' h (xs @ filter (\<lambda>x. \<not> gone x) (a # ys))"
    using stq.foreach_safe_remove [OF s, of gone] a by (simp add: defs)
qed

text \<open>A \<open>PREVPTR\<close> loop has with each element the cell that points to it.\<close>

fun pointers :: "loc \<Rightarrow> ptr list \<Rightarrow> (loc \<times> ptr) list" where
  "pointers l [] = []"
| "pointers l (x # xs) = (l, x) # pointers (NextOf x) xs"

lemma prevptr_path:
  "path (cell m) l xs NULL \<Longrightarrow> cell_ok m l \<Longrightarrow> \<forall>x \<in> set xs. sl_live m x \<Longrightarrow>
     prevptr_visits m l = Some (pointers l xs)"
proof (induction xs arbitrary: l)
  case Nil
  then show ?case by (simp add: prevptr_visits.simps get_cell_def)
next
  case (Cons x xs)
  then have "prevptr_visits m (NextOf x) = Some (pointers (NextOf x) xs)" by simp
  then show ?case using Cons.prems by (subst prevptr_visits.simps) (auto simp: get_cell_def)
qed

section \<open>Properties\<close>

text \<open>
  The singly linked list: insertion at the head and after an element and the removal of
  an element, wherever it stands, do that to the list of a head, are never undefined, and
  leave every other list alone; the loops visit the list in order, the \<open>PREVPTR\<close> loop with
  the cell that points to each element, and the safe loop may remove what it is at.
\<close>

theorem slist_operations:
  assumes s: "slist m h (xs @ a # ys)" and e: "sl_live m e" "e \<noteq> NULL" "e \<notin> set (xs @ a # ys)"
    and o: "slist m g zs" "g \<noteq> h" "set zs \<inter> insert e (set (xs @ a # ys)) = {}"
  shows "(\<exists>m'. SLIST_INSERT_HEAD m h e = Some m' \<and> slist m' h (e # xs @ a # ys) \<and> slist m' g zs) \<and>
    (\<exists>m'. SLIST_INSERT_AFTER m a e = Some m' \<and> slist m' h (xs @ a # e # ys) \<and> slist m' g zs) \<and>
    (\<exists>m'. SLIST_REMOVE m h a = Some m' \<and> slist m' h (xs @ ys) \<and> slist m' g zs) \<and>
    (\<exists>m'. SLIST_FOREACH_FROM_SAFE a h (\<lambda>x m. if gone x then SLIST_REMOVE m h x else Some m) m = Some m' \<and>
      slist m' h (xs @ filter (\<lambda>x. \<not> gone x) (a # ys))) \<and>
    SLIST_FOREACH m h = Some (xs @ a # ys) \<and> SLIST_FOREACH_FROM m a h = Some (a # ys) \<and>
    SLIST_FOREACH_PREVPTR m h = Some (pointers (HeadFirst h) (xs @ a # ys))"
proof -
  have other: "slist m' g zs" if "sl_frame hs es m m'" "hs \<subseteq> {h}" "es \<subseteq> insert e (set (xs @ a # ys))" for m' hs es
    by (rule slist_frame [OF that(1) o(1)]) (use that o in auto)
  have "\<exists>m'. SLIST_INSERT_HEAD m h e = Some m' \<and> slist m' h (e # xs @ a # ys) \<and> slist m' g zs"
    using SLIST_INSERT_HEAD_slist [OF s e] other by (metis empty_subsetI insert_subset insertI1 order_refl)
  moreover have "\<exists>m'. SLIST_INSERT_AFTER m a e = Some m' \<and> slist m' h (xs @ a # e # ys) \<and> slist m' g zs"
    using SLIST_INSERT_AFTER_slist [OF s e] other [of "{}" "{a, e}"] by auto
  moreover have "\<exists>m'. SLIST_REMOVE m h a = Some m' \<and> slist m' h (xs @ ys) \<and> slist m' g zs"
    using SLIST_REMOVE_slist [OF s] other [of "{h}" "set xs"] by auto
  moreover have "SLIST_FOREACH_PREVPTR m h = Some (pointers (HeadFirst h) (xs @ a # ys))"
    using prevptr_path [of m "HeadFirst h" "xs @ a # ys"] s by (simp add: SLIST_FOREACH_PREVPTR_def slist_def)
  ultimately show ?thesis using SLIST_loops(1,2) [OF s] SLIST_loops(4) [OF s, of gone] by blast
qed

text \<open>
  C31: the singly linked tail queue: the three insertions, at the head, at the tail and after
  an element, and the removal of an element, wherever it stands, keep the queue with its
  pointer to the last cell and leave every other queue alone; \<open>STAILQ_LAST\<close> gives the last
  element, the loops visit the queue in order, and the safe loop may remove what it is at.
\<close>

theorem stailq_operations:
  assumes q: "stailq m h (xs @ a # ys)" and e: "sl_live m e" "e \<noteq> NULL" "e \<notin> set (xs @ a # ys)"
    and o: "stailq m g zs" "g \<noteq> h" "set zs \<inter> insert e (set (xs @ a # ys)) = {}"
  shows "(\<exists>m'. STAILQ_INSERT_HEAD m h e = Some m' \<and> stailq m' h (e # xs @ a # ys) \<and> stailq m' g zs) \<and>
    (\<exists>m'. STAILQ_INSERT_TAIL m h e = Some m' \<and> stailq m' h (xs @ a # ys @ [e]) \<and> stailq m' g zs) \<and>
    (\<exists>m'. STAILQ_INSERT_AFTER m h a e = Some m' \<and> stailq m' h (xs @ a # e # ys) \<and> stailq m' g zs) \<and>
    (\<exists>m'. STAILQ_REMOVE m h a = Some m' \<and> stailq m' h (xs @ ys) \<and> stailq m' g zs) \<and>
    (\<exists>m'. STAILQ_FOREACH_FROM_SAFE a h (\<lambda>x m. if gone x then STAILQ_REMOVE m h x else Some m) m = Some m' \<and>
      stailq m' h (xs @ filter (\<lambda>x. \<not> gone x) (a # ys))) \<and>
    STAILQ_FOREACH m h = Some (xs @ a # ys) \<and> STAILQ_FOREACH_FROM m a h = Some (a # ys) \<and>
    STAILQ_LAST m h = Some (last (a # ys))"
proof -
  have other: "stailq m' g zs" if "sl_frame {h} es m m'" "es \<subseteq> insert e (set (xs @ a # ys))" for m' es
    using slist_frame [OF that(1), of g zs] that o by (auto simp: stailq_def sl_frame_def)
  have "\<exists>m'. STAILQ_INSERT_HEAD m h e = Some m' \<and> stailq m' h (e # xs @ a # ys) \<and> stailq m' g zs"
    using STAILQ_INSERT_HEAD_stailq [OF q e] other [of "{e}"] by auto
  moreover have "\<exists>m'. STAILQ_INSERT_TAIL m h e = Some m' \<and> stailq m' h (xs @ a # ys @ [e]) \<and> stailq m' g zs"
    using STAILQ_INSERT_TAIL_stailq [OF q e] other [of "insert e (set (xs @ a # ys))"] by auto
  moreover have "\<exists>m'. STAILQ_INSERT_AFTER m h a e = Some m' \<and> stailq m' h (xs @ a # e # ys) \<and> stailq m' g zs"
    using STAILQ_INSERT_AFTER_stailq [OF q e] other [of "{a, e}"] by auto
  moreover have "\<exists>m'. STAILQ_REMOVE m h a = Some m' \<and> stailq m' h (xs @ ys) \<and> stailq m' g zs"
    using STAILQ_REMOVE_stailq [OF q] other [of "set xs"] by auto
  moreover have "STAILQ_LAST m h = Some (last (a # ys))" using STAILQ_LAST_stailq [OF q] by simp
  ultimately show ?thesis
    using STAILQ_loops(1,2) [OF q] STAILQ_loops(4) [OF q, of gone] by blast
qed

text \<open>
  Concatenating two lists or two tail queues moves the second behind the first and
  leaves the second empty; swapping exchanges them.
\<close>

theorem singly_concat_and_swap:
  assumes "slist m h1 xs" "slist m h2 ys" "stailq k g1 us" "stailq k g2 vs"
    and "h1 \<noteq> h2" "set xs \<inter> set ys = {}" "g1 \<noteq> g2" "set us \<inter> set vs = {}"
  shows "(\<exists>m'. SLIST_CONCAT m h1 h2 = Some m' \<and> slist m' h1 (xs @ ys) \<and> slist m' h2 []) \<and>
    (\<exists>m'. SLIST_SWAP m h1 h2 = Some m' \<and> slist m' h1 ys \<and> slist m' h2 xs) \<and>
    (\<exists>k'. STAILQ_CONCAT k g1 g2 = Some k' \<and> stailq k' g1 (us @ vs) \<and> stailq k' g2 []) \<and>
    (\<exists>k'. STAILQ_SWAP k g1 g2 = Some k' \<and> stailq k' g1 vs \<and> stailq k' g2 us)"
  using SLIST_CONCAT_slist [OF assms(1,2,5,6)] SLIST_SWAP_slist [OF assms(1,2,5)]
    STAILQ_CONCAT_stailq [OF assms(3,4,7,8)] STAILQ_SWAP_stailq [OF assms(3,4,7)]
  by metis

text \<open>Inserting at the tail and then sweeping, with the laws of a queue.\<close>

lemma stailq_insert_then_sweep:
  assumes "distinct es" "\<forall>e \<in> set es. sl_live m e \<and> e \<noteq> NULL"
  shows "\<exists>m1 m2. add_all (\<lambda>m. STAILQ_INSERT_TAIL m h) (STAILQ_INIT m h) es = Some m1 \<and> stailq m1 h es \<and>
    STAILQ_FOREACH_SAFE h (\<lambda>e m. if gone e then STAILQ_REMOVE m h e else Some m) m1 = Some m2 \<and>
    stailq m2 h (filter (\<lambda>e. \<not> gone e) es)"
proof -
  have "sl_live (STAILQ_INIT m h) = sl_live m" by (simp add: STAILQ_INIT_def)
  then show ?thesis
    using stq.insert_then_sweep [OF STAILQ_INIT_stailq [of m h] assms(1), of gone] assms by (simp add: STAILQ_FOREACH_SAFE_def)
qed

section \<open>Witnesses\<close>

text \<open>Heads 3 and 2 with three elements and one, and a fresh element.\<close>

definition some_lists :: sl_mem where
  "some_lists =
     \<lparr>cell = (\<lambda>l. case l of HeadFirst h \<Rightarrow> if h = 3 then 5 else if h = 2 then 8 else NULL
                 | NextOf e \<Rightarrow> if e = 5 then 6 else if e = 6 then 7 else NULL),
      stqh_last = (\<lambda>h. if h = 3 then NextOf 7 else NextOf 8), sl_live = (\<lambda>e. 5 \<le> e \<and> e < 10)\<rparr>"

lemma some_lists_ok:
  "slist some_lists 3 [5, 6, 7]" "slist some_lists 2 [8]" "stailq some_lists 3 [5, 6, 7]" "stailq some_lists 2 [8]"
  by code_simp+

lemma some_lists_live: "sl_live some_lists 9"
  by (simp add: some_lists_def)

theorem slist_operations_witness:
  "(\<exists>m'. SLIST_INSERT_AFTER some_lists 6 9 = Some m' \<and> slist m' 3 [5, 6, 9, 7] \<and> slist m' 2 [8]) \<and>
   (\<exists>m'. SLIST_REMOVE some_lists 3 6 = Some m' \<and> slist m' 3 [5, 7] \<and> slist m' 2 [8]) \<and>
   SLIST_FOREACH_FROM some_lists 6 3 = Some [6, 7]"
  using slist_operations [of some_lists 3 "[5]" 6 "[7]" 9 2 "[8]"] some_lists_ok some_lists_live
  by simp

theorem stailq_operations_witness:
  "(\<exists>m'. STAILQ_INSERT_TAIL some_lists 3 9 = Some m' \<and> stailq m' 3 [5, 6, 7, 9] \<and> stailq m' 2 [8]) \<and>
   (\<exists>m'. STAILQ_REMOVE some_lists 3 7 = Some m' \<and> stailq m' 3 [5, 6] \<and> stailq m' 2 [8])"
  using stailq_operations [of some_lists 3 "[5, 6]" 7 "[]" 9 2 "[8]"] some_lists_ok some_lists_live
  by simp

theorem singly_concat_and_swap_witness:
  "(\<exists>m'. SLIST_CONCAT some_lists 3 2 = Some m' \<and> slist m' 3 [5, 6, 7, 8] \<and> slist m' 2 []) \<and>
   (\<exists>m'. STAILQ_SWAP some_lists 3 2 = Some m' \<and> stailq m' 3 [8] \<and> stailq m' 2 [5, 6, 7])"
  using singly_concat_and_swap [OF some_lists_ok] by simp

end
