(* ===== verification/Doubly_Linked.thy ===== *)
theory Doubly_Linked
  imports Singly_Linked
begin

text \<open>
  The doubly linked lists of \<^verbatim>\<open>server/queue.h\<close>. Their cells are those of a tail queue: the
  \<open>lh_first\<close> of a head and the \<open>le_next\<close> of an element hold a pointer to an element, \<open>le_prev\<close>
  the address of the cell that points to the element. So they live in the memory of
  \<open>Tail_Queue\<close>, whose \<open>tqh_last\<close> they do not have: each macro does to the other fields what
  its tail queue namesake does, and its lemma is carried over.
\<close>

section \<open>The macros\<close>

definition LIST_FIRST :: "tq_mem \<Rightarrow> ptr \<Rightarrow> ptr" where
  "LIST_FIRST m head = tqh_first m head"

definition LIST_EMPTY :: "tq_mem \<Rightarrow> ptr \<Rightarrow> bool" where
  "LIST_EMPTY m head \<longleftrightarrow> tqh_first m head = NULL"

definition LIST_NEXT :: "tq_mem \<Rightarrow> ptr \<Rightarrow> ptr option" where
  "LIST_NEXT m elm = get_next m elm"

definition LIST_INIT :: "tq_mem \<Rightarrow> ptr \<Rightarrow> tq_mem" where
  "LIST_INIT m head = m\<lparr>tqh_first := (tqh_first m)(head := NULL)\<rparr>"

definition LIST_INSERT_AFTER :: "tq_mem \<Rightarrow> ptr \<Rightarrow> ptr \<Rightarrow> tq_mem option" where
  "LIST_INSERT_AFTER m listelm elm = do {
     n \<leftarrow> LIST_NEXT m listelm;
     m1 \<leftarrow> set_next m elm n;
     m2 \<leftarrow> (if n \<noteq> NULL then do { n' \<leftarrow> LIST_NEXT m1 listelm; set_prev m1 n' (NextOf elm) } else Some m1);
     m3 \<leftarrow> set_next m2 listelm elm;
     set_prev m3 elm (NextOf listelm)
   }"

definition LIST_INSERT_BEFORE :: "tq_mem \<Rightarrow> ptr \<Rightarrow> ptr \<Rightarrow> tq_mem option" where
  "LIST_INSERT_BEFORE m listelm elm = do {
     p \<leftarrow> get_prev m listelm;
     m1 \<leftarrow> set_prev m elm p;
     m2 \<leftarrow> set_next m1 elm listelm;
     p' \<leftarrow> get_prev m2 listelm;
     m3 \<leftarrow> set_loc m2 p' elm;
     set_prev m3 listelm (NextOf elm)
   }"

definition LIST_INSERT_HEAD :: "tq_mem \<Rightarrow> ptr \<Rightarrow> ptr \<Rightarrow> tq_mem option" where
  "LIST_INSERT_HEAD m head elm = do {
     let n = LIST_FIRST m head;
     m1 \<leftarrow> set_next m elm n;
     m2 \<leftarrow> (if n \<noteq> NULL then set_prev m1 (LIST_FIRST m1 head) (NextOf elm) else Some m1);
     m3 \<leftarrow> set_loc m2 (HeadFirst head) elm;
     set_prev m3 elm (HeadFirst head)
   }"

definition LIST_REMOVE :: "tq_mem \<Rightarrow> ptr \<Rightarrow> tq_mem option" where
  "LIST_REMOVE m elm = do {
     n \<leftarrow> LIST_NEXT m elm;
     m1 \<leftarrow> (if n \<noteq> NULL then do { p \<leftarrow> get_prev m elm; set_prev m n p } else Some m);
     p \<leftarrow> get_prev m1 elm;
     n' \<leftarrow> LIST_NEXT m1 elm;
     set_loc m1 p n'
   }"

text \<open>\<open>__containerof\<close> of the address of an element's \<open>le_next\<close> is that element.\<close>

definition LIST_PREV :: "tq_mem \<Rightarrow> ptr \<Rightarrow> ptr \<Rightarrow> ptr option" where
  "LIST_PREV m elm head = do {
     p \<leftarrow> get_prev m elm;
     (if p = HeadFirst head then Some NULL
      else case p of NextOf e \<Rightarrow> Some e | HeadFirst h \<Rightarrow> None)
   }"

definition LIST_CONCAT :: "tq_mem \<Rightarrow> ptr \<Rightarrow> ptr \<Rightarrow> tq_mem option" where
  "LIST_CONCAT m head1 head2 =
     (let curelm = LIST_FIRST m head1
      in if curelm = NULL then do {
           m1 \<leftarrow> set_loc m (HeadFirst head1) (LIST_FIRST m head2);
           (if LIST_FIRST m1 head1 \<noteq> NULL
            then do {
              m2 \<leftarrow> set_prev m1 (LIST_FIRST m1 head2) (HeadFirst head1);
              Some (LIST_INIT m2 head2)
            }
            else Some m1)
         }
         else if LIST_FIRST m head2 \<noteq> NULL then do {
           curelm \<leftarrow> find_pred (LIST_NEXT m) NULL curelm;
           m1 \<leftarrow> set_next m curelm (LIST_FIRST m head2);
           m2 \<leftarrow> set_prev m1 (LIST_FIRST m1 head2) (NextOf curelm);
           Some (LIST_INIT m2 head2)
         }
         else Some m)"

definition LIST_SWAP :: "tq_mem \<Rightarrow> ptr \<Rightarrow> ptr \<Rightarrow> tq_mem option" where
  "LIST_SWAP m head1 head2 = do {
     let swap_tmp = LIST_FIRST m head1;
     m1 \<leftarrow> set_loc m (HeadFirst head1) (LIST_FIRST m head2);
     m2 \<leftarrow> set_loc m1 (HeadFirst head2) swap_tmp;
     m3 \<leftarrow> (if LIST_FIRST m2 head1 \<noteq> NULL then set_prev m2 (LIST_FIRST m2 head1) (HeadFirst head1) else Some m2);
     (if LIST_FIRST m3 head2 \<noteq> NULL then set_prev m3 (LIST_FIRST m3 head2) (HeadFirst head2) else Some m3)
   }"

definition LIST_FOREACH :: "tq_mem \<Rightarrow> ptr \<Rightarrow> ptr list option" where
  "LIST_FOREACH m head = foreach_visits (LIST_NEXT m) (LIST_FIRST m head)"

definition LIST_FOREACH_FROM :: "tq_mem \<Rightarrow> ptr \<Rightarrow> ptr \<Rightarrow> ptr list option" where
  "LIST_FOREACH_FROM m var head =
     foreach_visits (LIST_NEXT m) (if var \<noteq> NULL then var else LIST_FIRST m head)"

definition LIST_FOREACH_SAFE :: "ptr \<Rightarrow> (ptr \<Rightarrow> tq_mem \<Rightarrow> tq_mem option) \<Rightarrow> tq_mem \<Rightarrow> tq_mem option" where
  "LIST_FOREACH_SAFE head body m = foreach_safe LIST_NEXT body (LIST_FIRST m head) m"

definition LIST_FOREACH_FROM_SAFE ::
  "ptr \<Rightarrow> ptr \<Rightarrow> (ptr \<Rightarrow> tq_mem \<Rightarrow> tq_mem option) \<Rightarrow> tq_mem \<Rightarrow> tq_mem option" where
  "LIST_FOREACH_FROM_SAFE var head body m =
     foreach_safe LIST_NEXT body (if var \<noteq> NULL then var else LIST_FIRST m head) m"

text \<open>The checks of a build with \<open>INVARIANTS\<close>: true where they do not panic.\<close>

definition QMD_LIST_CHECK_HEAD :: "tq_mem \<Rightarrow> ptr \<Rightarrow> bool option" where
  "QMD_LIST_CHECK_HEAD m head =
     (if LIST_FIRST m head \<noteq> NULL then do { p \<leftarrow> get_prev m (LIST_FIRST m head); Some (p = HeadFirst head) }
      else Some True)"

definition QMD_LIST_CHECK_NEXT :: "tq_mem \<Rightarrow> ptr \<Rightarrow> bool option" where
  "QMD_LIST_CHECK_NEXT m elm = do {
     n \<leftarrow> LIST_NEXT m elm;
     (if n \<noteq> NULL then do { p \<leftarrow> get_prev m n; Some (p = NextOf elm) } else Some True)
   }"

definition QMD_LIST_CHECK_PREV :: "tq_mem \<Rightarrow> ptr \<Rightarrow> bool option" where
  "QMD_LIST_CHECK_PREV m elm = do {
     p \<leftarrow> get_prev m elm;
     v \<leftarrow> get_loc m p;
     Some (v = elm)
   }"

section \<open>The tail queue macros without the last pointer\<close>

definition put_lasts :: "(ptr \<Rightarrow> loc) \<Rightarrow> tq_mem \<Rightarrow> tq_mem" where
  "put_lasts L m = m\<lparr>tqh_last := L\<rparr>"

lemmas list_cells = LIST_FIRST_def LIST_NEXT_def LIST_EMPTY_def TAILQ_FIRST_def TAILQ_NEXT_def TAILQ_EMPTY_def
  get_next_def get_prev_def set_next_def set_prev_def set_last_def put_lasts_def

lemma LIST_TAILQ_head:
  "LIST_INSERT_HEAD (put_lasts L m) h e = map_option (put_lasts L) (TAILQ_INSERT_HEAD m h e)"
  by (simp add: LIST_INSERT_HEAD_def TAILQ_INSERT_HEAD_def list_cells set_loc_def Let_def)

lemma LIST_TAILQ_after:
  "a \<noteq> e \<Longrightarrow> LIST_INSERT_AFTER (put_lasts L m) a e = map_option (put_lasts L) (TAILQ_INSERT_AFTER m h a e)"
  by (simp add: LIST_INSERT_AFTER_def TAILQ_INSERT_AFTER_def list_cells)

lemma LIST_TAILQ_before:
  "LIST_INSERT_BEFORE (put_lasts L m) b e = map_option (put_lasts L) (TAILQ_INSERT_BEFORE m b e)"
  by (simp add: LIST_INSERT_BEFORE_def TAILQ_INSERT_BEFORE_def list_cells set_loc_def split: loc.split)

lemma LIST_TAILQ_remove:
  "LIST_REMOVE (put_lasts L m) e = map_option (put_lasts L) (TAILQ_REMOVE m h e)"
  by (simp add: LIST_REMOVE_def TAILQ_REMOVE_def list_cells set_loc_def split: loc.split)

lemma LIST_TAILQ_swap:
  "LIST_SWAP (put_lasts L m) h1 h2 = map_option (put_lasts L) (TAILQ_SWAP m h1 h2)"
  by (simp add: LIST_SWAP_def TAILQ_SWAP_def list_cells set_loc_def Let_def)

section \<open>The lists\<close>

definition dlist :: "tq_mem \<Rightarrow> ptr \<Rightarrow> ptr list \<Rightarrow> bool" where
  "dlist m h xs \<longleftrightarrow> distinct xs \<and> chain m (HeadFirst h) xs NULL"

text \<open>The same memory with a last pointer for the head.\<close>

definition with_last :: "ptr \<Rightarrow> ptr list \<Rightarrow> tq_mem \<Rightarrow> tq_mem" where
  "with_last h xs m = put_lasts ((tqh_last m)(h := end_loc (HeadFirst h) xs)) m"

lemma put_lasts_fields [simp]:
  "tqe_prev (put_lasts L m) = tqe_prev m" "elem_live (put_lasts L m) = elem_live m"
  "tqh_first (put_lasts L m) = tqh_first m" "tqe_next (put_lasts L m) = tqe_next m"
  "tqh_last (put_lasts L m) = L" "peek (put_lasts L m) c = peek m c"
  by (cases c; simp add: put_lasts_def peek_def)+

lemma dlist_put_lasts [simp]: "dlist (put_lasts L m) h xs = dlist m h xs"
  unfolding dlist_def by (rule conj_cong [OF refl], rule chain_cong) simp_all

lemma put_lasts_twice [simp]: "put_lasts L (put_lasts K m) = put_lasts L m" "put_lasts (tqh_last m) m = m"
  by (simp_all add: put_lasts_def)

lemma with_last_back: "put_lasts (tqh_last m) (with_last h xs m) = m"
  by (simp add: with_last_def)

lemma dlist_with_last: "dlist m h xs \<Longrightarrow> tailq (with_last h xs m) h xs"
  using dlist_put_lasts [of "(tqh_last m)(h := end_loc (HeadFirst h) xs)" m h xs]
  by (simp add: tailq_def dlist_def with_last_def)

lemma tailq_dlist: "tailq m h xs \<Longrightarrow> dlist m h xs"
  by (simp add: tailq_def dlist_def)

lemma dlist_elem: "dlist m h xs \<Longrightarrow> x \<in> set xs \<Longrightarrow> x \<noteq> NULL \<and> elem_live m x"
  by (auto simp: dlist_def dest: chain_elem)

lemma dlist_first: "dlist m h xs \<Longrightarrow> LIST_FIRST m h = first_or_null xs"
  using TAILQ_FIRST_tailq [OF dlist_with_last] by (simp add: LIST_FIRST_def TAILQ_FIRST_def with_last_def)

lemma dlist_next: "dlist m h (xs @ x # ys) \<Longrightarrow> LIST_NEXT m x = Some (first_or_null ys)"
  using chain_end [of m "NextOf x" ys NULL] 
  by (cases ys) (simp_all add: dlist_def LIST_NEXT_def get_next_def peek_def)

text \<open>What a macro of the tail queue did to a queue and to another, said of the lists.\<close>

lemma carried:
  assumes "t = Some m0'" "tailq m0' h ys" "only_changes hs es (with_last h xs m) m0'"
    and "l = map_option (put_lasts (tqh_last m)) t"
    and "dlist m g zs" "g \<notin> hs" "set zs \<inter> es = {}"
  shows "\<exists>m'. l = Some m' \<and> dlist m' h ys \<and> dlist m' g zs"
proof -
  have "chain m0' (HeadFirst g) zs NULL = chain m (HeadFirst g) zs NULL"
    by (rule chain_cong) (use assms(3,6,7) in \<open>auto simp: only_changes_def with_last_def peek_def\<close>)
  then have "dlist m0' g zs" using assms(5) by (simp add: dlist_def)
  then show ?thesis using assms(1,4) tailq_dlist [OF assms(2)] by simp
qed

lemma LIST_REMOVE_dlist:
  assumes "dlist m h (xs @ e # ys)" "dlist m g zs" "g \<noteq> h" "set zs \<inter> set (xs @ e # ys) = {}"
  shows "\<exists>m'. LIST_REMOVE m e = Some m' \<and> dlist m' h (xs @ ys) \<and> dlist m' g zs"
proof -
  let ?m0 = "with_last h (xs @ e # ys) m"
  obtain m0' where "TAILQ_REMOVE ?m0 h e = Some m0'" "tailq m0' h (xs @ ys)"
    "only_changes {h} (set (xs @ e # ys) - {e}) ?m0 m0'"
    using TAILQ_REMOVE_tailq [OF dlist_with_last [OF assms(1)]] .
  moreover have "LIST_REMOVE m e = map_option (put_lasts (tqh_last m)) (TAILQ_REMOVE ?m0 h e)"
    using LIST_TAILQ_remove [of "tqh_last m" ?m0 e h] by (simp add: with_last_back)
  ultimately show ?thesis by (rule carried) (use assms in auto)
qed

lemma LIST_inserts_dlist:
  assumes "dlist m h (xs @ a # ys)" and e: "elem_live m e" "e \<noteq> NULL" "e \<notin> set (xs @ a # ys)"
    and o: "dlist m g zs" "g \<noteq> h" "set zs \<inter> insert e (set (xs @ a # ys)) = {}"
  shows "\<exists>m'. LIST_INSERT_HEAD m h e = Some m' \<and> dlist m' h (e # xs @ a # ys) \<and> dlist m' g zs"
    "\<exists>m'. LIST_INSERT_AFTER m a e = Some m' \<and> dlist m' h (xs @ a # e # ys) \<and> dlist m' g zs"
    "\<exists>m'. LIST_INSERT_BEFORE m a e = Some m' \<and> dlist m' h (xs @ e # a # ys) \<and> dlist m' g zs"
proof -
  let ?m0 = "with_last h (xs @ a # ys) m"
  note q = dlist_with_last [OF assms(1)]
  have e0: "elem_live ?m0 e" using e(1) by (simp add: with_last_def)
  note carry = carried [where xs = "xs @ a # ys", OF _ _ _ _ o(1)]
  have l: "LIST_INSERT_HEAD m h e = map_option (put_lasts (tqh_last m)) (TAILQ_INSERT_HEAD ?m0 h e)"
    "LIST_INSERT_AFTER m a e = map_option (put_lasts (tqh_last m)) (TAILQ_INSERT_AFTER ?m0 h a e)"
    "LIST_INSERT_BEFORE m a e = map_option (put_lasts (tqh_last m)) (TAILQ_INSERT_BEFORE ?m0 a e)"
    using LIST_TAILQ_head [of "tqh_last m" ?m0 h e] LIST_TAILQ_after [of a e "tqh_last m" ?m0 h]
      LIST_TAILQ_before [of "tqh_last m" ?m0 a e] e(3) by (auto simp: with_last_back)
  show "\<exists>m'. LIST_INSERT_HEAD m h e = Some m' \<and> dlist m' h (e # xs @ a # ys) \<and> dlist m' g zs"
    by (rule TAILQ_INSERT_HEAD_tailq [OF q e0 e(2,3)], erule (2) carry [OF _ _ _ l(1)]) (use o in auto)
  show "\<exists>m'. LIST_INSERT_AFTER m a e = Some m' \<and> dlist m' h (xs @ a # e # ys) \<and> dlist m' g zs"
    by (rule TAILQ_INSERT_AFTER_tailq [OF q e0 e(2,3)], erule (2) carry [OF _ _ _ l(2)]) (use o in auto)
  show "\<exists>m'. LIST_INSERT_BEFORE m a e = Some m' \<and> dlist m' h (xs @ e # a # ys) \<and> dlist m' g zs"
    by (rule TAILQ_INSERT_BEFORE_tailq [OF q e0 e(2,3)], erule (2) carry [OF _ _ _ l(3)]) (use o in auto)
qed

lemma LIST_PREV_dlist:
  assumes "dlist m h (xs @ e # ys)"
  shows "LIST_PREV m e h = Some (if xs = [] then NULL else last xs)"
  using assms by (auto simp: dlist_def LIST_PREV_def get_prev_def end_loc_def)

lemma dlist_put_last:
  "dlist m h xs \<Longrightarrow> L h = end_loc (HeadFirst h) xs \<Longrightarrow> tailq (put_lasts L m) h xs"
  using dlist_put_lasts [of L m h xs] by (simp add: tailq_def dlist_def)

lemma LIST_SWAP_dlist:
  assumes d: "dlist m h1 xs" "dlist m h2 ys" and ne: "h1 \<noteq> h2" "set xs \<inter> set ys = {}"
  shows "\<exists>m'. LIST_SWAP m h1 h2 = Some m' \<and> dlist m' h1 ys \<and> dlist m' h2 xs"
proof -
  let ?m0 = "put_lasts ((tqh_last m)(h1 := end_loc (HeadFirst h1) xs, h2 := end_loc (HeadFirst h2) ys)) m"
  have "tailq ?m0 h1 xs" "tailq ?m0 h2 ys" using d ne(1) by (simp_all add: dlist_put_last)
  then obtain m' where m': "TAILQ_SWAP ?m0 h1 h2 = Some m'" "tailq m' h1 ys" "tailq m' h2 xs"
    using TAILQ_SWAP_tailq ne by blast
  have "LIST_SWAP m h1 h2 = Some (put_lasts (tqh_last m) m')"
    using LIST_TAILQ_swap [of "tqh_last m" ?m0 h1 h2] m'(1) by simp
  then show ?thesis using m'(2,3) tailq_dlist by auto
qed

lemma chain_path: "chain m l xs q \<Longrightarrow> path (peek m) l xs q"
  by (induction xs arbitrary: l) auto

text \<open>The walk to the last element gives the one the tail queue's last pointer is in.\<close>

lemma LIST_TAILQ_concat:
  assumes q: "tailq m h1 xs" "tailq m h2 ys" and ne: "h1 \<noteq> h2" "set xs \<inter> set ys = {}" "ys \<noteq> []"
  shows "LIST_CONCAT (put_lasts L m) h1 h2 = map_option (put_lasts L) (TAILQ_CONCAT m h1 h2)"
proof -
  have f: "tqh_first m h1 = first_or_null xs" "tqh_first m h2 = hd ys"
    using TAILQ_FIRST_tailq [OF q(1)] TAILQ_FIRST_tailq [OF q(2)] ne(3) by (simp_all add: TAILQ_FIRST_def)
  have y: "hd ys \<noteq> NULL" "elem_live m (hd ys)" using tailq_elem [OF q(2), of "hd ys"] ne(3) by simp_all
  show ?thesis
  proof (cases xs)
    case Nil
    then have "tqh_last m h1 = HeadFirst h1" using q(1) by (simp add: tailq_def)
    then show ?thesis using f y ne(1) Nil
      by (simp add: LIST_CONCAT_def LIST_INIT_def TAILQ_CONCAT_def TAILQ_INIT_def list_cells set_loc_def)
  next
    case (Cons x zs)
    have x: "x \<noteq> NULL" "elem_live m (last (x # zs))" and live: "\<forall>z \<in> set (x # zs). elem_live m z"
      and l: "tqh_last m h1 = NextOf (last (x # zs))" and nz: "NULL \<notin> set zs"
      using q(1) tailq_elem [OF q(1)] Cons by (auto simp: tailq_def end_loc_def)
    have "find_pred (LIST_NEXT (put_lasts L m)) NULL x = Some (last (x # zs))"
    proof (rule find_pred_end [of "peek m"])
      show "path (peek m) (NextOf x) zs NULL"
        using q(1) Cons chain_path [of m "NextOf x" zs NULL] by (simp add: tailq_def)
      show "\<forall>z \<in> set (x # zs). LIST_NEXT (put_lasts L m) z = Some (peek m (NextOf z))"
        using live by (simp add: LIST_NEXT_def get_next_def peek_def)
    qed (rule nz)
    then show ?thesis using f y x l ne(1) Cons
      by (simp add: LIST_CONCAT_def LIST_INIT_def TAILQ_CONCAT_def TAILQ_INIT_def list_cells set_loc_def)
  qed
qed

lemma LIST_CONCAT_dlist:
  assumes d: "dlist m h1 xs" "dlist m h2 ys" and ne: "h1 \<noteq> h2" "set xs \<inter> set ys = {}"
  shows "\<exists>m'. LIST_CONCAT m h1 h2 = Some m' \<and> dlist m' h1 (xs @ ys) \<and> dlist m' h2 []"
proof (cases ys)
  case Nil
  have "(tqh_first m)(h1 := NULL) = tqh_first m" if "xs = []"
    using dlist_first [OF d(1)] that by (auto simp: LIST_FIRST_def fun_eq_iff)
  then have "LIST_CONCAT m h1 h2 = Some m"
    using dlist_first [OF d(1)] dlist_first [OF d(2)] dlist_elem [OF d(1), of "hd xs"] Nil
    by (cases xs) (auto simp: LIST_CONCAT_def LIST_FIRST_def set_loc_def)
  then show ?thesis using d Nil by simp
next
  case (Cons y zs)
  let ?m0 = "put_lasts ((tqh_last m)(h1 := end_loc (HeadFirst h1) xs, h2 := end_loc (HeadFirst h2) ys)) m"
  have q: "tailq ?m0 h1 xs" "tailq ?m0 h2 ys" using d ne(1) by (simp_all add: dlist_put_last)
  then obtain m' where m': "TAILQ_CONCAT ?m0 h1 h2 = Some m'" "tailq m' h1 (xs @ ys)" "tailq m' h2 []"
    using TAILQ_CONCAT_tailq ne by blast
  have "LIST_CONCAT m h1 h2 = Some (put_lasts (tqh_last m) m')"
    using LIST_TAILQ_concat [OF q ne, of "tqh_last m"] m'(1) Cons by simp
  then show ?thesis using m'(2,3) tailq_dlist by auto
qed

section \<open>Interface\<close>

lemma LIST_REMOVE_alone: "dlist m h (xs @ e # ys) \<Longrightarrow> \<exists>m'. LIST_REMOVE m e = Some m' \<and> dlist m' h (xs @ ys)"
proof -
  assume d: "dlist m h (xs @ e # ys)"
  let ?m0 = "with_last h (xs @ e # ys) m"
  obtain m' where "TAILQ_REMOVE ?m0 h e = Some m'" "tailq m' h (xs @ ys)"
    using TAILQ_REMOVE_tailq [OF dlist_with_last [OF d]] .
  then show ?thesis
    using LIST_TAILQ_remove [of "tqh_last m" ?m0 e h] tailq_dlist by (simp add: with_last_back)
qed

interpretation dl: removable_list LIST_NEXT "\<lambda>m. dlist m h" LIST_REMOVE for h
  by unfold_locales (auto dest: dlist_elem dlist_next LIST_REMOVE_alone)

section \<open>Properties\<close>

text \<open>
  C32: the doubly linked list: the three insertions, the removal, and \<open>LIST_PREV\<close> do to
  the list of a head what they say, for every list and place in it, without undefined
  behaviour, and leave every other list alone; the loops visit it in order, and the safe
  loops may remove the element they are at.
\<close>

theorem list_operations:
  assumes d: "dlist m h (xs @ a # ys)" and e: "elem_live m e" "e \<noteq> NULL" "e \<notin> set (xs @ a # ys)"
    and o: "dlist m g zs" "g \<noteq> h" "set zs \<inter> insert e (set (xs @ a # ys)) = {}"
  shows "(\<exists>m'. LIST_INSERT_HEAD m h e = Some m' \<and> dlist m' h (e # xs @ a # ys) \<and> dlist m' g zs) \<and>
    (\<exists>m'. LIST_INSERT_AFTER m a e = Some m' \<and> dlist m' h (xs @ a # e # ys) \<and> dlist m' g zs) \<and>
    (\<exists>m'. LIST_INSERT_BEFORE m a e = Some m' \<and> dlist m' h (xs @ e # a # ys) \<and> dlist m' g zs) \<and>
    (\<exists>m'. LIST_REMOVE m a = Some m' \<and> dlist m' h (xs @ ys) \<and> dlist m' g zs) \<and>
    LIST_PREV m a h = Some (if xs = [] then NULL else last xs) \<and>
    LIST_FOREACH m h = Some (xs @ a # ys) \<and> LIST_FOREACH_FROM m a h = Some (a # ys) \<and>
    (\<exists>m'. LIST_FOREACH_SAFE h (\<lambda>x m. if gone x then LIST_REMOVE m x else Some m) m = Some m' \<and>
      dlist m' h (filter (\<lambda>x. \<not> gone x) (xs @ a # ys))) \<and>
    (\<exists>m'. LIST_FOREACH_FROM_SAFE a h (\<lambda>x m. if gone x then LIST_REMOVE m x else Some m) m = Some m' \<and>
      dlist m' h (xs @ filter (\<lambda>x. \<not> gone x) (a # ys)))"
proof -
  have f: "LIST_FIRST m h = first_or_null (xs @ a # ys)" by (rule dlist_first [OF d])
  have a: "a \<noteq> NULL" using dlist_elem [OF d, of a] by simp
  have "LIST_FOREACH m h = Some (xs @ a # ys)" "LIST_FOREACH_FROM m a h = Some (a # ys)"
    using dl.visits [of m h "[]" "xs @ a # ys"] dl.visits [OF d] d f a
    by (simp_all add: LIST_FOREACH_def LIST_FOREACH_FROM_def)
  moreover have "\<exists>m'. LIST_FOREACH_SAFE h (\<lambda>x m. if gone x then LIST_REMOVE m x else Some m) m = Some m' \<and>
      dlist m' h (filter (\<lambda>x. \<not> gone x) (xs @ a # ys))"
    using dl.foreach_safe_remove [of m h "[]" "xs @ a # ys" gone] d f by (simp add: LIST_FOREACH_SAFE_def)
  moreover have "\<exists>m'. LIST_FOREACH_FROM_SAFE a h (\<lambda>x m. if gone x then LIST_REMOVE m x else Some m) m = Some m' \<and>
      dlist m' h (xs @ filter (\<lambda>x. \<not> gone x) (a # ys))"
    using dl.foreach_safe_remove [OF d, of gone] a by (simp add: LIST_FOREACH_FROM_SAFE_def)
  ultimately show ?thesis
    using LIST_inserts_dlist [OF d e o] LIST_REMOVE_dlist [OF d o(1,2)] o(3) LIST_PREV_dlist [OF d] by simp
qed

text \<open>
  \<open>LIST_CONCAT\<close>, which walks to the end of the first list, moves the second behind
  it and leaves the second empty, whether or not either of them is empty; \<open>LIST_SWAP\<close>
  exchanges them.
\<close>

theorem list_concat_and_swap:
  assumes "dlist m h1 xs" "dlist m h2 ys" "h1 \<noteq> h2" "set xs \<inter> set ys = {}"
  shows "(\<exists>m'. LIST_CONCAT m h1 h2 = Some m' \<and> dlist m' h1 (xs @ ys) \<and> dlist m' h2 []) \<and>
    (\<exists>m'. LIST_SWAP m h1 h2 = Some m' \<and> dlist m' h1 ys \<and> dlist m' h2 xs)"
  using LIST_CONCAT_dlist [OF assms] LIST_SWAP_dlist [OF assms] by blast

text \<open>
  The checks a build with \<open>INVARIANTS\<close> makes find exactly the broken links: a head
  holds a list if and only if the loop over it ends and no check panics.
\<close>

theorem list_checks:
  "dlist m h xs \<longleftrightarrow> LIST_FOREACH m h = Some xs \<and> QMD_LIST_CHECK_HEAD m h = Some True \<and>
     list_all (\<lambda>x. QMD_LIST_CHECK_NEXT m x = Some True \<and> QMD_LIST_CHECK_PREV m x = Some True) xs"
proof -
  have same: "LIST_FOREACH m h = TAILQ_FOREACH m h" "QMD_LIST_CHECK_HEAD m h = QMD_TAILQ_CHECK_HEAD m h"
    "QMD_LIST_CHECK_NEXT m = QMD_TAILQ_CHECK_NEXT m" "QMD_LIST_CHECK_PREV m = QMD_TAILQ_CHECK_PREV m"
    by (simp_all add: LIST_FOREACH_def TAILQ_FOREACH_def LIST_NEXT_def [abs_def] TAILQ_NEXT_def [abs_def]
        LIST_FIRST_def TAILQ_FIRST_def TAILQ_EMPTY_def QMD_LIST_CHECK_HEAD_def QMD_TAILQ_CHECK_HEAD_def
        QMD_LIST_CHECK_NEXT_def [abs_def] QMD_TAILQ_CHECK_NEXT_def [abs_def]
        QMD_LIST_CHECK_PREV_def [abs_def] QMD_TAILQ_CHECK_PREV_def [abs_def])
  show ?thesis using TAILQ_FOREACH_distinct by (auto simp: dlist_def chain_checks same)
qed

section \<open>Witnesses\<close>

lemma some_queues_dlist: "dlist some_queues 1 [5, 6, 7]" "dlist some_queues 2 [8]"
  by (rule tailq_dlist, rule some_queues_tailq)+

theorem list_operations_witness:
  "(\<exists>m'. LIST_INSERT_BEFORE some_queues 6 9 = Some m' \<and> dlist m' 1 [5, 9, 6, 7] \<and> dlist m' 2 [8]) \<and>
   (\<exists>m'. LIST_REMOVE some_queues 6 = Some m' \<and> dlist m' 1 [5, 7] \<and> dlist m' 2 [8]) \<and>
   LIST_PREV some_queues 6 1 = Some 5"
  using list_operations [of some_queues 1 "[5]" 6 "[7]" 9 2 "[8]"] some_queues_dlist
  by (simp add: some_queues_def)

theorem list_concat_and_swap_witness:
  "(\<exists>m'. LIST_CONCAT some_queues 1 2 = Some m' \<and> dlist m' 1 [5, 6, 7, 8] \<and> dlist m' 2 []) \<and>
   (\<exists>m'. LIST_SWAP some_queues 1 2 = Some m' \<and> dlist m' 1 [8] \<and> dlist m' 2 [5, 6, 7])"
  using list_concat_and_swap [OF some_queues_dlist] by simp

end
