(* ===== verification/Queue_Debug.thy ===== *)
theory Queue_Debug
  imports Tail_Queue
begin

text \<open>
  The tail queue of \<^verbatim>\<open>server/queue.h\<close> in a build with \<open>QUEUE_MACRO_DEBUG\<close>: every head and every
  element records the last two places of the source where a macro altered it, and a removal
  overwrites the links of the element with -1. Nothing is allocated at that address.
\<close>

section \<open>Traces\<close>

record qm_trace =
  lastline :: "64 word"
  prevline :: "64 word"
  lastfile :: "string option"
  prevfile :: "string option"

record traced_mem =
  tr_mem :: tq_mem
  head_trace :: "ptr \<Rightarrow> qm_trace"
  elem_trace :: "ptr \<Rightarrow> qm_trace"

text \<open>\<open>__LINE__\<close> and \<open>__FILE__\<close> where a macro is used.\<close>

type_synonym place = "64 word \<times> string"

definition TRACEBUF_INITIALIZER :: "place \<Rightarrow> qm_trace" where
  "TRACEBUF_INITIALIZER at = \<lparr>lastline = fst at, prevline = 0, lastfile = Some (snd at), prevfile = None\<rparr>"

definition trace_at :: "place \<Rightarrow> qm_trace \<Rightarrow> qm_trace" where
  "trace_at at t = \<lparr>lastline = fst at, prevline = lastline t, lastfile = Some (snd at), prevfile = lastfile t\<rparr>"

definition QMD_TRACE_HEAD :: "place \<Rightarrow> ptr \<Rightarrow> traced_mem \<Rightarrow> traced_mem" where
  "QMD_TRACE_HEAD at head m = m\<lparr>head_trace := (head_trace m)(head := trace_at at (head_trace m head))\<rparr>"

definition QMD_TRACE_ELEM :: "place \<Rightarrow> ptr \<Rightarrow> traced_mem \<Rightarrow> traced_mem" where
  "QMD_TRACE_ELEM at elem m = m\<lparr>elem_trace := (elem_trace m)(elem := trace_at at (elem_trace m elem))\<rparr>"

text \<open>The pointer \<open>(void *)-1\<close>.\<close>

definition TRASH :: ptr where
  "TRASH = 2 ^ 64 - 1"

definition TRASHIT :: "tq_mem \<Rightarrow> ptr \<Rightarrow> tq_mem option" where
  "TRASHIT m elm = do { m1 \<leftarrow> set_next m elm TRASH; set_prev m1 elm (NextOf TRASH) }"

section \<open>The macros of a debugging build\<close>

text \<open>
  The links are handled as in any build; a trace is memory of its own, so when in a macro it is
  written makes no difference.
\<close>

definition with_mem :: "traced_mem \<Rightarrow> tq_mem option \<Rightarrow> traced_mem option" where
  "with_mem m r = map_option (\<lambda>m1. m\<lparr>tr_mem := m1\<rparr>) r"

definition TAILQ_INIT_debug :: "place \<Rightarrow> traced_mem \<Rightarrow> ptr \<Rightarrow> traced_mem" where
  "TAILQ_INIT_debug at m head = QMD_TRACE_HEAD at head (m\<lparr>tr_mem := TAILQ_INIT (tr_mem m) head\<rparr>)"

definition TAILQ_INSERT_TAIL_debug :: "place \<Rightarrow> traced_mem \<Rightarrow> ptr \<Rightarrow> ptr \<Rightarrow> traced_mem option" where
  "TAILQ_INSERT_TAIL_debug at m head elm = do {
     m1 \<leftarrow> with_mem m (TAILQ_INSERT_TAIL (tr_mem m) head elm);
     Some (QMD_TRACE_ELEM at elm (QMD_TRACE_HEAD at head m1))
   }"

definition TAILQ_INSERT_HEAD_debug :: "place \<Rightarrow> traced_mem \<Rightarrow> ptr \<Rightarrow> ptr \<Rightarrow> traced_mem option" where
  "TAILQ_INSERT_HEAD_debug at m head elm = do {
     m1 \<leftarrow> with_mem m (TAILQ_INSERT_HEAD (tr_mem m) head elm);
     Some (QMD_TRACE_ELEM at elm (QMD_TRACE_HEAD at head m1))
   }"

definition TAILQ_INSERT_AFTER_debug :: "place \<Rightarrow> traced_mem \<Rightarrow> ptr \<Rightarrow> ptr \<Rightarrow> ptr \<Rightarrow> traced_mem option" where
  "TAILQ_INSERT_AFTER_debug at m head listelm elm = do {
     n \<leftarrow> TAILQ_NEXT (tr_mem m) listelm;
     m1 \<leftarrow> with_mem m (TAILQ_INSERT_AFTER (tr_mem m) head listelm elm);
     let m2 = (if n \<noteq> NULL then m1 else QMD_TRACE_HEAD at head m1);
     Some (QMD_TRACE_ELEM at listelm (QMD_TRACE_ELEM at elm m2))
   }"

definition TAILQ_INSERT_BEFORE_debug :: "place \<Rightarrow> traced_mem \<Rightarrow> ptr \<Rightarrow> ptr \<Rightarrow> traced_mem option" where
  "TAILQ_INSERT_BEFORE_debug at m listelm elm = do {
     m1 \<leftarrow> with_mem m (TAILQ_INSERT_BEFORE (tr_mem m) listelm elm);
     Some (QMD_TRACE_ELEM at listelm (QMD_TRACE_ELEM at elm m1))
   }"

definition TAILQ_CONCAT_debug :: "place \<Rightarrow> traced_mem \<Rightarrow> ptr \<Rightarrow> ptr \<Rightarrow> traced_mem option" where
  "TAILQ_CONCAT_debug at m head1 head2 = do {
     m1 \<leftarrow> with_mem m (TAILQ_CONCAT (tr_mem m) head1 head2);
     Some (if TAILQ_EMPTY (tr_mem m) head2 then m1
           else QMD_TRACE_HEAD at head2 (QMD_TRACE_HEAD at head1 (QMD_TRACE_HEAD at head2 m1)))
   }"

definition TAILQ_REMOVE_debug :: "place \<Rightarrow> traced_mem \<Rightarrow> ptr \<Rightarrow> ptr \<Rightarrow> traced_mem option" where
  "TAILQ_REMOVE_debug at m head elm = do {
     n \<leftarrow> TAILQ_NEXT (tr_mem m) elm;
     m1 \<leftarrow> with_mem m (do { m1 \<leftarrow> TAILQ_REMOVE (tr_mem m) head elm; TRASHIT m1 elm });
     let m2 = (if n \<noteq> NULL then m1 else QMD_TRACE_HEAD at head m1);
     Some (QMD_TRACE_ELEM at elm m2)
   }"

lemma trace_mem [simp]: "tr_mem (QMD_TRACE_HEAD at h m) = tr_mem m" "tr_mem (QMD_TRACE_ELEM at e m) = tr_mem m"
  by (simp_all add: QMD_TRACE_HEAD_def QMD_TRACE_ELEM_def)

text \<open>But for the removal, both builds do the same to the links.\<close>

lemma debug_links:
  "tr_mem (TAILQ_INIT_debug at m h) = TAILQ_INIT (tr_mem m) h"
  "map_option tr_mem (TAILQ_INSERT_TAIL_debug at m h e) = TAILQ_INSERT_TAIL (tr_mem m) h e"
  "map_option tr_mem (TAILQ_INSERT_HEAD_debug at m h e) = TAILQ_INSERT_HEAD (tr_mem m) h e"
  "map_option tr_mem (TAILQ_INSERT_AFTER_debug at m h l e) = TAILQ_INSERT_AFTER (tr_mem m) h l e"
  "map_option tr_mem (TAILQ_INSERT_BEFORE_debug at m l e) = TAILQ_INSERT_BEFORE (tr_mem m) l e"
  "map_option tr_mem (TAILQ_CONCAT_debug at m h h') = TAILQ_CONCAT (tr_mem m) h h'"
  by (auto simp: TAILQ_INIT_debug_def TAILQ_INSERT_TAIL_debug_def TAILQ_INSERT_HEAD_debug_def TAILQ_INSERT_AFTER_debug_def
      TAILQ_INSERT_BEFORE_debug_def TAILQ_CONCAT_debug_def TAILQ_INSERT_AFTER_def with_mem_def map_option_case Let_def
      split: option.splits bind_splits)

text \<open>
  A removal takes the element out as in any build, leaves every other queue alone, and trashes
  the links of the element: using them again is undefined, so a second removal is not silently
  done, and nor is a step of a loop from the removed element.
\<close>

theorem debug_removal:
  assumes "tailq (tr_mem m) h (xs @ e # ys)" "\<not> elem_live (tr_mem m) TRASH"
  shows "\<exists>m'. TAILQ_REMOVE_debug at m h e = Some m' \<and> tailq (tr_mem m') h (xs @ ys) \<and>
    only_changes {h} (set (xs @ e # ys)) (tr_mem m) (tr_mem m') \<and>
    lastline (elem_trace m' e) = fst at \<and> prevline (elem_trace m' e) = lastline (elem_trace m e) \<and>
    TAILQ_NEXT (tr_mem m') e = Some TRASH \<and> TAILQ_NEXT (tr_mem m') TRASH = None \<and>
    TAILQ_REMOVE_debug at' m' h' e = None"
proof -
  have e: "elem_live (tr_mem m) e" "e \<notin> set (xs @ ys)"
    using assms(1) by (auto simp: tailq_def)
  obtain m1 where m1: "TAILQ_REMOVE (tr_mem m) h e = Some m1" "tailq m1 h (xs @ ys)"
    "only_changes {h} (set (xs @ e # ys) - {e}) (tr_mem m) m1"
    by (rule TAILQ_REMOVE_tailq [OF assms(1)])
  have live: "elem_live m1 = elem_live (tr_mem m)" using m1(3) by (simp add: only_changes_def)
  define m2 where "m2 = m1\<lparr>tqe_next := (tqe_next m1)(e := TRASH), tqe_prev := (tqe_prev m1)(e := NextOf TRASH)\<rparr>"
  have t: "TRASHIT m1 e = Some m2" using e live by (simp add: TRASHIT_def set_next_def set_prev_def m2_def)
  obtain n where n: "TAILQ_NEXT (tr_mem m) e = Some n" using e by (simp add: TAILQ_NEXT_def get_next_def)
  define m' where "m' = QMD_TRACE_ELEM at e (if n \<noteq> NULL then m\<lparr>tr_mem := m2\<rparr> else QMD_TRACE_HEAD at h (m\<lparr>tr_mem := m2\<rparr>))"
  have "TAILQ_REMOVE_debug at m h e = Some m'"
    using n m1(1) t by (simp add: TAILQ_REMOVE_debug_def with_mem_def m'_def)
  moreover have mem: "tr_mem m' = m2" by (simp add: m'_def)
  moreover have "only_changes {} {e} m1 m2" by (simp add: only_changes_def m2_def)
  then have "tailq m2 h (xs @ ys)" using m1(2) e(2) by (auto elim: tailq_other)
  moreover have "only_changes {h} (set (xs @ e # ys)) (tr_mem m) m2"
    using m1(3) by (auto simp: only_changes_def m2_def)
  moreover have "lastline (elem_trace m' e) = fst at" "prevline (elem_trace m' e) = lastline (elem_trace m e)"
    by (simp_all add: m'_def QMD_TRACE_ELEM_def QMD_TRACE_HEAD_def trace_at_def)
  moreover have nxt: "TAILQ_NEXT m2 e = Some TRASH" "TAILQ_NEXT m2 TRASH = None"
    using e live assms(2) by (simp_all add: TAILQ_NEXT_def get_next_def m2_def)
  moreover have "TAILQ_REMOVE m2 h' e = None"
  proof -
    have "set_prev m2 TRASH p = None" for p using live assms(2) by (simp add: set_prev_def m2_def)
    moreover have "TRASH \<noteq> NULL" by (simp add: TRASH_def)
    ultimately show ?thesis using nxt by (simp add: TAILQ_REMOVE_def split: bind_splits)
  qed
  then have "TAILQ_REMOVE_debug at' m' h' e = None"
    by (simp add: TAILQ_REMOVE_debug_def with_mem_def mem split: bind_splits)
  ultimately show ?thesis by (intro exI [of _ m']) simp
qed

end
