(* ===== verification/Peer_Address.thy ===== *)
theory Peer_Address
  imports Aesd_Socket
begin

text \<open>
  Two details of \<^verbatim>\<open>server/aesdsocket.c\<close> beside the streams: where \<open>get_in_addr\<close> finds the address
  of the peer in what \<open>accept\<close> stored, and the command number that the server declares again for
  its \<open>ioctl\<close>, which has to be the one the driver knows.
\<close>

section \<open>The peer's address\<close>

text \<open>
  A \<open>struct sockaddr_storage\<close> has 128 bytes; the first two are the family, in the byte order of the
  machine (little endian). \<open>sin_addr\<close> lies after the family and the port; \<open>sin6_addr\<close> also after
  the flow information.
\<close>

definition AF_INET :: nat where "AF_INET = 2"
definition AF_INET6 :: nat where "AF_INET6 = 10"

definition sa_family :: "byte list \<Rightarrow> nat option" where
  "sa_family sa = do { lo \<leftarrow> arr_get sa 0; hi \<leftarrow> arr_get sa 1; Some (unat lo + 256 * unat hi) }"

definition sin_addr :: nat where "sin_addr = 4"
definition sin6_addr :: nat where "sin6_addr = 8"

text \<open>The result is the offset of the address in the structure.\<close>

definition get_in_addr :: "byte list \<Rightarrow> nat option" where
  "get_in_addr sa = do { family \<leftarrow> sa_family sa; Some (if family = AF_INET then sin_addr else sin6_addr) }"

text \<open>What \<open>inet_ntop\<close> reads for a family, with the size of the structure that \<open>accept\<close> stores.\<close>

definition address_bytes :: "nat \<Rightarrow> nat" where
  "address_bytes family = (if family = AF_INET then 4 else if family = AF_INET6 then 16 else 0)"

definition sockaddr_bytes :: "nat \<Rightarrow> nat" where
  "sockaddr_bytes family = (if family = AF_INET then 16 else 28)"

text \<open>The address that is read lies inside what was stored.\<close>

lemma get_in_addr_inside:
  assumes "sa_family sa = Some family" "sockaddr_bytes family \<le> length sa"
  shows "\<exists>off. get_in_addr sa = Some off \<and> off + address_bytes family \<le> sockaddr_bytes family"
  using assms by (simp add: get_in_addr_def address_bytes_def sockaddr_bytes_def sin_addr_def sin6_addr_def)

section \<open>The command number\<close>

definition server_IOC_MAGIC :: uint32 where "server_IOC_MAGIC = 0x16"

definition server_IOCSEEKTO :: uint32 where
  "server_IOCSEEKTO = IOWR server_IOC_MAGIC 1 8"

lemma server_driver_agree: "server_IOCSEEKTO = AESDCHAR_IOCSEEKTO"
  by (simp add: server_IOCSEEKTO_def AESDCHAR_IOCSEEKTO_def server_IOC_MAGIC_def AESD_IOC_MAGIC_def)

end
