(* ===== verification/File_Calls.thy ===== *)
theory File_Calls
  imports Call_Log
begin

text \<open>
  The build without the driver on an ordinary file: a system with one file, opened for appending
  or for reading under the descriptor \<open>ffd\<close>, clients that arrive, and sockets that move at most
  \<open>k\<close> bytes at a time. It serves, so the properties of the running server hold on it, timestamps
  included.
\<close>

section \<open>The system\<close>

record disk =
  d_file :: "byte list"
  d_pos :: "nat option"
  d_in :: "int \<Rightarrow> byte list"
  d_out :: "int \<Rightarrow> byte list"
  d_live :: "int set"
  d_arrivals :: "(int \<times> byte list) list"

definition disk_os :: "int \<Rightarrow> nat \<Rightarrow> disk os" where
  "disk_os ffd k =
     \<lparr>sys_open = (\<lambda>w flags. (ffd, w\<lparr>d_pos := Some 0\<rparr>)),
      sys_close = (\<lambda>w fd. (0, if fd = ffd then w\<lparr>d_pos := None\<rparr> else w\<lparr>d_live := d_live w - {fd}\<rparr>)),
      sys_write = (\<lambda>w fd bs. (int (length bs), w\<lparr>d_file := d_file w @ bs\<rparr>)),
      sys_fsync = (\<lambda>w fd. (0, w)),
      sys_read = (\<lambda>w fd n. case d_pos w of
          None \<Rightarrow> (- 1, [], w)
        | Some p \<Rightarrow> (let bs = take n (drop p (d_file w)) in (int (length bs), bs, w\<lparr>d_pos := Some (p + length bs)\<rparr>))),
      sys_ioctl = (\<lambda>w fd cmd to. (- 1, w)),
      sys_recv = (\<lambda>w fd n. let bs = take (min n k) (d_in w fd)
         in (int (length bs), bs, w\<lparr>d_in := (d_in w)(fd := drop (length bs) (d_in w fd))\<rparr>)),
      sys_send = (\<lambda>w fd bs. (int (min k (length bs)), w\<lparr>d_out := (d_out w)(fd := d_out w fd @ take k bs)\<rparr>)),
      sys_realloc = (\<lambda>w n. (if unat n \<le> 2 ^ 47 then Some (replicate (unat n) 0) else None, w)),
      sys_lock = (\<lambda>w. w), sys_unlock = (\<lambda>w. w)\<rparr>"

definition disk_accept :: "disk \<Rightarrow> int \<times> disk" where
  "disk_accept w =
     (case d_arrivals w of
        [] \<Rightarrow> (- 1, w)
      | (fd, bs) # rest \<Rightarrow>
          if fd \<in> d_live w then (- 1, w)
          else (fd, w\<lparr>d_in := (d_in w)(fd := bs), d_out := (d_out w)(fd := []),
                      d_live := insert fd (d_live w), d_arrivals := rest\<rparr>))"

definition disk_live :: "disk \<Rightarrow> int \<Rightarrow> bool" where
  "disk_live w fd \<longleftrightarrow> fd \<in> d_live w"

text \<open>A line of a client has at most \<open>m\<close> bytes.\<close>

definition short_lines :: "nat \<Rightarrow> byte list \<Rightarrow> bool" where
  "short_lines m bs \<longleftrightarrow> (\<forall>p \<in> set (fst (split_lines bs)). length p \<le> m) \<and> length (snd (split_lines bs)) \<le> m"

definition disk_ok :: "int \<Rightarrow> nat \<Rightarrow> disk \<Rightarrow> bool" where
  "disk_ok ffd m w \<longleftrightarrow> ffd \<notin> d_live w \<and>
     (\<forall>(fd, bs) \<in> set (d_arrivals w). fd \<noteq> ffd \<and> fd \<noteq> - 1 \<and> short_lines m bs)"

definition disk_clients :: "int \<Rightarrow> nat \<Rightarrow> (disk, byte list) server_view" where
  "disk_clients ffd m =
     \<lparr>s_ok = disk_ok ffd m, s_in = d_in, s_out = d_out, s_file = d_file,
      s_open = (\<lambda>w fd. fd = ffd \<and> d_pos w \<noteq> None), s_rest = (\<lambda>w fd. drop (the (d_pos w)) (d_file w)),
      s_append = (@), s_bytes = (\<lambda>f. f), s_max = m, s_seek = (\<lambda>f x y. None)\<rparr>"

section \<open>It serves\<close>

lemma disk_clients_simps [simp]:
  "s_ok (disk_clients ffd m) = disk_ok ffd m" "s_in (disk_clients ffd m) = d_in" "s_out (disk_clients ffd m) = d_out"
  "s_file (disk_clients ffd m) = d_file" "s_open (disk_clients ffd m) w fd \<longleftrightarrow> fd = ffd \<and> d_pos w \<noteq> None"
  "s_rest (disk_clients ffd m) w fd = drop (the (d_pos w)) (d_file w)" "s_append (disk_clients ffd m) = (@)"
  "s_bytes (disk_clients ffd m) f = f" "s_max (disk_clients ffd m) = m" "s_seek (disk_clients ffd m) f x y = None"
  by (simp_all add: disk_clients_def)

lemmas disk_law = disk_os_def unchanged_def other_streams_def

lemma disk_fits: "fits (client_view (disk_clients ffd m) fd) False bs \<longleftrightarrow> short_lines m bs"
  by (simp add: fits_def short_lines_def seeks_def)

lemma disk_serves:
  assumes "0 < k" "m < 2 ^ 40" "ffd \<noteq> - 1"
  shows "os_serves (disk_os ffd k) (client_view (disk_clients ffd m) cfd) cfd"
proof -
  let ?os = "disk_os ffd k" and ?V = "client_view (disk_clients ffd m) cfd"
  have "serves_open ?os ?V" "serves_write ?os ?V" "serves_fsync ?os ?V" "serves_close ?os ?V"
    "serves_hangup ?os ?V cfd" "serves_mutex ?os ?V"
    using assms(3) by (auto simp: serves_open_def serves_write_def serves_fsync_def serves_close_def serves_hangup_def
        serves_mutex_def disk_law disk_ok_def)
  moreover have "serves_read ?os ?V"
  proof -
    have "drop p f = take n (drop p f) @ drop (p + length (take n (drop p f))) f" for n p and f :: "byte list"
      by (metis append_take_drop_id drop_drop length_take min_def drop_all linorder_le_cases add.commute drop_take length_drop take_all)
    then show ?thesis by (auto simp: serves_read_def disk_law disk_ok_def Let_def cong: if_cong)
  qed
  moreover have "serves_send ?os ?V cfd"
    using assms(1) by (auto simp: serves_send_def disk_law disk_ok_def min_def)
  moreover have "serves_recv ?os ?V cfd"
    using assms(1) by (auto simp: serves_recv_def disk_law disk_ok_def Let_def min_def)
  moreover have "serves_memory ?os ?V"
    using assms(2) by (auto simp: serves_memory_def realloc_ok_def disk_law disk_ok_def split: if_splits)
  ultimately show ?thesis by (simp add: os_serves_def)
qed

lemma disk_descriptors: "serves_descriptors (disk_os ffd k) (disk_clients ffd m) disk_live"
  by (auto simp: serves_descriptors_def keeps_live_def keeps_files_def disk_law disk_ok_def disk_live_def fun_eq_iff Let_def
      split: option.splits)

lemma disk_accepts: "serves_accept False disk_accept (disk_clients ffd m) disk_live"
  unfolding serves_accept_def
proof (intro allI impI)
  fix w fd w'
  let ?S = "disk_clients ffd m"
  assume ok: "s_ok ?S w" and acc: "disk_accept w = (fd, w')"
  show "s_ok ?S w' \<and> s_file ?S w' = s_file ?S w \<and> keeps_files ?S w w' \<and>
    (if fd = - 1 then disk_live w' = disk_live w \<and> s_in ?S w' = s_in ?S w \<and> s_out ?S w' = s_out ?S w
     else \<not> disk_live w fd \<and> disk_live w' = (disk_live w)(fd := True) \<and> s_out ?S w' fd = [] \<and>
       fits (client_view ?S fd) False (s_in ?S w' fd) \<and> other_streams ?S fd w' = other_streams ?S fd w)"
  proof (cases "fd = - 1")
    case True
    then have "w' = w" using acc ok by (auto simp: disk_accept_def disk_law disk_ok_def split: list.splits if_splits)
    then show ?thesis using ok True by (simp add: keeps_files_def)
  next
    case False
    then obtain bs rest where a: "d_arrivals w = (fd, bs) # rest" "fd \<notin> d_live w"
      "w' = w\<lparr>d_in := (d_in w)(fd := bs), d_out := (d_out w)(fd := []), d_live := insert fd (d_live w), d_arrivals := rest\<rparr>"
      using acc by (auto simp: disk_accept_def split: list.splits if_splits)
    then show ?thesis using ok False
      by (auto simp: disk_fits disk_live_def keeps_files_def fun_eq_iff other_streams_def disk_ok_def)
  qed
qed

lemma disk_served:
  assumes "0 < k" "64 \<le> m" "m < 2 ^ 40" "ffd \<noteq> - 1" "disk_ok ffd m w0" "d_live w0 = {}"
  shows "served_calls False (disk_os ffd k) disk_accept (disk_clients ffd m) disk_live w0"
  using disk_serves [OF assms(1,3,4)] disk_descriptors disk_accepts assms(2,5,6)
  by (simp add: served_calls_def serves_clients_def disk_live_def)

end
