(* ===== verification/File_Log.thy ===== *)
theory File_Log
  imports Whole_Log File_Calls
begin

text \<open>
  The running server of the build without the driver, on the ordinary file of \<open>File_Calls\<close>: the
  file is what it was before with whole lines appended, those of the clients and the timestamps.
\<close>

section \<open>Lines and their writers\<close>

text \<open>A line is written by a connection, or by the timestamp thread (\<open>None\<close>).\<close>

type_synonym written = "(int option \<times> byte list) list"

definition lines_by :: "int \<Rightarrow> written \<Rightarrow> byte list list" where
  "lines_by n ls = map snd (filter (\<lambda>l. fst l = Some n) ls)"

text \<open>After each of its lines a client gets the file up to that line.\<close>

fun echoes :: "byte list \<Rightarrow> int \<Rightarrow> written \<Rightarrow> byte list" where
  "echoes f n [] = []"
| "echoes f n ((who, p) # ls) = (if who = Some n then f @ p else []) @ echoes (f @ p) n ls"

definition written :: "history \<Rightarrow> written" where
  "written h = map (\<lambda>(who, e). (who, entry_bytes e)) h"

lemma written_simps [simp]:
  "written [] = []" "written ((who, e) # h) = (who, entry_bytes e) # written h"
  by (simp_all add: written_def)

lemma lines_by_written: "lines_by n (written h) = packets_of n h"
  by (induction h) (auto simp: lines_by_def)

text \<open>Without the driver every entry is a stored packet.\<close>

lemma plain_history:
  assumes "right_history False (disk_clients ffd m) f h"
  shows "file_after (disk_clients ffd m) f h = f @ concat (map snd (written h))"
    "replies (disk_clients ffd m) f n h = echoes f n (written h)" "\<forall>l \<in> set (written h). packet (snd l)"
proof -
  let ?S = "disk_clients ffd m"
  have "file_after ?S f h = f @ concat (map snd (written h)) \<and> replies ?S f n h = echoes f n (written h) \<and>
      (\<forall>l \<in> set (written h). packet (snd l))"
    using assms
  proof (induction h arbitrary: f)
    case (Cons e h)
    obtain who p where e: "e = (who, Stored p)" "packet p"
      using Cons.prems by (cases e; cases "snd e") auto
    then show ?case using Cons by simp
  qed simp
  then show "file_after ?S f h = f @ concat (map snd (written h))"
    "replies ?S f n h = echoes f n (written h)" "\<forall>l \<in> set (written h). packet (snd l)" by blast+
qed

section \<open>The file\<close>

text \<open>
  C11: in the build without the driver, at every moment between two system calls of the running
  server, the file is what it was at the start with whole lines appended: lines of the
  clients and timestamps, never a part of one and none twice. Each connection's lines stand in it
  in the order in which its client sent them; what it sent and is not in the file is still on its
  way or, at the end, a line without its newline. And each client was sent, for each of its lines,
  the whole file up to that line, as far as the answer under way has come. The file is an ordinary one
  that takes every write whole, and no \<open>send\<close> fails; a short write (:43) is outside this system.
\<close>

theorem plain_file_log:
  assumes "0 < k" "64 \<le> m" "m < 2 ^ 40" "ffd \<noteq> - 1" "disk_ok ffd m w0" "d_live w0 = {}" "nothing_allocated s0"
    and "(life_step False (disk_os ffd k) disk_accept (disk_clients ffd m))\<^sup>*\<^sup>* (start_life s0 w0) x"
  shows "\<exists>ls. d_file (cp_world (l_pool x)) = d_file w0 @ concat (map snd ls) \<and> (\<forall>l \<in> set ls. packet (snd l)) \<and>
    (\<forall>n < length (l_args x). let c = cp_conns (l_pool x) ! n in \<exists>rest todo.
       c_stream c = concat (lines_by (int n) ls) @ rest \<and> (call_active (c_thread c) \<or> newline \<notin> set rest) \<and>
       sent_to (disk_clients ffd m) (cp_world (l_pool x)) c @ todo = echoes (d_file w0) (int n) ls \<and>
       (holds (ct_conn (c_thread c)) \<or> todo = []))"
proof -
  let ?S = "disk_clients ffd m"
  note sv = disk_served [OF assms(1-6)] and inv = life_reach_inv [OF assms(7,8)]
  obtain h where log: "log_inv False ?S disk_live (d_file w0) h x"
    using life_log_inv [OF sv assms(7,8)] by auto
  then have h: "right_history False ?S (d_file w0) h" "d_file (cp_world (l_pool x)) = file_after ?S (d_file w0) h"
    by (simp_all add: log_inv_def calls_inv_def kept_pool_fields)
  have "let c = cp_conns (l_pool x) ! n in \<exists>rest todo.
       c_stream c = concat (lines_by (int n) (written h)) @ rest \<and> (call_active (c_thread c) \<or> newline \<notin> set rest) \<and>
       sent_to ?S (cp_world (l_pool x)) c @ todo = echoes (d_file w0) (int n) (written h) \<and>
       (holds (ct_conn (c_thread c)) \<or> todo = [])" if n: "n < length (l_args x)" for n
  proof -
    have "n < length (cp_conns (l_pool x))" using n inv clients_ok_args by (fastforce simp: life_inv_def)
    from log_inv_conns [OF sv inv log this] n show ?thesis
      unfolding Let_def lines_by_written plain_history(2) [OF h(1), symmetric] waiting_def by blast
  qed
  then show ?thesis using plain_history(1,3) [OF h(1)] h(2) by (intro exI [of _ "written h"]) simp
qed

section \<open>A client\<close>

text \<open>One client that sends a line and the beginning of another; the file has a line already.\<close>

definition disk_start :: disk where
  "disk_start = \<lparr>d_file = [120, newline], d_pos = None, d_in = (\<lambda>fd. []), d_out = (\<lambda>fd. []), d_live = {},
     d_arrivals = [(5, [104, newline, 105])]\<rparr>"

abbreviation disk_step :: "disk life \<Rightarrow> disk life \<Rightarrow> bool" where
  "disk_step \<equiv> life_step False (disk_os 3 2) disk_accept (disk_clients 3 64)"

lemma disk_start_ok: "disk_ok 3 64 disk_start" "d_live disk_start = {}" "nothing_allocated no_records"
proof -
  have "split_lines [104, newline, 105 :: byte] = ([[104, newline]], [105])" by code_simp
  then show "disk_ok 3 64 disk_start" by (simp add: disk_ok_def disk_start_def short_lines_def)
qed (simp_all add: disk_start_def no_records_empty)

lemma disk_start_served: "served_calls False (disk_os 3 2) disk_accept (disk_clients 3 64) disk_live disk_start"
  by (rule disk_served) (simp_all add: disk_start_ok)

lemma disk_client:
  obtains x where "disk_step (start_life no_records disk_start) x" "l_main x = M_malloc 5"
    "map c_stream (cp_conns (l_pool x)) = [[104, newline, 105]]"
proof -
  let ?x = "start_life no_records disk_start" and ?w = "snd (disk_accept disk_start)"
  have acc: "disk_accept disk_start = (5, ?w)" "fst (disk_accept disk_start) = 5" "d_in ?w 5 = [104, newline, 105]"
    by (simp_all add: disk_accept_def disk_start_def)
  have inv: "life_inv ?x" by (rule start_life_inv [OF disk_start_ok(3)])
  obtain ks ys where ok: "main_ok (l_main ?x) ks ys (l_server ?x)" using inv by (auto simp: life_inv_def)
  obtain a where "fresh_answers a (l_server ?x)" using main_ok_fresh [OF ok] by blast
  then have a: "main_answers disk_accept (a\<lparr>a_fd := 5\<rparr>) ?x"
    using acc(2) by (simp add: main_answers_def fresh_answers_def start_life_def start_calls_def)
  let ?y = "?x\<lparr>l_pool := (l_pool ?x)\<lparr>cp_world := ?w, cp_conns := [new_connection (disk_clients 3 64) 5 ?w]\<rparr>, l_main := M_malloc 5\<rparr>"
  have "main_call (disk_os 3 2) disk_accept (disk_clients 3 64) (a\<lparr>a_fd := 5\<rparr>) ?x = Some ?y"
    using acc(1) by (simp add: main_call_def main_step_def main_effect_def Let_def start_life_def start_calls_def)
  then have "disk_step ?x ?y"
    using life_step.main [OF _ a] by (simp add: start_life_def start_calls_def may_main_def)
  then show thesis using that [of ?y] acc(3) by (simp add: new_connection_def)
qed

theorem plain_file_log_witness:
  "\<exists>x ls. disk_step\<^sup>*\<^sup>* (start_life no_records disk_start) x \<and> length (l_args x) = 1 \<and>
     d_file (cp_world (l_pool x)) = [120, newline] @ concat (map snd ls) \<and> lines_by 0 ls = [[104, newline]] \<and>
     c_sent (cp_conns (l_pool x) ! 0) = echoes [120, newline] 0 ls"
proof -
  let ?S = "disk_clients 3 64"
  obtain x where x: "disk_step (start_life no_records disk_start) x" "l_main x = M_malloc 5"
    "map c_stream (cp_conns (l_pool x)) = [[104, newline, 105]]" by (rule disk_client)
  then have r: "disk_step\<^sup>*\<^sup>* (start_life no_records disk_start) x" by blast
  have inv: "life_inv x" by (rule life_reach_inv [OF disk_start_ok(3) r])
  have up: "\<not> gives_up (l_main x)" using x(2) by simp
  obtain y where y: "(busy_life False (disk_os 3 2) disk_accept ?S)\<^sup>*\<^sup>* x y" and pt: "l_main y = M_accept"
    and stuck: "\<nexists>z. between_accepts False (disk_os 3 2) disk_accept ?S y z"
    by (rule busy_life_runs_out [OF disk_start_served disk_start_ok(3) r up])
  have ry: "disk_step\<^sup>*\<^sup>* (start_life no_records disk_start) y" using r busy_life_reach [OF y] by simp
  have inv': "life_inv y" by (rule life_reach_inv [OF disk_start_ok(3) ry])
  note all = served_at_accept [OF disk_start_served disk_start_ok(3) ry pt stuck]
  have "map (\<lambda>k. (c_fd k, c_stream k)) (cp_conns (l_pool y)) = map (\<lambda>k. (c_fd k, c_stream k)) (cp_conns (l_pool x))"
    using busy_life_clients [OF inv up y] by (simp add: same_clients_def)
  then have "map c_stream (cp_conns (l_pool y)) = [[104, newline, 105]]"
    using x(3) arg_cong [of _ _ "map snd"] by fastforce
  then obtain k where k: "cp_conns (l_pool y) = [k]" "c_stream k = [104, newline, 105]" by auto
  have args: "length (l_args y) = 1" using inv' pt k(1) by (simp add: life_inv_def clients_ok_def)
  have "ct_phase (c_thread k) = Ended" using all(2) k(1) by simp
  then have e: "\<not> call_active (c_thread k)" "\<not> holds (ct_conn (c_thread k))"
    using no_waiting_thread [OF inv', of 0] args k(1) by (simp_all add: call_active_def life_thread_def)
  obtain ls rest where ls: "d_file (cp_world (l_pool y)) = [120, newline] @ concat (map snd ls)"
    "\<forall>l \<in> set ls. packet (snd l)" "[104, newline, 105] = concat (lines_by 0 ls) @ rest" "newline \<notin> set rest"
    "c_sent k = echoes [120, newline] 0 ls"
    using plain_file_log [OF _ _ _ _ disk_start_ok ry] args k e by (auto simp: sent_to_def disk_start_def)
  have "\<forall>p \<in> set (lines_by 0 ls). packet p" using ls(2) by (auto simp: lines_by_def)
  from split_lines_packets [OF this ls(4)] have "split_lines [104, newline, 105] = (lines_by 0 ls, rest)" using ls(3) by simp
  moreover have "split_lines [104, newline, 105 :: byte] = ([[104, newline]], [105])" by code_simp
  ultimately have "lines_by 0 ls = [[104, newline]]" by simp
  then show ?thesis using ry args ls(1,5) k(1) by (intro exI [of _ y] exI [of _ ls]) simp
qed

end
