(* ===== verification/Systemcalls.thy ===== *)
theory Systemcalls
  imports Prelude
begin

text \<open>
  Running commands, \<^verbatim>\<open>examples/systemcalls/systemcalls.c\<close>. The process services are a
  parameter, a record over the state of the system; \<open>execv\<close> is a function from the path and
  the arguments to how the program ends, or \<open>None\<close> where it cannot be run. A forked child
  is known to the system by the way it will end. \<open>None\<close> as a result is \<open>abort()\<close>.
\<close>

section \<open>Services\<close>

datatype wstatus = Exited nat | Signaled nat

definition WIFEXITED :: "wstatus \<Rightarrow> bool" where
  "WIFEXITED st = (case st of Exited _ \<Rightarrow> True | Signaled _ \<Rightarrow> False)"

definition WEXITSTATUS :: "wstatus \<Rightarrow> nat" where
  "WEXITSTATUS st = (case st of Exited n \<Rightarrow> n | Signaled _ \<Rightarrow> 0)"

record 'w proc =
  p_system :: "'w \<Rightarrow> string option \<Rightarrow> int \<times> 'w"
  p_fork :: "'w \<Rightarrow> wstatus \<Rightarrow> int \<times> 'w"
  p_execv :: "string option \<Rightarrow> string list \<Rightarrow> wstatus option"
  p_waitpid :: "'w \<Rightarrow> int \<Rightarrow> int \<times> wstatus \<times> 'w"
  p_open :: "'w \<Rightarrow> string \<Rightarrow> int \<times> 'w"
  p_dup2_ok :: bool

definition EXIT_FAILURE :: nat where "EXIT_FAILURE = 1"
definition SIGABRT :: nat where "SIGABRT = 6"

section \<open>The functions\<close>

definition do_system :: "'w proc \<Rightarrow> string option \<Rightarrow> 'w \<Rightarrow> bool \<times> 'w" where
  "do_system P cmd w = (let (returnCode, w') = p_system P w cmd in (returnCode = 0, w'))"

text \<open>
  \<open>command[0]\<close> is the first argument, or the terminating null pointer when there is none.
\<close>

definition command_path :: "string list \<Rightarrow> string option" where
  "command_path args = (case args of [] \<Rightarrow> None | a # _ \<Rightarrow> Some a)"

text \<open>The child of \<open>do_exec\<close>: \<open>execv\<close> does not return, or the child exits with a failure.\<close>

definition exec_child :: "'w proc \<Rightarrow> string list \<Rightarrow> wstatus" where
  "exec_child P args =
     (case p_execv P (command_path args) args of None \<Rightarrow> Exited EXIT_FAILURE | Some st \<Rightarrow> st)"

text \<open>
  The parent after the fork: it waits for \<open>pid\<close>, whatever that is. When \<open>fork\<close> failed the
  code goes on with \<open>pid = -1\<close>.
\<close>

definition wait_child :: "'w proc \<Rightarrow> int \<Rightarrow> 'w \<Rightarrow> bool \<times> 'w" where
  "wait_child P pid w =
     (let (r, status, w') = p_waitpid P w pid
      in if r = - 1 then (False, w') else (WIFEXITED status \<and> WEXITSTATUS status = 0, w'))"

definition do_exec :: "'w proc \<Rightarrow> string list \<Rightarrow> 'w \<Rightarrow> bool \<times> 'w" where
  "do_exec P args w =
     (let (pid, w1) = p_fork P w (exec_child P args)
      in wait_child P pid w1)"

text \<open>The child of \<open>do_exec_redirect\<close> aborts when it cannot redirect its output.\<close>

definition redirect_child :: "'w proc \<Rightarrow> string list \<Rightarrow> wstatus" where
  "redirect_child P args = (if p_dup2_ok P then exec_child P args else Signaled SIGABRT)"

definition do_exec_redirect :: "'w proc \<Rightarrow> string \<Rightarrow> string list \<Rightarrow> 'w \<Rightarrow> (bool \<times> 'w) option" where
  "do_exec_redirect P outputfile args w =
     (let (fd, w1) = p_open P w outputfile
      in if fd < 0 then None
      else let (pid, w2) = p_fork P w1 (redirect_child P args)
      in Some (wait_child P pid w2))"

section \<open>Documented behaviour\<close>

text \<open>
  A view of the system: its children that have not been waited for, by process id, and the
  descriptors this process has open. \<open>fork\<close> adds a child or fails; \<open>waitpid\<close> takes the
  child it names, or any child when it is asked for \<open>-1\<close>, and fails when there is none. That a
  signal interrupts it (\<open>EINTR\<close>) is left out.
\<close>

record 'w pview =
  children :: "'w \<Rightarrow> int \<Rightarrow> wstatus option"
  open_fds :: "'w \<Rightarrow> int set"

definition proc_ok :: "'w proc \<Rightarrow> 'w pview \<Rightarrow> bool" where
  "proc_ok P V \<longleftrightarrow>
     (\<forall>w st pid w'. p_fork P w st = (pid, w') \<longrightarrow> open_fds V w' = open_fds V w \<and>
        (pid = - 1 \<and> children V w' = children V w \<or>
         0 < pid \<and> children V w pid = None \<and> children V w' = (children V w)(pid \<mapsto> st))) \<and>
     (\<forall>w pid st. 0 < pid \<longrightarrow> children V w pid = Some st \<longrightarrow>
        (\<exists>w'. p_waitpid P w pid = (pid, st, w') \<and> children V w' = (children V w)(pid := None) \<and>
           open_fds V w' = open_fds V w)) \<and>
     (\<forall>w r st w'. p_waitpid P w (- 1) = (r, st, w') \<longrightarrow> open_fds V w' = open_fds V w \<and>
        (r = - 1 \<and> (\<forall>p. children V w p = None) \<or>
         0 < r \<and> children V w r = Some st \<and> children V w' = (children V w)(r := None))) \<and>
     (\<forall>w f fd w'. p_open P w f = (fd, w') \<longrightarrow> children V w' = children V w \<and>
        (fd < 0 \<and> open_fds V w' = open_fds V w \<or>
         0 \<le> fd \<and> fd \<notin> open_fds V w \<and> open_fds V w' = insert fd (open_fds V w)))"

lemma fork_cases:
  assumes "proc_ok P V" "p_fork P w st = (pid, w')"
  shows "open_fds V w' = open_fds V w"
    "pid = - 1 \<and> children V w' = children V w \<or>
     0 < pid \<and> children V w pid = None \<and> children V w' = (children V w)(pid \<mapsto> st)"
  using assms unfolding proc_ok_def by blast+

lemma waitpid_child:
  assumes "proc_ok P V" "0 < pid" "children V w pid = Some st"
  obtains w' where "p_waitpid P w pid = (pid, st, w')" "children V w' = (children V w)(pid := None)"
    "open_fds V w' = open_fds V w"
  using assms unfolding proc_ok_def by blast

lemma waitpid_any:
  assumes "proc_ok P V" "p_waitpid P w (- 1) = (r, st, w')"
  shows "r = - 1 \<and> (\<forall>p. children V w p = None) \<or>
     0 < r \<and> children V w r = Some st \<and> children V w' = (children V w)(r := None)"
  using assms unfolding proc_ok_def by blast

lemma open_cases:
  assumes "proc_ok P V" "p_open P w f = (fd, w')"
  shows "children V w' = children V w"
    "fd < 0 \<and> open_fds V w' = open_fds V w \<or>
     0 \<le> fd \<and> fd \<notin> open_fds V w \<and> open_fds V w' = insert fd (open_fds V w)"
  using assms unfolding proc_ok_def by blast+

lemma success_iff: "WIFEXITED st \<and> WEXITSTATUS st = 0 \<longleftrightarrow> st = Exited 0"
  by (cases st) (auto simp: WIFEXITED_def WEXITSTATUS_def)

text \<open>The parent after a fork that worked: the child is waited for and gone.\<close>

lemma wait_forked:
  assumes P: "proc_ok P V" and f: "p_fork P w st = (pid, w1)" "pid \<noteq> - 1"
  shows "\<exists>w'. wait_child P pid w1 = (st = Exited 0, w') \<and> children V w' = children V w \<and>
     open_fds V w' = open_fds V w"
proof -
  have c: "0 < pid" "children V w pid = None" "children V w1 = (children V w)(pid \<mapsto> st)"
    and o: "open_fds V w1 = open_fds V w"
    using fork_cases [OF P f(1)] f(2) by auto
  then have "children V w1 pid = Some st" by simp
  then obtain w' where "p_waitpid P w1 pid = (pid, st, w')"
    "children V w' = (children V w1)(pid := None)" "open_fds V w' = open_fds V w1"
    using waitpid_child [OF P c(1)] by blast
  then show ?thesis using c o f(2) success_iff [of st]
    by (auto simp: wait_child_def fun_upd_idem)
qed

section \<open>Properties\<close>

text \<open>
  C35: when the fork works, \<open>do_exec\<close> is true exactly if the command could be run and
  exited with 0; a command that cannot be run, fails or is killed gives false. No child
  is left behind. (No signal interrupts the \<open>waitpid\<close> of the parent.)
\<close>

theorem do_exec_reports_success:
  assumes "proc_ok P V" "p_fork P w (exec_child P args) = (pid, w1)" "pid \<noteq> - 1"
  shows "\<exists>w'. do_exec P args w = (p_execv P (command_path args) args = Some (Exited 0), w') \<and>
     children V w' = children V w \<and> open_fds V w' = open_fds V w"
proof -
  have "(exec_child P args = Exited 0) = (p_execv P (command_path args) args = Some (Exited 0))"
    by (auto simp: exec_child_def EXIT_FAILURE_def split: option.splits)
  then show ?thesis using wait_forked [OF assms] assms(2) by (auto simp: do_exec_def)
qed

text \<open>
  When the fork fails the code goes on and waits for any child: if the process has one
  that exits with 0, \<open>do_exec\<close> returns true although the command never ran, and the
  other child has been taken from whoever started it.
\<close>

theorem do_exec_failed_fork_waits_for_any:
  assumes "proc_ok P V" "p_fork P w (exec_child P args) = (- 1, w1)"
    and "\<forall>p st. children V w p = Some st \<longrightarrow> st = Exited 0" "children V w q \<noteq> None"
  shows "\<exists>w' p. do_exec P args w = (True, w') \<and> children V w p \<noteq> None \<and> children V w' p = None"
proof -
  have c: "children V w1 = children V w" using fork_cases [OF assms(1,2)] by auto
  obtain r st w' where r: "p_waitpid P w1 (- 1) = (r, st, w')" by (metis prod_cases3)
  have "0 < r \<and> children V w1 r = Some st \<and> children V w' = (children V w1)(r := None)"
    using waitpid_any [OF assms(1) r] assms(4) c by metis
  moreover from this have "st = Exited 0" using assms(3) c by metis
  ultimately show ?thesis using assms(2) r c
    by (intro exI [of _ w'] exI [of _ r]) (simp add: do_exec_def wait_child_def WIFEXITED_def WEXITSTATUS_def)
qed

text \<open>
  \<open>do_exec_redirect\<close> aborts when the output file cannot be opened; otherwise, when the
  fork works, it is true exactly if the output could be redirected and the command exited
  with 0. The descriptor of the output file is still open in the caller afterwards.
\<close>

theorem do_exec_redirect_leaves_file_open:
  assumes "proc_ok P V" "p_open P w f = (fd, w1)"
    and "p_fork P w1 (redirect_child P args) = (pid, w2)" "pid \<noteq> - 1"
  shows "if fd < 0 then do_exec_redirect P f args w = None
    else \<exists>w'. do_exec_redirect P f args w =
        Some (p_dup2_ok P \<and> p_execv P (command_path args) args = Some (Exited 0), w') \<and>
      children V w' = children V w \<and> fd \<in> open_fds V w' \<and> fd \<notin> open_fds V w"
proof (cases "fd < 0")
  case True
  then show ?thesis using assms(2) by (simp add: do_exec_redirect_def)
next
  case False
  have st: "(redirect_child P args = Exited 0) =
      (p_dup2_ok P \<and> p_execv P (command_path args) args = Some (Exited 0))"
    by (auto simp: redirect_child_def exec_child_def EXIT_FAILURE_def split: option.splits)
  obtain w' where "wait_child P pid w2 = (redirect_child P args = Exited 0, w')"
    "children V w' = children V w1" "open_fds V w' = open_fds V w1"
    using wait_forked [OF assms(1,3,4)] by blast
  then show ?thesis using False assms(2,3) st open_cases [OF assms(1,2)]
    by (simp add: do_exec_redirect_def)
qed

section \<open>Witnesses\<close>

text \<open>
  A system with room for one child, whose process id is 7: a second fork fails. Descriptors
  are given out in order, and \<open>/bin/true\<close> is the only program.
\<close>

record small_sys =
  kid :: "wstatus option"
  next_fd :: nat

definition small_proc :: "small_sys proc" where
  "small_proc =
     \<lparr>p_system = (\<lambda>w c. (0, w)),
      p_fork = (\<lambda>w st. if kid w = None then (7, w\<lparr>kid := Some st\<rparr>) else (- 1, w)),
      p_execv = (\<lambda>p args. if p = Some ''/bin/true'' then Some (Exited 0) else None),
      p_waitpid = (\<lambda>w pid. case kid w of
           Some st \<Rightarrow> if pid = 7 \<or> pid = - 1 then (7, st, w\<lparr>kid := None\<rparr>) else (- 1, Exited 0, w)
         | None \<Rightarrow> (- 1, Exited 0, w)),
      p_open = (\<lambda>w f. (int (next_fd w), w\<lparr>next_fd := next_fd w + 1\<rparr>)),
      p_dup2_ok = True\<rparr>"

definition small_view :: "small_sys pview" where
  "small_view = \<lparr>children = (\<lambda>w p. if p = 7 then kid w else None),
    open_fds = (\<lambda>w. {0..<int (next_fd w)})\<rparr>"

lemma small_proc_ok: "proc_ok small_proc small_view"
  by (auto simp: proc_ok_def small_proc_def small_view_def fun_eq_iff split: if_splits option.splits)

definition idle_sys :: small_sys where "idle_sys = \<lparr>kid = None, next_fd = 3\<rparr>"

theorem do_exec_reports_success_witness:
  "(\<exists>w'. do_exec small_proc [''/bin/true''] idle_sys = (True, w')) \<and>
   (\<exists>w'. do_exec small_proc [''/no/such''] idle_sys = (False, w'))"
proof -
  have f: "\<exists>w1. p_fork small_proc idle_sys st = (7, w1)" for st
    by (simp add: small_proc_def idle_sys_def)
  have "\<exists>w'. do_exec small_proc args idle_sys =
      (p_execv small_proc (command_path args) args = Some (Exited 0), w')" for args
    using f do_exec_reports_success [OF small_proc_ok] by (metis (no_types) one_neq_neg_one
      numeral_neq_neg_one)
  from this [of "[''/bin/true'']"] this [of "[''/no/such'']"] show ?thesis
    by (simp add: small_proc_def command_path_def)
qed

theorem do_exec_failed_fork_waits_for_any_witness:
  "\<exists>w' p. do_exec small_proc [''/no/such''] \<lparr>kid = Some (Exited 0), next_fd = 3\<rparr> = (True, w') \<and>
     children small_view w' p = None"
proof -
  let ?w = "\<lparr>kid = Some (Exited 0), next_fd = 3\<rparr>"
  have "p_fork small_proc ?w (exec_child small_proc [''/no/such'']) = (- 1, ?w)"
    "\<forall>p st. children small_view ?w p = Some st \<longrightarrow> st = Exited 0" "children small_view ?w 7 \<noteq> None"
    by (simp_all add: small_proc_def small_view_def)
  from do_exec_failed_fork_waits_for_any [OF small_proc_ok this] show ?thesis by blast
qed

theorem do_exec_redirect_leaves_file_open_witness:
  "\<exists>w'. do_exec_redirect small_proc ''out'' [''/bin/true''] idle_sys = Some (True, w') \<and>
     3 \<in> open_fds small_view w'"
proof -
  let ?w1 = "idle_sys\<lparr>next_fd := 4\<rparr>" and ?st = "redirect_child small_proc [''/bin/true'']"
  have o: "p_open small_proc idle_sys ''out'' = (3, ?w1)"
    and f: "p_fork small_proc ?w1 ?st = (7, ?w1\<lparr>kid := Some ?st\<rparr>)"
    by (simp_all add: small_proc_def idle_sys_def)
  from do_exec_redirect_leaves_file_open [OF small_proc_ok o f] show ?thesis
    by (auto simp: small_proc_def command_path_def)
qed

end
