(* ===== verification/Threading.thy ===== *)
theory Threading
  imports Prelude
begin

text \<open>
  Threads that take one mutex, \<^verbatim>\<open>examples/threading/threading.c\<close>: any number of threads
  started by \<open>start_thread_obtaining_mutex\<close>, each a \<open>struct thread_data\<close> with its place in
  \<open>threadfunc\<close>, interleaved in steps. What \<open>pthread_mutex_lock\<close> and \<open>pthread_mutex_unlock\<close>
  answer is part of the step. A thread whose sleep time overflows has undefined behaviour.
\<close>

section \<open>Threads\<close>

text \<open>
  Where a thread is: before the first sleep, before the lock, holding the mutex, or gone
  by \<open>pthread_exit\<close>.
\<close>

datatype place = Starting | Locking | Holding | Gone | Undefined

record threading_data =
  wait_to_obtain_ms :: int
  wait_to_release_ms :: int
  thread_complete_success :: bool
  at :: place

record threads =
  thr :: "threading_data list"
  owner :: "nat option"

text \<open>\<open>usleep(ms * 1000)\<close>: an \<open>int\<close> product, converted to the unsigned \<open>useconds_t\<close>.\<close>

definition usleep_arg :: "int \<Rightarrow> uint32 option" where
  "usleep_arg ms =
     (if - (2 ^ 31) \<le> ms * 1000 \<and> ms * 1000 < 2 ^ 31 then Some (of_int (ms * 1000)) else None)"

definition set_thr :: "threads \<Rightarrow> nat \<Rightarrow> threading_data \<Rightarrow> threads" where
  "set_thr s t d = s\<lparr>thr := (thr s)[t := d]\<rparr>"

section \<open>The body of a thread\<close>

text \<open>
  One step of \<open>threadfunc\<close> of thread \<open>t\<close>, up to and including the next call that may wait;
  \<open>rc\<close> is what the mutex call of the step returns. Taking the mutex is possible only
  when it is free; no step is \<open>None\<close>.
\<close>

definition threadfunc_step :: "int \<Rightarrow> nat \<Rightarrow> threads \<Rightarrow> threads option" where
  "threadfunc_step rc t s =
     (if length (thr s) \<le> t then None
      else let d = thr s ! t in
      (case at d of
         Starting \<Rightarrow>
           (case usleep_arg (wait_to_obtain_ms d) of
              None \<Rightarrow> Some (set_thr s t (d\<lparr>at := Undefined\<rparr>))
            | Some us \<Rightarrow> Some (set_thr s t (d\<lparr>at := Locking\<rparr>)))
       | Locking \<Rightarrow>
           if rc \<noteq> 0 then Some (set_thr s t (d\<lparr>thread_complete_success := False, at := Gone\<rparr>))
           else if owner s = None then Some ((set_thr s t (d\<lparr>at := Holding\<rparr>))\<lparr>owner := Some t\<rparr>)
           else None
       | Holding \<Rightarrow>
           (case usleep_arg (wait_to_release_ms d) of
              None \<Rightarrow> Some (set_thr s t (d\<lparr>at := Undefined\<rparr>))
            | Some us \<Rightarrow>
                if rc \<noteq> 0 then Some (set_thr s t (d\<lparr>thread_complete_success := False, at := Gone\<rparr>))
                else Some ((set_thr s t (d\<lparr>thread_complete_success := True, at := Gone\<rparr>))\<lparr>owner := None\<rparr>))
       | Gone \<Rightarrow> None
       | Undefined \<Rightarrow> None))"

text \<open>
  \<open>start_thread_obtaining_mutex\<close>: \<open>mem\<close> says whether \<open>malloc\<close> gave memory (the code does
  not check it), \<open>rc\<close> is what \<open>pthread_create\<close> returned.
\<close>

definition start_thread_obtaining_mutex ::
  "bool \<Rightarrow> int \<Rightarrow> int \<Rightarrow> int \<Rightarrow> threads \<Rightarrow> (bool \<times> threads) option" where
  "start_thread_obtaining_mutex mem rc obtain_ms release_ms s =
     (if \<not> mem then None
      else if rc \<noteq> 0 then Some (False, s)
      else Some (True, s\<lparr>thr := thr s @ [\<lparr>wait_to_obtain_ms = obtain_ms, wait_to_release_ms = release_ms,
             thread_complete_success = False, at = Starting\<rparr>]\<rparr>))"

section \<open>Interleavings\<close>

text \<open>A step of the system: a thread is started or one runs; mutex calls may fail.\<close>

inductive thr_step :: "threads \<Rightarrow> threads \<Rightarrow> bool" where
  started: "start_thread_obtaining_mutex mem rc o_ms r_ms s = Some (b, s') \<Longrightarrow> thr_step s s'"
| ran: "threadfunc_step rc t s = Some s' \<Longrightarrow> thr_step s s'"

inductive thr_reach :: "threads \<Rightarrow> bool" where
  none: "thr_reach \<lparr>thr = [], owner = None\<rparr>"
| step: "thr_reach s \<Longrightarrow> thr_step s s' \<Longrightarrow> thr_reach s'"

inductive_cases thr_stepE: "thr_step s s'"

text \<open>What a step of a thread does, one case for each way through \<open>threadfunc\<close>.\<close>

lemma threadfunc_stepE:
  assumes "threadfunc_step rc t s = Some s'"
  obtains
    (overflow) "t < length (thr s)" "s' = set_thr s t ((thr s ! t)\<lparr>at := Undefined\<rparr>)"
      "at (thr s ! t) = Starting \<and> usleep_arg (wait_to_obtain_ms (thr s ! t)) = None \<or>
       at (thr s ! t) = Holding \<and> usleep_arg (wait_to_release_ms (thr s ! t)) = None"
  | (slept) "t < length (thr s)" "at (thr s ! t) = Starting"
      "s' = set_thr s t ((thr s ! t)\<lparr>at := Locking\<rparr>)"
  | (failed) "t < length (thr s)" "at (thr s ! t) = Locking \<or> at (thr s ! t) = Holding" "rc \<noteq> 0"
      "s' = set_thr s t ((thr s ! t)\<lparr>thread_complete_success := False, at := Gone\<rparr>)"
  | (taken) "t < length (thr s)" "at (thr s ! t) = Locking" "owner s = None"
      "s' = (set_thr s t ((thr s ! t)\<lparr>at := Holding\<rparr>))\<lparr>owner := Some t\<rparr>"
  | (released) "t < length (thr s)" "at (thr s ! t) = Holding"
      "s' = (set_thr s t ((thr s ! t)\<lparr>thread_complete_success := True, at := Gone\<rparr>))\<lparr>owner := None\<rparr>"
proof -
  have t: "t < length (thr s)" using assms by (simp add: threadfunc_step_def split: if_splits)
  note step = assms [unfolded threadfunc_step_def Let_def]
  show thesis
  proof (cases "at (thr s ! t)")
    case Starting
    show thesis
    proof (cases "usleep_arg (wait_to_obtain_ms (thr s ! t))")
      case None
      from step t Starting None show thesis by (intro overflow) simp_all
    next
      case (Some us)
      from step t Starting Some show thesis by (intro slept) simp_all
    qed
  next
    case Locking
    show thesis
    proof (cases "rc = 0")
      case True
      from step t Locking True show thesis by (intro taken) (simp_all split: if_splits)
    next
      case False
      from step t Locking False show thesis by (intro failed) simp_all
    qed
  next
    case Holding
    show thesis
    proof (cases "usleep_arg (wait_to_release_ms (thr s ! t))")
      case None
      from step t Holding None show thesis by (intro overflow) simp_all
    next
      case (Some us)
      show thesis
      proof (cases "rc = 0")
        case True
        from step t Holding Some True show thesis by (intro released) simp_all
      next
        case False
        from step t Holding Some False show thesis by (intro failed) simp_all
      qed
    qed
  qed (use step t in simp_all)
qed

text \<open>
  The mutex belongs to the thread that holds it; a thread has the flag only when it is gone.
\<close>

definition thr_ok :: "nat option \<Rightarrow> nat \<Rightarrow> threading_data \<Rightarrow> bool" where
  "thr_ok ow t d \<longleftrightarrow>
     (at d = Holding \<longrightarrow> ow = Some t) \<and>
     (thread_complete_success d \<longrightarrow> at d = Gone \<and> ow \<noteq> Some t) \<and>
     (ow = Some t \<longrightarrow> at d \<noteq> Starting \<and> at d \<noteq> Locking)"

definition thr_inv :: "threads \<Rightarrow> bool" where
  "thr_inv s \<longleftrightarrow>
     (\<forall>t < length (thr s). thr_ok (owner s) t (thr s ! t)) \<and>
     (\<forall>t. owner s = Some t \<longrightarrow> t < length (thr s))"

lemma thr_inv_nth: "thr_inv s \<Longrightarrow> t < length (thr s) \<Longrightarrow> thr_ok (owner s) t (thr s ! t)"
  by (simp add: thr_inv_def)

lemma thr_okD:
  assumes "thr_ok ow t d"
  shows "at d = Holding \<Longrightarrow> ow = Some t" "thread_complete_success d \<Longrightarrow> at d = Gone"
    "thread_complete_success d \<Longrightarrow> ow \<noteq> Some t"
    "ow = Some t \<Longrightarrow> at d \<noteq> Starting" "ow = Some t \<Longrightarrow> at d \<noteq> Locking"
  using assms by (simp_all add: thr_ok_def)

lemma thr_inv_set:
  assumes "thr_inv s" "t < length (thr s)" "thr_ok ow t d"
    "\<And>u. u \<noteq> t \<Longrightarrow> u < length (thr s) \<Longrightarrow> thr_ok (owner s) u (thr s ! u) \<Longrightarrow> thr_ok ow u (thr s ! u)"
    "ow = owner s \<or> ow = Some t \<or> ow = None"
  shows "thr_inv ((set_thr s t d)\<lparr>owner := ow\<rparr>)"
  using assms by (auto simp: thr_inv_def set_thr_def nth_list_update)

lemma thr_inv_start:
  assumes inv: "thr_inv s"
    and start: "start_thread_obtaining_mutex mem rc o_ms r_ms s = Some (b, s')"
  shows "thr_inv s'"
proof (cases "mem \<and> rc = 0")
  case True
  let ?d = "\<lparr>wait_to_obtain_ms = o_ms, wait_to_release_ms = r_ms, thread_complete_success = False, at = Starting\<rparr>"
  have s': "s' = s\<lparr>thr := thr s @ [?d]\<rparr>"
    using True start by (simp add: start_thread_obtaining_mutex_def)
  have ow: "owner s \<noteq> Some (length (thr s))" using inv by (simp add: thr_inv_def) blast
  then have "thr_ok (owner s) (length (thr s)) ?d" by (simp add: thr_ok_def)
  then have "thr_ok (owner s') t (thr s' ! t)" if "t < length (thr s')" for t
    using thr_inv_nth [OF inv, of t] that s' by (cases "t = length (thr s)") (simp_all add: nth_append)
  moreover have "owner s' = Some t \<Longrightarrow> t < length (thr s')" for t
    using inv s' by (simp add: thr_inv_def less_Suc_eq)
  ultimately show ?thesis by (simp add: thr_inv_def)
next
  case False
  with start inv show ?thesis by (simp add: start_thread_obtaining_mutex_def split: if_splits)
qed

lemma set_thr_owner: "set_thr s t d = (set_thr s t d)\<lparr>owner := owner s\<rparr>"
  by (simp add: set_thr_def)

lemma thr_inv_run:
  assumes inv: "thr_inv s" and step: "threadfunc_step rc t s = Some s'"
  shows "thr_inv s'"
  using step
proof (cases rule: threadfunc_stepE)
  case overflow
  note ok = thr_inv_nth [OF inv overflow(1)]
  have "thr_ok (owner s) t ((thr s ! t)\<lparr>at := Undefined\<rparr>)"
    using ok overflow(3) thr_okD(2) [OF ok] by (auto simp: thr_ok_def)
  with inv overflow(1) show ?thesis by (subst overflow(2), subst set_thr_owner) (rule thr_inv_set, simp_all)
next
  case slept
  note ok = thr_inv_nth [OF inv slept(1)]
  have "thr_ok (owner s) t ((thr s ! t)\<lparr>at := Locking\<rparr>)"
    using slept(2) thr_okD(2,4) [OF ok] by (auto simp: thr_ok_def)
  with inv slept(1) show ?thesis by (subst slept(3), subst set_thr_owner) (rule thr_inv_set, simp_all)
next
  case failed
  have "thr_ok (owner s) t ((thr s ! t)\<lparr>thread_complete_success := False, at := Gone\<rparr>)"
    by (simp add: thr_ok_def)
  with inv failed(1) show ?thesis by (subst failed(4), subst set_thr_owner) (rule thr_inv_set, simp_all)
next
  case taken
  note ok = thr_inv_nth [OF inv taken(1)]
  have new: "thr_ok (Some t) t ((thr s ! t)\<lparr>at := Holding\<rparr>)"
    using taken(2) thr_okD(2) [OF ok] by (auto simp: thr_ok_def)
  have others: "thr_ok (Some t) u d" if "u \<noteq> t" "thr_ok (owner s) u d" for u d
    using that taken(3) by (simp add: thr_ok_def)
  show ?thesis unfolding taken(4) by (rule thr_inv_set [OF inv taken(1) new]) (simp_all add: others)
next
  case released
  have ow: "owner s = Some t" using thr_okD(1) [OF thr_inv_nth [OF inv released(1)] released(2)] .
  have new: "thr_ok None t ((thr s ! t)\<lparr>thread_complete_success := True, at := Gone\<rparr>)"
    by (simp add: thr_ok_def)
  have others: "thr_ok None u d" if "u \<noteq> t" "thr_ok (owner s) u d" for u d
    using that ow by (simp add: thr_ok_def)
  show ?thesis unfolding released(3) by (rule thr_inv_set [OF inv released(1) new]) (simp_all add: others)
qed

lemma thr_reach_inv: "thr_reach s \<Longrightarrow> thr_inv s"
proof (induction rule: thr_reach.induct)
  case none
  then show ?case by (simp add: thr_inv_def)
next
  case (step s s')
  from step.hyps(2) step.IH show ?case
    by cases (auto intro: thr_inv_start thr_inv_run)
qed

section \<open>Properties\<close>

text \<open>
  C33: however the threads are started and interleaved, and whatever the mutex calls
  answer, at most one thread holds the mutex between its lock and its unlock, and a
  thread that reports success has taken and released it.
\<close>

theorem mutual_exclusion:
  assumes "thr_reach s" "t < length (thr s)" "u < length (thr s)"
  shows "(at (thr s ! t) = Holding \<and> at (thr s ! u) = Holding \<longrightarrow> t = u) \<and>
    (thread_complete_success (thr s ! t) \<longrightarrow> at (thr s ! t) = Gone \<and> owner s \<noteq> Some t)"
proof -
  note ok = thr_inv_nth [OF thr_reach_inv [OF assms(1)]]
  show ?thesis using thr_okD [OF ok [OF assms(2)]] thr_okD(1) [OF ok [OF assms(3)]] by auto
qed

text \<open>How much a system still has to do.\<close>

definition todo :: "place \<Rightarrow> nat" where
  "todo p = (case p of Starting \<Rightarrow> 3 | Locking \<Rightarrow> 2 | Holding \<Rightarrow> 1 | Gone \<Rightarrow> 0 | Undefined \<Rightarrow> 0)"

definition work_left :: "threads \<Rightarrow> nat" where
  "work_left s = (\<Sum>d\<leftarrow>thr s. todo (at d))"

lemma sum_list_update_less:
  "t < length xs \<Longrightarrow> f x < f (xs ! t) \<Longrightarrow> sum_list (map f (xs[t := x])) < (sum_list (map f xs) :: nat)"
proof (induction xs arbitrary: t)
  case (Cons y ys)
  then show ?case by (cases t) auto
qed simp

lemma run_decreases:
  assumes "threadfunc_step rc t s = Some s'"
  shows "work_left s' < work_left s"
  using assms
  by (cases rule: threadfunc_stepE)
    (auto simp: work_left_def set_thr_def todo_def intro!: sum_list_update_less)

text \<open>The sleeps of all threads are in range, and every mutex call succeeds.\<close>

definition waits_ok :: "threads \<Rightarrow> bool" where
  "waits_ok s \<longleftrightarrow> (\<forall>d \<in> set (thr s). usleep_arg (wait_to_obtain_ms d) \<noteq> None \<and>
     usleep_arg (wait_to_release_ms d) \<noteq> None)"

definition clean :: "threads \<Rightarrow> bool" where
  "clean s \<longleftrightarrow> thr_inv s \<and> waits_ok s \<and>
     (\<forall>t < length (thr s). at (thr s ! t) \<noteq> Undefined \<and>
        (at (thr s ! t) = Gone \<longrightarrow> thread_complete_success (thr s ! t))) \<and>
     (\<forall>t. owner s = Some t \<longrightarrow> at (thr s ! t) = Holding)"

lemma waits_ok_nth:
  "waits_ok s \<Longrightarrow> t < length (thr s) \<Longrightarrow>
   usleep_arg (wait_to_obtain_ms (thr s ! t)) \<noteq> None \<and> usleep_arg (wait_to_release_ms (thr s ! t)) \<noteq> None"
  by (simp add: waits_ok_def)

lemma waits_ok_set:
  "waits_ok s \<Longrightarrow> t < length (thr s) \<Longrightarrow> wait_to_obtain_ms d = wait_to_obtain_ms (thr s ! t) \<Longrightarrow>
   wait_to_release_ms d = wait_to_release_ms (thr s ! t) \<Longrightarrow>
   waits_ok (set_thr s t d) \<and> waits_ok ((set_thr s t d)\<lparr>owner := ow\<rparr>)"
  by (auto simp: waits_ok_def set_thr_def dest!: set_update_subset_insert [THEN subsetD])

lemma clean_run:
  assumes "clean s" "threadfunc_step 0 t s = Some s'"
  shows "clean s'" "length (thr s') = length (thr s)"
proof -
  have inv: "thr_inv s" and ok: "waits_ok s"
    and nu: "\<And>u. u < length (thr s) \<Longrightarrow> at (thr s ! u) \<noteq> Undefined"
    and fin: "\<And>u. u < length (thr s) \<Longrightarrow> at (thr s ! u) = Gone \<Longrightarrow> thread_complete_success (thr s ! u)"
    and ow: "\<And>u. owner s = Some u \<Longrightarrow> at (thr s ! u) = Holding"
    using assms(1) by (auto simp: clean_def)
  have inv': "thr_inv s'" using thr_inv_run [OF inv assms(2)] .
  show "length (thr s') = length (thr s)"
    using assms(2) by (cases rule: threadfunc_stepE) (simp_all add: set_thr_def)
  from assms(2) show "clean s'"
  proof (cases rule: threadfunc_stepE)
    case overflow
    with waits_ok_nth [OF ok overflow(1)] show ?thesis by (metis (no_types))
  next
    case slept
    have "owner s \<noteq> Some t" using ow slept(2) by auto
    then show ?thesis using inv' waits_ok_set [OF ok slept(1)] slept nu fin ow
      by (auto simp: clean_def set_thr_def nth_list_update)
  next
    case taken
    then show ?thesis using inv' waits_ok_set [OF ok taken(1)] nu fin
      by (auto simp: clean_def set_thr_def nth_list_update)
  next
    case released
    then show ?thesis using inv' waits_ok_set [OF ok released(1)] nu fin
      by (auto simp: clean_def set_thr_def nth_list_update)
  qed simp
qed

lemma clean_progress:
  assumes "clean s" "t < length (thr s)" "at (thr s ! t) \<noteq> Gone"
  shows "\<exists>u s'. threadfunc_step 0 u s = Some s'"
proof (cases "owner s")
  case None
  have "at (thr s ! t) \<noteq> Holding \<and> at (thr s ! t) \<noteq> Undefined"
    using assms None thr_okD(1) [OF thr_inv_nth [of s t]] by (auto simp: clean_def)
  then have "threadfunc_step 0 t s \<noteq> None"
    using assms None by (cases "at (thr s ! t)") (simp_all add: threadfunc_step_def Let_def split: option.split)
  then show ?thesis by blast
next
  case (Some u)
  then have "u < length (thr s)" "at (thr s ! u) = Holding" using assms(1) by (auto simp: clean_def thr_inv_def)
  then have "threadfunc_step 0 u s \<noteq> None" by (simp add: threadfunc_step_def Let_def split: option.split)
  then show ?thesis by blast
qed

text \<open>A schedule picks the next thread among those that can run.\<close>

fun run_schedule :: "nat list \<Rightarrow> threads \<Rightarrow> threads option" where
  "run_schedule [] s = Some s"
| "run_schedule (t # ts) s = Option.bind (threadfunc_step 0 t s) (run_schedule ts)"

text \<open>
  C34: with sleeps in range and a mutex that works there is no deadlock and no livelock:
  every schedule that runs as long as a thread can run stops, after at most three steps for
  each thread, with every thread gone and its flag set, and the mutex free.
\<close>

theorem threads_all_complete:
  assumes "clean s" "run_schedule ts s = Some s'"
  shows "length ts \<le> work_left s \<and> work_left s \<le> 3 * length (thr s) \<and>
    ((\<forall>u. threadfunc_step 0 u s' = None) \<longrightarrow>
       owner s' = None \<and> length (thr s') = length (thr s) \<and>
       (\<forall>t < length (thr s'). at (thr s' ! t) = Gone \<and> thread_complete_success (thr s' ! t)))"
proof -
  have "todo p \<le> 3" for p by (cases p) (simp_all add: todo_def)
  then have "(\<Sum>d\<leftarrow>ds. todo (at d)) \<le> 3 * length ds" for ds
  proof (induction ds)
    case (Cons d ds)
    have "todo (at d) \<le> 3" by (rule Cons.prems)
    moreover have "(\<Sum>d\<leftarrow>ds. todo (at d)) \<le> 3 * length ds" using Cons by blast
    ultimately show ?case by simp
  qed simp
  then have "work_left s \<le> 3 * length (thr s)" by (simp add: work_left_def)
  moreover from assms have "clean s' \<and> length (thr s') = length (thr s) \<and> length ts \<le> work_left s"
  proof (induction ts arbitrary: s)
    case (Cons t ts)
    then obtain s1 where s1: "threadfunc_step 0 t s = Some s1" "run_schedule ts s1 = Some s'"
      by (auto simp: bind_Some_iff)
    then show ?case using Cons.IH [OF clean_run(1) [OF Cons.prems(1) s1(1)] s1(2)]
      clean_run(2) [OF Cons.prems(1) s1(1)] run_decreases [OF s1(1)] by simp
  qed simp
  moreover from this have "owner s' = None \<and>
      (\<forall>t < length (thr s'). at (thr s' ! t) = Gone \<and> thread_complete_success (thr s' ! t))"
    if stop: "\<forall>u. threadfunc_step 0 u s' = None"
  proof -
    have c: "clean s'" using calculation by blast
    then have gone: "\<forall>t < length (thr s'). at (thr s' ! t) = Gone"
      using clean_progress [OF c] stop by (metis option.distinct(1))
    moreover have "owner s' = None"
    proof (rule ccontr)
      assume "owner s' \<noteq> None"
      then obtain t where "owner s' = Some t" by blast
      then have "t < length (thr s')" "at (thr s' ! t) = Holding"
        using c by (auto simp: clean_def thr_inv_def)
      with gone show False by simp
    qed
    ultimately show ?thesis using c by (simp add: clean_def)
  qed
  ultimately show ?thesis by blast
qed

text \<open>
  A wait of more than 2147483 ms overflows \<open>int\<close>, and a negative one sleeps for more than
  half an hour instead of not at all.
\<close>

theorem sleep_out_of_range:
  "(2147483 < ms \<longrightarrow> usleep_arg ms = None) \<and>
   (- 2147483 \<le> ms \<and> ms < 0 \<longrightarrow> (\<exists>us. usleep_arg ms = Some us \<and> 30 * 60 * 10 ^ 6 < uint us))"
proof (intro conjI impI)
  assume "2147483 < ms"
  then show "usleep_arg ms = None" by (simp add: usleep_arg_def)
next
  assume ms: "- 2147483 \<le> ms \<and> ms < 0"
  have "uint (of_int (ms * 1000) :: uint32) = ms * 1000 mod 2 ^ 32"
    using uint_word_of_int [where 'a = 32, of "ms * 1000"] by simp
  also have "\<dots> = (ms * 1000 + 2 ^ 32) mod 2 ^ 32" by simp
  also have "\<dots> = ms * 1000 + 2 ^ 32" using ms by (intro mod_pos_pos_trivial) simp_all
  finally show "\<exists>us. usleep_arg ms = Some us \<and> 30 * 60 * 10 ^ 6 < uint us"
    using ms by (auto simp: usleep_arg_def)
qed

section \<open>Witnesses\<close>

definition two_threads :: threads where
  "two_threads = \<lparr>thr =
     [\<lparr>wait_to_obtain_ms = 10, wait_to_release_ms = 20, thread_complete_success = False, at = Starting\<rparr>,
      \<lparr>wait_to_obtain_ms = 0, wait_to_release_ms = 5, thread_complete_success = False, at = Starting\<rparr>],
     owner = None\<rparr>"

lemma two_threads_reach: "thr_reach two_threads"
proof -
  obtain s1 where "start_thread_obtaining_mutex True 0 10 20 \<lparr>thr = [], owner = None\<rparr> = Some (True, s1)"
    and s2: "start_thread_obtaining_mutex True 0 0 5 s1 = Some (True, two_threads)"
    by (simp add: start_thread_obtaining_mutex_def two_threads_def)
  then have "thr_step \<lparr>thr = [], owner = None\<rparr> s1" "thr_step s1 two_threads"
    using thr_step.started by blast+
  then show ?thesis using thr_reach.none thr_reach.step by metis
qed

lemma run_schedule_reach: "thr_reach s \<Longrightarrow> run_schedule ts s = Some s' \<Longrightarrow> thr_reach s'"
proof (induction ts arbitrary: s)
  case (Cons t ts)
  then obtain s1 where s1: "threadfunc_step 0 t s = Some s1" "run_schedule ts s1 = Some s'"
    by (auto simp: bind_Some_iff)
  from Cons.IH [OF thr_reach.step [OF Cons.prems(1) thr_step.ran [OF s1(1)]] s1(2)] show ?case .
qed simp

theorem mutual_exclusion_witness:
  "\<exists>s. run_schedule [1, 0, 1] two_threads = Some s \<and> at (thr s ! 1) = Holding \<and> at (thr s ! 0) \<noteq> Holding"
proof -
  have ev: "map_option (\<lambda>s. (at (thr s ! 1), length (thr s))) (run_schedule [1, 0, 1] two_threads) =
      Some (Holding, 2)" by code_simp
  then obtain s where s: "run_schedule [1, 0, 1] two_threads = Some s" "at (thr s ! 1) = Holding"
    "length (thr s) = 2" by auto
  have "thr_reach s" using run_schedule_reach [OF two_threads_reach s(1)] .
  from mutual_exclusion [OF this, of 0 1] s show ?thesis by auto
qed

theorem threads_all_complete_witness:
  "\<exists>s. run_schedule [1, 0, 1, 1, 0, 0] two_threads = Some s \<and> owner s = None \<and>
     thread_complete_success (thr s ! 0) \<and> thread_complete_success (thr s ! 1)"
proof -
  have c: "clean two_threads"
    by (simp add: clean_def two_threads_def thr_inv_def thr_ok_def waits_ok_def usleep_arg_def less_Suc_eq numeral_2_eq_2)
  have ev: "map_option (\<lambda>s. map at (thr s)) (run_schedule [1, 0, 1, 1, 0, 0] two_threads) = Some [Gone, Gone]"
    by code_simp
  then obtain s where s: "run_schedule [1, 0, 1, 1, 0, 0] two_threads = Some s" "map at (thr s) = [Gone, Gone]"
    by auto
  have "at (thr s ! u) = Gone" if "u < length (thr s)" for u
  proof -
    have "at (thr s ! u) = map at (thr s) ! u" using that by simp
    moreover have "length (thr s) = 2" using arg_cong [OF s(2), of length] by simp
    ultimately show ?thesis using that s(2) by (auto simp: less_Suc_eq numeral_2_eq_2)
  qed
  then have "\<forall>u. threadfunc_step 0 u s = None" by (simp add: threadfunc_step_def)
  with threads_all_complete [OF c s(1)] s(1) show ?thesis
    by (auto simp: two_threads_def)
qed

theorem sleep_out_of_range_witness:
  "usleep_arg 2147484 = None \<and> (\<exists>us. usleep_arg (- 1) = Some us \<and> 30 * 60 * 10 ^ 6 < uint us)"
  using sleep_out_of_range [of 2147484] sleep_out_of_range [of "- 1"] by simp

end
