(* ===== verification/Writer.thy ===== *)
theory Writer
  imports Aesd_Socket
begin

text \<open>
  The writer utility, \<^verbatim>\<open>finder-app/writer.c\<close>: it writes its second argument to the file its
  first argument names. The system calls are a parameter over the state of the system; the
  log messages are part of the result.
\<close>

section \<open>The program\<close>

record 'w files =
  f_open :: "'w \<Rightarrow> string \<Rightarrow> oflag list \<Rightarrow> int \<times> 'w"
  f_write :: "'w \<Rightarrow> int \<Rightarrow> string \<Rightarrow> int \<times> 'w"
  f_close :: "'w \<Rightarrow> int \<Rightarrow> int \<times> 'w"

datatype level = LOG_INFO | LOG_ERR | LOG_DEBUG

type_synonym messages = "(level \<times> string) list"

text \<open>
  What \<open>main\<close> returns, the messages, and the system afterwards. The debug message prints the
  variable \<open>word\<close>, which is 1720. Of the two statements after \<open>if (close (fd) == -1)\<close> only
  the first belongs to the \<open>if\<close>; it is \<open>perror\<close>, which changes nothing here.
\<close>

definition writer_main :: "'w files \<Rightarrow> string list \<Rightarrow> 'w \<Rightarrow> int \<times> messages \<times> 'w" where
  "writer_main F argv w =
     (if length argv \<noteq> 3 then (1, [], w)
      else
        let fileName = argv ! 1; text = argv ! 2;
            log = [(LOG_INFO, ''Start logging'')];
            (fd, w1) = f_open F w fileName [O_RDWR, O_CREAT]
        in if fd = - 1 then (- 1, log @ [(LOG_ERR, ''Opening file failed'')], w1)
        else
          let (nr, w2) = f_write F w1 fd text
          in if nr = - 1
             then (1, log @ [(LOG_ERR, ''Writing to file failed'')], snd (f_close F w2 fd))
             else
               let log = log @ [(LOG_DEBUG, ''Writing 1720 to '' @ fileName)];
                   (r, w3) = f_close F w2 fd
               in (0, log @ [(LOG_ERR, ''Closing file failed'')], w3))"

section \<open>Documented behaviour\<close>

text \<open>The contents of the files, and for every open descriptor its file and position.\<close>

record 'w fview =
  contents :: "'w \<Rightarrow> string \<Rightarrow> string option"
  cursor :: "'w \<Rightarrow> int \<Rightarrow> (string \<times> nat) option"

text \<open>
  \<open>open\<close> starts at the beginning of the file, which is empty if it was not there or is
  truncated; \<open>write\<close> replaces at most as many characters as it is given, from the position
  on; \<open>close\<close> leaves the files alone.
\<close>

definition opened :: "(string \<Rightarrow> string option) \<Rightarrow> string \<Rightarrow> oflag list \<Rightarrow> string" where
  "opened fs p flags =
     (case fs p of Some old \<Rightarrow> if O_TRUNC \<in> set flags then [] else old | None \<Rightarrow> [])"

definition files_ok :: "'w files \<Rightarrow> 'w fview \<Rightarrow> bool" where
  "files_ok F V \<longleftrightarrow>
     (\<forall>w p flags fd w'. f_open F w p flags = (fd, w') \<longrightarrow>
        (fd = - 1 \<and> contents V w' = contents V w \<or>
         0 \<le> fd \<and> contents V w' = (contents V w)(p \<mapsto> opened (contents V w) p flags) \<and>
         cursor V w' = (cursor V w)(fd \<mapsto> (p, 0)))) \<and>
     (\<forall>w fd s r w' p k old. f_write F w fd s = (r, w') \<longrightarrow> cursor V w fd = Some (p, k) \<longrightarrow>
        contents V w p = Some old \<longrightarrow> k \<le> length old \<longrightarrow>
        (r = - 1 \<and> contents V w' = contents V w \<or>
         (\<exists>n \<le> length s. r = int n \<and>
            contents V w' = (contents V w)(p \<mapsto> take k old @ take n s @ drop (k + n) old)))) \<and>
     (\<forall>w fd r w'. f_close F w fd = (r, w') \<longrightarrow> contents V w' = contents V w)"

lemma open_outcome:
  assumes "files_ok F V" "f_open F w p flags = (fd, w')"
  obtains "fd = - 1" "contents V w' = contents V w"
  | "fd \<noteq> - 1" "contents V w' = (contents V w)(p \<mapsto> opened (contents V w) p flags)"
    "cursor V w' fd = Some (p, 0)"
proof -
  have "fd = - 1 \<and> contents V w' = contents V w \<or>
      0 \<le> fd \<and> contents V w' = (contents V w)(p \<mapsto> opened (contents V w) p flags) \<and>
      cursor V w' = (cursor V w)(fd \<mapsto> (p, 0))"
    using assms unfolding files_ok_def by blast
  then show thesis using that by auto
qed

lemma write_outcome:
  assumes "files_ok F V" "f_write F w fd s = (r, w')" "cursor V w fd = Some (p, 0)" "contents V w p = Some old"
  obtains "r = - 1" "contents V w' = contents V w"
  | n where "n \<le> length s" "r = int n" "contents V w' = (contents V w)(p \<mapsto> take n s @ drop n old)"
proof -
  have "r = - 1 \<and> contents V w' = contents V w \<or>
      (\<exists>n \<le> length s. r = int n \<and> contents V w' = (contents V w)(p \<mapsto> take 0 old @ take n s @ drop (0 + n) old))"
    using assms(1) [unfolded files_ok_def] assms(2-4) le0 by blast
  then show thesis using that by auto
qed

lemma close_outcome: "files_ok F V \<Longrightarrow> contents V (snd (f_close F w fd)) = contents V w"
  unfolding files_ok_def by (metis prod.collapse)

section \<open>Properties\<close>

text \<open>The program once its arguments and the answers of its calls are given.\<close>

lemma writer_main_calls:
  assumes "f_open F w p [O_RDWR, O_CREAT] = (fd, w1)" "f_write F w1 fd str = (nr, w2)"
    "f_close F w2 fd = (r, w3)"
  shows "writer_main F [prog, p, str] w =
     (if fd = - 1 then (- 1, [(LOG_INFO, ''Start logging''), (LOG_ERR, ''Opening file failed'')], w1)
      else if nr = - 1 then (1, [(LOG_INFO, ''Start logging''), (LOG_ERR, ''Writing to file failed'')], w3)
      else (0, [(LOG_INFO, ''Start logging''), (LOG_DEBUG, ''Writing 1720 to '' @ p),
            (LOG_ERR, ''Closing file failed'')], w3))"
  by (simp add: writer_main_def assms)

text \<open>
  C40: the writer returns 1 without two arguments and touches nothing; -1 when the file
  cannot be opened, and 1 when the write fails, which leaves an existing file as it was and
  a new one empty. If it returns 0, it has put some first characters of the text over the
  beginning of the file: the file is not truncated, so a longer old text keeps its tail,
  and a short write is taken as success. It then always logs that closing the file failed.
  No other file changes.
\<close>

theorem writer_outcome:
  assumes "files_ok F V" "writer_main F argv w = (ret, log, w')"
  shows "(length argv \<noteq> 3 \<and> ret = 1 \<and> log = [] \<and> w' = w) \<or>
    (\<exists>prog p text. argv = [prog, p, text] \<and>
       (let old = (case contents V w p of None \<Rightarrow> [] | Some s \<Rightarrow> s) in
        (ret = - 1 \<and> last log = (LOG_ERR, ''Opening file failed'') \<and> contents V w' = contents V w) \<or>
        (ret = 1 \<and> last log = (LOG_ERR, ''Writing to file failed'') \<and>
           contents V w' = (contents V w)(p \<mapsto> old)) \<or>
        (ret = 0 \<and> last log = (LOG_ERR, ''Closing file failed'') \<and>
           (\<exists>n \<le> length text. contents V w' = (contents V w)(p \<mapsto> take n text @ drop n old)))))"
    (is "_ \<or> ?written")
proof (cases "length argv = 3")
  case True
  then obtain prog p str where argv: "argv = [prog, p, str]"
    by (auto simp: numeral_3_eq_3 length_Suc_conv)
  define old where "old = opened (contents V w) p [O_RDWR, O_CREAT]"
  have old: "(case contents V w p of None \<Rightarrow> [] | Some s \<Rightarrow> s) = old"
    by (simp add: old_def opened_def split: option.split)
  obtain fd w1 where 1: "f_open F w p [O_RDWR, O_CREAT] = (fd, w1)" by fastforce
  obtain nr w2 where 2: "f_write F w1 fd str = (nr, w2)" by fastforce
  obtain r w3 where 3: "f_close F w2 fd = (r, w3)" by fastforce
  note main = writer_main_calls [OF 1 2 3, of prog, folded argv]
  have w3: "contents V w3 = contents V w2" using close_outcome [OF assms(1), of w2 fd] 3 by simp
  from assms(1) 1 have ?written
  proof (cases rule: open_outcome)
    case 1
    then show ?thesis using main assms(2) argv by (auto simp: Let_def)
  next
    case opened: 2
    then have "contents V w1 p = Some old" by (simp add: old_def)
    from assms(1) 2 opened(3) this show ?thesis
    proof (cases rule: write_outcome)
      case 1
      then have "ret = 1" "last log = (LOG_ERR, ''Writing to file failed'')"
        "contents V w' = (contents V w)(p \<mapsto> old)"
        using main assms(2) opened w3 by (auto simp: old_def)
      then show ?thesis by (auto simp: argv old)
    next
      case (2 n)
      then have "ret = 0" "last log = (LOG_ERR, ''Closing file failed'')"
        "contents V w' = (contents V w)(p \<mapsto> take n str @ drop n old)"
        using main assms(2) opened w3 by auto
      then show ?thesis using 2(1) by (auto simp: argv old)
    qed
  qed
  then show ?thesis by blast
qed (use assms(2) in \<open>simp add: writer_main_def\<close>)

section \<open>Witness\<close>

text \<open>A file system with one directory; descriptors are given out from 3 on.\<close>

record small_fs =
  fs_files :: "string \<Rightarrow> string option"
  fs_open :: "int \<Rightarrow> (string \<times> nat) option"

definition small_files :: "small_fs files" where
  "small_files =
     \<lparr>f_open = (\<lambda>w p flags. (3, w\<lparr>fs_files := (fs_files w)(p \<mapsto> opened (fs_files w) p flags),
                                fs_open := (fs_open w)(3 \<mapsto> (p, 0))\<rparr>)),
      f_write = (\<lambda>w fd s. case fs_open w fd of None \<Rightarrow> (- 1, w)
         | Some (p, k) \<Rightarrow> (case fs_files w p of None \<Rightarrow> (- 1, w)
             | Some old \<Rightarrow> (int (length s), w\<lparr>fs_files := (fs_files w)(p \<mapsto>
                  take k old @ take (length s) s @ drop (k + length s) old),
                  fs_open := (fs_open w)(fd \<mapsto> (p, k + length s))\<rparr>))),
      f_close = (\<lambda>w fd. (0, w\<lparr>fs_open := (fs_open w)(fd := None)\<rparr>))\<rparr>"

definition small_view :: "small_fs fview" where
  "small_view = \<lparr>contents = fs_files, cursor = fs_open\<rparr>"

lemma small_files_ok: "files_ok small_files small_view"
  by (auto simp: files_ok_def small_files_def small_view_def split: option.splits)

definition old_fs :: small_fs where
  "old_fs = \<lparr>fs_files = [''f'' \<mapsto> ''hello''], fs_open = (\<lambda>fd. None)\<rparr>"

theorem writer_outcome_witness:
  "\<exists>log w'. writer_main small_files [''writer'', ''f'', ''by''] old_fs = (0, log, w') \<and>
     last log = (LOG_ERR, ''Closing file failed'') \<and>
     (\<exists>n \<le> length ''by''. fs_files w' = [''f'' \<mapsto> take n ''by'' @ drop n ''hello''])"
proof -
  obtain ret log w' where m: "writer_main small_files [''writer'', ''f'', ''by''] old_fs = (ret, log, w')"
    by (metis prod_cases3)
  have "fst (writer_main small_files [''writer'', ''f'', ''by''] old_fs) = 0" by code_simp
  then have "ret = 0" using m by simp
  then show ?thesis
    using writer_outcome [OF small_files_ok m] m by (simp add: small_view_def old_fs_def Let_def)
qed

end
