(* ===== verification/Autotest_Validate.thy ===== *)
theory Autotest_Validate
  imports Main
begin

text \<open>
  The functions of \<^verbatim>\<open>examples/autotest-validate\<close> and the program that prints what they return.
\<close>

definition this_function_returns_true :: bool where
  "this_function_returns_true = True"

definition this_function_returns_false :: bool where
  "this_function_returns_false = False"

definition my_username :: string where
  "my_username = ''Christian-Bull''"

definition git_username :: string where
  "git_username = ''akshita-bhasin''"

text \<open>The lines \<open>main\<close> prints.\<close>

definition autotest_main :: "string list" where
  "autotest_main =
     [''this_function_returns_true returned '' @ (if this_function_returns_true then ''true'' else ''false''),
      ''this_function_returns_false returned '' @ (if this_function_returns_false then ''true'' else ''false'')]"

lemma autotest_main_lines:
  "autotest_main = [''this_function_returns_true returned true'', ''this_function_returns_false returned false'']"
  by (simp add: autotest_main_def this_function_returns_true_def this_function_returns_false_def)

text \<open>The two files disagree on the name.\<close>

lemma usernames_differ: "git_username \<noteq> my_username"
  by (simp add: git_username_def my_username_def)

end
