(* ===== verification/Spec2Isabelle.thy ===== *)
theory Spec2Isabelle
  imports Whole_Server Call_Unlock Whole_Schedules Socket_Props Doubly_Linked Queue_Debug Peer_Address File_Log Systemcalls Threading Writer Autotest_Validate
begin

text \<open>
  A verification library for the AESD assignments: the Linux char driver that keeps the last
  ten lines written to it, the socket server that stores what its clients send in the driver or
  in a file, and the example code for processes and threads.

  \<^bold>\<open>The driver\<close>, \<^verbatim>\<open>aesd-char-driver\<close>.
  \<^item> \<open>Circular_Buffer\<close> models \<^verbatim>\<open>aesd-circular-buffer.{c,h}\<close>: the struct is a record, its array a
    list of ten entries, the two indices \<open>uint8_t\<close> words.
  \<^item> \<open>Char_Driver\<close> models \<^verbatim>\<open>main.c\<close>, \<^verbatim>\<open>aesdchar.h\<close> and \<^verbatim>\<open>aesd_ioctl.h\<close>: one definition per file
    operation and for loading and unloading, over the device struct \<open>aesd_dev\<close> and the
    allocations of the kernel. The kernel's services are the record \<open>kernel\<close> of \<open>Kernel\<close>, a
    parameter that may answer differently at each call; \<open>kernel_ok\<close> states the documented
    behaviour that is relied on.
  \<^item> \<open>Driver_Memory\<close> holds the invariant of the memory the driver owns, \<open>Driver_Ops\<close> and
    \<open>Driver_Seek\<close> the refinement of each handler to an abstract device (at most ten lines and
    the pending bytes), \<open>Driver_Lifecycle\<close> histories of calls between load and unload,
    \<open>Driver_Serving\<close> what the handlers do for a caller that uses them as system calls do, and
    \<open>Driver_Props\<close> the properties.

  \<^bold>\<open>The server\<close>, \<^verbatim>\<open>server/aesdsocket.{c,h}\<close>.
  \<^item> \<open>Server_Startup\<close> models \<open>main\<close> up to the accept loop and the signal handlers, as system calls
    that a machine answers from all calls before; the calls are recorded in order.
  \<^item> \<open>Aesd_Socket\<close> models a connection thread, \<open>handle_connection\<close>, with both builds as an argument,
    and a round of the timestamp thread; the system calls are the record \<open>os\<close>.
    \<open>Seek_Command\<close> has the command a client can send and that the scanner reads it back;
    \<open>Socket_Serving\<close> states what a system that serves does, seen through a view of its state, and
    what a packet then does; \<open>Socket_Session\<close> extends this to a whole stream of data packets and
    seek commands; \<open>Socket_Props\<close> holds the properties.
  \<^item> \<open>Byte_Steps\<close> says what one received byte does in any state of a connection, also when others
    have written to the file since its last byte. \<open>Server_Threads\<close> cuts \<open>handle_connection\<close> into
    steps, proves the steps equivalent to it, and runs any number of connection threads and the
    timestamp thread interleaved.
  \<^item> \<open>Aesd_Server\<close> models the accept loop: the records of the threads, the tail queue they are
    kept in, and the loop that joins and frees those that have finished. \<open>Whole_Server\<close> puts the
    accept loop and the running threads together, with the flag a thread sets in its record.
  \<^item> \<open>Call_Steps\<close> cuts the code of a connection thread and of the timestamp thread into single
    system calls, on every branch; a point says which call comes next. \<open>Call_Equivalence\<close> shows
    that the calls, made by a thread on its own, are \<open>handle_connection\<close>. \<open>Call_Pool\<close> interleaves
    the calls of all threads with a mutex that has an owner and descriptors that are used again
    (\<open>calls_step\<close>, every step defined), and with the second unlock after a failed write, which can
    release the mutex of another thread (\<open>raw_calls\<close>); \<open>Call_Unlock\<close> has what that leads to.
    \<open>Call_Serving\<close> and \<open>Call_Log\<close> have the invariant of such a pool on a system that serves, and a
    measure that decreases.
  \<^item> \<open>Main_Calls\<close> cuts the accept loop into calls and shows that they are its iterations.
    \<open>Whole_Calls\<close> interleaves \<open>main\<close> with the threads, which use the record \<open>main\<close> gave them until
    it has joined them; \<open>Whole_Log\<close> has the log of the running server and its liveness;
    \<open>Whole_Program\<close> is the process from \<open>Server_Startup\<close> through the accept loop to its end by an
    exit, a signal or the return of \<open>main\<close>.
  \<^item> \<open>Device_Calls\<close> is the driver as the system under these calls, with clients that arrive, and
    serves; \<open>Call_Schedules\<close> and \<open>Whole_Schedules\<close> are schedules of three clients on the loaded
    driver, for the hypotheses of the properties. \<open>File_Calls\<close> is the same for the build without
    the driver, an ordinary file, and \<open>File_Log\<close> what the running server makes of that file.
  \<^item> \<open>Peer_Address\<close> models \<open>get_in_addr\<close> and the server's own declaration of the seek command.
  \<^item> \<open>Device_Server\<close> puts a connection on top of the driver: its system calls run the handlers of
    \<open>Char_Driver\<close>, so what is shown of a server on a system that serves holds on the device.
  \<^item> \<open>Tail_Queue\<close>, \<open>Singly_Linked\<close> and \<open>Doubly_Linked\<close> model the macros of \<^verbatim>\<open>server/queue.h\<close> over
    memories of pointers; the server uses those of the tail queue. The doubly linked lists are
    tail queues without a last pointer, and their lemmas are carried over. \<open>Queue_Debug\<close> has the
    tail queue of a build with \<open>QUEUE_MACRO_DEBUG\<close>.

  \<^bold>\<open>The rest.\<close> \<open>Systemcalls\<close> models \<^verbatim>\<open>examples/systemcalls/systemcalls.c\<close> over a record of
  process services, \<open>Threading\<close> the threads of \<^verbatim>\<open>examples/threading/threading.c\<close> as interleaved
  steps on one mutex, \<open>Writer\<close> \<^verbatim>\<open>finder-app/writer.c\<close>, \<open>Autotest_Validate\<close> the three constant
  functions of \<^verbatim>\<open>examples/autotest-validate\<close>.
  \<open>Prelude\<close> has the C integer types, checked array accesses and shared list facts; \<open>Lines\<close>
  the splitting of a stream into lines, which the driver's and the server's proofs share;
  \<open>Interfaces\<close> the contracts between components as locales, each interpreted where it is
  provided: a bounded log and an index by position (the ring), a source of bytes (the device's
  read handler), a linked list, one that elements can be removed from, and a queue (the four
  kinds of \<^verbatim>\<open>queue.h\<close>, the tail queue also read backwards, and the server's queue of threads).

  \<^bold>\<open>Conventions.\<close> A result of type \<open>option\<close> is \<open>None\<close> for undefined behaviour (an access out of
  bounds, a null or freed pointer, unlocking a mutex that is not held) and for a loop that
  never ends; error returns of the code are values. Sizes, indices and positions have the
  width they have in C. Loops over a known number of rounds are structural recursions; the
  write loop of the driver has a measure; a loop that may run for ever is a
  \<open>partial_function\<close>, and the properties prove that it returns. The client loop \<open>read_all\<close> takes a
  fuel, and one read for each byte of the log and one more is shown to be enough.
  A step of a connection thread is a \<open>recv\<close>, one received byte with all that it causes (after
  the last byte of a packet that is the section under the mutex), or the end; between these
  points a thread touches only its own buffer. An iteration of the accept loop is one step.
  That is the granularity of \<open>Server_Threads\<close> and \<open>Whole_Server\<close>; in the theories \<open>Call_\<close>,
  \<open>Main_Calls\<close> and \<open>Whole_Calls\<close> on, every system call is a step of its own, taking the mutex and
  joining a thread wait, and setting the flag of a record is a step before the connection is
  closed. The threads of the pool end by a measure of three numbers (bytes to come, stages of the
  section, bytes to send), those of \<open>main\<close> by the elements its loop has left.

  \<^bold>\<open>What is shown.\<close> The ring keeps the last ten entries and finds exactly the bytes it
  holds. No sequence of file operations after a successful load is undefined; a write
  extends the log, or reports success and loses the bytes after its line when the working entry
  cannot be shrunk, a read returns bytes of it, the two seeks move to the position they are
  asked for. A served connection turns the client's bytes into packets, stores each and
  answers with the file, serves seek commands, and frees the mutex; the packet buffer is never
  left. On the driver its packets are lines of the log. However the threads interleave, the
  file is what one history of stored packets and answered seek commands makes of it, in which
  each client's stand in order; so it is between any two system calls, also when a signal or a
  failed \<open>pthread_create\<close> ends the process there; all that on a system that serves, where no write of
  the file and no \<open>send\<close> fails. The mutex excludes, whatever the system answers, until a write of the
  file fails; then the mutex is unlocked twice, and two threads can be in the section. In every
  infinite run the server comes back to \<open>accept\<close>, or the timestamp thread wakes up, again and again:
  in between there are only finitely many calls, and when none is left all threads have ended and
  \<open>main\<close> is at \<open>accept\<close>, or it has returned after a failed \<open>pthread_create\<close>.
  The accept loop keeps exactly the live records in its queue, joins only threads that have set
  their flag and frees each record once, after its thread has ended. The queue macros
  do to the list of elements what they say, their loops end, and the checks of a debugging
  build accept exactly the well-formed queues. The startup makes exactly the planned calls or
  stops at the first that fails. At most one example thread holds the mutex, and all of them
  finish. Several properties state where the code falls short: lines and buffers that leak,
  pending bytes that are lost, a mutex unlocked twice, a packet that stays in the buffer, a
  thread that is never joined, a listening socket that is never closed.

  \<^bold>\<open>What is not modelled.\<close> Log messages (but for those of the writer) and the printing of the
  peer's address, up to where it lies. Interrupted system calls (\<open>EINTR\<close> of \<open>waitpid\<close>). In \<open>Server_Threads\<close> and \<open>Whole_Server\<close> a connection keeps
  its descriptor to itself; descriptors are used again in the theories of single calls. In the
  running server the two calls of \<open>malloc\<close> answer new addresses: what the loop does with a null
  pointer is in \<open>Aesd_Server\<close>. A signal is one that the handler catches; it comes between two
  calls. The startup answers from all calls before, the accept loop from the state of the
  system; \<open>boot\<close>, a parameter, relates the two. Of \<^verbatim>\<open>queue.h\<close>, the C++ variants, and the debugging
  build of the queues the server does not use. What the other lines hold is declarations,
  messages and comments. The shell scripts, the build files, the unit tests and the
  configuration.
\<close>

end
